(* ===== verification/Prelude.thy ===== *)
theory Prelude
  imports Main "HOL-Library.Word" "HOL-Library.Signed_Division"
begin

text \<open>
  Shared vocabulary of the development: the C integer types at their width, the C
  conversions between them, C's truncating signed division, byte-buffer slices, and the
  lemma collections the component theories feed to the simplifier.

  A C value of an \<open>n\<close>-bit integer type, signed or unsigned, is an \<open>n word\<close>; the operation
  chooses the reading (\<open>uint\<close>, \<open>unat\<close> for unsigned types, \<open>sint\<close> for signed ones), as the
  machine does.  \<open>size_t\<close> is the 64-bit one of the supported targets.
\<close>

unbundle bit_operations_syntax

section \<open>C integer types\<close>

type_synonym u8 = "8 word"
type_synonym u16 = "16 word"
type_synonym u32 = "32 word"
type_synonym u64 = "64 word"
type_synonym u128 = "128 word"
type_synonym i8 = "8 word"
type_synonym i16 = "16 word"
type_synonym i32 = "32 word"
type_synonym i64 = "64 word"
type_synonym i128 = "128 word"
type_synonym size_t = "64 word"

named_theorems cint "reading the C integer operations as integer arithmetic"
named_theorems slice "slices of byte buffers"

section \<open>Signed arithmetic that stays in range\<close>

text \<open>
  C leaves signed overflow undefined, so every signed operation of the code needs its
  exact result to be representable.  These rules read a word operation as the exact
  integer operation and leave representability as the side condition.
\<close>

definition fits :: "nat \<Rightarrow> int \<Rightarrow> bool" where
  "fits n k \<longleftrightarrow> - (2 ^ (n - 1)) \<le> k \<and> k < 2 ^ (n - 1)"

lemma sint_fits: "fits LENGTH('a) (sint (x :: 'a::len word))"
  using sint_ge [of x] sint_lt [of x] by (simp add: fits_def)

lemma sint_of_int_fits:
  assumes "fits LENGTH('a) k"
  shows "sint (word_of_int k :: 'a::len word) = k"
proof -
  have "signed_take_bit (LENGTH('a) - 1) k = k"
    using assms by (simp add: fits_def signed_take_bit_int_eq_self)
  then show ?thesis by (simp add: sint_sbintrunc')
qed

lemma sint_add_fits:
  "fits LENGTH('a) (sint x + sint y) \<Longrightarrow> sint (x + y :: 'a::len word) = sint x + sint y"
  by (simp add: sint_word_add fits_def signed_take_bit_int_eq_self)

lemma sint_sub_fits:
  "fits LENGTH('a) (sint x - sint y) \<Longrightarrow> sint (x - y :: 'a::len word) = sint x - sint y"
  by (simp add: sint_word_diff fits_def signed_take_bit_int_eq_self)

lemma sint_mult_fits:
  "fits LENGTH('a) (sint x * sint y) \<Longrightarrow> sint (x * y :: 'a::len word) = sint x * sint y"
  by (simp add: sint_word_mult fits_def signed_take_bit_int_eq_self)

lemma sint_minus_fits:
  "fits LENGTH('a) (- sint x) \<Longrightarrow> sint (- x :: 'a::len word) = - sint x"
  by (simp add: sint_word_minus fits_def signed_take_bit_int_eq_self)

lemma sint_scast_fits:
  assumes "fits LENGTH('b) (sint x)"
  shows "sint (scast (x :: 'a::len word) :: 'b::len word) = sint x"
  using sint_of_int_fits [OF assms] by (simp only: scast_eq)

lemma fits_mono: "fits m k \<Longrightarrow> m \<le> n \<Longrightarrow> fits n k"
proof -
  assume f: "fits m k" and mn: "m \<le> n"
  have "(2::int) ^ (m - 1) \<le> 2 ^ (n - 1)"
    using mn by (intro power_increasing) simp_all
  with f show ?thesis unfolding fits_def by linarith
qed

lemma sint_scast_up [cint]:
  "LENGTH('a) \<le> LENGTH('b) \<Longrightarrow> sint (scast (x :: 'a::len word) :: 'b::len word) = sint x"
  by (rule sint_scast_fits) (rule fits_mono [OF sint_fits])

lemma fits_range32: "fits 32 (sint (x :: 32 word))" using sint_fits [of x] by simp
lemma fits_range64: "fits 64 (sint (x :: 64 word))" using sint_fits [of x] by simp

lemma sint32_range: "- 2147483648 \<le> sint (x :: 32 word)" "sint x \<le> 2147483647"
  using sint_ge [of x] sint_lt [of x] by simp_all

lemma sint64_range:
  "- 9223372036854775808 \<le> sint (x :: 64 word)" "sint x \<le> 9223372036854775807"
  using sint_ge [of x] sint_lt [of x] by simp_all

lemma sint_eqI: "sint x = sint y \<Longrightarrow> x = y"
  by (rule signed_word_eqI)

lemma sint_eq_iff: "sint x = sint y \<longleftrightarrow> x = y"
  by (auto intro: signed_word_eqI)

text \<open>Where the sign bit is clear the signed and the unsigned reading agree.\<close>

lemma sint_nonneg_uint: 
  assumes "0 \<le> sint (v :: 'a::len word)" shows "sint v = uint v"
proof -
  have "(2::int) ^ (LENGTH('a) - 1) \<le> 2 ^ LENGTH('a)" by (rule power_increasing) simp_all
  then have "take_bit LENGTH('a) (sint v) = sint v"
    using assms sint_lt [of v] by (intro take_bit_int_eq_self) linarith+
  then show ?thesis by (simp only: uint_sint)
qed

lemma sint_small_uint:
  assumes "uint (v :: 'a::len word) < 2 ^ (LENGTH('a) - 1)"
  shows "sint v = uint v"
proof -
  have "- (2 ^ (LENGTH('a) - 1)) \<le> (0::int)" by simp
  then have "signed_take_bit (LENGTH('a) - 1) (uint v) = uint v"
    using assms uint_ge_0 [of v] by (intro signed_take_bit_int_eq_self) linarith+
  then show ?thesis by (simp only: sint_uint One_nat_def)
qed

lemma sint_pos_unat:
  assumes "0 \<le> sint (v :: 'a::len word)"
  shows "unat v = nat (sint v)"
  unfolding sint_nonneg_uint [OF assms] by (rule nat_uint_eq [symmetric])

lemma sint_of_small:
  assumes "unat (r :: 'a::len word) < 2 ^ (LENGTH('a) - 1)"
  shows "sint r = int (unat r)"
proof -
  have "int (unat r) < int (2 ^ (LENGTH('a) - 1))" using assms by (simp only: of_nat_less_iff)
  then have "uint r < 2 ^ (LENGTH('a) - 1)" by (simp only: uint_nat of_nat_power of_nat_numeral)
  then show ?thesis by (simp only: sint_small_uint uint_nat)
qed

lemma word_nat_inv: "word_of_nat (unat w) = (w :: 'a::len word)" by simp

end
