(* ===== verification/Info.thy ===== *)
theory Info
  imports Prelude
begin

text \<open>
  The result codes of \<open>cbase.h\<close> (\<open>cb_info_t\<close>) and the partition that \<open>cbase_union.c\<close>
  pins at compile time: every code of the library lies below \<open>CB_INFO__USER_BASE\<close>, so user
  codes may start there.  The datatype has the enumerators in declaration order and
  \<open>info_code\<close> is the integer C gives each of them.
\<close>

datatype (plugins only: code size) cb_info_t =
    CB_INFO_OK
  | CB_INFO_GENERIC_ERROR
  | CB_INFO_THREAD_CREATE_FAILED
  | CB_INFO_THREAD_JOIN_FAILED
  | CB_INFO_THREAD_DETACH_FAILED
  | CB_INFO_MUTEX_CREATE_FAILED
  | CB_INFO_MUTEX_DESTROY_FAILED
  | CB_INFO_MUTEX_LOCK_FAILED
  | CB_INFO_MUTEX_UNLOCK_FAILED
  | CB_INFO_MUTEX_TRYLOCK_FAILED
  | CB_INFO_MUTEX_BUSY
  | CB_INFO_COND_CREATE_FAILED
  | CB_INFO_COND_DESTROY_FAILED
  | CB_INFO_COND_WAIT_FAILED
  | CB_INFO_COND_SIGNAL_FAILED
  | CB_INFO_QUEUE_FULL
  | CB_INFO_QUEUE_EMPTY
  | CB_INFO_QUEUE_DESTROY_FAILED
  | CB_INFO_ALLOC_FAILED
  | CB_INFO_ARENA_OUT_OF_MEMORY
  | CB_INFO_NET_INIT_FAILED
  | CB_INFO_NET_WOULD_BLOCK
  | CB_INFO_NET_ADDR_INVALID
  | CB_INFO_NET_SOCKET_FAILED
  | CB_INFO_NET_BIND_FAILED
  | CB_INFO_NET_LISTEN_FAILED
  | CB_INFO_NET_ACCEPT_FAILED
  | CB_INFO_NET_CONNECT_FAILED
  | CB_INFO_NET_SEND_FAILED
  | CB_INFO_NET_RECV_FAILED
  | CB_INFO_NET_CLOSED
  | CB_INFO_NET_POLL_FAILED
  | CB_INFO_NET_NONBLOCK_FAILED
  | CB_INFO_RNG_BAD_STRIDE
  | CB_INFO_BYTES_OUT_OF_BOUNDS
  | CB_INFO_BYTES_FRAME_TOO_LARGE
  | CB_INFO_TIME_BAD_TICK_HZ
  | CB_INFO_TIME_TICK_LAG
  | CB_INFO_CONFIG_PARSE_ERROR
  | CB_INFO_CONFIG_BAD_KEY
  | CB_INFO_CONFIG_UNTERMINATED_STRING
  | CB_INFO_CONFIG_BAD_ESCAPE
  | CB_INFO_CONFIG_LINE_TOO_LONG
  | CB_INFO_CONFIG_FILE_OPEN_FAILED
  | CB_INFO_CONFIG_FILE_TOO_LARGE
  | CB_INFO_CONFIG_ALLOC_FAILED
  | CB_INFO_CONFIG_KEY_NOT_FOUND
  | CB_INFO_CONFIG_BAD_INT
  | CB_INFO_CONFIG_BAD_BOOL
  | CB_INFO_LOG_INVALID_SINK
  | CB_INFO_LOG_WRITE_FAILED
  | CB_INFO_NETSIM_DUPLICATE_ADDR
  | CB_INFO_NETSIM_UNKNOWN_DEST
  | CB_INFO_NETSIM_EMPTY
  | CB_INFO_NETSIM_BUF_TOO_SMALL
  | CB_INFO_NETSIM_ALLOC_FAILED
  | CB_INFO_NETSIM_BAD_PARAMS
  | CB_INFO_NETSIM_PAYLOAD_TOO_LARGE
  | CB_INFO__LAST

primrec info_code :: "cb_info_t \<Rightarrow> nat" where
  "info_code CB_INFO_OK = 0"
| "info_code CB_INFO_GENERIC_ERROR = 1"
| "info_code CB_INFO_THREAD_CREATE_FAILED = 2"
| "info_code CB_INFO_THREAD_JOIN_FAILED = 3"
| "info_code CB_INFO_THREAD_DETACH_FAILED = 4"
| "info_code CB_INFO_MUTEX_CREATE_FAILED = 5"
| "info_code CB_INFO_MUTEX_DESTROY_FAILED = 6"
| "info_code CB_INFO_MUTEX_LOCK_FAILED = 7"
| "info_code CB_INFO_MUTEX_UNLOCK_FAILED = 8"
| "info_code CB_INFO_MUTEX_TRYLOCK_FAILED = 9"
| "info_code CB_INFO_MUTEX_BUSY = 10"
| "info_code CB_INFO_COND_CREATE_FAILED = 11"
| "info_code CB_INFO_COND_DESTROY_FAILED = 12"
| "info_code CB_INFO_COND_WAIT_FAILED = 13"
| "info_code CB_INFO_COND_SIGNAL_FAILED = 14"
| "info_code CB_INFO_QUEUE_FULL = 15"
| "info_code CB_INFO_QUEUE_EMPTY = 16"
| "info_code CB_INFO_QUEUE_DESTROY_FAILED = 17"
| "info_code CB_INFO_ALLOC_FAILED = 18"
| "info_code CB_INFO_ARENA_OUT_OF_MEMORY = 19"
| "info_code CB_INFO_NET_INIT_FAILED = 20"
| "info_code CB_INFO_NET_WOULD_BLOCK = 21"
| "info_code CB_INFO_NET_ADDR_INVALID = 22"
| "info_code CB_INFO_NET_SOCKET_FAILED = 23"
| "info_code CB_INFO_NET_BIND_FAILED = 24"
| "info_code CB_INFO_NET_LISTEN_FAILED = 25"
| "info_code CB_INFO_NET_ACCEPT_FAILED = 26"
| "info_code CB_INFO_NET_CONNECT_FAILED = 27"
| "info_code CB_INFO_NET_SEND_FAILED = 28"
| "info_code CB_INFO_NET_RECV_FAILED = 29"
| "info_code CB_INFO_NET_CLOSED = 30"
| "info_code CB_INFO_NET_POLL_FAILED = 31"
| "info_code CB_INFO_NET_NONBLOCK_FAILED = 32"
| "info_code CB_INFO_RNG_BAD_STRIDE = 33"
| "info_code CB_INFO_BYTES_OUT_OF_BOUNDS = 34"
| "info_code CB_INFO_BYTES_FRAME_TOO_LARGE = 35"
| "info_code CB_INFO_TIME_BAD_TICK_HZ = 36"
| "info_code CB_INFO_TIME_TICK_LAG = 37"
| "info_code CB_INFO_CONFIG_PARSE_ERROR = 38"
| "info_code CB_INFO_CONFIG_BAD_KEY = 39"
| "info_code CB_INFO_CONFIG_UNTERMINATED_STRING = 40"
| "info_code CB_INFO_CONFIG_BAD_ESCAPE = 41"
| "info_code CB_INFO_CONFIG_LINE_TOO_LONG = 42"
| "info_code CB_INFO_CONFIG_FILE_OPEN_FAILED = 43"
| "info_code CB_INFO_CONFIG_FILE_TOO_LARGE = 44"
| "info_code CB_INFO_CONFIG_ALLOC_FAILED = 45"
| "info_code CB_INFO_CONFIG_KEY_NOT_FOUND = 46"
| "info_code CB_INFO_CONFIG_BAD_INT = 47"
| "info_code CB_INFO_CONFIG_BAD_BOOL = 48"
| "info_code CB_INFO_LOG_INVALID_SINK = 49"
| "info_code CB_INFO_LOG_WRITE_FAILED = 50"
| "info_code CB_INFO_NETSIM_DUPLICATE_ADDR = 51"
| "info_code CB_INFO_NETSIM_UNKNOWN_DEST = 52"
| "info_code CB_INFO_NETSIM_EMPTY = 53"
| "info_code CB_INFO_NETSIM_BUF_TOO_SMALL = 54"
| "info_code CB_INFO_NETSIM_ALLOC_FAILED = 55"
| "info_code CB_INFO_NETSIM_BAD_PARAMS = 56"
| "info_code CB_INFO_NETSIM_PAYLOAD_TOO_LARGE = 57"
| "info_code CB_INFO__LAST = 58"

text \<open>The enumerators in declaration order: position \<open>n\<close> has the C value \<open>n\<close>.\<close>

definition info_enum :: "cb_info_t list" where
  "info_enum = [
    CB_INFO_OK,
    CB_INFO_GENERIC_ERROR,
    CB_INFO_THREAD_CREATE_FAILED,
    CB_INFO_THREAD_JOIN_FAILED,
    CB_INFO_THREAD_DETACH_FAILED,
    CB_INFO_MUTEX_CREATE_FAILED,
    CB_INFO_MUTEX_DESTROY_FAILED,
    CB_INFO_MUTEX_LOCK_FAILED,
    CB_INFO_MUTEX_UNLOCK_FAILED,
    CB_INFO_MUTEX_TRYLOCK_FAILED,
    CB_INFO_MUTEX_BUSY,
    CB_INFO_COND_CREATE_FAILED,
    CB_INFO_COND_DESTROY_FAILED,
    CB_INFO_COND_WAIT_FAILED,
    CB_INFO_COND_SIGNAL_FAILED,
    CB_INFO_QUEUE_FULL,
    CB_INFO_QUEUE_EMPTY,
    CB_INFO_QUEUE_DESTROY_FAILED,
    CB_INFO_ALLOC_FAILED,
    CB_INFO_ARENA_OUT_OF_MEMORY,
    CB_INFO_NET_INIT_FAILED,
    CB_INFO_NET_WOULD_BLOCK,
    CB_INFO_NET_ADDR_INVALID,
    CB_INFO_NET_SOCKET_FAILED,
    CB_INFO_NET_BIND_FAILED,
    CB_INFO_NET_LISTEN_FAILED,
    CB_INFO_NET_ACCEPT_FAILED,
    CB_INFO_NET_CONNECT_FAILED,
    CB_INFO_NET_SEND_FAILED,
    CB_INFO_NET_RECV_FAILED,
    CB_INFO_NET_CLOSED,
    CB_INFO_NET_POLL_FAILED,
    CB_INFO_NET_NONBLOCK_FAILED,
    CB_INFO_RNG_BAD_STRIDE,
    CB_INFO_BYTES_OUT_OF_BOUNDS,
    CB_INFO_BYTES_FRAME_TOO_LARGE,
    CB_INFO_TIME_BAD_TICK_HZ,
    CB_INFO_TIME_TICK_LAG,
    CB_INFO_CONFIG_PARSE_ERROR,
    CB_INFO_CONFIG_BAD_KEY,
    CB_INFO_CONFIG_UNTERMINATED_STRING,
    CB_INFO_CONFIG_BAD_ESCAPE,
    CB_INFO_CONFIG_LINE_TOO_LONG,
    CB_INFO_CONFIG_FILE_OPEN_FAILED,
    CB_INFO_CONFIG_FILE_TOO_LARGE,
    CB_INFO_CONFIG_ALLOC_FAILED,
    CB_INFO_CONFIG_KEY_NOT_FOUND,
    CB_INFO_CONFIG_BAD_INT,
    CB_INFO_CONFIG_BAD_BOOL,
    CB_INFO_LOG_INVALID_SINK,
    CB_INFO_LOG_WRITE_FAILED,
    CB_INFO_NETSIM_DUPLICATE_ADDR,
    CB_INFO_NETSIM_UNKNOWN_DEST,
    CB_INFO_NETSIM_EMPTY,
    CB_INFO_NETSIM_BUF_TOO_SMALL,
    CB_INFO_NETSIM_ALLOC_FAILED,
    CB_INFO_NETSIM_BAD_PARAMS,
    CB_INFO_NETSIM_PAYLOAD_TOO_LARGE,
    CB_INFO__LAST]"

definition CB_INFO__USER_BASE :: nat where
  "CB_INFO__USER_BASE = 0x1000"

lemma info_enum_code: "info_enum ! info_code i = i"
  by (cases i) (simp_all add: info_enum_def)

lemma info_code_inj: "info_code i = info_code j \<Longrightarrow> i = j"
  by (metis info_enum_code)

lemma info_code_le_last: "info_code i \<le> info_code CB_INFO__LAST"
  by (cases i) simp_all

text \<open>The codes are ordered by their C value, as the sentinel comparison of the code does.\<close>

instantiation cb_info_t :: linorder
begin

definition less_eq_cb_info_t :: "cb_info_t \<Rightarrow> cb_info_t \<Rightarrow> bool" where
  "less_eq_cb_info_t i j \<longleftrightarrow> info_code i \<le> info_code j"

definition less_cb_info_t :: "cb_info_t \<Rightarrow> cb_info_t \<Rightarrow> bool" where
  "less_cb_info_t i j \<longleftrightarrow> info_code i < info_code j"

instance
  by standard
    (auto simp: less_eq_cb_info_t_def less_cb_info_t_def dest: info_code_inj)

end

lemma info_le_last: "i \<le> CB_INFO__LAST"
  by (simp only: less_eq_cb_info_t_def info_code_le_last)

lemma info_below_user_base: "info_code i < CB_INFO__USER_BASE"
proof -
  have "info_code i \<le> info_code CB_INFO__LAST" by (rule info_code_le_last)
  then show ?thesis by (simp add: CB_INFO__USER_BASE_def)
qed

end
