(* ===== verification/Fixed16.thy ===== *)
theory Fixed16
  imports Info
begin

text \<open>
  Q16.16 fixed-point arithmetic (\<open>cbase_fixed.c\<close>, \<open>cbase.h\<close> SEG Fixed-Point Math): the
  conversions, the saturating operations, \<open>min\<close>, \<open>max\<close>, \<open>clamp\<close> and \<open>lerp\<close>.

  A \<open>cb_fx16_t\<close> is an \<open>int32_t\<close>, here an \<open>i32\<close> read by \<open>sint\<close>.  Every function widens to
  \<open>int64_t\<close> (\<open>scast\<close>), computes there, compares signed (\<open><s\<close>) and narrows back, exactly as the
  code does; the lemmas say which exact integer operation comes out, saturated, and that no
  intermediate signed operation leaves its type.  The interface \<open>sat_ring\<close>, which the Q32.32
  operations satisfy too, derives the algebra of the saturating operations.
\<close>

section \<open>Definitions\<close>

type_synonym cb_fx16_t = i32

definition CB_FX16_ONE :: cb_fx16_t where "CB_FX16_ONE = 65536"
definition CB_FX16_HALF :: cb_fx16_t where "CB_FX16_HALF = 32768"
definition CB_FX16_MAX :: cb_fx16_t where "CB_FX16_MAX = 2147483647"
definition CB_FX16_MIN :: cb_fx16_t where "CB_FX16_MIN = 2147483648"

text \<open>C signed division truncates toward zero.\<close>

definition sdiv_word :: "'a::len word \<Rightarrow> 'a word \<Rightarrow> 'a word" where
  "sdiv_word a b = word_of_int (sint a sdiv sint b)"

definition cb_fx16_from_int :: "i32 \<Rightarrow> cb_fx16_t" where
  "cb_fx16_from_int v =
     (if 32767 <s v then CB_FX16_MAX
      else if v <s - 32768 then CB_FX16_MIN
      else scast ((scast v :: i64) * scast CB_FX16_ONE))"

definition cb_fx16_to_int :: "cb_fx16_t \<Rightarrow> i32" where
  "cb_fx16_to_int v = sdiv_word v CB_FX16_ONE"

definition cb_fx16_add :: "cb_fx16_t \<Rightarrow> cb_fx16_t \<Rightarrow> cb_fx16_t" where
  "cb_fx16_add a b =
     (let r = (scast a :: i64) + scast b
      in if scast CB_FX16_MAX <s r then CB_FX16_MAX
         else if r <s scast CB_FX16_MIN then CB_FX16_MIN
         else scast r)"

definition cb_fx16_sub :: "cb_fx16_t \<Rightarrow> cb_fx16_t \<Rightarrow> cb_fx16_t" where
  "cb_fx16_sub a b =
     (let r = (scast a :: i64) - scast b
      in if scast CB_FX16_MAX <s r then CB_FX16_MAX
         else if r <s scast CB_FX16_MIN then CB_FX16_MIN
         else scast r)"

definition cb_fx16_mul :: "cb_fx16_t \<Rightarrow> cb_fx16_t \<Rightarrow> cb_fx16_t" where
  "cb_fx16_mul a b =
     (let prod = (scast a :: i64) * scast b;
          scaled = sdiv_word prod (scast CB_FX16_ONE)
      in if scast CB_FX16_MAX <s scaled then CB_FX16_MAX
         else if scaled <s scast CB_FX16_MIN then CB_FX16_MIN
         else scast scaled)"

definition cb_fx16_div :: "cb_fx16_t \<Rightarrow> cb_fx16_t \<Rightarrow> cb_fx16_t" where
  "cb_fx16_div a b =
     (if b = 0 then
        (if a = 0 then 0
         else if 0 <s a then CB_FX16_MAX else CB_FX16_MIN)
      else
        let num = (scast a :: i64) * scast CB_FX16_ONE;
            q = sdiv_word num (scast b)
        in if scast CB_FX16_MAX <s q then CB_FX16_MAX
           else if q <s scast CB_FX16_MIN then CB_FX16_MIN
           else scast q)"

definition cb_fx16_abs :: "cb_fx16_t \<Rightarrow> cb_fx16_t" where
  "cb_fx16_abs v =
     (if v = CB_FX16_MIN then CB_FX16_MAX
      else if v <s 0 then - v else v)"

definition cb_fx16_min :: "cb_fx16_t \<Rightarrow> cb_fx16_t \<Rightarrow> cb_fx16_t" where
  "cb_fx16_min a b = (if a <s b then a else b)"

definition cb_fx16_max :: "cb_fx16_t \<Rightarrow> cb_fx16_t \<Rightarrow> cb_fx16_t" where
  "cb_fx16_max a b = (if b <s a then a else b)"

definition cb_fx16_clamp :: "cb_fx16_t \<Rightarrow> cb_fx16_t \<Rightarrow> cb_fx16_t \<Rightarrow> cb_fx16_t" where
  "cb_fx16_clamp v lo hi = (if v <s lo then lo else if hi <s v then hi else v)"

definition cb_fx16_lerp :: "cb_fx16_t \<Rightarrow> cb_fx16_t \<Rightarrow> cb_fx16_t \<Rightarrow> cb_fx16_t" where
  "cb_fx16_lerp a b t =
     (let diff = cb_fx16_sub b a;
          scaled = cb_fx16_mul diff t
      in cb_fx16_add a scaled)"

section \<open>Saturation\<close>

text \<open>\<open>sat n k\<close> is the \<open>n\<close>-bit signed value nearest to \<open>k\<close>.\<close>

definition sat :: "nat \<Rightarrow> int \<Rightarrow> int" where
  "sat n k = max (- (2 ^ (n - 1))) (min (2 ^ (n - 1) - 1) k)"

lemma fits_sat: "0 < n \<Longrightarrow> fits n (sat n k)"
  by (auto simp: fits_def sat_def max_def min_def)

lemma sat_id: "fits n k \<Longrightarrow> sat n k = k"
  by (auto simp: fits_def sat_def max_def min_def)

lemma sat_mono: "j \<le> k \<Longrightarrow> sat n j \<le> sat n k"
  by (auto simp: sat_def max_def min_def)

lemma sat_sint [simp]: "sat LENGTH('a) (sint (x :: 'a::len word)) = sint x"
  by (rule sat_id [OF sint_fits])

lemma sat32: "sat 32 k = max (- 2147483648) (min 2147483647 k)"
  by (simp add: sat_def)

lemma sat64: "sat 64 k = max (- 9223372036854775808) (min 9223372036854775807 k)"
  by (simp add: sat_def)

lemma sint_fx16_consts [cint]:
  "sint CB_FX16_ONE = 65536" "sint CB_FX16_HALF = 32768"
  "sint CB_FX16_MAX = 2147483647" "sint CB_FX16_MIN = - 2147483648"
  by (simp_all add: CB_FX16_ONE_def CB_FX16_HALF_def CB_FX16_MAX_def CB_FX16_MIN_def)

text \<open>The narrowing tail that the 64-bit results go through saturates them.\<close>

lemma narrow16:
  fixes r :: i64
  shows "sint (if scast CB_FX16_MAX <s r then CB_FX16_MAX
               else if r <s scast CB_FX16_MIN then CB_FX16_MIN
               else scast r) = sat 32 (sint r)"
proof -
  have "fits 32 (sint r)" if "\<not> scast CB_FX16_MAX <s r" "\<not> r <s scast CB_FX16_MIN"
    using that by (simp add: word_sless_alt cint fits_def)
  then show ?thesis
    by (auto simp: word_sless_alt cint sat32 fits_def intro!: sint_scast_fits)
qed

lemma abs_sdiv: "\<bar>k sdiv (l :: int)\<bar> = \<bar>k\<bar> div \<bar>l\<bar>"
proof -
  have "0 \<le> \<bar>k\<bar> div \<bar>l\<bar>" by (cases "l = 0") (simp_all add: pos_imp_zdiv_nonneg_iff)
  then show ?thesis
    by (cases "k = 0"; cases "l = 0") (simp_all add: signed_divide_int_def abs_mult abs_sgn_eq)
qed

lemma sdiv_abs_le: "\<bar>k sdiv (l :: int)\<bar> \<le> \<bar>k\<bar>"
proof (cases "l = 0")
  case False
  then show ?thesis
    using zdiv_mono2 [of "\<bar>k\<bar>" 1 "\<bar>l\<bar>"] by (simp add: abs_sdiv)
qed (simp add: signed_divide_int_def)

lemma sdiv_sgn:
  assumes "0 < k sdiv (l :: int)"
  shows "sgn k = sgn l"
proof -
  have "0 \<le> \<bar>k\<bar> div \<bar>l\<bar>" by (simp add: abs_sdiv [symmetric])
  then show ?thesis
    using assms by (cases "0 < k"; cases "0 < l"; cases "k = 0"; cases "l = 0")
      (simp_all add: signed_divide_int_def)
qed

text \<open>The one quotient that does not fit is \<open>MIN / -1\<close>, undefined in C.\<close>

lemma sint_sdiv_word:
  fixes a b :: "'a::len word"
  assumes nofl: "sint b \<noteq> - 1 \<or> sint a \<noteq> - (2 ^ (LENGTH('a) - 1))"
  shows "sint (sdiv_word a b) = sint a sdiv sint b"
proof -
  let ?M = "2 ^ (LENGTH('a) - 1) :: int"
  have f: "- ?M \<le> sint a" "sint a < ?M"
    using sint_fits [of a] by (simp_all add: fits_def)
  have le: "\<bar>sint a sdiv sint b\<bar> \<le> \<bar>sint a\<bar>" by (rule sdiv_abs_le)
  have "sint a sdiv sint b < ?M"
  proof (cases "sint a = - ?M \<and> 0 < sint a sdiv sint b")
    case True
    then have neg: "sint b < 0"
      using sdiv_sgn [of "sint a" "sint b"] by (auto simp: sgn_if split: if_splits)
    with True nofl have "1 < \<bar>sint b\<bar>" by auto
    then have "\<bar>sint a\<bar> div \<bar>sint b\<bar> < \<bar>sint a\<bar>"
      using True by (intro int_div_less_self) auto
    then have "\<bar>sint a sdiv sint b\<bar> < \<bar>sint a\<bar>" by (simp only: abs_sdiv)
    with conjunct1 [OF True] show ?thesis
      using zero_less_power [of "2::int" "LENGTH('a) - 1"] by linarith
  next
    case False
    then show ?thesis using f le zero_less_power [of "2::int" "LENGTH('a) - 1"] by linarith
  qed
  moreover have "- ?M \<le> sint a sdiv sint b" using f le by linarith
  ultimately show ?thesis by (simp add: sdiv_word_def sint_of_int_fits fits_def)
qed

section \<open>The saturating interface\<close>

text \<open>
  What the clients of a fixed-point type rely on: addition and subtraction are the exact
  integer operations, saturated.  Both compilers' versions of the Q32.32 operations and the
  Q16.16 ones provide it.
\<close>

locale sat_ring =
  fixes add sub :: "'a::len word \<Rightarrow> 'a word \<Rightarrow> 'a word"
  assumes add_sat: "sint (add a b) = sat LENGTH('a) (sint a + sint b)"
    and sub_sat: "sint (sub a b) = sat LENGTH('a) (sint a - sint b)"
begin

lemma add_commute: "add a b = add b a"
  by (rule sint_eqI) (simp add: add_sat add.commute)

lemma add_zero: "add a 0 = a"
  by (rule sint_eqI) (simp add: add_sat)

lemma sub_zero: "sub a 0 = a"
  by (rule sint_eqI) (simp add: sub_sat)

lemma sub_self: "sub a a = 0"
  by (rule sint_eqI) (simp add: sub_sat sat_id fits_def)

lemma add_exact: "fits LENGTH('a) (sint a + sint b) \<Longrightarrow> sint (add a b) = sint a + sint b"
  by (simp add: add_sat sat_id)

lemma sub_exact: "fits LENGTH('a) (sint a - sint b) \<Longrightarrow> sint (sub a b) = sint a - sint b"
  by (simp add: sub_sat sat_id)

lemma add_mono: "a <=s a' \<Longrightarrow> b <=s b' \<Longrightarrow> add a b <=s add a' b'"
  by (simp add: word_sle_eq add_sat sat_mono)

lemma add_sub_cancel: "fits LENGTH('a) (sint a + sint b) \<Longrightarrow> sub (add a b) b = a"
  by (rule sint_eqI) (simp add: add_exact sub_sat)

end

text \<open>
  A fixed-point type adds a unit \<open>one\<close> whose value is the scale of the format, and the scaled
  product and quotient, truncated toward zero and saturated.
\<close>

locale fixed_point = sat_ring add sub
  for add sub :: "'a::len word \<Rightarrow> 'a word \<Rightarrow> 'a word" +
  fixes mul quo :: "'a word \<Rightarrow> 'a word \<Rightarrow> 'a word" and mag :: "'a word \<Rightarrow> 'a word"
    and one :: "'a word"
  assumes one_pos: "1 < sint one"
    and mul_sat: "sint (mul a b) = sat LENGTH('a) (sint a * sint b sdiv sint one)"
    and quo_sat: "b \<noteq> 0 \<Longrightarrow> sint (quo a b) = sat LENGTH('a) (sint a * sint one sdiv sint b)"
    and quo_zero: "sint (quo a 0) = sat LENGTH('a) (sgn (sint a) * 2 ^ LENGTH('a))"
    and mag_sat: "sint (mag a) = sat LENGTH('a) \<bar>sint a\<bar>"
begin

lemma mul_commute: "mul a b = mul b a"
  by (rule sint_eqI) (simp add: mul_sat mult.commute)

lemma mul_one: "mul a one = a"
proof (rule sint_eqI)
  have "sint a * sint one sdiv sint one = sint a"
    using one_pos by (simp add: signed_divide_int_def abs_mult sgn_mult mult_sgn_abs)
  then show "sint (mul a one) = sint a" by (simp add: mul_sat)
qed

lemma quo_one: "quo a one = a"
proof (rule sint_eqI)
  have "sint a * sint one sdiv sint one = sint a"
    using one_pos by (simp add: signed_divide_int_def abs_mult sgn_mult mult_sgn_abs)
  moreover have "one \<noteq> 0" using one_pos by auto
  ultimately show "sint (quo a one) = sint a" by (simp add: quo_sat)
qed

lemma mag_nonneg: "0 \<le> sint (mag a)"
  by (simp add: mag_sat sat_def)

lemma quo_self: "a \<noteq> 0 \<Longrightarrow> quo a a = one"
proof (rule sint_eqI)
  assume "a \<noteq> 0"
  then have "sint a \<noteq> 0" by (metis sint_eq_iff signed_0)
  then have "sint a * sint one sdiv sint a = sint one"
    using one_pos by (simp add: signed_divide_int_def abs_mult sgn_mult mult_sgn_abs)
  with \<open>a \<noteq> 0\<close> show "sint (quo a a) = sint one" by (simp add: quo_sat)
qed

text \<open>The product never exceeds a factor when the other one is a fraction in \<open>[0, 1]\<close>.\<close>

lemma mul_fraction:
  assumes "0 \<le> sint t" and "sint t \<le> sint one"
  shows "\<bar>sint (mul a t)\<bar> \<le> \<bar>sint a\<bar>" and "0 \<le> sint a * sint (mul a t)"
proof -
  have "\<bar>sint a * sint t\<bar> div sint one \<le> \<bar>sint a\<bar> * sint one div sint one"
    using assms one_pos by (intro zdiv_mono1) (auto simp: abs_mult intro: mult_left_mono)
  then have le: "\<bar>sint a * sint t sdiv sint one\<bar> \<le> \<bar>sint a\<bar>"
    using one_pos by (simp add: abs_sdiv)
  then have "fits LENGTH('a) (sint a * sint t sdiv sint one) \<or>
      sint a * sint t sdiv sint one = - sint a"
    using sint_fits [of a] by (auto simp: fits_def)
  show "\<bar>sint (mul a t)\<bar> \<le> \<bar>sint a\<bar>"
    using le sint_fits [of a] by (auto simp: mul_sat sat_def fits_def)
  have "0 \<le> \<bar>sint a * sint t\<bar> div \<bar>sint one\<bar>" by (simp add: abs_sdiv [symmetric])
  then have "0 \<le> sint a * (sint a * sint t sdiv sint one)"
    using assms one_pos
    by (auto simp: signed_divide_int_def sgn_mult mult.assoc [symmetric] mult_sgn_abs
        sgn_if zero_le_mult_iff mult_le_0_iff)
  then show "0 \<le> sint a * sint (mul a t)"
    by (auto simp: mul_sat sat_def zero_le_mult_iff max_def min_def)
qed

end

section \<open>The Q16.16 operations are the exact ones, saturated\<close>

lemma sint_fx16_add: "sint (cb_fx16_add a b) = sat 32 (sint a + sint b)"
proof -
  have "sint ((scast a :: i64) + scast b) = sint a + sint b"
    using sint32_range [of a] sint32_range [of b]
    by (subst sint_add_fits) (simp_all add: cint fits_def)
  then show ?thesis by (simp add: cb_fx16_add_def Let_def narrow16)
qed

lemma sint_fx16_sub: "sint (cb_fx16_sub a b) = sat 32 (sint a - sint b)"
proof -
  have "sint ((scast a :: i64) - scast b) = sint a - sint b"
    using sint32_range [of a] sint32_range [of b]
    by (subst sint_sub_fits) (simp_all add: cint fits_def)
  then show ?thesis by (simp add: cb_fx16_sub_def Let_def narrow16)
qed

lemma sint32_mult_range: "\<bar>sint (a :: i32) * sint (b :: i32)\<bar> \<le> 4611686018427387904"
proof -
  have "\<bar>sint a\<bar> * \<bar>sint b\<bar> \<le> 2147483648 * 2147483648"
    using sint32_range [of a] sint32_range [of b] by (intro mult_mono) auto
  then show ?thesis by (simp add: abs_mult)
qed

lemma sint_wide_mult: "sint ((scast (a :: i32) :: i64) * scast (b :: i32)) = sint a * sint b"
  using sint32_mult_range [of a b] by (subst sint_mult_fits) (auto simp: cint fits_def)

lemma sint_fx16_mul: "sint (cb_fx16_mul a b) = sat 32 (sint a * sint b sdiv 65536)"
  unfolding cb_fx16_mul_def Let_def narrow16
  by (subst sint_sdiv_word) (simp_all add: sint_wide_mult cint)

lemma sint_fx16_div:
  assumes "b \<noteq> 0"
  shows "sint (cb_fx16_div a b) = sat 32 (sint a * 65536 sdiv sint b)"
proof -
  have "sint a * 65536 \<noteq> - (2 ^ 63)" using sint32_range [of a] by simp
  then show ?thesis
    using assms unfolding cb_fx16_div_def Let_def if_not_P [OF assms] narrow16
    by (subst sint_sdiv_word) (simp_all add: sint_wide_mult cint)
qed

lemma fx16_div_zero:
  "cb_fx16_div a 0 = (if a = 0 then 0 else if 0 <s a then CB_FX16_MAX else CB_FX16_MIN)"
  by (simp add: cb_fx16_div_def)

lemma sint_fx16_abs: "sint (cb_fx16_abs v) = sat 32 \<bar>sint v\<bar>"
proof (cases "v = CB_FX16_MIN")
  case True
  then show ?thesis by (simp add: cb_fx16_abs_def cint sat32)
next
  case False
  then have "sint v \<noteq> - 2147483648" using sint_eq_iff [of v CB_FX16_MIN] by (simp add: cint)
  then have "fits 32 (- sint v)" "fits 32 (sint v)"
    using sint32_range [of v] by (simp_all add: fits_def)
  with False show ?thesis
    by (auto simp: cb_fx16_abs_def word_sless_alt sint_minus_fits sat_id)
qed

interpretation fx16: fixed_point cb_fx16_add cb_fx16_sub cb_fx16_mul cb_fx16_div cb_fx16_abs CB_FX16_ONE
proof unfold_locales
  fix a b :: cb_fx16_t
  show "sint (cb_fx16_div a 0) = sat LENGTH(32) (sgn (sint a) * 2 ^ LENGTH(32))"
    by (auto simp: fx16_div_zero word_sless_alt cint sat32 sgn_if dest: sint_eq_iff [THEN iffD1, of _ 0, simplified])
qed (simp_all add: sint_fx16_add sint_fx16_sub sint_fx16_mul sint_fx16_div sint_fx16_abs cint)

section \<open>Conversions, order and interpolation\<close>

lemma sint_fx16_from_int: "sint (cb_fx16_from_int v) = sat 32 (sint v * 65536)"
proof -
  have "sint ((scast v :: i64) * scast CB_FX16_ONE) = sint v * 65536"
    by (simp add: sint_wide_mult cint)
  moreover have "sint (scast ((scast v :: i64) * scast CB_FX16_ONE) :: i32) = sint v * 65536"
    if "\<not> 32767 <s v" "\<not> v <s - 32768"
    using that calculation by (subst sint_scast_fits) (simp_all add: word_sless_alt fits_def)
  ultimately show ?thesis
    by (auto simp: cb_fx16_from_int_def cint sat32 word_sless_alt)
qed

lemma sint_fx16_to_int: "sint (cb_fx16_to_int v) = sint v sdiv 65536"
  by (simp add: cb_fx16_to_int_def sint_sdiv_word cint)

lemma sdiv_mult_cancel: "0 < d \<Longrightarrow> (k * d) sdiv (d :: int) = k"
  by (simp add: signed_divide_int_def abs_mult sgn_mult mult_sgn_abs)

lemma sint_fx16_clamp:
  "sint (cb_fx16_clamp v lo hi) =
    (if sint v < sint lo then sint lo else if sint hi < sint v then sint hi else sint v)"
  by (simp add: cb_fx16_clamp_def word_sless_alt)

lemma sint_fx16_min_max:
  "sint (cb_fx16_min a b) = min (sint a) (sint b)"
  "sint (cb_fx16_max a b) = max (sint a) (sint b)"
  by (auto simp: cb_fx16_min_def cb_fx16_max_def word_sless_alt)

lemma sint_fx16_lerp:
  assumes "fits 32 (sint b - sint a)" and "0 \<le> sint t" and "sint t \<le> 65536"
  shows "sint (cb_fx16_lerp a b t) = sint a + sint (cb_fx16_mul (cb_fx16_sub b a) t)"
    and "min (sint a) (sint b) \<le> sint (cb_fx16_lerp a b t)"
    and "sint (cb_fx16_lerp a b t) \<le> max (sint a) (sint b)"
proof -
  define s where "s = sint (cb_fx16_mul (cb_fx16_sub b a) t)"
  have d: "sint (cb_fx16_sub b a) = sint b - sint a"
    using assms(1) by (intro fx16.sub_exact) simp
  have "\<bar>s\<bar> \<le> \<bar>sint b - sint a\<bar>"
    using fx16.mul_fraction(1) [of t "cb_fx16_sub b a"] assms by (simp add: s_def d cint)
  moreover have "0 \<le> (sint b - sint a) * s"
    using fx16.mul_fraction(2) [of t "cb_fx16_sub b a"] assms by (simp add: s_def d cint)
  ultimately have range: "min (sint a) (sint b) \<le> sint a + s" "sint a + s \<le> max (sint a) (sint b)"
    by (auto simp: zero_le_mult_iff min_def max_def abs_if split: if_splits)
  have "fits 32 (sint a + s)"
    using range sint32_range [of a] sint32_range [of b] by (auto simp: fits_def)
  then have l: "sint (cb_fx16_lerp a b t) = sint a + s"
    by (simp add: cb_fx16_lerp_def Let_def s_def fx16.add_exact)
  show "sint (cb_fx16_lerp a b t) = sint a + sint (cb_fx16_mul (cb_fx16_sub b a) t)"
    using l by (simp add: s_def)
  show "min (sint a) (sint b) \<le> sint (cb_fx16_lerp a b t)"
    and "sint (cb_fx16_lerp a b t) \<le> max (sint a) (sint b)"
    using range by (simp_all add: l)
qed

section \<open>Properties\<close>

text \<open>C27. The Q16.16 arithmetic is exact integer arithmetic, saturated: addition, subtraction and
  absolute value are the integer operations clamped to the 32-bit range, the product and the
  quotient are the scaled ones truncated toward zero and clamped, and a zero divisor gives the
  bound that the dividend's sign selects, or 0.  No 64-bit intermediate overflows.\<close>

theorem fx16_arith_saturates:
  "sint (cb_fx16_add a b) = sat 32 (sint a + sint b)
   \<and> sint (cb_fx16_sub a b) = sat 32 (sint a - sint b)
   \<and> sint (cb_fx16_mul a b) = sat 32 (sint a * sint b sdiv 65536)
   \<and> sint (cb_fx16_div a b) =
       (if b = 0 then (if a = 0 then 0 else if 0 < sint a then 2147483647 else - 2147483648)
        else sat 32 (sint a * 65536 sdiv sint b))
   \<and> sint (cb_fx16_abs a) = sat 32 \<bar>sint a\<bar>"
  by (simp add: sint_fx16_add sint_fx16_sub sint_fx16_mul sint_fx16_div sint_fx16_abs
      fx16_div_zero word_sless_alt cint)

text \<open>Integers convert to Q16.16 saturated, and those of the 16-bit range convert back
  unchanged; converting to an integer truncates toward zero.\<close>

theorem fx16_int_roundtrip:
  "sint (cb_fx16_from_int v) = sat 32 (sint v * 65536)
   \<and> sint (cb_fx16_to_int x) = sint x sdiv 65536
   \<and> (- 32768 \<le> sint v \<and> sint v \<le> 32767 \<longrightarrow> cb_fx16_to_int (cb_fx16_from_int v) = v)"
proof -
  have "cb_fx16_to_int (cb_fx16_from_int v) = v" if "- 32768 \<le> sint v \<and> sint v \<le> 32767"
  proof (rule sint_eqI)
    have "sat 32 (sint v * 65536) = sint v * 65536" using that by (simp add: sat32)
    then show "sint (cb_fx16_to_int (cb_fx16_from_int v)) = sint v"
      by (simp add: sint_fx16_to_int sint_fx16_from_int sdiv_mult_cancel)
  qed
  then show ?thesis by (simp add: sint_fx16_from_int sint_fx16_to_int)
qed

theorem fx16_int_roundtrip_witness:
  "cb_fx16_to_int (cb_fx16_from_int (- 3)) = - 3"
proof -
  have "- 32768 \<le> sint (- 3 :: i32) \<and> sint (- 3 :: i32) \<le> 32767" by simp
  then show ?thesis using fx16_int_roundtrip [of "- 3" 0] by blast
qed

text \<open>Interpolation with a factor in \<open>[0, 1]\<close> stays between its end points and meets both,
  whenever the distance of the end points is representable.\<close>

theorem fx16_lerp_between:
  assumes "fits 32 (sint b - sint a)" and "0 \<le> sint t" and "sint t \<le> sint CB_FX16_ONE"
  shows "min (sint a) (sint b) \<le> sint (cb_fx16_lerp a b t)
    \<and> sint (cb_fx16_lerp a b t) \<le> max (sint a) (sint b)
    \<and> cb_fx16_lerp a b 0 = a \<and> cb_fx16_lerp a b CB_FX16_ONE = b"
proof -
  have d: "sint (cb_fx16_sub b a) = sint b - sint a"
    using assms(1) by (intro fx16.sub_exact) simp
  have "cb_fx16_lerp a b 0 = a" "cb_fx16_lerp a b CB_FX16_ONE = b"
    using assms(1)
    by (auto intro!: sint_eqI simp: sint_fx16_lerp(1) cint fx16.mul_one d sint_fx16_mul sat32)
  then show ?thesis using sint_fx16_lerp [of b a t] assms by (simp add: cint)
qed

theorem fx16_lerp_between_witness:
  "cb_fx16_lerp (- 65536) 131072 32768 = 32768 \<and> sint (cb_fx16_lerp (- 65536) 131072 32768) \<le> 131072"
  using fx16_lerp_between [of 131072 "- 65536" 32768]
  by (simp add: fits_def cint cb_fx16_lerp_def cb_fx16_sub_def cb_fx16_mul_def cb_fx16_add_def
      CB_FX16_ONE_def CB_FX16_MAX_def CB_FX16_MIN_def sdiv_word_def word_sless_alt
      signed_divide_int_def)

text \<open>Where the distance is not representable the subtraction saturates, and interpolation at 1
  misses the far end point by half the range.\<close>

lemma fx16_lerp_misses_end: "cb_fx16_lerp CB_FX16_MIN CB_FX16_MAX CB_FX16_ONE = - 1"
  by (rule sint_eqI)
    (simp add: cb_fx16_lerp_def fx16.mul_one sint_fx16_add sint_fx16_sub cint sat32)

end
