(* ===== verification/Fixed_Sqrt.thy ===== *)
theory Fixed_Sqrt
  imports Fixed16
begin

text \<open>
  The digit-by-digit square roots of \<open>cbase_fixed.c\<close>: \<open>cb_fx16_sqrt\<close> on 64-bit words, and
  \<open>cb_fx32_sqrt\<close> on \<open>unsigned __int128\<close> and, in the MSVC fallback, on \<open>{hi, lo}\<close> pairs of 64-bit
  words with carries and borrows written out.

  The loops terminate because the digit weight \<open>bit\<close> shrinks.  The interface \<open>digit_sqrt\<close> states
  what such a loop needs of its number type (exact sums below a capacity, exact differences,
  halving, quartering, order); inside it the loop is shown to return the integer square root,
  and all three implementations are instances.
\<close>

type_synonym cb_fx32_t = i64

section \<open>Definitions\<close>

lemma unat_drop_bit_less: 
  fixes x :: "'a::len word"
  assumes "x \<noteq> 0" "0 < n" shows "unat (drop_bit n x) < unat x"
proof -
  have "0 < unat x" using assms(1) by (simp add: unat_gt_0)
  then have "unat x div 2 ^ n < unat x" using assms(2)
    by (intro div_less_dividend) (simp_all add: one_less_power del: One_nat_def)
  then show ?thesis by (simp only: unat_drop_bit_eq) (simp only: drop_bit_eq_div)
qed

function isqrt64_shrink :: "u64 \<Rightarrow> u64 \<Rightarrow> u64" where
  "isqrt64_shrink bt n = (if n < bt then isqrt64_shrink (drop_bit 2 bt) n else bt)"
  by pat_completeness auto
termination
  by (relation "measure (\<lambda>(bt, n). unat bt)") (auto intro!: unat_drop_bit_less)

function isqrt64_loop :: "u64 \<Rightarrow> u64 \<Rightarrow> u64 \<Rightarrow> u64" where
  "isqrt64_loop n res bt =
     (if bt \<noteq> 0 then
        (if res + bt \<le> n
         then isqrt64_loop (n - (res + bt)) (drop_bit 1 res + bt) (drop_bit 2 bt)
         else isqrt64_loop n (drop_bit 1 res) (drop_bit 2 bt))
      else res)"
  by pat_completeness auto
termination
  by (relation "measure (\<lambda>(n, res, bt). unat bt)") (simp_all add: unat_drop_bit_less)

definition cb_fx16_sqrt :: "cb_fx16_t \<Rightarrow> cb_fx16_t" where
  "cb_fx16_sqrt v =
     (if v <=s 0 then 0
      else
        let n = push_bit 16 (ucast v :: u64);
            bt = isqrt64_shrink (push_bit 46 1) n
        in ucast (isqrt64_loop n 0 bt))"

function isqrt128_shrink :: "u128 \<Rightarrow> u128 \<Rightarrow> u128" where
  "isqrt128_shrink bt n = (if n < bt then isqrt128_shrink (drop_bit 2 bt) n else bt)"
  by pat_completeness auto
termination
  by (relation "measure (\<lambda>(bt, n). unat bt)") (auto intro!: unat_drop_bit_less)

function isqrt128_loop :: "u128 \<Rightarrow> u128 \<Rightarrow> u128 \<Rightarrow> u128" where
  "isqrt128_loop n res bt =
     (if bt \<noteq> 0 then
        (if res + bt \<le> n
         then isqrt128_loop (n - (res + bt)) (drop_bit 1 res + bt) (drop_bit 2 bt)
         else isqrt128_loop n (drop_bit 1 res) (drop_bit 2 bt))
      else res)"
  by pat_completeness auto
termination
  by (relation "measure (\<lambda>(n, res, bt). unat bt)") (simp_all add: unat_drop_bit_less)

definition cb_fx32_sqrt :: "cb_fx32_t \<Rightarrow> cb_fx32_t" where
  "cb_fx32_sqrt v =
     (if v <=s 0 then 0
      else
        let n = push_bit 32 (ucast v :: u128);
            bt = isqrt128_shrink (push_bit 94 1) n
        in ucast (isqrt128_loop n 0 bt))"

text \<open>
  The fallback keeps each 128-bit quantity as a high and a low 64-bit word; the arguments are
  in the order high, low.  Its loops terminate because the 128-bit value of the digit weight
  shrinks.
\<close>

definition pair_nat :: "u64 \<Rightarrow> u64 \<Rightarrow> nat" where
  "pair_nat hi lo = unat hi * 2 ^ 64 + unat lo"

lemma pair_nat_cat: "pair_nat hi lo = unat (word_cat hi lo :: u128)"
proof -
  have a: "unat (push_bit 64 (ucast hi) :: u128) = unat hi * 2 ^ 64"
    using unsigned_less [where 'a = nat, of hi]
    by (simp only: unsigned_push_bit_eq unsigned_ucast_eq) (simp add: push_bit_eq_mult take_bit_eq_mod)
  have b: "unat (ucast lo :: u128) = unat lo"
    using unsigned_less [where 'a = nat, of lo] by (simp only: unsigned_ucast_eq take_bit_eq_mod) simp
  have "unat hi * 2 ^ 64 + unat lo < 2 ^ 128"
    using unsigned_less [where 'a = nat, of hi] unsigned_less [where 'a = nat, of lo] by simp
  then show ?thesis
    by (simp only: word_cat_eq unat_word_ariths) (simp add: a b pair_nat_def)
qed
lemma pair_nat_shr2:
  "pair_nat (drop_bit 2 hi) (drop_bit 2 lo OR push_bit 62 hi) = pair_nat hi lo div 4"
proof -
  have "(word_cat (drop_bit 2 hi) (drop_bit 2 lo OR push_bit 62 hi) :: u128) = drop_bit 2 (word_cat hi lo)"
  proof (rule bit_word_eqI)
    fix n assume "n < LENGTH(128)"
    have "64 \<le> n \<Longrightarrow> Suc (Suc (n - 64)) = n - 62" by simp
    then show "bit (word_cat (drop_bit 2 hi) (drop_bit 2 lo OR push_bit 62 hi) :: u128) n
        = bit (drop_bit 2 (word_cat hi lo :: u128)) n"
      by (auto simp: bit_simps bit_word_cat_iff not_less less_diff_conv dest: bit_imp_le_length)
  qed
  then show ?thesis by (simp only: pair_nat_cat unat_drop_bit_eq) (simp add: drop_bit_eq_div)
qed

lemma pair_nat_zero_iff: "pair_nat hi lo = 0 \<longleftrightarrow> hi = 0 \<and> lo = 0"
  by (auto simp: pair_nat_def unat_eq_0)

lemma pair_nat_shr2_less:
  "hi \<noteq> 0 \<or> lo \<noteq> 0 \<Longrightarrow>
    pair_nat (drop_bit 2 hi) (drop_bit 2 lo OR push_bit 62 hi) < pair_nat hi lo"
  using pair_nat_zero_iff [of hi lo] by (simp only: pair_nat_shr2) auto

lemma pair_nat_shr2_less_shrink:
  "n_hi < hi \<or> (hi = n_hi \<and> n_lo < lo) \<Longrightarrow>
    pair_nat (drop_bit 2 hi) (drop_bit 2 lo OR push_bit 62 hi) < pair_nat hi lo"
  by (rule pair_nat_shr2_less) auto

function isqrt_pair_shrink :: "u64 \<Rightarrow> u64 \<Rightarrow> u64 \<Rightarrow> u64 \<Rightarrow> u64 \<times> u64" where
  "isqrt_pair_shrink bit_hi bit_lo n_hi n_lo =
     (if n_hi < bit_hi \<or> (bit_hi = n_hi \<and> n_lo < bit_lo) then
        let new_hi = drop_bit 2 bit_hi;
            new_lo = drop_bit 2 bit_lo OR push_bit 62 bit_hi
        in isqrt_pair_shrink new_hi new_lo n_hi n_lo
      else (bit_hi, bit_lo))"
  by pat_completeness auto
termination
  by (relation "measure (\<lambda>(bit_hi, bit_lo, n_hi, n_lo). pair_nat bit_hi bit_lo)")
    (simp_all only: wf_measure in_measure prod.case pair_nat_shr2_less_shrink)

function isqrt_pair_loop :: "u64 \<Rightarrow> u64 \<Rightarrow> u64 \<Rightarrow> u64 \<Rightarrow> u64 \<Rightarrow> u64 \<Rightarrow> u64 \<times> u64" where
  "isqrt_pair_loop n_hi n_lo res_hi res_lo bit_hi bit_lo =
     (if bit_hi \<noteq> 0 \<or> bit_lo \<noteq> 0 then
        let cand_lo = res_lo + bit_lo;
            carry = (if cand_lo < res_lo then 1 else 0);
            cand_hi = res_hi + bit_hi + carry;
            ge = (cand_hi < n_hi \<or> (n_hi = cand_hi \<and> cand_lo \<le> n_lo));
            rs_lo = drop_bit 1 res_lo OR push_bit 63 res_hi;
            rs_hi = drop_bit 1 res_hi;
            next_hi = drop_bit 2 bit_hi;
            next_lo = drop_bit 2 bit_lo OR push_bit 62 bit_hi
        in if ge then
             let new_lo = n_lo - cand_lo;
                 borrow = (if n_lo < cand_lo then 1 else 0);
                 new_hi = n_hi - cand_hi - borrow;
                 nr_lo = rs_lo + bit_lo;
                 c2 = (if nr_lo < rs_lo then 1 else 0);
                 nr_hi = rs_hi + bit_hi + c2
             in isqrt_pair_loop new_hi new_lo nr_hi nr_lo next_hi next_lo
           else isqrt_pair_loop n_hi n_lo rs_hi rs_lo next_hi next_lo
      else (res_hi, res_lo))"
  by pat_completeness auto
termination
  by (relation "measure (\<lambda>(n_hi, n_lo, res_hi, res_lo, bit_hi, bit_lo). pair_nat bit_hi bit_lo)")
    (simp_all only: wf_measure in_measure prod.case pair_nat_shr2_less)

definition cb_fx32_sqrt_msvc :: "cb_fx32_t \<Rightarrow> cb_fx32_t" where
  "cb_fx32_sqrt_msvc v =
     (if v <=s 0 then 0
      else
        let n_lo = push_bit 32 v;
            n_hi = drop_bit 32 v;
            (bit_hi, bit_lo) = isqrt_pair_shrink (push_bit 30 1) 0 n_hi n_lo;
            (res_hi, res_lo) = isqrt_pair_loop n_hi n_lo 0 0 bit_hi bit_lo
        in res_lo)"

declare isqrt64_shrink.simps [simp del] isqrt64_loop.simps [simp del]
  isqrt128_shrink.simps [simp del] isqrt128_loop.simps [simp del]
  isqrt_pair_shrink.simps [simp del] isqrt_pair_loop.simps [simp del]

section \<open>The digit-by-digit method\<close>

definition is_isqrt :: "nat \<Rightarrow> nat \<Rightarrow> bool" where
  "is_isqrt n r \<longleftrightarrow> r * r \<le> n \<and> n < Suc r * Suc r"

lemma is_isqrt_unique:
  assumes "is_isqrt n r" and "is_isqrt n s"
  shows "r = s"
proof -
  have less: "\<not> a < b" if "is_isqrt n a" "is_isqrt n b" for a b
  proof
    assume "a < b"
    then have "Suc a * Suc a \<le> b * b" by (intro mult_le_mono) simp_all
    with that show False by (simp add: is_isqrt_def)
  qed
  show ?thesis using less [OF assms] less [OF assms(2,1)] by simp
qed

locale digit_sqrt =
  fixes val :: "'w \<Rightarrow> nat" and cap :: nat
    and plus minus :: "'w \<Rightarrow> 'w \<Rightarrow> 'w" and half quarter :: "'w \<Rightarrow> 'w"
    and leq :: "'w \<Rightarrow> 'w \<Rightarrow> bool"
    and shrink :: "'w \<Rightarrow> 'w \<Rightarrow> 'w" and loop :: "'w \<Rightarrow> 'w \<Rightarrow> 'w \<Rightarrow> 'w"
  assumes val_plus: "val x + val y < cap \<Longrightarrow> val (plus x y) = val x + val y"
    and val_minus: "val y \<le> val x \<Longrightarrow> val (minus x y) = val x - val y"
    and val_half: "val (half x) = val x div 2"
    and val_quarter: "val (quarter x) = val x div 4"
    and val_leq: "leq x y \<longleftrightarrow> val x \<le> val y"
    and shrink_eq: "shrink bt n = (if leq bt n then bt else shrink (quarter bt) n)"
    and loop_eq: "loop n res bt =
      (if val bt = 0 then res
       else if leq (plus res bt) n
         then loop (minus n (plus res bt)) (plus (half res) bt) (quarter bt)
         else loop n (half res) (quarter bt))"
begin

lemma shrink_pow:
  assumes "val bt = 4 ^ k" and "0 < val n" and "val n < 4 ^ Suc k"
  shows "\<exists>j \<le> k. val (shrink bt n) = 4 ^ j \<and> val n < 4 ^ Suc j"
  using assms
proof (induction k arbitrary: bt)
  case 0
  then have "leq bt n" by (simp add: val_leq)
  then show ?case using 0 by (subst shrink_eq) simp
next
  case (Suc k)
  show ?case
  proof (cases "leq bt n")
    case True
    then show ?thesis using Suc.prems by (subst shrink_eq) auto
  next
    case False
    then have "val n < 4 ^ Suc k" and "val (quarter bt) = 4 ^ k"
      using Suc.prems by (simp_all add: val_leq val_quarter)
    then obtain j where "j \<le> k" "val (shrink (quarter bt) n) = 4 ^ j" "val n < 4 ^ Suc j"
      using Suc.IH Suc.prems(2) by blast
    then show ?thesis using False
      by (subst shrink_eq) (auto intro!: exI [of _ j])
  qed
qed

text \<open>
  The loop state at digit weight \<open>4 ^ k\<close>: \<open>res\<close> is the root found so far, scaled, and \<open>n\<close> is
  what the radicand \<open>N\<close> leaves.
\<close>

definition digits :: "nat \<Rightarrow> nat \<Rightarrow> nat \<Rightarrow> 'w \<Rightarrow> 'w \<Rightarrow> bool" where
  "digits N k R n res \<longleftrightarrow>
     val res = R * 2 ^ k \<and> val n + R * R = N \<and> N < (R + 2 ^ k) * (R + 2 ^ k)"

lemma four_pow: "(4::nat) ^ k = 2 ^ k * 2 ^ k"
  by (simp add: power_mult_distrib [symmetric])

lemma digit_step:
  assumes inv: "digits N (Suc k) R n res" and bt: "val bt = 4 ^ k"
    and cap: "2 * 4 ^ K \<le> cap" and N: "N < 4 ^ K" and k: "k < K"
  shows "leq (plus res bt) n \<Longrightarrow>
      digits N k (R + 2 ^ k) (minus n (plus res bt)) (plus (half res) bt)"
    and "\<not> leq (plus res bt) n \<Longrightarrow> digits N k R n (half res)"
proof -
  have res: "val res = R * 2 ^ k * 2" and n: "val n + R * R = N"
    and less: "N < (R + 2 ^ k * 2) * (R + 2 ^ k * 2)"
    using inv by (simp_all add: digits_def mult.commute)
  have "R * R < 2 ^ K * 2 ^ K" using n N by (simp add: four_pow)
  then have R: "R < 2 ^ K" by (meson mult_le_mono not_le)
  have kK: "(2::nat) ^ k * 2 \<le> 2 ^ K" using k
    by (metis Suc_leI power_Suc2 power_increasing one_le_numeral)
  have "R * (2 ^ k * 2) + 2 ^ k * 2 ^ k < 2 ^ K * 2 ^ K + 2 ^ K * 2 ^ K"
  proof (rule add_less_le_mono)
    show "R * (2 ^ k * 2) < 2 ^ K * 2 ^ K"
      using R kK by (intro mult_less_le_imp_less) simp_all
    show "(2::nat) ^ k * 2 ^ k \<le> 2 ^ K * 2 ^ K" using k by (intro mult_le_mono) simp_all
  qed
  then have sum: "R * 2 ^ k * 2 + 4 ^ k < cap" using cap by (simp add: four_pow mult.assoc)
  have cand: "val (plus res bt) = R * 2 ^ k * 2 + 4 ^ k"
    using sum by (subst val_plus) (simp_all add: res bt)
  have half: "val (half res) = R * 2 ^ k" by (simp add: val_half res)
  have root: "val (plus (half res) bt) = (R + 2 ^ k) * 2 ^ k"
    using sum by (subst val_plus) (simp_all add: half bt four_pow distrib_right)
  have sq: "(R + 2 ^ k) * (R + 2 ^ k) = R * R + (R * 2 ^ k * 2 + 4 ^ k)"
    by (simp add: four_pow algebra_simps)
  show "digits N k (R + 2 ^ k) (minus n (plus res bt)) (plus (half res) bt)"
    if "leq (plus res bt) n"
  proof -
    have le: "R * 2 ^ k * 2 + 4 ^ k \<le> val n" using that by (simp add: val_leq cand)
    then have "val (minus n (plus res bt)) = val n - (R * 2 ^ k * 2 + 4 ^ k)"
      by (subst val_minus) (simp_all add: cand)
    then show ?thesis using le n less root unfolding digits_def sq
      by (simp add: mult_2_right add.assoc)
  qed
  show "digits N k R n (half res)" if "\<not> leq (plus res bt) n"
    using that n unfolding digits_def sq by (simp add: val_leq cand half)
qed

lemma loop_digits:
  assumes "digits N (Suc k) R n res" and "val bt = 4 ^ k"
    and "2 * 4 ^ K \<le> cap" and "N < 4 ^ K" and "k < K"
  shows "is_isqrt N (val (loop n res bt))"
  using assms(1,2,5)
proof (induction k arbitrary: R n res bt)
  case 0
  have z: "loop m r (quarter bt) = r" for m r
    using 0 by (subst loop_eq) (simp add: val_quarter)
  have "is_isqrt N (val r)" if "digits N 0 R' m r" for R' m r
    using that by (auto simp: digits_def is_isqrt_def)
  then show ?case
    using digit_step [OF 0(1,2) assms(3,4) 0(3)] 0(2) by (subst loop_eq) (auto simp: z)
next
  case (Suc k)
  have q: "val (quarter bt) = 4 ^ k" using Suc.prems by (simp add: val_quarter)
  have "is_isqrt N (val (loop m r (quarter bt)))" if "digits N (Suc k) R' m r" for R' m r
    using Suc.IH [OF that q] Suc.prems(3) by simp
  then show ?case
    using digit_step [OF Suc.prems(1,2) assms(3,4) Suc.prems(3)] Suc.prems(2)
    by (subst loop_eq) auto
qed

lemma sqrt_correct:
  assumes "0 < val n" and "val n < 4 ^ Suc k" and "val bt = 4 ^ k" and "val zero = 0"
    and "2 * 4 ^ Suc k \<le> cap"
  shows "is_isqrt (val n) (val (loop n zero (shrink bt n)))"
proof -
  obtain j where j: "j \<le> k" "val (shrink bt n) = 4 ^ j" "val n < 4 ^ Suc j"
    using shrink_pow assms(1-3) by blast
  have "digits (val n) (Suc j) 0 n zero"
    using j(3) assms(4) by (simp add: digits_def four_pow)
  then show ?thesis using j assms(2,5) by (intro loop_digits [where k = j and K = "Suc k"]) auto
qed

end

section \<open>The three implementations\<close>

lemma unat_add_less: "unat x + unat y < 2 ^ LENGTH('a) \<Longrightarrow> unat (x + y :: 'a::len word) = unat x + unat y"
  by (simp add: unat_word_ariths)

lemma unat_sub_le: "unat y \<le> unat x \<Longrightarrow> unat (x - y :: 'a::len word) = unat x - unat y"
  by (simp add: unat_sub word_le_nat_alt)

lemma unat_half: "unat (drop_bit 1 (x :: 'a::len word)) = unat x div 2"
  by (simp only: unat_drop_bit_eq) (simp add: drop_bit_eq_div)

lemma unat_quarter: "unat (drop_bit 2 (x :: 'a::len word)) = unat x div 4"
  by (simp only: unat_drop_bit_eq) (simp add: drop_bit_eq_div)

interpretation sqrt64: digit_sqrt unat "2 ^ 64" "(+)" "(-)" "drop_bit 1" "drop_bit 2" "(\<le>)"
    isqrt64_shrink isqrt64_loop
proof unfold_locales
  show "unat x + unat y < 2 ^ 64 \<Longrightarrow> unat (x + y) = unat x + unat y" for x y :: u64
    by (simp add: unat_add_less)
  show "isqrt64_shrink bt n = (if bt \<le> n then bt else isqrt64_shrink (drop_bit 2 bt) n)" for bt n
    by (subst isqrt64_shrink.simps) (metis not_less)
  show "isqrt64_loop n res bt =
      (if unat bt = 0 then res
       else if res + bt \<le> n
         then isqrt64_loop (n - (res + bt)) (drop_bit 1 res + bt) (drop_bit 2 bt)
         else isqrt64_loop n (drop_bit 1 res) (drop_bit 2 bt))" for n res bt
    by (subst isqrt64_loop.simps) (simp add: unat_eq_0)
qed (simp_all only: unat_half unat_quarter unat_sub_le word_le_nat_alt)

interpretation sqrt128: digit_sqrt unat "2 ^ 128" "(+)" "(-)" "drop_bit 1" "drop_bit 2" "(\<le>)"
    isqrt128_shrink isqrt128_loop
proof unfold_locales
  show "unat x + unat y < 2 ^ 128 \<Longrightarrow> unat (x + y) = unat x + unat y" for x y :: u128
    by (simp add: unat_add_less)
  show "isqrt128_shrink bt n = (if bt \<le> n then bt else isqrt128_shrink (drop_bit 2 bt) n)" for bt n
    by (subst isqrt128_shrink.simps) (metis not_less)
  show "isqrt128_loop n res bt =
      (if unat bt = 0 then res
       else if res + bt \<le> n
         then isqrt128_loop (n - (res + bt)) (drop_bit 1 res + bt) (drop_bit 2 bt)
         else isqrt128_loop n (drop_bit 1 res) (drop_bit 2 bt))" for n res bt
    by (subst isqrt128_loop.simps) (simp add: unat_eq_0)
qed (simp_all only: unat_half unat_quarter unat_sub_le word_le_nat_alt)

text \<open>The pair arithmetic that the fallback's loop spells out.\<close>

fun pair_add :: "u64 \<times> u64 \<Rightarrow> u64 \<times> u64 \<Rightarrow> u64 \<times> u64" where
  "pair_add (x_hi, x_lo) (y_hi, y_lo) =
     (let lo = x_lo + y_lo; carry = (if lo < x_lo then 1 else 0) in (x_hi + y_hi + carry, lo))"

fun pair_sub :: "u64 \<times> u64 \<Rightarrow> u64 \<times> u64 \<Rightarrow> u64 \<times> u64" where
  "pair_sub (x_hi, x_lo) (y_hi, y_lo) =
     (let lo = x_lo - y_lo; borrow = (if x_lo < y_lo then 1 else 0) in (x_hi - y_hi - borrow, lo))"

fun pair_half :: "u64 \<times> u64 \<Rightarrow> u64 \<times> u64" where
  "pair_half (hi, lo) = (drop_bit 1 hi, drop_bit 1 lo OR push_bit 63 hi)"

fun pair_quarter :: "u64 \<times> u64 \<Rightarrow> u64 \<times> u64" where
  "pair_quarter (hi, lo) = (drop_bit 2 hi, drop_bit 2 lo OR push_bit 62 hi)"

fun pair_le :: "u64 \<times> u64 \<Rightarrow> u64 \<times> u64 \<Rightarrow> bool" where
  "pair_le (x_hi, x_lo) (y_hi, y_lo) \<longleftrightarrow> x_hi < y_hi \<or> (y_hi = x_hi \<and> x_lo \<le> y_lo)"

definition pair_val :: "u64 \<times> u64 \<Rightarrow> nat" where
  "pair_val p = pair_nat (fst p) (snd p)"

lemma unat_add_carry:
  "unat (x + y :: u64) + (if x + y < x then 2 ^ 64 else 0) = unat x + unat y"
  using unsigned_less [where 'a = nat, of x] unsigned_less [where 'a = nat, of y]
  by (auto simp: word_less_nat_alt unat_word_ariths mod_if)

lemma unat_sub_borrow:
  "unat (x - y :: u64) + unat y = unat x + (if x < y then 2 ^ 64 else 0)"
proof (cases "x < y")
  case True
  then have "unat (x - y) + unat y = unat x + 2 ^ 64"
    using unat_add_carry [of "x - y" y] unsigned_less [where 'a = nat, of "x - y"]
      unsigned_less [where 'a = nat, of y]
    by (auto simp: word_less_nat_alt split: if_splits)
  then show ?thesis using True by simp
next
  case False
  then show ?thesis using unat_sub_le [of y x] by (simp add: word_less_nat_alt)
qed

lemma pair_val_add:
  assumes "pair_val x + pair_val y < 2 ^ 128"
  shows "pair_val (pair_add x y) = pair_val x + pair_val y"
proof -
  obtain xh xl yh yl where xy: "x = (xh, xl)" "y = (yh, yl)" by (cases x, cases y)
  define c :: u64 where "c = (if xl + yl < xl then 1 else 0)"
  have lo: "unat (xl + yl) + unat c * 2 ^ 64 = unat xl + unat yl"
    using unat_add_carry [of xl yl] by (auto simp: c_def)
  have "(unat xh + unat yh + unat c) * 2 ^ 64 < 2 ^ 128"
    using assms lo by (simp add: xy pair_val_def pair_nat_def)
  then have b: "unat xh + unat yh + unat c < 2 ^ 64" by simp
  then have "unat (xh + yh + c) = unat xh + unat yh + unat c"
    by (simp add: unat_word_ariths)
  then show ?thesis using lo
    by (simp add: xy pair_val_def pair_nat_def c_def [symmetric] Let_def del: unat_eq_0)
qed

lemma pair_val_sub:
  assumes "pair_val y \<le> pair_val x"
  shows "pair_val (pair_sub x y) = pair_val x - pair_val y"
proof -
  obtain xh xl yh yl where xy: "x = (xh, xl)" "y = (yh, yl)" by (cases x, cases y)
  define c :: u64 where "c = (if xl < yl then 1 else 0)"
  have lo: "unat (xl - yl) + unat yl = unat xl + unat c * 2 ^ 64"
    using unat_sub_borrow [of xl yl] by (auto simp: c_def)
  have lt: "unat xl < 2 ^ 64" "unat yl < 2 ^ 64"
    using unsigned_less [where 'a = nat, of xl] unsigned_less [where 'a = nat, of yl] by simp_all
  have le: "unat yh * 2 ^ 64 + unat yl \<le> unat xh * 2 ^ 64 + unat xl"
    using assms by (simp add: xy pair_val_def pair_nat_def)
  have b: "unat yh + unat c \<le> unat xh"
    using le lt by (auto simp: c_def word_less_nat_alt)
  then have "unat (xh - yh) = unat xh - unat yh" by (intro unat_sub_le) simp
  with b have "unat (xh - yh - c) = unat xh - unat yh - unat c"
    by (subst unat_sub_le) simp_all
  then show ?thesis using lo b le
    by (simp add: xy pair_val_def pair_nat_def c_def [symmetric] Let_def)
qed

lemma pair_nat_shr1:
  "pair_nat (drop_bit 1 hi) (drop_bit 1 lo OR push_bit 63 hi) = pair_nat hi lo div 2"
proof -
  have "(word_cat (drop_bit 1 hi) (drop_bit 1 lo OR push_bit 63 hi) :: u128)
      = drop_bit 1 (word_cat hi lo)"
  proof (rule bit_word_eqI)
    fix n assume "n < LENGTH(128)"
    have "64 \<le> n \<Longrightarrow> Suc (n - 64) = n - 63" by simp
    then show "bit (word_cat (drop_bit 1 hi) (drop_bit 1 lo OR push_bit 63 hi) :: u128) n
        = bit (drop_bit 1 (word_cat hi lo :: u128)) n"
      by (auto simp: bit_simps bit_word_cat_iff not_less less_diff_conv dest: bit_imp_le_length)
  qed
  then show ?thesis by (simp only: pair_nat_cat unat_drop_bit_eq) (simp add: drop_bit_eq_div)
qed

lemma pair_val_le: "pair_le x y \<longleftrightarrow> pair_val x \<le> pair_val y"
proof -
  obtain xh xl yh yl where xy: "x = (xh, xl)" "y = (yh, yl)" by (cases x, cases y)
  then show ?thesis
    using unsigned_less [where 'a = nat, of xl] unsigned_less [where 'a = nat, of yl]
    by (auto simp: xy pair_val_def pair_nat_def word_less_nat_alt word_le_nat_alt word_unat_eq_iff)
qed

definition pair_shrink :: "u64 \<times> u64 \<Rightarrow> u64 \<times> u64 \<Rightarrow> u64 \<times> u64" where
  "pair_shrink bt n = isqrt_pair_shrink (fst bt) (snd bt) (fst n) (snd n)"

definition pair_loop :: "u64 \<times> u64 \<Rightarrow> u64 \<times> u64 \<Rightarrow> u64 \<times> u64 \<Rightarrow> u64 \<times> u64" where
  "pair_loop n res bt = isqrt_pair_loop (fst n) (snd n) (fst res) (snd res) (fst bt) (snd bt)"

interpretation sqrt_pair: digit_sqrt pair_val "2 ^ 128" pair_add pair_sub pair_half pair_quarter
    pair_le pair_shrink pair_loop
proof unfold_locales
  fix x y n res bt :: "u64 \<times> u64"
  show "pair_val (pair_half x) = pair_val x div 2"
    by (cases x) (simp only: pair_half.simps pair_val_def fst_conv snd_conv pair_nat_shr1)
  show "pair_val (pair_quarter x) = pair_val x div 4"
    by (cases x) (simp only: pair_quarter.simps pair_val_def fst_conv snd_conv pair_nat_shr2)
  show "pair_shrink bt n = (if pair_le bt n then bt else pair_shrink (pair_quarter bt) n)"
    unfolding pair_shrink_def
    by (cases bt; cases n; simp only: fst_conv snd_conv, subst isqrt_pair_shrink.simps)
      (auto simp: Let_def not_less)
  show "pair_loop n res bt =
      (if pair_val bt = 0 then res
       else if pair_le (pair_add res bt) n
         then pair_loop (pair_sub n (pair_add res bt)) (pair_add (pair_half res) bt) (pair_quarter bt)
         else pair_loop n (pair_half res) (pair_quarter bt))"
    unfolding pair_loop_def
    by (cases bt; cases n; cases res; simp only: fst_conv snd_conv, subst isqrt_pair_loop.simps)
      (simp add: Let_def pair_val_def pair_nat_zero_iff)
qed (simp_all only: pair_val_add pair_val_sub pair_val_le)

section \<open>Properties\<close>

lemma is_isqrt_less: "is_isqrt n r \<Longrightarrow> n < 4 ^ k \<Longrightarrow> r < 2 ^ k"
proof -
  assume "is_isqrt n r" and "n < 4 ^ k"
  then have "r * r < 2 ^ k * 2 ^ k"
    by (simp add: is_isqrt_def power_mult_distrib [symmetric])
  then show ?thesis by (meson mult_le_mono not_le)
qed

lemma unat_pos_less:
  "0 < sint (v :: i32) \<Longrightarrow> 0 < unat v \<and> unat v < 2 ^ 31"
  "0 < sint (w :: i64) \<Longrightarrow> 0 < unat w \<and> unat w < 2 ^ 63"
  using sint32_range [of v] sint64_range [of w] by (simp_all add: sint_pos_unat nat_less_iff)

lemma fx16_sqrt_floor_pos:
  assumes "0 < sint v"
  shows "is_isqrt (unat v * 65536) (unat (cb_fx16_sqrt v))" and "unat (cb_fx16_sqrt v) < 2 ^ 24"
proof -
  define n :: u64 where "n = push_bit 16 (ucast v)"
  define r where "r = isqrt64_loop n 0 (isqrt64_shrink (push_bit 46 1) n)"
  have v: "0 < unat v" "unat v < 2 ^ 31" using unat_pos_less(1) assms by blast+
  have n: "unat n = unat v * 65536"
    using v unfolding n_def
    by (simp only: unsigned_push_bit_eq unsigned_ucast_eq) (simp add: push_bit_eq_mult take_bit_eq_mod)
  have r: "is_isqrt (unat n) (unat r)"
    unfolding r_def using v by (intro sqrt64.sqrt_correct [where k = 23]) (simp_all add: n)
  have "unat n < 4 ^ 24" unfolding n using v by (simp, linarith?)
  with r have "unat r < 2 ^ 24" by (rule is_isqrt_less)
  moreover have "cb_fx16_sqrt v = ucast r"
    using assms by (simp add: cb_fx16_sqrt_def Let_def word_sle_eq n_def r_def)
  ultimately have "unat (cb_fx16_sqrt v) = unat r"
    by (simp only: unsigned_ucast_eq) (simp add: take_bit_eq_mod)
  then show "is_isqrt (unat v * 65536) (unat (cb_fx16_sqrt v))" "unat (cb_fx16_sqrt v) < 2 ^ 24"
    using r n \<open>unat r < 2 ^ 24\<close> by simp_all
qed

lemma fx32_sqrt_floor_pos:
  assumes "0 < sint v"
  shows "is_isqrt (unat v * 2 ^ 32) (unat (cb_fx32_sqrt v))" and "unat (cb_fx32_sqrt v) < 2 ^ 48"
proof -
  define n :: u128 where "n = push_bit 32 (ucast v)"
  define r where "r = isqrt128_loop n 0 (isqrt128_shrink (push_bit 94 1) n)"
  have v: "0 < unat v" "unat v < 2 ^ 63" using unat_pos_less(2) assms by blast+
  have n: "unat n = unat v * 2 ^ 32"
    using v unfolding n_def
    by (simp only: unsigned_push_bit_eq unsigned_ucast_eq) (simp add: push_bit_eq_mult take_bit_eq_mod)
  have r: "is_isqrt (unat n) (unat r)"
    unfolding r_def using v by (intro sqrt128.sqrt_correct [where k = 47]) (simp_all add: n)
  have "unat n < 4 ^ 48" unfolding n using v by (simp, linarith?)
  with r have "unat r < 2 ^ 48" by (rule is_isqrt_less)
  moreover have "cb_fx32_sqrt v = ucast r"
    using assms by (simp add: cb_fx32_sqrt_def Let_def word_sle_eq n_def r_def)
  ultimately have "unat (cb_fx32_sqrt v) = unat r"
    by (simp only: unsigned_ucast_eq) (simp add: take_bit_eq_mod)
  then show "is_isqrt (unat v * 2 ^ 32) (unat (cb_fx32_sqrt v))" "unat (cb_fx32_sqrt v) < 2 ^ 48"
    using r n \<open>unat r < 2 ^ 48\<close> by simp_all
qed

lemma fx32_sqrt_msvc_floor_pos:
  assumes "0 < sint v"
  shows "is_isqrt (unat v * 2 ^ 32) (unat (cb_fx32_sqrt_msvc v))"
proof -
  define n where "n = (drop_bit 32 v, push_bit 32 v)"
  define r where "r = pair_loop n (0, 0) (pair_shrink (push_bit 30 1, 0) n)"
  have v: "0 < unat v" "unat v < 2 ^ 63" using unat_pos_less(2) assms by blast+
  have lo: "unat (push_bit 32 v) = unat v mod 2 ^ 32 * 2 ^ 32"
    using mod_mult_mult2 [of "unat v" "2 ^ 32" "2 ^ 32"]
    by (simp only: unsigned_push_bit_eq) (simp add: push_bit_eq_mult take_bit_eq_mod)
  have hi: "unat (drop_bit 32 v) = unat v div 2 ^ 32"
    by (simp only: unat_drop_bit_eq) (simp add: drop_bit_eq_div)
  have n: "pair_val n = unat v * 2 ^ 32"
  proof -
    obtain a b where ab: "unat v div 2 ^ 32 = a" "unat v mod 2 ^ 32 = b" "unat v = a * 2 ^ 32 + b"
      using div_mult_mod_eq [of "unat v" "2 ^ 32"] by metis
    show ?thesis
      unfolding n_def pair_val_def pair_nat_def fst_conv snd_conv lo hi ab(1,2)
      by (subst ab(3)) simp
  qed
  have r: "is_isqrt (pair_val n) (pair_val r)"
    unfolding r_def using v
    by (intro sqrt_pair.sqrt_correct [where k = 47])
      (simp_all add: n, simp_all add: pair_val_def pair_nat_def push_bit_eq_mult)
  have "pair_val n < 4 ^ 48" unfolding n using v by (simp, linarith?)
  with r have "pair_val r < 2 ^ 48" by (rule is_isqrt_less)
  then have "pair_val r = unat (snd r)"
    by (cases "unat (fst r)") (simp_all add: pair_val_def pair_nat_def)
  moreover have "cb_fx32_sqrt_msvc v = snd r"
    using assms
    by (simp add: cb_fx32_sqrt_msvc_def Let_def word_sle_eq n_def r_def pair_loop_def pair_shrink_def
        split: prod.splits)
  ultimately show ?thesis using r n by simp
qed

text \<open>The Q16.16 square root is bit-exact: for a positive value \<open>v / 2^16\<close> it returns the
  floor of \<open>2^16 * sqrt (v / 2^16)\<close>, that is the integer square root of \<open>v * 2^16\<close>; zero and
  negative values give 0.\<close>

theorem fx16_sqrt_exact:
  "if sint v \<le> 0 then cb_fx16_sqrt v = 0
   else is_isqrt (nat (sint v) * 65536) (nat (sint (cb_fx16_sqrt v)))"
proof (cases "sint v \<le> 0")
  case True
  then show ?thesis by (simp add: cb_fx16_sqrt_def word_sle_eq)
next
  case False
  then have "nat (sint (cb_fx16_sqrt v)) = unat (cb_fx16_sqrt v)"
    using fx16_sqrt_floor_pos(2) [of v] by (subst sint_of_small) simp_all
  with False show ?thesis using fx16_sqrt_floor_pos(1) [of v] by (simp add: sint_pos_unat)
qed

text \<open>The Q32.32 square root returns the integer square root of \<open>v * 2^32\<close>, and the two
  builds compute the same function: the \<open>unsigned __int128\<close> loop and the MSVC fallback on word
  pairs, with its hand-written carries and borrows, agree on every input.\<close>

theorem fx32_sqrt_exact_both_builds:
  "(if sint v \<le> 0 then cb_fx32_sqrt v = 0
    else is_isqrt (nat (sint v) * 2 ^ 32) (nat (sint (cb_fx32_sqrt v))))
   \<and> cb_fx32_sqrt_msvc v = cb_fx32_sqrt v"
proof (cases "sint v \<le> 0")
  case True
  then show ?thesis by (simp add: cb_fx32_sqrt_def cb_fx32_sqrt_msvc_def word_sle_eq)
next
  case False
  then have "nat (sint (cb_fx32_sqrt v)) = unat (cb_fx32_sqrt v)"
    using fx32_sqrt_floor_pos(2) [of v] by (subst sint_of_small) simp_all
  moreover have "unat (cb_fx32_sqrt_msvc v) = unat (cb_fx32_sqrt v)"
    using fx32_sqrt_floor_pos(1) [of v] fx32_sqrt_msvc_floor_pos [of v] False
    by (auto intro: is_isqrt_unique)
  ultimately show ?thesis
    using False fx32_sqrt_floor_pos(1) [of v] by (simp add: sint_pos_unat word_unat_eq_iff)
qed

text \<open>C31. The square roots are exact: for a positive value the Q16.16 root of \<open>v\<close> is the integer square root of
  \<open>v * 2^16\<close> and the Q32.32 root that of \<open>v * 2^32\<close>, and values that are not positive give 0.  The two builds of
  the Q32.32 root, the \<open>unsigned __int128\<close> loop and the MSVC loop on word pairs with its hand-written
  carries and borrows, agree on every input.\<close>

theorem fx_sqrt_exact:
  "(if sint v \<le> 0 then cb_fx16_sqrt v = 0 else is_isqrt (nat (sint v) * 65536) (nat (sint (cb_fx16_sqrt v))))
   \<and> (if sint w \<le> 0 then cb_fx32_sqrt w = 0 else is_isqrt (nat (sint w) * 2 ^ 32) (nat (sint (cb_fx32_sqrt w))))
   \<and> cb_fx32_sqrt_msvc w = cb_fx32_sqrt w"
  using fx16_sqrt_exact [of v] fx32_sqrt_exact_both_builds [of w] by blast

end
