(* ===== verification/Fixed32.thy ===== *)
theory Fixed32
  imports Fixed16 Fixed_Sqrt
begin

text \<open>
  Q32.32 fixed-point arithmetic (\<open>cbase_fixed.c\<close>), in both builds: the GCC/Clang one on
  \<open>__int128\<close> (here 128-bit words) and the MSVC one on 64-bit words, which detects overflow by
  signs and uses the compiler intrinsics \<open>_mul128\<close> and \<open>_udiv128\<close>.  The intrinsics are not code of
  the repository: they are parameters (\<open>mul128\<close>, \<open>udiv128\<close>), and what their documentation
  promises is \<open>mul128_spec\<close> and \<open>udiv128_spec\<close>.

  Addition, subtraction and division are shown to agree between the builds; the product is
  not, because one build truncates toward zero and the other one floors.
\<close>

section \<open>Definitions\<close>

definition CB_FX32_ONE :: cb_fx32_t where "CB_FX32_ONE = push_bit 32 1"
definition CB_FX32_MAX :: cb_fx32_t where "CB_FX32_MAX = 9223372036854775807"
definition CB_FX32_MIN :: cb_fx32_t where "CB_FX32_MIN = 9223372036854775808"

definition cb_fx32_from_int :: "i64 \<Rightarrow> cb_fx32_t" where
  "cb_fx32_from_int v =
     (if 2147483647 <s v then CB_FX32_MAX
      else if v <s - 2147483648 then CB_FX32_MIN
      else v * CB_FX32_ONE)"

definition cb_fx32_to_int :: "cb_fx32_t \<Rightarrow> i64" where
  "cb_fx32_to_int v = sdiv_word v CB_FX32_ONE"

subsection \<open>The \<open>__int128\<close> build\<close>

definition cb_fx32_add :: "cb_fx32_t \<Rightarrow> cb_fx32_t \<Rightarrow> cb_fx32_t" where
  "cb_fx32_add a b =
     (let r = (scast a :: i128) + scast b
      in if scast CB_FX32_MAX <s r then CB_FX32_MAX
         else if r <s scast CB_FX32_MIN then CB_FX32_MIN
         else scast r)"

definition cb_fx32_sub :: "cb_fx32_t \<Rightarrow> cb_fx32_t \<Rightarrow> cb_fx32_t" where
  "cb_fx32_sub a b =
     (let r = (scast a :: i128) - scast b
      in if scast CB_FX32_MAX <s r then CB_FX32_MAX
         else if r <s scast CB_FX32_MIN then CB_FX32_MIN
         else scast r)"

definition cb_fx32_mul :: "cb_fx32_t \<Rightarrow> cb_fx32_t \<Rightarrow> cb_fx32_t" where
  "cb_fx32_mul a b =
     (let prod = (scast a :: i128) * scast b;
          scaled = sdiv_word prod (scast CB_FX32_ONE)
      in if scast CB_FX32_MAX <s scaled then CB_FX32_MAX
         else if scaled <s scast CB_FX32_MIN then CB_FX32_MIN
         else scast scaled)"

definition cb_fx32_div :: "cb_fx32_t \<Rightarrow> cb_fx32_t \<Rightarrow> cb_fx32_t" where
  "cb_fx32_div a b =
     (if b = 0 then
        (if a = 0 then 0
         else if 0 <s a then CB_FX32_MAX else CB_FX32_MIN)
      else
        let num = (scast a :: i128) * scast CB_FX32_ONE;
            q = sdiv_word num (scast b)
        in if scast CB_FX32_MAX <s q then CB_FX32_MAX
           else if q <s scast CB_FX32_MIN then CB_FX32_MIN
           else scast q)"

subsection \<open>The MSVC build\<close>

definition cb_fx32_add_msvc :: "cb_fx32_t \<Rightarrow> cb_fx32_t \<Rightarrow> cb_fx32_t" where
  "cb_fx32_add_msvc a b =
     (let r = a + b
      in if ((a XOR r) AND (b XOR r)) <s 0
         then (if a <s 0 then CB_FX32_MIN else CB_FX32_MAX)
         else r)"

definition cb_fx32_sub_msvc :: "cb_fx32_t \<Rightarrow> cb_fx32_t \<Rightarrow> cb_fx32_t" where
  "cb_fx32_sub_msvc a b =
     (let r = a - b
      in if ((a XOR b) AND (a XOR r)) <s 0
         then (if a <s 0 then CB_FX32_MIN else CB_FX32_MAX)
         else r)"

text \<open>\<open>_mul128(a, b, &hi)\<close> returns the low word and stores the high one: here the pair (low, high).\<close>

definition cb_fx32_mul_msvc ::
  "(i64 \<Rightarrow> i64 \<Rightarrow> i64 \<times> i64) \<Rightarrow> cb_fx32_t \<Rightarrow> cb_fx32_t \<Rightarrow> cb_fx32_t" where
  "cb_fx32_mul_msvc mul128 a b =
     (let (lo, hi) = mul128 a b;
          ulo = lo;
          shifted_lo = drop_bit 32 ulo OR push_bit 32 hi;
          shifted_hi = signed_drop_bit 32 hi
      in if shifted_hi \<noteq> signed_drop_bit 63 shifted_lo
         then (if shifted_hi <s 0 then CB_FX32_MIN else CB_FX32_MAX)
         else shifted_lo)"

text \<open>\<open>_udiv128(hi, lo, d, &rem)\<close> returns the quotient of the 128-bit number \<open>hi : lo\<close>.\<close>

definition cb_fx32_div_msvc ::
  "(u64 \<Rightarrow> u64 \<Rightarrow> u64 \<Rightarrow> u64) \<Rightarrow> cb_fx32_t \<Rightarrow> cb_fx32_t \<Rightarrow> cb_fx32_t" where
  "cb_fx32_div_msvc udiv128 a b =
     (if b = 0 then
        (if a = 0 then 0
         else if 0 <s a then CB_FX32_MAX else CB_FX32_MIN)
      else
        let neg = ((a <s 0) \<noteq> (b <s 0));
            ua = (if a <s 0 then - (a + 1) + 1 else a);
            ub = (if b <s 0 then - (b + 1) + 1 else b);
            num_hi = drop_bit 32 ua;
            num_lo = push_bit 32 ua
        in if ub \<le> num_hi then (if neg then CB_FX32_MIN else CB_FX32_MAX)
           else
             let q = udiv128 num_hi num_lo ub
             in if neg then
                  (if CB_FX32_MAX + 1 < q then CB_FX32_MIN
                   else if q = CB_FX32_MAX + 1 then CB_FX32_MIN else - q)
                else
                  (if CB_FX32_MAX < q then CB_FX32_MAX else q))"

subsection \<open>Both builds\<close>

definition cb_fx32_abs :: "cb_fx32_t \<Rightarrow> cb_fx32_t" where
  "cb_fx32_abs v =
     (if v = CB_FX32_MIN then CB_FX32_MAX
      else if v <s 0 then - v else v)"

definition cb_fx32_from_fx16 :: "cb_fx16_t \<Rightarrow> cb_fx32_t" where
  "cb_fx32_from_fx16 v = scast v * push_bit 16 1"

definition cb_fx16_from_fx32 :: "cb_fx32_t \<Rightarrow> cb_fx16_t" where
  "cb_fx16_from_fx32 v =
     (let narrowed = sdiv_word v (push_bit 16 1)
      in if scast CB_FX16_MAX <s narrowed then CB_FX16_MAX
         else if narrowed <s scast CB_FX16_MIN then CB_FX16_MIN
         else scast narrowed)"

text \<open>The documented behaviour of the two intrinsics.\<close>

definition mul128_spec :: "(i64 \<Rightarrow> i64 \<Rightarrow> i64 \<times> i64) \<Rightarrow> bool" where
  "mul128_spec f \<longleftrightarrow> (\<forall>a b. sint (snd (f a b)) * 2 ^ 64 + uint (fst (f a b)) = sint a * sint b)"

definition udiv128_spec :: "(u64 \<Rightarrow> u64 \<Rightarrow> u64 \<Rightarrow> u64) \<Rightarrow> bool" where
  "udiv128_spec f \<longleftrightarrow>
     (\<forall>hi lo d. hi < d \<longrightarrow> uint (f hi lo d) = (uint hi * 2 ^ 64 + uint lo) div uint d)"

section \<open>The \<open>__int128\<close> operations are the exact ones, saturated\<close>

lemma sint_fx32_consts [cint]:
  "sint CB_FX32_ONE = 4294967296" "sint CB_FX32_MAX = 9223372036854775807"
  "sint CB_FX32_MIN = - 9223372036854775808"
  by (simp_all add: CB_FX32_ONE_def CB_FX32_MAX_def CB_FX32_MIN_def push_bit_eq_mult)

lemma narrow32:
  fixes r :: i128
  shows "sint (if scast CB_FX32_MAX <s r then CB_FX32_MAX
               else if r <s scast CB_FX32_MIN then CB_FX32_MIN
               else scast r) = sat 64 (sint r)"
proof -
  have "fits 64 (sint r)" if "\<not> scast CB_FX32_MAX <s r" "\<not> r <s scast CB_FX32_MIN"
    using that by (simp add: word_sless_alt cint fits_def)
  then show ?thesis
    by (auto simp: word_sless_alt cint sat64 fits_def intro!: sint_scast_fits)
qed

lemma sint_fx32_add: "sint (cb_fx32_add a b) = sat 64 (sint a + sint b)"
proof -
  have "sint ((scast a :: i128) + scast b) = sint a + sint b"
    using sint64_range [of a] sint64_range [of b]
    by (subst sint_add_fits) (simp_all add: cint fits_def)
  then show ?thesis by (simp add: cb_fx32_add_def Let_def narrow32)
qed

lemma sint_fx32_sub: "sint (cb_fx32_sub a b) = sat 64 (sint a - sint b)"
proof -
  have "sint ((scast a :: i128) - scast b) = sint a - sint b"
    using sint64_range [of a] sint64_range [of b]
    by (subst sint_sub_fits) (simp_all add: cint fits_def)
  then show ?thesis by (simp add: cb_fx32_sub_def Let_def narrow32)
qed

lemma sint64_mult_range: "\<bar>sint (a :: i64) * sint (b :: i64)\<bar> \<le> 2 ^ 126"
proof -
  have "\<bar>sint a\<bar> * \<bar>sint b\<bar> \<le> 9223372036854775808 * 9223372036854775808"
    using sint64_range [of a] sint64_range [of b] by (intro mult_mono) auto
  then show ?thesis by (simp add: abs_mult)
qed

lemma sint_wide_mult64: "sint ((scast (a :: i64) :: i128) * scast (b :: i64)) = sint a * sint b"
  using sint64_mult_range [of a b] by (subst sint_mult_fits) (auto simp: cint fits_def)

lemma sint_fx32_mul: "sint (cb_fx32_mul a b) = sat 64 (sint a * sint b sdiv 4294967296)"
  unfolding cb_fx32_mul_def Let_def narrow32
  by (subst sint_sdiv_word) (simp_all add: sint_wide_mult64 cint)

lemma sint_fx32_div:
  assumes "b \<noteq> 0"
  shows "sint (cb_fx32_div a b) = sat 64 (sint a * 4294967296 sdiv sint b)"
proof -
  have "sint a * 4294967296 \<noteq> - (2 ^ 127)" using sint64_range [of a] by simp
  then show ?thesis
    using assms unfolding cb_fx32_div_def Let_def if_not_P [OF assms] narrow32
    by (subst sint_sdiv_word) (simp_all add: sint_wide_mult64 cint)
qed

lemma fx32_div_zero:
  "cb_fx32_div a 0 = (if a = 0 then 0 else if 0 <s a then CB_FX32_MAX else CB_FX32_MIN)"
  by (simp add: cb_fx32_div_def)

lemma sint_fx32_abs: "sint (cb_fx32_abs v) = sat 64 \<bar>sint v\<bar>"
proof (cases "v = CB_FX32_MIN")
  case True
  then show ?thesis by (simp add: cb_fx32_abs_def cint sat64)
next
  case False
  then have "sint v \<noteq> - 9223372036854775808" using sint_eq_iff [of v CB_FX32_MIN] by (simp add: cint)
  then have "fits 64 (- sint v)" "fits 64 (sint v)"
    using sint64_range [of v] by (simp_all add: fits_def)
  with False show ?thesis
    by (auto simp: cb_fx32_abs_def word_sless_alt sint_minus_fits sat_id)
qed

interpretation fx32: fixed_point cb_fx32_add cb_fx32_sub cb_fx32_mul cb_fx32_div cb_fx32_abs CB_FX32_ONE
proof unfold_locales
  fix a b :: cb_fx32_t
  show "sint (cb_fx32_div a 0) = sat LENGTH(64) (sgn (sint a) * 2 ^ LENGTH(64))"
    by (auto simp: fx32_div_zero word_sless_alt cint sat64 sgn_if dest: sint_eq_iff [THEN iffD1, of _ 0, simplified])
qed (simp_all add: sint_fx32_add sint_fx32_sub sint_fx32_mul sint_fx32_div sint_fx32_abs cint)

section \<open>The MSVC operations\<close>

lemma sint_neg_bit: "sint (x :: i64) < 0 \<longleftrightarrow> bit x 63"
  by (simp add: sint_uint signed_take_bit_negative_iff bit_uint_iff)

lemma sign_bits:
  "sint ((x XOR r) AND (y XOR r)) < 0 \<longleftrightarrow>
    (sint (x :: i64) < 0) \<noteq> (sint r < 0) \<and> (sint (y :: i64) < 0) \<noteq> (sint r < 0)"
  by (simp only: sint_neg_bit) (simp add: bit_simps)

lemma signed_take_bit_63:
  assumes "- (2 ^ 64) \<le> (k :: int)" and "k < 2 ^ 64"
  shows "signed_take_bit 63 k = (if k < - (2 ^ 63) then k + 2 ^ 64 else if k < 2 ^ 63 then k else k - 2 ^ 64)"
proof -
  have shift: "signed_take_bit 63 k = (k + 2 ^ 63) mod 2 ^ 64 - 2 ^ 63"
    by (simp add: signed_take_bit_eq_take_bit_shift take_bit_eq_mod)
  consider "k < - (2 ^ 63)" | "- (2 ^ 63) \<le> k" "k < 2 ^ 63" | "2 ^ 63 \<le> k" by linarith
  then show ?thesis
  proof cases
    case 1
    then have "(k + 2 ^ 63) mod 2 ^ 64 = (k + 2 ^ 63 + 2 ^ 64) mod 2 ^ 64"
      by (simp only: mod_add_self2)
    also have "\<dots> = k + 2 ^ 63 + 2 ^ 64" using 1 assms by (intro mod_pos_pos_trivial) simp_all
    finally show ?thesis using 1 shift by simp
  next
    case 2
    then show ?thesis using shift by simp
  next
    case 3
    then have "(k + 2 ^ 63) mod 2 ^ 64 = (k + 2 ^ 63 - 2 ^ 64) mod 2 ^ 64"
      using mod_add_self2 [of "k + 2 ^ 63 - 2 ^ 64" "2 ^ 64"] by (simp only: diff_add_cancel)
    also have "\<dots> = k + 2 ^ 63 - 2 ^ 64" using 3 assms by (intro mod_pos_pos_trivial) simp_all
    finally show ?thesis using 3 shift by simp
  qed
qed

lemma sint_fx32_add_msvc: "sint (cb_fx32_add_msvc a b) = sat 64 (sint a + sint b)"
proof -
  have r: "sint (a + b) = (if sint a + sint b < - (2 ^ 63) then sint a + sint b + 2 ^ 64
      else if sint a + sint b < 2 ^ 63 then sint a + sint b else sint a + sint b - 2 ^ 64)"
    using sint64_range [of a] sint64_range [of b]
    by (simp add: sint_word_add signed_take_bit_63 [simplified])
  show ?thesis
    using sint64_range [of a] sint64_range [of b]
    by (auto simp: cb_fx32_add_msvc_def Let_def sign_bits r cint sat64 word_sless_alt)
qed

lemma sint_fx32_sub_msvc: "sint (cb_fx32_sub_msvc a b) = sat 64 (sint a - sint b)"
proof -
  have r: "sint (a - b) = (if sint a - sint b < - (2 ^ 63) then sint a - sint b + 2 ^ 64
      else if sint a - sint b < 2 ^ 63 then sint a - sint b else sint a - sint b - 2 ^ 64)"
    using sint64_range [of a] sint64_range [of b]
    by (simp add: sint_word_diff signed_take_bit_63 [simplified])
  have s: "sint ((a XOR b) AND (a XOR (a - b))) < 0 \<longleftrightarrow>
      (sint b < 0) \<noteq> (sint a < 0) \<and> (sint (a - b) < 0) \<noteq> (sint a < 0)"
    using sign_bits [of b a "a - b"] by (simp add: ac_simps)
  show ?thesis
    using sint64_range [of a] sint64_range [of b]
    by (auto simp: cb_fx32_sub_msvc_def Let_def s r cint sat64 word_sless_alt)
qed

interpretation fx32_msvc: sat_ring cb_fx32_add_msvc cb_fx32_sub_msvc
  by unfold_locales (simp_all add: sint_fx32_add_msvc sint_fx32_sub_msvc)

text \<open>The magnitudes that the unsigned core of the MSVC division works on.\<close>

lemma uint_magnitude: "uint (if a <s 0 then - (a + 1) + 1 else (a :: i64)) = \<bar>sint a\<bar>"
proof (cases "a <s 0")
  case True
  then have neg: "sint a < 0" by (simp add: word_sless_alt)
  have "- (a + 1) + 1 = (word_of_int (- sint a) :: i64)" by simp
  then have "uint (- (a + 1) + 1) = (- sint a) mod 2 ^ 64"
    by (simp only: uint_word_of_int) simp
  also have "\<dots> = - sint a" using neg sint64_range [of a] by (intro mod_pos_pos_trivial) simp_all
  finally show ?thesis using True neg by simp
next
  case False
  then show ?thesis using sint_nonneg_uint [of a] by (simp add: word_sless_alt)
qed

lemma uint_num: 
  fixes u :: u64
  shows "uint (drop_bit 32 u) * 2 ^ 64 + uint (push_bit 32 u) = uint u * 2 ^ 32"
    and "uint (drop_bit 32 u) = uint u div 2 ^ 32"
    and "uint (push_bit 32 u) = uint u mod 2 ^ 32 * 2 ^ 32"
proof -
  show hi: "uint (drop_bit 32 u) = uint u div 2 ^ 32"
    using unsigned_less [where 'a = int, of u]
    by (simp only: unsigned_drop_bit_eq) (simp add: drop_bit_eq_div take_bit_eq_mod)
  show lo: "uint (push_bit 32 u) = uint u mod 2 ^ 32 * 2 ^ 32"
    using mod_mult_mult2 [of "uint u" "2 ^ 32" "2 ^ 32"]
    by (simp only: unsigned_push_bit_eq) (simp add: push_bit_eq_mult take_bit_eq_mod)
  obtain x y where xy: "uint u div 2 ^ 32 = x" "uint u mod 2 ^ 32 = y" "uint u = x * 2 ^ 32 + y"
    using div_mult_mod_eq [of "uint u" "2 ^ 32"] by metis
  show "uint (drop_bit 32 u) * 2 ^ 64 + uint (push_bit 32 u) = uint u * 2 ^ 32"
    unfolding hi lo xy(1,2) by (subst xy(3)) simp
qed

lemma sint_fx32_div_msvc:
  assumes spec: "udiv128_spec f" and b: "b \<noteq> 0"
  shows "sint (cb_fx32_div_msvc f a b) = sat 64 (sint a * 4294967296 sdiv sint b)"
proof -
  define ua ub where "ua = (if a <s 0 then - (a + 1) + 1 else a)"
    and "ub = (if b <s 0 then - (b + 1) + 1 else b)"
  define q where "q = f (drop_bit 32 ua) (push_bit 32 ua) ub"
  have ua: "uint ua = \<bar>sint a\<bar>" and ub: "uint ub = \<bar>sint b\<bar>"
    by (simp_all only: ua_def ub_def uint_magnitude)
  have b0: "sint b \<noteq> 0" using b sint_eq_iff [of b 0] by simp
  let ?Q = "\<bar>sint a\<bar> * 4294967296 div \<bar>sint b\<bar>"
  have Q0: "0 \<le> ?Q" by (simp add: pos_imp_zdiv_nonneg_iff b0)
  have sdiv: "sint a * 4294967296 sdiv sint b = (if (sint a < 0) \<noteq> (sint b < 0) then - ?Q else ?Q)"
    by (auto simp: signed_divide_int_def abs_mult sgn_if b0)
  have big: "2 ^ 64 \<le> ?Q" if "ub \<le> drop_bit 32 ua"
  proof -
    have "\<bar>sint b\<bar> \<le> \<bar>sint a\<bar> div 2 ^ 32"
      using that by (simp only: word_le_def ub uint_num(2) ua)
    then have "\<bar>sint b\<bar> \<le> \<bar>sint a\<bar> div 4294967296" by simp
    then have "\<bar>sint b\<bar> * 4294967296 \<le> \<bar>sint a\<bar>" by linarith
    then have "2 ^ 64 * \<bar>sint b\<bar> \<le> \<bar>sint a\<bar> * 4294967296" by simp
    then have "(2 ^ 64 * \<bar>sint b\<bar>) div \<bar>sint b\<bar> \<le> ?Q" by (rule zdiv_mono1) (simp add: b0)
    then show ?thesis by (simp add: b0)
  qed
  have small: "uint q = ?Q" if "\<not> ub \<le> drop_bit 32 ua"
  proof -
    have "uint q = (uint (drop_bit 32 ua) * 2 ^ 64 + uint (push_bit 32 ua)) div uint ub"
      using spec that by (simp only: udiv128_spec_def q_def not_le)
    then show ?thesis by (simp only: uint_num(1) ua ub) simp
  qed
  have eq: "cb_fx32_div_msvc f a b =
      (if ub \<le> drop_bit 32 ua then (if (sint a < 0) \<noteq> (sint b < 0) then CB_FX32_MIN else CB_FX32_MAX)
       else if (sint a < 0) \<noteq> (sint b < 0) then
         (if CB_FX32_MAX + 1 < q then CB_FX32_MIN
          else if q = CB_FX32_MAX + 1 then CB_FX32_MIN else - q)
       else (if CB_FX32_MAX < q then CB_FX32_MAX else q))"
    by (simp only: cb_fx32_div_msvc_def ua_def ub_def q_def Let_def b if_False word_sless_alt signed_0)
  have max: "uint CB_FX32_MAX = 9223372036854775807" "uint (CB_FX32_MAX + 1) = 9223372036854775808"
    by (simp_all add: CB_FX32_MAX_def)
  have sq: "sint q = uint q" "sint (- q) = - uint q" if "uint q < 9223372036854775808"
  proof -
    show "sint q = uint q" using that by (intro sint_small_uint) simp
    moreover obtain u where "uint q = u" "0 \<le> u" by simp
    ultimately show "sint (- q) = - uint q" using that
      by (subst sint_minus_fits) (simp_all add: fits_def)
  qed
  show ?thesis
  proof (cases "ub \<le> drop_bit 32 ua")
    case True
    then show ?thesis using big by (auto simp: eq sdiv sat64 cint)
  next
    case False
    have ne: "q = CB_FX32_MAX + 1 \<longleftrightarrow> uint q = 9223372036854775808"
      by (simp only: word_uint_eq_iff max)
    show ?thesis
      using False sq Q0
      by (auto simp: eq sdiv sat64 cint word_less_def ne max small split: if_splits)
  qed
qed

lemma uint_or_disjoint: "x AND y = 0 \<Longrightarrow> uint (x OR y :: 'a::len word) = uint x + uint y"
proof -
  assume "x AND y = 0"
  then have "uint x AND uint y = 0" by (metis uint_0_eq uint_and)
  then show ?thesis by (simp only: uint_or disjunctive_add_eq_or)
qed

lemma sint_cases: "sint (x :: i64) = (if uint x < 2 ^ 63 then uint x else uint x - 2 ^ 64)"
  using signed_take_bit_63 [of "uint x"] unsigned_less [where 'a = int, of x] uint_ge_0 [of x]
  by (auto simp: sint_uint)

lemma uint_mod_sint: "uint (x :: i64) mod 2 ^ 32 = sint x mod 2 ^ 32"
proof -
  have "(uint x - 2 ^ 64) mod 2 ^ 32 = (uint x - 2 ^ 64 + 4294967296 * 2 ^ 32) mod 2 ^ 32"
    by (simp only: mod_mult_self1)
  then show ?thesis by (simp add: sint_cases)
qed

text \<open>The MSVC product shifts the 128-bit product arithmetically: it rounds to minus infinity.\<close>

lemma sint_fx32_mul_msvc_floor:
  assumes spec: "mul128_spec f"
  shows "sint (cb_fx32_mul_msvc f a b) = sat 64 (sint a * sint b div 4294967296)"
proof -
  obtain lo hi where f: "f a b = (lo, hi)" by (cases "f a b")
  define slo where "slo = (drop_bit 32 lo OR push_bit 32 hi)"
  define sh m where "sh = sint hi div 4294967296" and "m = sint hi mod 4294967296"
  have P: "sint a * sint b = sint hi * 2 ^ 64 + uint lo"
    using spec f by (metis mul128_spec_def fst_conv snd_conv)
  have shi: "sint (signed_drop_bit 32 hi) = sh"
    by (simp only: sint_signed_drop_bit_eq sh_def) (simp add: drop_bit_eq_div)
  have sign: "sint (signed_drop_bit 63 slo) = (if sint slo < 0 then - 1 else 0)"
    using sint64_range [of slo]
    by (simp only: sint_signed_drop_bit_eq) (auto simp: drop_bit_eq_div)
  have "drop_bit 32 lo AND push_bit 32 hi = 0"
    by (rule bit_word_eqI) (auto simp: bit_simps dest: bit_imp_le_length)
  then have slo: "uint slo = uint lo div 4294967296 + m * 4294967296"
    by (simp only: slo_def uint_or_disjoint uint_num uint_mod_sint m_def) simp
  have hi: "sint hi = sh * 4294967296 + m" by (simp add: sh_def m_def)
  have F: "sint a * sint b div 4294967296 = sh * 2 ^ 64 + uint slo"
    unfolding P slo hi by (simp add: algebra_simps)
  have eq: "sint (cb_fx32_mul_msvc f a b) =
      (if sh \<noteq> (if sint slo < 0 then - 1 else 0)
       then (if sh < 0 then - 9223372036854775808 else 9223372036854775807) else sint slo)"
    by (simp only: cb_fx32_mul_msvc_def Let_def f prod.case slo_def [symmetric] word_sless_alt
        sint_eq_iff [symmetric] shi sign signed_0 if_distrib [where f = sint] cint)
  obtain u where u: "uint slo = u" "0 \<le> u" "u < 2 ^ 64"
    using unsigned_less [where 'a = int, of slo] by simp
  then show ?thesis
    unfolding eq F sint_cases [of slo] u(1) by (auto simp: sat64 max_def min_def)
qed

section \<open>Properties\<close>

text \<open>Concrete intrinsics that behave as documented, for the witnesses.\<close>

definition mul128_ref :: "i64 \<Rightarrow> i64 \<Rightarrow> i64 \<times> i64" where
  "mul128_ref a b = (word_of_int (sint a * sint b), word_of_int (sint a * sint b div 2 ^ 64))"

definition udiv128_ref :: "u64 \<Rightarrow> u64 \<Rightarrow> u64 \<Rightarrow> u64" where
  "udiv128_ref hi lo d = word_of_int ((uint hi * 2 ^ 64 + uint lo) div uint d)"

lemma len64_pow: "(2::int) ^ LENGTH(64) = 2 ^ 64"
  by simp

lemma mul128_ref_spec: "mul128_spec mul128_ref"
proof -
  have "sint (word_of_int (sint a * sint b div 2 ^ 64) :: i64) = sint a * sint b div 2 ^ 64"
    for a b :: i64
    using sint64_mult_range [of a b] by (intro sint_of_int_fits) (auto simp: fits_def abs_le_iff)
  then show ?thesis
    unfolding mul128_spec_def mul128_ref_def fst_conv snd_conv
    by (simp only: uint_word_of_int len64_pow div_mult_mod_eq simp_thms)
qed

lemma udiv128_ref_spec: "udiv128_spec udiv128_ref"
proof (unfold udiv128_spec_def, intro allI impI)
  fix hi lo d :: u64
  assume "hi < d"
  then have h: "uint hi + 1 \<le> uint d" by (simp add: word_less_def)
  have "uint hi * 2 ^ 64 + uint lo < (uint hi + 1) * 2 ^ 64"
    using unsigned_less [where 'a = int, of lo] by (simp add: algebra_simps)
  also have "\<dots> \<le> uint d * 2 ^ 64" using h by (intro mult_right_mono) simp_all
  finally have less: "uint hi * 2 ^ 64 + uint lo < 2 ^ 64 * uint d" by simp
  have "(uint hi * 2 ^ 64 + uint lo) div uint d < 2 ^ 64"
  proof (rule ccontr)
    assume "\<not> ?thesis"
    then have "2 ^ 64 * uint d \<le> (uint hi * 2 ^ 64 + uint lo) div uint d * uint d"
      by (intro mult_right_mono) simp_all
    also have "\<dots> \<le> uint hi * 2 ^ 64 + uint lo"
    proof -
      have "0 < uint d" using h uint_ge_0 [of hi] by linarith
      then show ?thesis
        by (simp only: minus_mod_eq_div_mult [symmetric]) (simp add: pos_mod_sign)
    qed
    finally show False using less by simp
  qed
  moreover have "0 \<le> (uint hi * 2 ^ 64 + uint lo) div uint d"
    by (simp add: div_int_pos_iff)
  ultimately show "uint (udiv128_ref hi lo d) = (uint hi * 2 ^ 64 + uint lo) div uint d"
    by (simp add: udiv128_ref_def uint_word_of_int)
qed

text \<open>The Q32.32 arithmetic of the \<open>__int128\<close> build is exact integer arithmetic, saturated to
  64 bits; product and quotient truncate toward zero, and a zero divisor gives the bound that
  the dividend's sign selects, or 0.\<close>

theorem fx32_arith_saturates:
  "sint (cb_fx32_add a b) = sat 64 (sint a + sint b)
   \<and> sint (cb_fx32_sub a b) = sat 64 (sint a - sint b)
   \<and> sint (cb_fx32_mul a b) = sat 64 (sint a * sint b sdiv 4294967296)
   \<and> sint (cb_fx32_div a b) =
       (if b = 0 then (if a = 0 then 0 else if 0 < sint a then 9223372036854775807
                       else - 9223372036854775808)
        else sat 64 (sint a * 4294967296 sdiv sint b))
   \<and> sint (cb_fx32_abs a) = sat 64 \<bar>sint a\<bar>"
  by (simp add: sint_fx32_add sint_fx32_sub sint_fx32_mul sint_fx32_div sint_fx32_abs
      fx32_div_zero word_sless_alt cint)

text \<open>The MSVC build computes the same sums, differences and quotients as the \<open>__int128\<close>
  build on every input, given that \<open>_udiv128\<close> divides as documented.\<close>

theorem fx32_builds_agree:
  assumes "udiv128_spec f"
  shows "cb_fx32_add_msvc a b = cb_fx32_add a b \<and> cb_fx32_sub_msvc a b = cb_fx32_sub a b
    \<and> cb_fx32_div_msvc f a b = cb_fx32_div a b"
proof -
  have "cb_fx32_div_msvc f a b = cb_fx32_div a b"
  proof (cases "b = 0")
    case True
    then show ?thesis by (simp add: cb_fx32_div_def cb_fx32_div_msvc_def)
  next
    case False
    then show ?thesis using assms by (simp add: sint_eqI sint_fx32_div sint_fx32_div_msvc)
  qed
  then show ?thesis
    by (simp add: sint_eqI sint_fx32_add sint_fx32_add_msvc sint_fx32_sub sint_fx32_sub_msvc)
qed

theorem fx32_builds_agree_witness:
  "cb_fx32_div_msvc udiv128_ref (- 7) 2 = cb_fx32_div (- 7) 2"
  using fx32_builds_agree [OF udiv128_ref_spec, of "- 7" 2] by blast

text \<open>The products of the two builds differ exactly by their rounding: the MSVC product is
  one unit lower, before saturation, when the exact product is negative and not a multiple of
  \<open>2^-32\<close>, and equal to the \<open>__int128\<close> product otherwise.\<close>

theorem fx32_mul_builds_rounding:
  assumes "mul128_spec f"
  shows "sint (cb_fx32_mul_msvc f a b) =
    sat 64 (sint a * sint b sdiv 4294967296
      - (if sint a * sint b < 0 \<and> \<not> 4294967296 dvd sint a * sint b then 1 else 0))"
proof -
  have "sint a * sint b div 4294967296 = sint a * sint b sdiv 4294967296
      - (if sint a * sint b < 0 \<and> \<not> 4294967296 dvd sint a * sint b then 1 else 0)"
    unfolding divide_int_eq_signed_divide_int by (auto simp: sgn_if)
  then show ?thesis using sint_fx32_mul_msvc_floor [OF assms] by simp
qed

theorem fx32_mul_builds_rounding_witness:
  "cb_fx32_mul_msvc mul128_ref (- 1) 1 = - 1 \<and> cb_fx32_mul (- 1) 1 = 0"
proof -
  have "sint (cb_fx32_mul_msvc mul128_ref (- 1) 1) = - 1"
    using fx32_mul_builds_rounding [OF mul128_ref_spec, of "- 1" 1]
    by (simp add: sat64 signed_divide_int_def)
  moreover have "sint (cb_fx32_mul (- 1) 1) = 0"
    by (simp add: sint_fx32_mul sat64 signed_divide_int_def)
  ultimately show ?thesis using sint_eq_iff [of _ "- 1 :: i64"] sint_eq_iff [of _ "0 :: i64"] by simp
qed

text \<open>C30. The Q32.32 arithmetic of the \<open>__int128\<close> build is exact integer arithmetic, saturated to 64 bits; product and
  quotient truncate toward zero, and a zero divisor gives the bound that the dividend's sign selects, or 0.  Given
  that \<open>_udiv128\<close> and \<open>_mul128\<close> compute what is documented, the MSVC build computes the same sums,
  differences and quotients, and its product is one unit lower, before saturation, exactly when the product
  is negative and not a multiple of \<open>2^-32\<close>.\<close>

theorem fx32_arith_both_builds:
  assumes "udiv128_spec f" "mul128_spec g"
  shows "sint (cb_fx32_add a b) = sat 64 (sint a + sint b) \<and> sint (cb_fx32_sub a b) = sat 64 (sint a - sint b)
    \<and> sint (cb_fx32_mul a b) = sat 64 (sint a * sint b sdiv 4294967296)
    \<and> sint (cb_fx32_div a b) =
        (if b = 0 then (if a = 0 then 0 else if 0 < sint a then 9223372036854775807 else - 9223372036854775808)
         else sat 64 (sint a * 4294967296 sdiv sint b))
    \<and> sint (cb_fx32_abs a) = sat 64 \<bar>sint a\<bar>
    \<and> cb_fx32_add_msvc a b = cb_fx32_add a b \<and> cb_fx32_sub_msvc a b = cb_fx32_sub a b
    \<and> cb_fx32_div_msvc f a b = cb_fx32_div a b
    \<and> sint (cb_fx32_mul_msvc g a b) =
        sat 64 (sint a * sint b sdiv 4294967296 - (if sint a * sint b < 0 \<and> \<not> 4294967296 dvd sint a * sint b then 1 else 0))"
  using fx32_arith_saturates [of a b] fx32_builds_agree [OF assms(1), of a b] fx32_mul_builds_rounding [OF assms(2), of a b]
  by blast

lemma fx32_arith_both_builds_witness:
  "cb_fx32_div_msvc udiv128_ref (- 7) 2 = cb_fx32_div (- 7) 2 \<and> sint (cb_fx32_mul (- 1) 1) = 0
    \<and> sint (cb_fx32_mul_msvc mul128_ref (- 1) 1) = - 1"
  using fx32_arith_both_builds [OF udiv128_ref_spec mul128_ref_spec, of "- 7" 2]
    fx32_arith_both_builds [OF udiv128_ref_spec mul128_ref_spec, of "- 1" 1]
  by (simp add: sat64 signed_divide_int_def)

text \<open>Widening Q16.16 to Q32.32 is exact and narrowing brings the value back; narrowing any
  Q32.32 value truncates toward zero and saturates.\<close>

theorem fx16_fx32_roundtrip:
  "sint (cb_fx32_from_fx16 v) = sint v * 65536
   \<and> cb_fx16_from_fx32 (cb_fx32_from_fx16 v) = v
   \<and> sint (cb_fx16_from_fx32 w) = sat 32 (sint w sdiv 65536)"
proof -
  have c: "sint (push_bit 16 1 :: i64) = 65536" by (simp add: push_bit_eq_mult)
  have widen: "sint (cb_fx32_from_fx16 v) = sint v * 65536"
    using sint32_range [of v] unfolding cb_fx32_from_fx16_def
    by (subst sint_mult_fits) (simp_all only: c cint, simp_all add: fits_def cint)
  have narrow: "sint (cb_fx16_from_fx32 x) = sat 32 (sint x sdiv 65536)" for x
    unfolding cb_fx16_from_fx32_def Let_def narrow16 by (subst sint_sdiv_word) (simp_all only: c, simp_all)
  have "cb_fx16_from_fx32 (cb_fx32_from_fx16 v) = v"
    using sint32_range [of v]
    by (intro sint_eqI) (simp add: narrow widen sdiv_mult_cancel sat_id fits_def)
  then show ?thesis by (simp add: widen narrow)
qed

lemma sint_fx32_from_int: "sint (cb_fx32_from_int v) = sat 64 (sint v * 4294967296)"
proof -
  have "sint (v * CB_FX32_ONE) = sint v * 4294967296" if "- 2147483648 \<le> sint v" "sint v \<le> 2147483647"
    using that by (subst sint_mult_fits) (simp_all add: cint fits_def)
  then show ?thesis
    by (auto simp: cb_fx32_from_int_def cint sat64 word_sless_alt)
qed

lemma sint_fx32_to_int: "sint (cb_fx32_to_int v) = sint v sdiv 4294967296"
  by (simp add: cb_fx32_to_int_def sint_sdiv_word cint)

end
