(* ===== verification/Fixed_Float.thy ===== *)
theory Fixed_Float
  imports Fixed32
begin

text \<open>
  The conversions of \<open>src/cbase_fixed.c\<close> from and to floating point.  A \<open>float\<close> or \<open>double\<close> is not a
  number, an infinity, or a finite value: an integer mantissa and a power of two (a value may have several
  forms, and the sign of zero is left out, which no conversion shows).  The operations are those of IEEE 754 that the code uses:
  multiplying by a power of two, which is exact unless it overflows, dividing by one, comparing,
  truncating to an integer, and rounding an integer to the nearest value, ties to even.
\<close>

section \<open>Floating point\<close>

datatype ieee = NaN | Infinity bool | Finite int int

text \<open>\<open>m * 2 ^ e\<close> compared with an integer.\<close>

definition scaled_le :: "int \<Rightarrow> int \<Rightarrow> int \<Rightarrow> bool" where
  "scaled_le c m e = (if 0 \<le> e then c \<le> m * 2 ^ nat e else c * 2 ^ nat (- e) \<le> m)"

fun fl_ge :: "ieee \<Rightarrow> int \<Rightarrow> bool" where
  "fl_ge NaN c = False"
| "fl_ge (Infinity negative) c = (\<not> negative)"
| "fl_ge (Finite m e) c = scaled_le c m e"

fun fl_le :: "ieee \<Rightarrow> int \<Rightarrow> bool" where
  "fl_le NaN c = False"
| "fl_le (Infinity negative) c = negative"
| "fl_le (Finite m e) c = scaled_le (- c) (- m) e"

text \<open>Multiplying by \<open>2 ^ k\<close> where finite values are below \<open>2 ^ emax\<close>, and dividing by \<open>2 ^ k\<close>.\<close>

fun fl_scale :: "nat \<Rightarrow> nat \<Rightarrow> ieee \<Rightarrow> ieee" where
  "fl_scale emax k (Finite m e) =
     (if scaled_le (2 ^ emax) \<bar>m\<bar> (e + int k) then Infinity (m < 0) else Finite m (e + int k))"
| "fl_scale emax k x = x"

fun fl_unscale :: "nat \<Rightarrow> ieee \<Rightarrow> ieee" where
  "fl_unscale k (Finite m e) = Finite m (e - int k)"
| "fl_unscale k x = x"

text \<open>The C cast to an integer of \<open>n\<close> bits: toward zero, undefined (\<open>None\<close>) if it does not fit.\<close>

definition truncated :: "int \<Rightarrow> int \<Rightarrow> int" where
  "truncated m e = (if 0 \<le> e then m * 2 ^ nat e else sgn m * (\<bar>m\<bar> div 2 ^ nat (- e)))"

fun fl_trunc :: "nat \<Rightarrow> ieee \<Rightarrow> int option" where
  "fl_trunc n (Finite m e) = (if fits n (truncated m e) then Some (truncated m e) else None)"
| "fl_trunc n x = None"

text \<open>The number of binary digits, and the C conversion of an integer to \<open>p\<close> digits.\<close>

fun bit_length :: "nat \<Rightarrow> nat" where
  "bit_length n = (if n = 0 then 0 else Suc (bit_length (n div 2)))"

declare bit_length.simps [simp del]

definition fl_of_int :: "nat \<Rightarrow> int \<Rightarrow> ieee" where
  "fl_of_int p n =
     (let k = bit_length (nat \<bar>n\<bar>) - p; q = \<bar>n\<bar> div 2 ^ k; r = \<bar>n\<bar> mod 2 ^ k
      in Finite (sgn n * (if 2 ^ k < 2 * r \<or> 2 ^ k = 2 * r \<and> odd q then q + 1 else q)) (int k))"

section \<open>Definitions\<close>

definition cb_fx16_from_float :: "ieee \<Rightarrow> cb_fx16_t option" where
  "cb_fx16_from_float v =
     (let scaled = fl_scale 128 16 v
      in if fl_ge scaled 2147483520 then Some CB_FX16_MAX
         else if fl_le scaled (- 2147483648) then Some CB_FX16_MIN
         else map_option word_of_int (fl_trunc 32 scaled))"

definition cb_fx16_to_float :: "cb_fx16_t \<Rightarrow> ieee" where
  "cb_fx16_to_float v = fl_unscale 16 (fl_of_int 24 (sint v))"

text \<open>The literal \<open>9.2233720368547748e18\<close> is the double \<open>2 ^ 63 - 1024\<close>, the other is \<open>2 ^ 63\<close>.\<close>

definition cb_fx32_from_float :: "ieee \<Rightarrow> cb_fx32_t option" where
  "cb_fx32_from_float v =
     (let scaled = fl_scale 1024 32 v
      in if fl_ge scaled 9223372036854774784 then Some CB_FX32_MAX
         else if fl_le scaled (- 9223372036854775808) then Some CB_FX32_MIN
         else map_option word_of_int (fl_trunc 64 scaled))"

definition cb_fx32_to_double :: "cb_fx32_t \<Rightarrow> ieee" where
  "cb_fx32_to_double v = fl_unscale 32 (fl_of_int 53 (sint v))"

section \<open>From floating point\<close>

lemma le_div_int: 
  assumes "0 < (d :: int)"
  shows "c * d \<le> m \<longleftrightarrow> c \<le> m div d"
proof
  assume "c * d \<le> m"
  then have "c * d div d \<le> m div d" using assms by (rule zdiv_mono1)
  then show "c \<le> m div d" using assms by simp
next
  assume "c \<le> m div d"
  then have "c * d \<le> m div d * d" using assms by (simp add: mult_right_mono)
  also have "\<dots> \<le> m" using pos_mod_sign [OF assms, of m] by (simp add: minus_mod_eq_div_mult [symmetric])
  finally show "c * d \<le> m" .
qed

lemma truncated_minus: "truncated (- m) e = - truncated m e"
  by (simp add: truncated_def)

lemma truncated_abs: "\<bar>truncated m e\<bar> = truncated \<bar>m\<bar> e"
  by (auto simp: truncated_def abs_mult pos_imp_zdiv_nonneg_iff)

lemma truncated_sign: "0 \<le> m \<Longrightarrow> 0 \<le> truncated m e"
  by (auto simp: truncated_def pos_imp_zdiv_nonneg_iff sgn_if)

lemma scaled_le_truncated: "0 < c \<Longrightarrow> scaled_le c m e \<longleftrightarrow> c \<le> truncated m e"
proof (cases "0 \<le> e")
  case False
  assume c: "0 < c"
  show ?thesis
  proof (cases "0 < m")
    case True
    then show ?thesis using False le_div_int [of "2 ^ nat (- e)" c m] by (simp add: scaled_le_def truncated_def)
  next
    case m: False
    then have "truncated m e \<le> 0" using truncated_sign [of "- m" e] by (simp add: truncated_minus)
    moreover have "m < c * 2 ^ nat (- e)" using m c by (intro le_less_trans [of m 0]) simp_all
    ultimately show ?thesis using c False unfolding scaled_le_def by auto
  qed
qed (simp add: scaled_le_def truncated_def)

lemma fl_scale_compare:
  fixes m e emax k defines "n \<equiv> truncated m (e + int k)"
  shows "0 < c \<Longrightarrow> c \<le> 2 ^ emax \<Longrightarrow> fl_ge (fl_scale emax k (Finite m e)) c \<longleftrightarrow> c \<le> n"
    "c < 0 \<Longrightarrow> - (2 ^ emax) \<le> c \<Longrightarrow> fl_le (fl_scale emax k (Finite m e)) c \<longleftrightarrow> n \<le> c"
    "\<bar>n\<bar> < 2 ^ emax \<Longrightarrow> fl_trunc b (fl_scale emax k (Finite m e)) = (if fits b n then Some n else None)"
proof -
  have ov: "scaled_le (2 ^ emax) \<bar>m\<bar> (e + int k) \<longleftrightarrow> 2 ^ emax \<le> \<bar>n\<bar>"
    using scaled_le_truncated [of "2 ^ emax" "\<bar>m\<bar>" "e + int k"] by (simp add: n_def truncated_abs)
  have s: "m < 0 \<Longrightarrow> n \<le> 0" "0 \<le> m \<Longrightarrow> 0 \<le> n"
    using truncated_sign [of "- m" "e + int k"] truncated_sign [of m "e + int k"] by (simp_all add: n_def truncated_minus)
  show "0 < c \<Longrightarrow> c \<le> 2 ^ emax \<Longrightarrow> fl_ge (fl_scale emax k (Finite m e)) c \<longleftrightarrow> c \<le> n"
    using s scaled_le_truncated [of c m "e + int k"] by (auto simp: ov n_def [symmetric])
  show "c < 0 \<Longrightarrow> - (2 ^ emax) \<le> c \<Longrightarrow> fl_le (fl_scale emax k (Finite m e)) c \<longleftrightarrow> n \<le> c"
  proof -
    assume c: "c < 0" "- (2 ^ emax) \<le> c"
    have "scaled_le (- c) (- m) (e + int k) \<longleftrightarrow> n \<le> c"
      using c scaled_le_truncated [of "- c" "- m" "e + int k"] by (simp add: truncated_minus n_def [symmetric])
    moreover have "m < 0 \<longleftrightarrow> n \<le> c" if "2 ^ emax \<le> \<bar>n\<bar>" using that s c by linarith
    ultimately show "fl_le (fl_scale emax k (Finite m e)) c \<longleftrightarrow> n \<le> c" using ov by simp
  qed
  show "\<bar>n\<bar> < 2 ^ emax \<Longrightarrow> fl_trunc b (fl_scale emax k (Finite m e)) = (if fits b n then Some n else None)"
    by (simp add: ov n_def)
qed

lemma from_float_finite:
  fixes m e defines "n \<equiv> truncated m (e + 16)" and "n' \<equiv> truncated m (e + 32)"
  shows "map_option sint (cb_fx16_from_float (Finite m e)) =
      Some (if 2147483520 \<le> n then 2147483647 else if n \<le> - 2147483648 then - 2147483648 else n)"
    "map_option sint (cb_fx32_from_float (Finite m e)) =
      Some (if 9223372036854774784 \<le> n' then 9223372036854775807
        else if n' \<le> - 9223372036854775808 then - 9223372036854775808 else n')"
proof -
  note c = fl_scale_compare [where m = m and e = e and emax = 128 and k = 16]
  have c16: "fl_ge (fl_scale 128 16 (Finite m e)) 2147483520 \<longleftrightarrow> 2147483520 \<le> n"
    "fl_le (fl_scale 128 16 (Finite m e)) (- 2147483648) \<longleftrightarrow> n \<le> - 2147483648"
    "\<bar>n\<bar> < 2 ^ 128 \<Longrightarrow> fl_trunc 32 (fl_scale 128 16 (Finite m e)) = (if fits 32 n then Some n else None)"
    using c(1) [of 2147483520] c(2) [of "- 2147483648"] c(3) [of 32] by (simp_all add: n_def del: fl_scale.simps)
  have "fl_trunc 32 (fl_scale 128 16 (Finite m e)) = Some n" "sint (word_of_int n :: 32 word) = n"
    if "n < 2147483520" "- 2147483648 < n"
    using that c16(3) sint_of_int_fits [of n, where 'a = 32] by (simp_all add: fits_def del: fl_scale.simps)
  then show "map_option sint (cb_fx16_from_float (Finite m e)) =
      Some (if 2147483520 \<le> n then 2147483647 else if n \<le> - 2147483648 then - 2147483648 else n)"
    by (simp add: cb_fx16_from_float_def Let_def c16 CB_FX16_MAX_def CB_FX16_MIN_def del: fl_scale.simps)
  note d = fl_scale_compare [where m = m and e = e and emax = 1024 and k = 32]
  have p: "(2 :: int) ^ 64 \<le> 2 ^ 1024" by (rule power_increasing) simp_all
  have c32: "fl_ge (fl_scale 1024 32 (Finite m e)) 9223372036854774784 \<longleftrightarrow> 9223372036854774784 \<le> n'"
    "fl_le (fl_scale 1024 32 (Finite m e)) (- 9223372036854775808) \<longleftrightarrow> n' \<le> - 9223372036854775808"
    "\<bar>n'\<bar> < 2 ^ 64 \<Longrightarrow> fl_trunc 64 (fl_scale 1024 32 (Finite m e)) = (if fits 64 n' then Some n' else None)"
    using d(1) [of 9223372036854774784] d(2) [of "- 9223372036854775808"] d(3) [of 64] p
    by (simp_all add: n'_def del: fl_scale.simps)
  have "fl_trunc 64 (fl_scale 1024 32 (Finite m e)) = Some n'" "sint (word_of_int n' :: 64 word) = n'"
    if "n' < 9223372036854774784" "- 9223372036854775808 < n'"
    using that c32(3) sint_of_int_fits [of n', where 'a = 64] by (simp_all add: fits_def del: fl_scale.simps)
  then show "map_option sint (cb_fx32_from_float (Finite m e)) =
      Some (if 9223372036854774784 \<le> n' then 9223372036854775807
        else if n' \<le> - 9223372036854775808 then - 9223372036854775808 else n')"
    by (simp add: cb_fx32_from_float_def Let_def c32 CB_FX32_MAX_def CB_FX32_MIN_def del: fl_scale.simps)
qed

section \<open>To floating point and back\<close>

lemma bit_length_pos: "0 < n \<Longrightarrow> bit_length n = Suc (bit_length (n div 2))"
  by (subst bit_length.simps) simp

lemma bit_length_0: "bit_length 0 = 0"
  by (subst bit_length.simps) simp

lemma bit_length_less: "n < 2 ^ bit_length n"
proof (induction n rule: less_induct)
  case (less n)
  show ?case
  proof (cases "n = 0")
    case False
    then have "n div 2 < 2 ^ bit_length (n div 2)" using less by simp
    then have "n < 2 * 2 ^ bit_length (n div 2)" by linarith
    then show ?thesis using False by (simp add: bit_length_pos)
  qed simp
qed

lemma bit_length_ge: "0 < n \<Longrightarrow> 2 ^ bit_length n \<le> 2 * n"
proof (induction n rule: less_induct)
  case (less n)
  show ?case
  proof (cases "n div 2 = 0")
    case True
    then show ?thesis using less(2) by (simp add: bit_length_pos bit_length_0)
  next
    case False
    then have "2 ^ bit_length (n div 2) \<le> 2 * (n div 2)" using less by simp
    then have "2 * 2 ^ bit_length (n div 2) \<le> 2 * n" by linarith
    then show ?thesis using less(2) by (simp add: bit_length_pos)
  qed
qed

lemma bit_length_le: "n < 2 ^ k \<Longrightarrow> bit_length n \<le> k"
proof (rule ccontr)
  assume n: "n < 2 ^ k" "\<not> bit_length n \<le> k"
  then have "0 < n" by (cases "n = 0") (simp_all add: bit_length_0)
  then have "2 ^ bit_length n \<le> 2 * n" by (rule bit_length_ge)
  moreover have "(2 :: nat) ^ Suc k \<le> 2 ^ bit_length n" using n(2) by (intro power_increasing) simp_all
  ultimately show False using n(1) by simp
qed

text \<open>Rounding is exact for integers of at most \<open>p\<close> digits, and off by at most half a unit otherwise.\<close>

lemma fl_of_int_error:
  assumes "\<bar>n\<bar> < 2 ^ (p + j)"
  obtains m k where "fl_of_int p n = Finite m (int k)" "2 * \<bar>m * 2 ^ k - n\<bar> \<le> 2 ^ k" "k \<le> j" "\<bar>n\<bar> < 2 ^ p \<longrightarrow> k = 0 \<and> m = n"
proof -
  define k where "k = bit_length (nat \<bar>n\<bar>) - p"
  define q where "q = \<bar>n\<bar> div 2 ^ k"
  define r where "r = \<bar>n\<bar> mod 2 ^ k"
  define q' where "q' = (if 2 ^ k < 2 * r \<or> 2 ^ k = 2 * r \<and> odd q then q + 1 else q)"
  have f: "fl_of_int p n = Finite (sgn n * q') (int k)"
    by (simp add: fl_of_int_def Let_def k_def q_def r_def q'_def)
  have n: "\<bar>n\<bar> = q * 2 ^ k + r" by (simp only: q_def r_def div_mult_mod_eq)
  have r: "0 \<le> r" "r < 2 ^ k" by (simp_all add: r_def)
  have "2 * \<bar>q' * 2 ^ k - \<bar>n\<bar>\<bar> \<le> 2 ^ k"
    using r unfolding n q'_def by (auto simp: algebra_simps abs_if)
  moreover have "\<bar>sgn n * q' * 2 ^ k - n\<bar> = \<bar>q' * 2 ^ k - \<bar>n\<bar>\<bar>"
    by (cases "n = 0"; cases "0 < n") (simp_all add: n [symmetric] sgn_if abs_minus_commute q'_def q_def r_def)
  ultimately have e: "2 * \<bar>sgn n * q' * 2 ^ k - n\<bar> \<le> 2 ^ k" by simp
  have "nat \<bar>n\<bar> < 2 ^ (p + j)" using assms by (simp add: nat_less_iff)
  then have kj: "k \<le> j" using bit_length_le by (fastforce simp: k_def)
  have "k = 0 \<and> sgn n * q' = n" if "\<bar>n\<bar> < 2 ^ p"
  proof -
    have "nat \<bar>n\<bar> < 2 ^ p" using that by (simp add: nat_less_iff)
    then have "k = 0" using bit_length_le by (fastforce simp: k_def)
    moreover from this have "sgn n * q' = n" by (simp add: q'_def q_def r_def mult_sgn_abs)
    ultimately show ?thesis by simp
  qed
  then show ?thesis using that [OF f e kj] by blast
qed

lemma to_and_from:
  assumes "p < b" "k0 = k1" "\<bar>n\<bar> < 2 ^ b" "lo \<le> n" "n < hi + c" "0 < c"
    and conv: "\<And>m e. f (Finite m e) = (let t = truncated m (e + int k0) in if hi \<le> t then hi + c - 1 else if t \<le> lo then lo else t)"
    and "c \<le> 2 ^ (b - p - 1)" "\<bar>n\<bar> < 2 ^ p \<Longrightarrow> lo < n \<and> n < hi"
  shows "\<bar>f (fl_unscale k1 (fl_of_int p n)) - n\<bar> < 2 ^ (b - p)" "\<bar>n\<bar> < 2 ^ p \<Longrightarrow> f (fl_unscale k1 (fl_of_int p n)) = n"
proof -
  have "\<bar>n\<bar> < 2 ^ (p + (b - p))" using assms(1,3) by simp
  then obtain m k where r: "fl_of_int p n = Finite m (int k)" "2 * \<bar>m * 2 ^ k - n\<bar> \<le> 2 ^ k" "k \<le> b - p"
    "\<bar>n\<bar> < 2 ^ p \<longrightarrow> k = 0 \<and> m = n" by (rule fl_of_int_error)
  have "(2 :: int) ^ k \<le> 2 ^ (b - p)" using r(3) by (intro power_increasing) simp_all
  moreover have w: "(2 :: int) ^ (b - p) = 2 * 2 ^ (b - p - 1)" using assms(1) by (simp flip: power_Suc)
  ultimately have e: "\<bar>m * 2 ^ k - n\<bar> \<le> 2 ^ (b - p - 1)"
    using r(2) by (metis (no_types) dual_order.trans mult_le_cancel_left_pos zero_less_numeral)
  have t: "f (fl_unscale k1 (fl_of_int p n)) = (if hi \<le> m * 2 ^ k then hi + c - 1 else if m * 2 ^ k \<le> lo then lo else m * 2 ^ k)"
    unfolding r(1) by (simp add: conv assms(2) truncated_def Let_def)
  show "\<bar>f (fl_unscale k1 (fl_of_int p n)) - n\<bar> < 2 ^ (b - p)"
    unfolding t w using e assms(4-6,8) by (auto split: if_splits)
  show "\<bar>n\<bar> < 2 ^ p \<Longrightarrow> f (fl_unscale k1 (fl_of_int p n)) = n"
    unfolding t using r(4) assms(9) by auto
qed

text \<open>C28. The conversions from floating point truncate the exact value toward zero and saturate, so the cast
  is never out of range; only what lies in the last 128 (1024) units below the maximum is rounded up to
  it, infinities saturate, and for a number that is not one the cast is undefined.  Back and forth, a
  fixed-point value of at most 24 (53) binary digits is unchanged, any other is off by less than 256
  (2048) units in the last place.\<close>

theorem fx_float_conversions:
  fixes m e :: int and v16 :: cb_fx16_t and v32 :: cb_fx32_t
  shows "(let n = truncated m (e + 16) in map_option sint (cb_fx16_from_float (Finite m e)) =
        Some (if 2147483520 \<le> n then 2147483647 else if n \<le> - 2147483648 then - 2147483648 else n))
    \<and> (let n = truncated m (e + 32) in map_option sint (cb_fx32_from_float (Finite m e)) =
        Some (if 9223372036854774784 \<le> n then 9223372036854775807
          else if n \<le> - 9223372036854775808 then - 9223372036854775808 else n))
    \<and> cb_fx16_from_float (Infinity False) = Some CB_FX16_MAX \<and> cb_fx16_from_float (Infinity True) = Some CB_FX16_MIN
    \<and> cb_fx32_from_float (Infinity False) = Some CB_FX32_MAX \<and> cb_fx32_from_float (Infinity True) = Some CB_FX32_MIN
    \<and> cb_fx16_from_float NaN = None \<and> cb_fx32_from_float NaN = None
    \<and> (\<exists>r. cb_fx16_from_float (cb_fx16_to_float v16) = Some r \<and> \<bar>sint r - sint v16\<bar> < 256
        \<and> (r = v16 \<or> 2 ^ 24 \<le> \<bar>sint v16\<bar>))
    \<and> (\<exists>r. cb_fx32_from_float (cb_fx32_to_double v32) = Some r \<and> \<bar>sint r - sint v32\<bar> < 2048
        \<and> (r = v32 \<or> 2 ^ 53 \<le> \<bar>sint v32\<bar>))"
proof (intro conjI)
  let ?f = "\<lambda>x. sint (the (cb_fx16_from_float x))" and ?g = "\<lambda>x. sint (the (cb_fx32_from_float x))"
  have f: "?f (Finite m e) = (let t = truncated m (e + int 16) in if 2147483520 \<le> t then 2147483520 + 128 - 1
      else if t \<le> - 2147483648 then - 2147483648 else t)" for m e
    using from_float_finite(1) [of m e] by (auto simp: Let_def)
  have g: "?g (Finite m e) = (let t = truncated m (e + int 32) in if 9223372036854774784 \<le> t then 9223372036854774784 + 1024 - 1
      else if t \<le> - 9223372036854775808 then - 9223372036854775808 else t)" for m e
    using from_float_finite(2) [of m e] by (auto simp: Let_def)
  have some: "\<exists>r. cb_fx16_from_float (Finite m e) = Some r" "\<exists>r. cb_fx32_from_float (Finite m e) = Some r" for m e
    using from_float_finite [of m e] by auto
  have fin: "\<exists>m e. cb_fx16_to_float v16 = Finite m e" "\<exists>m e. cb_fx32_to_double v32 = Finite m e"
    by (simp_all add: cb_fx16_to_float_def cb_fx32_to_double_def fl_of_int_def Let_def)
  note r16 = sint32_range [of v16] and r32 = sint64_range [of v32]
  note t16 = to_and_from [where f = ?f and hi = 2147483520 and c = 128 and lo = "- 2147483648" and b = 32 and p = 24
      and n = "sint v16", OF _ _ _ _ _ _ f]
  note t32 = to_and_from [where f = ?g and hi = 9223372036854774784 and c = 1024 and lo = "- 9223372036854775808" and b = 64 and p = 53
      and n = "sint v32", OF _ _ _ _ _ _ g]
  have b16: "\<bar>?f (cb_fx16_to_float v16) - sint v16\<bar> < 2 ^ (32 - 24)"
    unfolding cb_fx16_to_float_def by (rule t16(1)) (use r16 in \<open>auto simp: abs_less_iff\<close>)
  have e16: "?f (cb_fx16_to_float v16) = sint v16" if "\<bar>sint v16\<bar> < 2 ^ 24"
    unfolding cb_fx16_to_float_def by (rule t16(2)) (use r16 that in \<open>auto simp: abs_less_iff\<close>)
  have b32: "\<bar>?g (cb_fx32_to_double v32) - sint v32\<bar> < 2 ^ (64 - 53)"
    unfolding cb_fx32_to_double_def by (rule t32(1)) (use r32 in \<open>auto simp: abs_less_iff\<close>)
  have e32: "?g (cb_fx32_to_double v32) = sint v32" if "\<bar>sint v32\<bar> < 2 ^ 53"
    unfolding cb_fx32_to_double_def by (rule t32(2)) (use r32 that in \<open>auto simp: abs_less_iff\<close>)
  obtain r where r: "cb_fx16_from_float (cb_fx16_to_float v16) = Some r" using fin some by metis
  show "\<exists>r. cb_fx16_from_float (cb_fx16_to_float v16) = Some r \<and> \<bar>sint r - sint v16\<bar> < 256 \<and> (r = v16 \<or> 2 ^ 24 \<le> \<bar>sint v16\<bar>)"
    using b16 e16 sint_eqI [of r v16] by (auto simp: r)
  obtain r where r: "cb_fx32_from_float (cb_fx32_to_double v32) = Some r" using fin some by metis
  show "\<exists>r. cb_fx32_from_float (cb_fx32_to_double v32) = Some r \<and> \<bar>sint r - sint v32\<bar> < 2048 \<and> (r = v32 \<or> 2 ^ 53 \<le> \<bar>sint v32\<bar>)"
    using b32 e32 sint_eqI [of r v32] by (auto simp: r)
qed (use from_float_finite [of m e] in \<open>simp_all add: Let_def cb_fx16_from_float_def cb_fx32_from_float_def\<close>)

end
