(* ===== verification/Fixed_Trig.thy ===== *)
theory Fixed_Trig
  imports Trig_Tables
begin

text \<open>
  The table-backed trigonometry of \<open>cbase_fixed.c\<close>: the interpolated first-quadrant sine, \<open>cb_fx16_sin\<close>, \<open>cb_fx16_cos\<close> and \<open>cb_fx16_atan2\<close>.  Angles are binary
  radians (\<open>cb_brad_t\<close>, 16 bits, a full turn is 65536), so every angle addition wraps by itself.

  The symmetries, the monotonicity and the ranges of the functions follow from the facts of the
  tables (\<open>Trig_Tables\<close>).
\<close>

section \<open>Definitions\<close>

definition CB_BRAD_HALF :: cb_brad_t where "CB_BRAD_HALF = 32768"
definition CB_BRAD_QUARTER :: cb_brad_t where "CB_BRAD_QUARTER = 16384"

definition cb__sin_q1 :: "u32 \<Rightarrow> cb_fx16_t" where
  "cb__sin_q1 pos =
     (if 16384 \<le> pos then CB_FX16_ONE
      else
        let idx = drop_bit 4 pos;
            frac = pos AND 15;
            a = cb__sin_lut ! unat idx;
            b = cb__sin_lut ! unat (idx + 1);
            diff = b - a
        in a + sdiv_word (diff * frac) 16)"

definition cb_fx16_sin :: "cb_brad_t \<Rightarrow> cb_fx16_t" where
  "cb_fx16_sin angle =
     (let a = (ucast angle :: u32);
          quadrant = drop_bit 14 a;
          pos = a AND 0x3FFF;
          v = (if quadrant AND 1 = 0 then cb__sin_q1 pos else cb__sin_q1 (16384 - pos))
      in if 2 \<le> quadrant then - v else v)"

definition cb_fx16_cos :: "cb_brad_t \<Rightarrow> cb_fx16_t" where
  "cb_fx16_cos angle = cb_fx16_sin (ucast ((ucast angle :: u32) + ucast CB_BRAD_QUARTER))"

definition cb_fx16_atan2 :: "cb_fx16_t \<Rightarrow> cb_fx16_t \<Rightarrow> cb_brad_t" where
  "cb_fx16_atan2 y x =
     (if x = 0 \<and> y = 0 then 0
      else if x = 0 then (if 0 <s y then CB_BRAD_QUARTER else CB_BRAD_HALF + CB_BRAD_QUARTER)
      else if y = 0 then (if 0 <s x then 0 else CB_BRAD_HALF)
      else
        let ax = cb_fx16_abs x;
            ay = cb_fx16_abs y;
            (small, large, complement) = (if ax <s ay then (ax, ay, True) else (ay, ax, False));
            t = cb_fx16_div small large;
            tu = t;
            idx = drop_bit 8 tu;
            frac = tu AND 0xFF;
            (a_val, b_val, frac) =
              (if 256 \<le> idx
               then (ucast (cb__atan_lut ! 256) :: i32, ucast (cb__atan_lut ! 256), 0)
               else (ucast (cb__atan_lut ! unat idx), ucast (cb__atan_lut ! unat (idx + 1)), frac));
            diff = b_val - a_val;
            res_i = a_val + sdiv_word (diff * frac) 256;
            res = res_i;
            res = (if complement then ucast CB_BRAD_QUARTER - res else res);
            res = (if x <s 0 then ucast CB_BRAD_HALF - res else res);
            res = (if y <s 0 then (if res = 0 then 0 else 65536 - res) else res)
        in ucast (res AND 0xFFFF))"

section \<open>The first quadrant\<close>

definition sin_q1 :: "nat \<Rightarrow> int" where
  "sin_q1 p =
     (if 16384 \<le> p then 65536
      else sin_table ! (p div 16)
        + (sin_table ! Suc (p div 16) - sin_table ! (p div 16)) * int (p mod 16) div 16)"

lemma sin_table_range: "i \<le> 1024 \<Longrightarrow> 0 \<le> sin_table ! i \<and> sin_table ! i \<le> 65536"
  using steps_upto_mono [OF sin_table_facts(2), of 0 i] steps_upto_mono [OF sin_table_facts(2), of i 1024]
  by (simp add: sin_table_facts)

lemma sin_table_step:
  "i < 1024 \<Longrightarrow> sin_table ! i \<le> sin_table ! Suc i \<and> sin_table ! Suc i - sin_table ! i \<le> 101"
  using steps_upto_nth [OF sin_table_facts(2), of i] by (simp add: sin_table_facts)

lemma sint_sin_lut: "i \<le> 1024 \<Longrightarrow> sint (cb__sin_lut ! i) = sin_table ! i"
  using sin_table_range [of i]
  by (simp add: cb__sin_lut_def sin_table_facts del: One_nat_def)
    (subst sint_of_int_fits, simp_all add: fits_def)

lemma unat_and_15: "unat (x AND 15 :: u32) = unat x mod 16"
proof -
  have "x AND 15 = take_bit 4 x" by (simp add: take_bit_eq_mask mask_eq_exp_minus_1)
  then show ?thesis by (simp only: unsigned_take_bit_eq) (simp add: take_bit_eq_mod)
qed

lemma unat_shift_4: "unat (drop_bit 4 (x :: u32)) = unat x div 16"
  by (simp only: unat_drop_bit_eq) (simp add: drop_bit_eq_div)

lemma sint_sin_q1: "sint (cb__sin_q1 pos) = sin_q1 (unat pos)"
proof (cases "16384 \<le> pos")
  case True
  then show ?thesis by (simp add: cb__sin_q1_def sin_q1_def cint word_le_nat_alt)
next
  case False
  define i f where "i = unat pos div 16" and "f = unat pos mod 16"
  have i: "i < 1024" using False by (simp add: i_def word_le_nat_alt)
  have f: "sint (pos AND 15) = int f" "f \<le> 15"
    by (simp_all add: sint_of_small unat_and_15 f_def)
  have idx: "unat (drop_bit 4 pos) = i" "unat (drop_bit 4 pos + 1) = Suc i"
    using i by (simp_all only: unat_shift_4 i_def unat_word_ariths) simp_all
  let ?a = "cb__sin_lut ! i" and ?b = "cb__sin_lut ! Suc i"
  let ?A = "sin_table ! i" and ?B = "sin_table ! Suc i"
  have ab: "sint ?a = ?A" "sint ?b = ?B" using i by (simp_all add: sint_sin_lut)
  have r: "0 \<le> ?A" "?A \<le> 65536" "?A \<le> ?B" "?B - ?A \<le> 101"
    using sin_table_range [of i] sin_table_step [of i] i by simp_all
  have d: "sint (?b - ?a) = ?B - ?A" using r by (subst sint_sub_fits) (simp_all add: ab fits_def)
  have df: "0 \<le> (?B - ?A) * int f" using r by simp
  have df': "(?B - ?A) * int f \<le> 101 * 15" using r f(2) by (intro mult_mono) simp_all
  note df = df df'
  have p: "sint ((?b - ?a) * (pos AND 15)) = (?B - ?A) * int f"
    using df by (subst sint_mult_fits) (simp_all add: d f fits_def)
  have q: "sint (sdiv_word ((?b - ?a) * (pos AND 15)) 16) = (?B - ?A) * int f div 16"
    using df by (subst sint_sdiv_word) (simp_all add: p signed_divide_int_def sgn_if)
  obtain e where e: "(?B - ?A) * int f div 16 = e" "0 \<le> e" "e \<le> 101"
    using df zdiv_mono1 [OF df(2), of 16] by (simp add: pos_imp_zdiv_nonneg_iff)
  have "sint (?a + sdiv_word ((?b - ?a) * (pos AND 15)) 16) = ?A + (?B - ?A) * int f div 16"
    using r e by (subst sint_add_fits) (simp_all add: ab q fits_def)
  then show ?thesis
    using False unfolding cb__sin_q1_def Let_def idx sin_q1_def i_def [symmetric] f_def [symmetric]
    by (simp add: word_le_nat_alt)
qed

lemma part_le: "0 \<le> (d :: int) \<Longrightarrow> d * 15 div 16 \<le> d"
  by linarith

text \<open>One step of the angle never lowers the interpolated sine.\<close>

lemma sin_q1_Suc: "sin_q1 p \<le> sin_q1 (Suc p)"
proof (cases "16383 \<le> p")
  case True
  have pos: "0 \<le> sin_table ! Suc 1023 - sin_table ! 1023" using sin_table_step [of 1023] by simp
  have "sin_q1 16383 = sin_table ! 1023 + (sin_table ! Suc 1023 - sin_table ! 1023) * 15 div 16"
    by (simp add: sin_q1_def)
  moreover from part_le [OF pos] have "(sin_table ! Suc 1023 - sin_table ! 1023) * 15 div 16
      \<le> sin_table ! Suc 1023 - sin_table ! 1023" .
  moreover have "sin_table ! Suc 1023 = 65536" using sin_table_facts(4) by simp
  ultimately have "sin_q1 16383 \<le> 65536" by simp
  moreover have "sin_q1 (Suc p) = 65536" "p \<noteq> 16383 \<Longrightarrow> sin_q1 p = 65536"
    using True by (simp_all add: sin_q1_def)
  ultimately show ?thesis by (cases "p = 16383") simp_all
next
  case False
  define i f where "i = p div 16" and "f = p mod 16"
  have i: "i < 1024" using False by (simp add: i_def)
  have d: "0 \<le> sin_table ! Suc i - sin_table ! i" using sin_table_step [OF i] by simp
  show ?thesis
  proof (cases "f = 15")
    case True
    then have "Suc p div 16 = Suc i" "Suc p mod 16 = 0"
      by (simp_all add: i_def f_def div_Suc mod_Suc)
    moreover have "(sin_table ! Suc i - sin_table ! i) * 15 div 16 \<le> sin_table ! Suc i - sin_table ! i"
      using d by (rule part_le)
    ultimately show ?thesis
      using False True by (simp add: sin_q1_def i_def [symmetric] f_def [symmetric])
  next
    case False
    then have "Suc p div 16 = i" "Suc p mod 16 = Suc f"
      by (simp_all add: i_def f_def div_Suc mod_Suc)
    moreover have "(sin_table ! Suc i - sin_table ! i) * int f div 16
        \<le> (sin_table ! Suc i - sin_table ! i) * int (Suc f) div 16"
      using d by (intro zdiv_mono1 mult_left_mono) simp_all
    ultimately show ?thesis
      using \<open>\<not> 16383 \<le> p\<close> by (simp add: sin_q1_def i_def [symmetric] f_def [symmetric])
  qed
qed

lemma sin_q1_mono: "p \<le> q \<Longrightarrow> sin_q1 p \<le> sin_q1 q"
  by (rule lift_Suc_mono_le [of sin_q1, OF sin_q1_Suc])

lemma sin_q1_ends: "sin_q1 0 = 0" "sin_q1 16384 = 65536"
  by (simp_all add: sin_q1_def sin_table_facts)

lemma sin_q1_range: "0 \<le> sin_q1 p" "sin_q1 p \<le> 65536"
  using sin_q1_mono [of 0 p] sin_q1_mono [of p "max p 16384"]
  by (simp_all add: sin_q1_ends) (simp add: sin_q1_def)

section \<open>The full turn\<close>

text \<open>The function that \<open>cb_fx16_sin\<close> computes, on the angle as a number below 65536.\<close>

definition sin_brad :: "nat \<Rightarrow> int" where
  "sin_brad n =
     (let p = n mod 16384;
          v = (if even (n div 16384) then sin_q1 p else sin_q1 (16384 - p))
      in if 2 \<le> n div 16384 then - v else v)"

lemma unat_angle_parts:
  fixes angle :: u16
  shows "unat (drop_bit 14 (ucast angle :: u32)) = unat angle div 16384"
    and "unat ((ucast angle :: u32) AND 0x3FFF) = unat angle mod 16384"
proof -
  have u: "unat (ucast angle :: u32) = unat angle"
    using unsigned_less [where 'a = nat, of angle]
    by (simp only: unsigned_ucast_eq) (simp add: take_bit_eq_mod)
  show "unat (drop_bit 14 (ucast angle :: u32)) = unat angle div 16384"
    by (simp only: unat_drop_bit_eq u) (simp add: drop_bit_eq_div)
  have "(ucast angle :: u32) AND 0x3FFF = take_bit 14 (ucast angle)"
    by (simp add: take_bit_eq_mask mask_eq_exp_minus_1)
  then show "unat ((ucast angle :: u32) AND 0x3FFF) = unat angle mod 16384"
    by (simp only: unsigned_take_bit_eq u) (simp add: take_bit_eq_mod)
qed

lemma word_and_1_even: "(q :: u32) AND 1 = 0 \<longleftrightarrow> even (unat q)"
proof -
  have "q AND 1 = take_bit 1 q" by (simp add: take_bit_eq_mask)
  then have "unat (q AND 1) = unat q mod 2"
    by (simp only: unsigned_take_bit_eq) (simp add: take_bit_eq_mod)
  then show ?thesis by (metis even_iff_mod_2_eq_zero unat_eq_0)
qed

lemma sint_fx16_sin: "sint (cb_fx16_sin angle) = sin_brad (unat angle)"
proof -
  define a where "a = (ucast angle :: u32)"
  have q: "unat (drop_bit 14 a) = unat angle div 16384" and p: "unat (a AND 0x3FFF) = unat angle mod 16384"
    by (simp_all only: a_def unat_angle_parts)
  have m: "unat (16384 - (a AND 0x3FFF)) = 16384 - unat angle mod 16384"
  proof -
    have "unat (a AND 0x3FFF) \<le> unat (16384 :: u32)" by (simp only: p) simp
    then have "unat (16384 - (a AND 0x3FFF)) = unat (16384 :: u32) - unat (a AND 0x3FFF)"
      by (simp only: unat_sub word_le_nat_alt)
    then show ?thesis by (simp only: p) simp
  qed
  have neg: "sint (- cb__sin_q1 x) = - sint (cb__sin_q1 x)" for x
    using sin_q1_range [of "unat x"] by (subst sint_minus_fits) (simp_all add: sint_sin_q1 fits_def)
  have two: "2 \<le> drop_bit 14 a \<longleftrightarrow> 2 \<le> unat angle div 16384"
    by (simp only: word_le_nat_alt q) simp
  show ?thesis
    unfolding cb_fx16_sin_def Let_def a_def [symmetric] two word_and_1_even q sin_brad_def
    by (simp only: if_distrib [where f = sint] if_distrib [where f = uminus] neg sint_sin_q1 p m
        if_distrib [where f = "\<lambda>x. - x"] split: if_splits)
qed

lemma sin_brad_half: "n < 32768 \<Longrightarrow> sin_brad (n + 32768) = - sin_brad n"
proof -
  assume "n < 32768"
  moreover have "(n + 32768) mod 16384 = n mod 16384" "(n + 32768) div 16384 = n div 16384 + 2"
    using mod_mult_self1 [of n 2 16384] div_mult_self1 [of 16384 n 2] by simp_all
  moreover from calculation(1) have "n div 16384 < 2" by simp
  ultimately show ?thesis by (simp add: sin_brad_def Let_def)
qed

lemma sin_brad_mirror: "n \<le> 16384 \<Longrightarrow> sin_brad (32768 - n) = sin_q1 n"
proof -
  assume n: "n \<le> 16384"
  consider "n = 0" | "0 < n" "n < 16384" | "n = 16384" using n by linarith
  then show ?thesis
  proof cases
    case 2
    obtain k where k: "n = 16384 - k" "0 < k" "k < 16384" using 2 by (metis diff_diff_cancel diff_less less_imp_le zero_less_diff)
    have e: "32768 - n = 16384 + k" "16384 - k = n" using k by simp_all
    have "(16384 + k) div 16384 = 1" "(16384 + k) mod 16384 = k" using k(3) by simp_all
    then show ?thesis unfolding sin_brad_def Let_def e(1) by (simp only: e(2)) simp
  qed (simp_all add: sin_brad_def sin_q1_ends)
qed

lemma sin_brad_first: "n \<le> 16384 \<Longrightarrow> sin_brad n = sin_q1 n"
  by (cases "n = 16384") (simp_all add: sin_brad_def sin_q1_ends)

lemma sin_brad_range: "- 65536 \<le> sin_brad n \<and> sin_brad n \<le> 65536"
  using sin_q1_range [of "n mod 16384"] sin_q1_range [of "16384 - n mod 16384"]
  by (simp add: sin_brad_def Let_def)

lemma unat_u16_half: "unat (a + 32768 :: u16) = (if unat a < 32768 then unat a + 32768 else unat a - 32768)"
  using unsigned_less [where 'a = nat, of a] by (simp add: unat_word_ariths mod_if)

lemma sin_half_turn: "cb_fx16_sin (a + 32768) = - cb_fx16_sin a"
proof (rule sint_eqI)
  have n: "sint (- cb_fx16_sin a) = - sint (cb_fx16_sin a)"
    using sin_brad_range [of "unat a"] by (subst sint_minus_fits) (simp_all add: sint_fx16_sin fits_def)
  have "sin_brad (if unat a < 32768 then unat a + 32768 else unat a - 32768) = - sin_brad (unat a)"
    using sin_brad_half [of "unat a"] sin_brad_half [of "unat a - 32768"]
      unsigned_less [where 'a = nat, of a] by auto
  then show "sint (cb_fx16_sin (a + 32768)) = sint (- cb_fx16_sin a)"
    by (simp only: n sint_fx16_sin unat_u16_half)
qed

lemma sin_supplement_low:
  assumes "unat (a :: u16) \<le> 32768"
  shows "cb_fx16_sin (32768 - a) = cb_fx16_sin a"
proof (rule sint_eqI)
  have u: "unat (32768 - a) = 32768 - unat a"
    using assms by (subst unat_sub) (simp_all add: word_le_nat_alt)
  have "sin_brad (32768 - unat a) = sin_brad (unat a)"
  proof (cases "unat a \<le> 16384")
    case True
    then show ?thesis by (simp add: sin_brad_mirror sin_brad_first)
  next
    case False
    then show ?thesis
      using sin_brad_mirror [of "32768 - unat a"] sin_brad_first [of "32768 - unat a"] assms by simp
  qed
  then show "sint (cb_fx16_sin (32768 - a)) = sint (cb_fx16_sin a)"
    by (simp only: sint_fx16_sin u)
qed

lemma sin_supplement: "cb_fx16_sin (32768 - a) = cb_fx16_sin a"
proof (cases "unat a \<le> 32768")
  case True
  then show ?thesis by (rule sin_supplement_low)
next
  case False
  define b where "b = a + 32768"
  have b: "unat b \<le> 32768" using False unsigned_less [where 'a = nat, of a] by (simp add: b_def unat_u16_half)
  have "(32768 - a) + 32768 = 32768 - b" "a = b + 32768" by (simp_all add: b_def)
  then show ?thesis
    using sin_supplement_low [OF b] sin_half_turn [of "32768 - a"] sin_half_turn [of b]
    by (metis minus_minus)
qed

lemma sin_odd: "cb_fx16_sin (- a) = - cb_fx16_sin a"
  using sin_supplement [of "a + 32768"] sin_half_turn [of a] by simp

lemma cos_eq_sin: "cb_fx16_cos a = cb_fx16_sin (a + 16384)"
proof -
  have "unat (ucast ((ucast a :: u32) + ucast CB_BRAD_QUARTER) :: u16) = unat (a + 16384)"
    using unsigned_less [where 'a = nat, of a]
    by (simp only: unsigned_ucast_eq unat_word_ariths) (simp add: take_bit_eq_mod CB_BRAD_QUARTER_def)
  then show ?thesis by (simp only: cb_fx16_cos_def word_unat_eq_iff [symmetric])
qed

section \<open>The arc tangent\<close>

text \<open>The interpolated arc tangent of \<open>t / 2^16\<close> for \<open>t \<le> 2^16\<close>.\<close>

definition atan_oct :: "nat \<Rightarrow> int" where
  "atan_oct t =
     (if 65536 \<le> t then 8192
      else atan_table ! (t div 256)
        + (atan_table ! Suc (t div 256) - atan_table ! (t div 256)) * int (t mod 256) div 256)"

definition ratio :: "i32 \<Rightarrow> i32 \<Rightarrow> nat" where
  "ratio small large = nat (sint small) * 65536 div nat (sint large)"

text \<open>The table part of the source on its own: from \<open>t\<close> to \<open>res_i\<close>.\<close>

definition atan_lookup :: "cb_fx16_t \<Rightarrow> u32" where
  "atan_lookup t =
     (let (a_val, b_val, frac) =
        (if 256 \<le> drop_bit 8 t
         then (ucast (cb__atan_lut ! 256) :: i32, ucast (cb__atan_lut ! 256), 0)
         else (ucast (cb__atan_lut ! unat (drop_bit 8 t)),
               ucast (cb__atan_lut ! unat (drop_bit 8 t + 1)), t AND 0xFF))
      in a_val + sdiv_word ((b_val - a_val) * frac) 256)"

lemma atan_table_range: "i \<le> 256 \<Longrightarrow> 0 \<le> atan_table ! i \<and> atan_table ! i \<le> 8192"
  using steps_upto_mono [OF atan_table_facts(2), of 0 i] steps_upto_mono [OF atan_table_facts(2), of i 256]
  by (simp add: atan_table_facts)

lemma atan_table_step:
  "i < 256 \<Longrightarrow> atan_table ! i \<le> atan_table ! Suc i \<and> atan_table ! Suc i - atan_table ! i \<le> 41"
  using steps_upto_nth [OF atan_table_facts(2), of i] by (simp add: atan_table_facts)

lemma sint_atan_lut: "i \<le> 256 \<Longrightarrow> sint (ucast (cb__atan_lut ! i) :: i32) = atan_table ! i"
proof -
  assume i: "i \<le> 256"
  have u: "uint (cb__atan_lut ! i) = atan_table ! i"
    using i atan_table_range [OF i]
    by (simp add: cb__atan_lut_def atan_table_facts uint_word_of_int)
  then have "uint (ucast (cb__atan_lut ! i) :: i32) = atan_table ! i"
    using atan_table_range [OF i]
    by (simp only: unsigned_ucast_eq) (simp add: take_bit_eq_mod)
  then show ?thesis
    using atan_table_range [OF i] by (subst sint_small_uint) simp_all
qed

lemma unat_and_255: "unat (x AND 0xFF :: u32) = unat x mod 256"
proof -
  have "x AND 0xFF = take_bit 8 x" by (simp add: take_bit_eq_mask mask_eq_exp_minus_1)
  then show ?thesis by (simp only: unsigned_take_bit_eq) (simp add: take_bit_eq_mod)
qed

lemma unat_shift_8: "unat (drop_bit 8 (x :: u32)) = unat x div 256"
  by (simp only: unat_drop_bit_eq) (simp add: drop_bit_eq_div)

lemma sint_atan_lookup:
  assumes "unat t \<le> 65536"
  shows "sint (atan_lookup t) = atan_oct (unat t)"
proof (cases "unat t = 65536")
  case True
  then have "256 \<le> drop_bit 8 t" by (simp only: word_le_nat_alt unat_shift_8) simp
  moreover have "sint (sdiv_word ((x - x) * 0) 256 :: i32) = 0" for x :: i32
    by (subst sint_sdiv_word) simp_all
  then have "sdiv_word ((x - x) * 0) 256 = (0 :: i32)" for x :: i32
    using sint_eq_iff [of "sdiv_word ((x - x) * 0) 256" "0 :: i32"] by simp
  ultimately show ?thesis
    using True sint_atan_lut [of 256] by (simp add: atan_lookup_def atan_oct_def atan_table_facts)
next
  case False
  define i f where "i = unat t div 256" and "f = unat t mod 256"
  have i: "i < 256" using False assms by (simp add: i_def)
  have n: "\<not> 256 \<le> drop_bit 8 t" using i by (simp only: word_le_nat_alt unat_shift_8 i_def) simp
  have f: "sint (t AND 0xFF) = int f" "f \<le> 255"
    by (simp_all add: sint_of_small unat_and_255 f_def)
  have idx: "unat (drop_bit 8 t) = i" "unat (drop_bit 8 t + 1) = Suc i"
    using i by (simp_all only: unat_shift_8 i_def unat_word_ariths) simp_all
  let ?a = "ucast (cb__atan_lut ! i) :: i32" and ?b = "ucast (cb__atan_lut ! Suc i) :: i32"
  let ?A = "atan_table ! i" and ?B = "atan_table ! Suc i"
  have ab: "sint ?a = ?A" "sint ?b = ?B" using i by (simp_all add: sint_atan_lut)
  have r: "0 \<le> ?A" "?A \<le> 8192" "?A \<le> ?B" "?B - ?A \<le> 41"
    using atan_table_range [of i] atan_table_step [of i] i by simp_all
  have d: "sint (?b - ?a) = ?B - ?A" using r by (subst sint_sub_fits) (simp_all add: ab fits_def)
  have df: "0 \<le> (?B - ?A) * int f" using r by simp
  have df': "(?B - ?A) * int f \<le> 41 * 255" using r f(2) by (intro mult_mono) simp_all
  have p: "sint ((?b - ?a) * (t AND 0xFF)) = (?B - ?A) * int f"
    using df df' by (subst sint_mult_fits) (simp_all add: d f fits_def)
  have q: "sint (sdiv_word ((?b - ?a) * (t AND 0xFF)) 256) = (?B - ?A) * int f div 256"
    using df df' by (subst sint_sdiv_word) (simp_all add: p signed_divide_int_def sgn_if)
  obtain e where e: "(?B - ?A) * int f div 256 = e" "0 \<le> e" "e \<le> 41"
    using df zdiv_mono1 [OF df', of 256] by (simp add: pos_imp_zdiv_nonneg_iff)
  have "sint (?a + sdiv_word ((?b - ?a) * (t AND 0xFF)) 256) = ?A + (?B - ?A) * int f div 256"
    using r e by (subst sint_add_fits) (simp_all add: ab q fits_def)
  then show ?thesis
    using False assms n unfolding atan_lookup_def Let_def idx atan_oct_def i_def [symmetric] f_def [symmetric]
    by simp
qed

lemma part_le_255: "0 \<le> (d :: int) \<Longrightarrow> d * 255 div 256 \<le> d"
  by linarith

lemma add_le_diff: "(k :: int) \<le> b - a \<Longrightarrow> a + k \<le> b"
  by simp

lemma frac_mono: "0 \<le> (d :: int) \<Longrightarrow> d * int f div 256 \<le> d * int (Suc f) div 256"
  by (rule zdiv_mono1, rule mult_left_mono) simp_all

lemma suc_ne_256: "n \<noteq> 255 \<Longrightarrow> (Suc n = 256) = False"
  by simp

lemma atan_oct_Suc: "atan_oct p \<le> atan_oct (Suc p)"
proof (cases "65536 \<le> p")
  case False
  define i f where "i = p div 256" and "f = p mod 256"
  have i: "i < 256" using False by (simp add: i_def)
  have d: "0 \<le> atan_table ! Suc i - atan_table ! i" using atan_table_step [OF i] by simp
  show ?thesis
  proof (cases "f = 255")
    case True
    then have s: "Suc p div 256 = Suc i" "Suc p mod 256 = 0"
      by (simp_all add: i_def f_def div_Suc mod_Suc)
    have le: "(atan_table ! Suc i - atan_table ! i) * 255 div 256 \<le> atan_table ! Suc i - atan_table ! i"
      using d by (rule part_le_255)
    have "atan_table ! Suc i = 8192" if "65536 \<le> Suc p"
    proof -
      have "i = 255" using that False by (simp add: i_def)
      then show ?thesis using atan_table_facts(4) by simp
    qed
    have o: "atan_oct p = atan_table ! i + (atan_table ! Suc i - atan_table ! i) * 255 div 256"
      unfolding atan_oct_def if_not_P [OF False] i_def [symmetric] f_def [symmetric] True
      by (simp only: of_nat_numeral)
    have n: "atan_oct (Suc p) = atan_table ! Suc i"
      using \<open>65536 \<le> Suc p \<Longrightarrow> atan_table ! Suc i = 8192\<close>
      by (simp only: atan_oct_def s of_nat_0 mult_zero_right div_0 add_0_right split: if_split) simp
    show ?thesis unfolding o n using le by (rule add_le_diff)
  next
    case f: False
    then have n: "(Suc (p mod 256) = 256) = False" unfolding f_def by (rule suc_ne_256)
    have s: "Suc p div 256 = i" "Suc p mod 256 = Suc f"
      unfolding i_def f_def div_Suc mod_Suc n by simp_all
    have "\<not> 65536 \<le> Suc p" 
    proof
      assume "65536 \<le> Suc p"
      then have "p = 65535" using False by linarith
      then show False using f by (simp add: f_def)
    qed
    moreover have "(atan_table ! Suc i - atan_table ! i) * int f div 256
        \<le> (atan_table ! Suc i - atan_table ! i) * int (Suc f) div 256"
      using d by (rule frac_mono)
    ultimately show ?thesis
      using False by (simp only: atan_oct_def s i_def [symmetric] f_def [symmetric] if_False add_left_mono)
  qed
qed (simp add: atan_oct_def)

lemma atan_oct_mono: "p \<le> q \<Longrightarrow> atan_oct p \<le> atan_oct q"
  by (rule lift_Suc_mono_le [of atan_oct, OF atan_oct_Suc])

lemma atan_oct_range: "0 \<le> atan_oct p" "atan_oct p \<le> 8192"
  using atan_oct_mono [of 0 p] atan_oct_mono [of p "max p 65536"]
  by (simp_all add: atan_oct_def atan_table_facts)


text \<open>The angle in the first quadrant, from the magnitudes of the two coordinates.\<close>

definition first_octants :: "i32 \<Rightarrow> i32 \<Rightarrow> int" where
  "first_octants y x = (if sint x < sint y then 16384 - atan_oct (ratio x y) else atan_oct (ratio y x))"

lemma atan_oct_ends: "atan_oct 0 = 0" "atan_oct 65536 = 8192"
  by (simp_all add: atan_oct_def atan_table_facts)

lemma first_octants_range: "0 \<le> first_octants y x" "first_octants y x \<le> 16384"
  using atan_oct_range [of "ratio x y"] atan_oct_range [of "ratio y x"] by (simp_all add: first_octants_def)

lemma ratio_zero: "ratio 0 l = 0" by (simp add: ratio_def)

lemma quo_in_unit:
  assumes "0 \<le> (s :: int)" "s \<le> l" "0 < l"
  shows "0 \<le> s * 65536 div l" "s * 65536 div l \<le> 65536"
proof -
  have "s * 65536 div l \<le> l * 65536 div l" using assms by (intro zdiv_mono1) simp_all
  then show "s * 65536 div l \<le> 65536" using assms by simp
  show "0 \<le> s * 65536 div l" using assms by (simp add: pos_imp_zdiv_nonneg_iff)
qed

lemma unat_unit_div:
  assumes "0 \<le> sint s" "sint s \<le> sint l" "0 < sint l"
  shows "unat (cb_fx16_div s l) = ratio s l" "ratio s l \<le> 65536"
proof -
  note q = quo_in_unit [OF assms]
  have "l \<noteq> 0" using assms by auto
  then have "sint (cb_fx16_div s l) = sat 32 (sint s * 65536 sdiv sint l)" by (rule sint_fx16_div)
  also have "sint s * 65536 sdiv sint l = sint s * 65536 div sint l"
    using assms by (auto simp: signed_divide_int_def sgn_if)
  also have "sat 32 \<dots> = sint s * 65536 div sint l" using q by (simp add: sat32)
  finally have d: "sint (cb_fx16_div s l) = sint s * 65536 div sint l" .
  have r: "ratio s l = nat (sint s * 65536 div sint l)"
    using assms by (simp add: ratio_def nat_div_distrib nat_mult_distrib)
  show "unat (cb_fx16_div s l) = ratio s l"
    using q by (subst sint_pos_unat) (simp_all only: d r)
  show "ratio s l \<le> 65536" using q(2) by (simp add: r nat_le_iff)
qed

lemma take_bit_16_32_diff: "take_bit 16 (take_bit 32 a - take_bit 32 b) = take_bit 16 (a - b :: int)"
proof -
  have "take_bit 16 (take_bit 16 (take_bit 32 a) - take_bit 16 (take_bit 32 b)) = take_bit 16 (a - b)"
    by (simp add: take_bit_diff)
  then show ?thesis by (simp only: take_bit_diff)
qed

lemma low16_sub:
  "(ucast ((a - b :: u32) AND 0xFFFF) :: u16) = ucast a - ucast b"
proof -
  have "(a - b) AND 0xFFFF = take_bit 16 (a - b)" by (simp add: take_bit_eq_mask mask_eq_exp_minus_1)
  moreover have "(ucast (take_bit 16 (a - b)) :: u16) = ucast a - ucast b"
    by transfer (simp add: take_bit_16_32_diff)
  ultimately show ?thesis by simp
qed

lemma low16: "(ucast ((a :: u32) AND 0xFFFF) :: u16) = ucast a"
  using low16_sub [of a 0] by simp

lemma low16_atan_lookup:
  assumes "0 \<le> sint s" "sint s \<le> sint l" "0 < sint l"
  shows "(ucast (atan_lookup (cb_fx16_div s l)) :: u16) = word_of_int (atan_oct (ratio s l))"
proof -
  note d = unat_unit_div [OF assms]
  have "sint (atan_lookup (cb_fx16_div s l)) = atan_oct (ratio s l)"
    using sint_atan_lookup d by simp
  then have "uint (atan_lookup (cb_fx16_div s l)) = atan_oct (ratio s l)"
    using atan_oct_range(1) by (metis sint_nonneg_uint)
  then show ?thesis by (metis ucast_eq)
qed

lemma abs_pos: "v \<noteq> 0 \<Longrightarrow> 0 < sint (cb_fx16_abs v)" "0 \<le> sint (cb_fx16_abs v)"
  using sint_eq_iff [of v 0] by (auto simp: sint_fx16_abs sat32)

lemma abs_zero: "cb_fx16_abs 0 = 0"
  by (rule sint_eqI) (simp add: sint_fx16_abs sat32)

lemma abs_minus: "v \<noteq> CB_FX16_MIN \<Longrightarrow> cb_fx16_abs (- v) = cb_fx16_abs v"
proof -
  assume "v \<noteq> CB_FX16_MIN"
  then have "sint v \<noteq> - 2147483648" using sint_eq_iff [of v CB_FX16_MIN] by (simp add: cint)
  then have "fits 32 (- sint v)" using sint32_range [of v] by (simp add: fits_def)
  then show ?thesis by (intro sint_eqI) (simp add: sint_fx16_abs sint_minus_fits)
qed

lemma atan2_general:
  "cb_fx16_atan2 y x =
    (let r = word_of_int (first_octants (cb_fx16_abs y) (cb_fx16_abs x));
         r' = (if x <s 0 then 32768 - r else r)
     in if y <s 0 then - r' else r')"
proof (cases "x = 0 \<or> y = 0")
  case True
  have y0: "first_octants (cb_fx16_abs y) 0 = 16384" if "y \<noteq> 0"
    using abs_pos(1) [OF that] by (simp add: first_octants_def ratio_zero atan_oct_ends)
  have x0: "first_octants 0 (cb_fx16_abs x) = 0"
    using abs_pos(2) [of x] by (simp add: first_octants_def ratio_zero atan_oct_ends)
  have sg: "(v <s 0) = (\<not> 0 <s v)" if "v \<noteq> 0" for v :: i32
    using that sint_eq_iff [of v 0] by (auto simp: word_sless_alt)
  show ?thesis
  proof (cases "x = 0")
    case x: True
    show ?thesis
    proof (cases "y = 0")
      case True
      then show ?thesis
        using x by (simp add: cb_fx16_atan2_def abs_zero first_octants_def ratio_zero atan_oct_ends)
    next
      case y: False
      then show ?thesis
        using x by (simp add: cb_fx16_atan2_def abs_zero y0 sg CB_BRAD_QUARTER_def CB_BRAD_HALF_def)
    qed
  next
    case x: False
    then have "y = 0" using True by simp
    then show ?thesis
      using x by (simp add: cb_fx16_atan2_def abs_zero x0 sg CB_BRAD_HALF_def)
  qed
next
  case False
  then have nz: "x \<noteq> 0" "y \<noteq> 0" by simp_all
  define ax ay where "ax = cb_fx16_abs x" and "ay = cb_fx16_abs y"
  have pos: "0 < sint ax" "0 < sint ay" unfolding ax_def ay_def by (rule abs_pos(1), fact)+
  define s l where "s = (if ax <s ay then ax else ay)" and "l = (if ax <s ay then ay else ax)"
  have sl: "0 \<le> sint s" "sint s \<le> sint l" "0 < sint l"
    using pos by (auto simp: s_def l_def word_sless_alt)
  define w where "w = atan_lookup (cb_fx16_div s l)"
  have w: "(ucast w :: u16) = word_of_int (atan_oct (ratio s l))"
    unfolding w_def by (rule low16_atan_lookup [OF sl])
  define q where "q = (if ax <s ay then ucast CB_BRAD_QUARTER - w else w)"
  define h where "h = (if x <s 0 then ucast CB_BRAD_HALF - q else q)"
  have "cb_fx16_atan2 y x = ucast ((if y <s 0 then (if h = 0 then 0 else 65536 - h) else h) AND 0xFFFF)"
    unfolding h_def q_def w_def s_def l_def
    by (cases "ax <s ay")
      (simp_all only: cb_fx16_atan2_def atan_lookup_def Let_def case_prod_beta nz if_False if_True
        simp_thms fst_conv snd_conv ax_def ay_def)
  also have "\<dots> = (if y <s 0 then - ucast h else ucast h)"
    using low16_sub [of 65536 h] by (simp add: low16)
  also have "ucast h = (if x <s 0 then 32768 - ucast q else ucast q :: u16)"
    using low16_sub [of "ucast CB_BRAD_HALF" q] by (simp add: h_def low16 CB_BRAD_HALF_def)
  also have "ucast q = (word_of_int (first_octants ay ax) :: u16)"
    using low16_sub [of "ucast CB_BRAD_QUARTER" w] w
    by (auto simp: q_def low16 CB_BRAD_QUARTER_def first_octants_def s_def l_def word_sless_alt)
  finally show ?thesis by (simp add: Let_def ax_def ay_def)
qed

lemma ratio_mono: "sint y \<le> sint y' \<Longrightarrow> ratio y x \<le> ratio y' x"
  unfolding ratio_def by (intro div_le_mono mult_le_mono1 nat_mono)

lemma ratio_antimono: "0 < sint y \<Longrightarrow> sint y \<le> sint y' \<Longrightarrow> ratio x y' \<le> ratio x y"
  unfolding ratio_def by (rule div_le_mono2) simp_all

lemma first_octants_mono:
  assumes "0 \<le> sint x" "0 \<le> sint y" "sint y \<le> sint y'"
  shows "first_octants y x \<le> first_octants y' x"
proof (cases "sint x < sint y")
  case True
  then have "atan_oct (ratio x y') \<le> atan_oct (ratio x y)"
    using assms by (intro atan_oct_mono ratio_antimono) simp_all
  then show ?thesis using True assms by (simp add: first_octants_def)
next
  case False
  show ?thesis
  proof (cases "sint x < sint y'")
    case True
    then show ?thesis
      using False atan_oct_range(2) [of "ratio x y'"] atan_oct_range(2) [of "ratio y x"]
      by (simp add: first_octants_def)
  next
    case b: False
    then show ?thesis
      using False atan_oct_mono [OF ratio_mono [OF assms(3)]] by (simp add: first_octants_def)
  qed
qed

lemma ratio_self: "0 < sint x \<Longrightarrow> ratio x x = 65536" by (simp add: ratio_def)

lemma first_octants_swap:
  assumes "0 \<le> sint x" "0 \<le> sint y" "x \<noteq> 0 \<or> y \<noteq> 0"
  shows "first_octants x y = 16384 - first_octants y x"
proof (cases "sint x = sint y")
  case True
  then have "x = y" "0 < sint x"
    using assms sint_eq_iff [of x y] sint_eq_iff [of x 0] by (auto simp: sint_eq_iff)
  then show ?thesis by (simp add: first_octants_def ratio_self atan_oct_ends)
qed (simp add: first_octants_def)

lemma abs_nonneg: "0 \<le> sint v \<Longrightarrow> cb_fx16_abs v = v"
  using sint32_range [of v] by (intro sint_eqI) (simp add: sint_fx16_abs sat32)

lemma atan2_first: 
  assumes "0 \<le> sint x" "0 \<le> sint y"
  shows "cb_fx16_atan2 y x = word_of_int (first_octants y x)"
  using assms by (simp add: atan2_general abs_nonneg Let_def word_sless_alt)

lemma uint_atan2_first:
  assumes "0 \<le> sint x" "0 \<le> sint y"
  shows "uint (cb_fx16_atan2 y x) = first_octants y x"
  using first_octants_range [of y x] assms by (simp add: atan2_first uint_word_of_int)

text \<open>The angle of every point from the first-quadrant angle \<open>r\<close> of its magnitudes: as a signed number in
  the right half plane, as an unsigned one in the left.\<close>

lemma sint_atan2_right:
  assumes "0 <=s x"
  shows "sint (cb_fx16_atan2 y x) = (if y <s 0 then - first_octants (cb_fx16_abs y) x else first_octants (cb_fx16_abs y) x)"
proof -
  have nn: "0 \<le> sint x" "\<not> x <s 0" using assms by (simp_all add: word_sle_eq word_sless_alt)
  define r where "r = first_octants (cb_fx16_abs y) x"
  have r: "0 \<le> r" "r \<le> 16384" unfolding r_def by (rule first_octants_range)+
  have "cb_fx16_atan2 y x = (if y <s 0 then word_of_int (- r) else word_of_int r)"
    using nn by (simp add: atan2_general abs_nonneg r_def Let_def)
  moreover have "sint (word_of_int v :: u16) = v" if "- 16384 \<le> v" "v \<le> 16384" for v
    using that by (simp add: sint_sbintrunc' signed_take_bit_int_eq_self)
  ultimately have "sint (cb_fx16_atan2 y x) = (if y <s 0 then - r else r)" using r by (simp only: split: if_split) simp
  then show ?thesis by (simp only: r_def)
qed

lemma quarter_below:
  assumes "- 16384 \<le> sint (a :: cb_brad_t)" "sint a \<le> 0"
  shows "49152 \<le> uint a \<or> a = 0"
proof -
  have "uint a = sint a mod 65536" using uint_sint [of a] by (simp add: take_bit_eq_mod)
  moreover have "sint a mod 65536 = sint a + 65536" if "sint a < 0"
    using that assms mod_pos_pos_trivial [of "sint a + 65536" 65536] by simp
  ultimately show ?thesis using assms sint_eq_iff [of a 0] by (cases "sint a < 0") auto
qed

lemma uint_atan2_left:
  assumes "x <s 0"
  shows "uint (cb_fx16_atan2 y x) =
    (if y <s 0 then 32768 + first_octants (cb_fx16_abs y) (cb_fx16_abs x) else 32768 - first_octants (cb_fx16_abs y) (cb_fx16_abs x))"
proof -
  define r where "r = first_octants (cb_fx16_abs y) (cb_fx16_abs x)"
  have r: "0 \<le> r" "r \<le> 16384" unfolding r_def by (rule first_octants_range)+
  have "cb_fx16_atan2 y x = (if y <s 0 then word_of_int (32768 + r) else word_of_int (32768 - r))"
  proof -
    have "- (32768 - word_of_int r :: u16) = word_of_int (32768 + r)"
      using word_of_int_2p_len [where 'a = 16] by (simp add: wi_hom_syms(1) [symmetric] algebra_simps)
    then show ?thesis using assms by (simp add: atan2_general r_def [symmetric] Let_def)
  qed
  moreover have "uint (word_of_int v :: u16) = v" if "0 \<le> v" "v < 65536" for v
    using that by (simp add: uint_word_of_int)
  ultimately have "uint (cb_fx16_atan2 y x) = (if y <s 0 then 32768 + r else 32768 - r)" using r by (simp only: split: if_split) simp
  then show ?thesis by (simp only: r_def)
qed

text \<open>The magnitude falls with the coordinate below the axis and rises with it above.\<close>

lemma abs_order:
  assumes "sint y \<le> sint y'"
  shows "0 \<le> sint y \<Longrightarrow> sint (cb_fx16_abs y) \<le> sint (cb_fx16_abs y')"
    "sint y' < 0 \<Longrightarrow> sint (cb_fx16_abs y') \<le> sint (cb_fx16_abs y)"
  using assms sint32_range [of y] sint32_range [of y'] by (auto simp: sint_fx16_abs sat32)

lemma octants_order:
  assumes "sint y \<le> sint y'" "0 \<le> sint l"
  shows "0 \<le> sint y \<Longrightarrow> first_octants (cb_fx16_abs y) l \<le> first_octants (cb_fx16_abs y') l"
    "sint y' < 0 \<Longrightarrow> first_octants (cb_fx16_abs y') l \<le> first_octants (cb_fx16_abs y) l"
  using abs_order [OF assms(1)] first_octants_mono assms(2) abs_pos(2) by blast+

lemma atan2_order:
  assumes "y <=s y'"
  shows "0 <=s x \<Longrightarrow> cb_fx16_atan2 y x <=s cb_fx16_atan2 y' x"
    "x <s 0 \<Longrightarrow> cb_fx16_atan2 y' x \<le> cb_fx16_atan2 y x"
proof -
  have y: "sint y \<le> sint y'" using assms by (simp add: word_sle_eq)
  note r = first_octants_range
  show "cb_fx16_atan2 y x <=s cb_fx16_atan2 y' x" if x: "0 <=s x"
  proof -
    have "0 \<le> sint x" using x by (simp add: word_sle_eq)
    then show ?thesis
      using octants_order [OF y, of x] y r(1) [of "cb_fx16_abs y" x] r(1) [of "cb_fx16_abs y'" x]
      unfolding word_sle_eq sint_atan2_right [OF x] word_sless_alt by auto
  qed
  show "cb_fx16_atan2 y' x \<le> cb_fx16_atan2 y x" if x: "x <s 0"
    using octants_order [OF y abs_pos(2) [of x]] y
      r(1) [of "cb_fx16_abs y" "cb_fx16_abs x"] r(1) [of "cb_fx16_abs y'" "cb_fx16_abs x"]
    unfolding word_le_def uint_atan2_left [OF x] word_sless_alt by auto
qed

section \<open>Properties\<close>

text \<open>Sine and cosine obey the symmetries of the circle at every one of the 65536 angles:
  a half turn negates them, the sine of the supplement is the same and of the opposite angle the
  negation, the cosine leads the sine by a quarter turn, is even, and is negated by the supplement.\<close>

lemma fx16_sin_cos_symmetries:
  "cb_fx16_sin (a + CB_BRAD_HALF) = - cb_fx16_sin a
    \<and> cb_fx16_cos (a + CB_BRAD_HALF) = - cb_fx16_cos a
    \<and> cb_fx16_sin (CB_BRAD_HALF - a) = cb_fx16_sin a
    \<and> cb_fx16_sin (- a) = - cb_fx16_sin a
    \<and> cb_fx16_cos (- a) = cb_fx16_cos a
    \<and> cb_fx16_cos (CB_BRAD_HALF - a) = - cb_fx16_cos a
    \<and> cb_fx16_cos a = cb_fx16_sin (a + CB_BRAD_QUARTER)
    \<and> cb_fx16_sin a = cb_fx16_cos (CB_BRAD_QUARTER - a)"
proof -
  have even: "cb_fx16_cos (- b) = cb_fx16_cos b" for b
    using sin_supplement [of "b + 16384"] by (simp add: cos_eq_sin)
  have half: "cb_fx16_cos (b + 32768) = - cb_fx16_cos b" for b
    using sin_half_turn [of "b + 16384"] by (simp add: cos_eq_sin add.commute add.left_commute)
  have "cb_fx16_cos (32768 - a) = - cb_fx16_cos a"
    using half [of "- a"] even [of a] by simp
  moreover have "cb_fx16_cos (16384 - a) = cb_fx16_sin a"
    using sin_supplement [of a] by (simp add: cos_eq_sin)
  ultimately show ?thesis
    using half even sin_half_turn sin_supplement sin_odd
    by (simp add: cos_eq_sin CB_BRAD_HALF_def CB_BRAD_QUARTER_def)
qed

text \<open>Sine and cosine stay within one on both sides and take the exact values 0, 1, 0, -1
  (and 1, 0, -1, 0) at the four quadrant boundaries.\<close>

lemma fx16_sin_cos_range:
  "\<bar>sint (cb_fx16_sin a)\<bar> \<le> sint CB_FX16_ONE \<and> \<bar>sint (cb_fx16_cos a)\<bar> \<le> sint CB_FX16_ONE
    \<and> cb_fx16_sin 0 = 0 \<and> cb_fx16_sin CB_BRAD_QUARTER = CB_FX16_ONE
    \<and> cb_fx16_sin CB_BRAD_HALF = 0 \<and> cb_fx16_sin (CB_BRAD_HALF + CB_BRAD_QUARTER) = - CB_FX16_ONE
    \<and> cb_fx16_cos 0 = CB_FX16_ONE \<and> cb_fx16_cos CB_BRAD_QUARTER = 0
    \<and> cb_fx16_cos CB_BRAD_HALF = - CB_FX16_ONE \<and> cb_fx16_cos (CB_BRAD_HALF + CB_BRAD_QUARTER) = 0"
proof -
  have r: "\<bar>sint (cb_fx16_sin b)\<bar> \<le> 65536" for b
    using sin_brad_range [of "unat b"] by (simp add: sint_fx16_sin abs_le_iff)
  have z: "cb_fx16_sin 0 = 0"
    by (rule sint_eqI) (simp add: sint_fx16_sin sin_brad_first sin_q1_ends)
  have q: "cb_fx16_sin 16384 = CB_FX16_ONE"
    by (rule sint_eqI) (simp add: sint_fx16_sin sin_brad_first sin_q1_ends cint)
  have h: "cb_fx16_sin 32768 = 0" using sin_half_turn [of 0] z by simp
  have t: "cb_fx16_sin 49152 = - CB_FX16_ONE" using sin_half_turn [of 16384] q by simp
  have w: "(65536 :: u16) = 0" by simp
  show ?thesis
    using r z q h t by (simp add: w cos_eq_sin CB_BRAD_HALF_def CB_BRAD_QUARTER_def cint)
qed

text \<open>The interpolated sine never decreases on the first quadrant and, with it, the cosine
  never increases there: stepping from one table segment to the next loses no monotonicity.\<close>

lemma fx16_sin_cos_monotone:
  assumes "a \<le> b" "b \<le> CB_BRAD_QUARTER"
  shows "cb_fx16_sin a <=s cb_fx16_sin b \<and> cb_fx16_cos b <=s cb_fx16_cos a"
proof -
  have ab: "unat a \<le> unat b" "unat b \<le> 16384" "unat a \<le> 16384"
    using assms by (simp_all add: CB_BRAD_QUARTER_def word_le_nat_alt)
  have c: "cb_fx16_cos x = cb_fx16_sin (16384 - x)" for x
    using sin_supplement [of "x + 16384"] by (simp add: cos_eq_sin)
  have u: "unat (16384 - x :: u16) = 16384 - unat x" if "unat x \<le> 16384" for x
    using that by (simp add: unat_sub word_le_nat_alt)
  have "sin_q1 (16384 - unat b) \<le> sin_q1 (16384 - unat a)" using ab by (intro sin_q1_mono) simp
  then show ?thesis
    using ab sin_q1_mono [OF ab(1)]
    by (simp add: word_sle_eq sint_fx16_sin sin_brad_first c u)
qed

lemma fx16_sin_cos_monotone_witness:
  "cb_fx16_sin 1000 <=s cb_fx16_sin 9000 \<and> cb_fx16_cos 9000 <=s cb_fx16_cos 1000"
  by (rule fx16_sin_cos_monotone) (simp_all add: CB_BRAD_QUARTER_def)

text \<open>The arc tangent respects the reflections of the plane: across the x axis it is negated,
  across the y axis it becomes the supplement, and across the diagonal of the first quadrant the
  complement.  The coordinates that cannot be negated (the least value) and the origin are excluded,
  as the code returns 0 at the origin.\<close>

lemma fx16_atan2_reflections:
  "(y \<noteq> CB_FX16_MIN \<longrightarrow> cb_fx16_atan2 (- y) x = - cb_fx16_atan2 y x)
    \<and> (x \<noteq> CB_FX16_MIN \<and> (x \<noteq> 0 \<or> y \<noteq> 0) \<longrightarrow> cb_fx16_atan2 y (- x) = CB_BRAD_HALF - cb_fx16_atan2 y x)
    \<and> (0 <=s x \<and> 0 <=s y \<and> (x \<noteq> 0 \<or> y \<noteq> 0) \<longrightarrow> cb_fx16_atan2 x y = CB_BRAD_QUARTER - cb_fx16_atan2 y x)"
proof (intro conjI impI)
  have neg: "(- v <s 0) = (\<not> v <s 0)" if "v \<noteq> 0" "v \<noteq> CB_FX16_MIN" for v :: i32
  proof -
    have "sint v \<noteq> 0" "sint v \<noteq> - 2147483648"
      using that sint_eq_iff [of v 0] sint_eq_iff [of v CB_FX16_MIN] by (simp_all add: cint)
    then show ?thesis
      using sint32_range [of v] by (auto simp: word_sless_alt sint_minus_fits fits_def)
  qed
  have y0: "cb_fx16_atan2 0 x = (if x <s 0 then 32768 else 0)" for x
    using abs_pos(2) [of x]
    by (simp add: atan2_general abs_zero first_octants_def ratio_zero atan_oct_ends)
  show "cb_fx16_atan2 (- y) x = - cb_fx16_atan2 y x" if "y \<noteq> CB_FX16_MIN"
  proof (cases "y = 0")
    case True
    then show ?thesis by (simp add: y0)
  next
    case False
    then show ?thesis using neg [OF _ that] by (simp add: atan2_general abs_minus that Let_def)
  qed
  show "cb_fx16_atan2 y (- x) = CB_BRAD_HALF - cb_fx16_atan2 y x"
    if "x \<noteq> CB_FX16_MIN \<and> (x \<noteq> 0 \<or> y \<noteq> 0)"
  proof (cases "x = 0")
    case True
    then have "y \<noteq> 0" using that by simp
    then show ?thesis
      using True abs_pos(1) [of y]
      by (simp add: atan2_general abs_zero first_octants_def ratio_zero atan_oct_ends Let_def CB_BRAD_HALF_def)
  next
    case False
    then show ?thesis
      using neg [OF False] that by (simp add: atan2_general abs_minus Let_def CB_BRAD_HALF_def)
  qed
  show "cb_fx16_atan2 x y = CB_BRAD_QUARTER - cb_fx16_atan2 y x"
    if "0 <=s x \<and> 0 <=s y \<and> (x \<noteq> 0 \<or> y \<noteq> 0)"
    using that by (simp add: word_sle_eq atan2_first first_octants_swap CB_BRAD_QUARTER_def)
qed

lemma fx16_atan2_reflections_witness:
  "cb_fx16_atan2 (- 65536) 131072 = - cb_fx16_atan2 65536 131072
    \<and> cb_fx16_atan2 65536 (- 131072) = CB_BRAD_HALF - cb_fx16_atan2 65536 131072
    \<and> cb_fx16_atan2 131072 65536 = CB_BRAD_QUARTER - cb_fx16_atan2 65536 131072"
  using fx16_atan2_reflections [of 65536 131072] by (simp add: CB_FX16_MIN_def word_sle_eq)

text \<open>C29. The arc tangent puts every point into its quadrant (an angle that rounds to zero from below is
  0) and is exact on the four half axes and on the four diagonals; the origin gets 0.  As the point rises,
  the angle never decreases in the right half plane, read as a signed number, and never increases in the
  left half plane, read as an unsigned one, also where the code switches from one octant formula to the
  other.  Across the x axis the angle is negated, across the y axis it becomes the supplement, and across
  the diagonal of the first quadrant the complement; the least value of a coordinate, which cannot be
  negated, is excepted there.\<close>

lemma fx16_atan2_quadrants:
  assumes "y <=s y'"
  shows "(0 <=s x \<longrightarrow> cb_fx16_atan2 y x <=s cb_fx16_atan2 y' x)
    \<and> (x <s 0 \<longrightarrow> cb_fx16_atan2 y' x \<le> cb_fx16_atan2 y x)
    \<and> (0 <=s x \<and> 0 <=s y \<longrightarrow> cb_fx16_atan2 y x \<le> CB_BRAD_QUARTER)
    \<and> (x <s 0 \<and> 0 <=s y \<longrightarrow> CB_BRAD_QUARTER \<le> cb_fx16_atan2 y x \<and> cb_fx16_atan2 y x \<le> CB_BRAD_HALF)
    \<and> (x <s 0 \<and> y <s 0 \<longrightarrow> CB_BRAD_HALF \<le> cb_fx16_atan2 y x \<and> cb_fx16_atan2 y x \<le> CB_BRAD_HALF + CB_BRAD_QUARTER)
    \<and> (0 <=s x \<and> y <s 0 \<longrightarrow> CB_BRAD_HALF + CB_BRAD_QUARTER \<le> cb_fx16_atan2 y x \<or> cb_fx16_atan2 y x = 0)
    \<and> cb_fx16_atan2 0 0 = 0 \<and> (0 <s x \<longrightarrow> cb_fx16_atan2 0 x = 0) \<and> (x <s 0 \<longrightarrow> cb_fx16_atan2 0 x = CB_BRAD_HALF)
    \<and> (0 <s y \<longrightarrow> cb_fx16_atan2 y 0 = CB_BRAD_QUARTER) \<and> (y <s 0 \<longrightarrow> cb_fx16_atan2 y 0 = CB_BRAD_HALF + CB_BRAD_QUARTER)
    \<and> (0 <s y \<longrightarrow> cb_fx16_atan2 y y = 8192 \<and> cb_fx16_atan2 y (- y) = CB_BRAD_HALF - 8192
        \<and> cb_fx16_atan2 (- y) (- y) = CB_BRAD_HALF + 8192 \<and> cb_fx16_atan2 (- y) y = - 8192)
    \<and> (y \<noteq> CB_FX16_MIN \<longrightarrow> cb_fx16_atan2 (- y) x = - cb_fx16_atan2 y x)
    \<and> (x \<noteq> CB_FX16_MIN \<and> (x \<noteq> 0 \<or> y \<noteq> 0) \<longrightarrow> cb_fx16_atan2 y (- x) = CB_BRAD_HALF - cb_fx16_atan2 y x)
    \<and> (0 <=s x \<and> 0 <=s y \<and> (x \<noteq> 0 \<or> y \<noteq> 0) \<longrightarrow> cb_fx16_atan2 x y = CB_BRAD_QUARTER - cb_fx16_atan2 y x)"
proof -
  note quarter = CB_BRAD_QUARTER_def and half = CB_BRAD_HALF_def
  note left = uint_atan2_left [of x y] and right = sint_atan2_right [of x y]
  note r = first_octants_range [of "cb_fx16_abs y" "cb_fx16_abs x"] and r' = first_octants_range [of "cb_fx16_abs y" x]
  have q: "0 <=s x \<and> 0 <=s y \<longrightarrow> cb_fx16_atan2 y x \<le> CB_BRAD_QUARTER"
    using first_octants_range [of y x] by (simp add: word_sle_eq word_le_def uint_atan2_first quarter)
  have axes: "cb_fx16_atan2 0 0 = 0" "0 <s x \<longrightarrow> cb_fx16_atan2 0 x = 0" "x <s 0 \<longrightarrow> cb_fx16_atan2 0 x = CB_BRAD_HALF"
    "0 <s y \<longrightarrow> cb_fx16_atan2 y 0 = CB_BRAD_QUARTER" "y <s 0 \<longrightarrow> cb_fx16_atan2 y 0 = CB_BRAD_HALF + CB_BRAD_QUARTER"
    unfolding cb_fx16_atan2_def word_sless_alt by simp_all
  have cs: "uint CB_BRAD_QUARTER = 16384" "uint CB_BRAD_HALF = 32768" "uint (CB_BRAD_HALF + CB_BRAD_QUARTER) = 49152"
    by (simp_all add: quarter half)
  have l: "x <s 0 \<and> 0 <=s y \<longrightarrow> CB_BRAD_QUARTER \<le> cb_fx16_atan2 y x \<and> cb_fx16_atan2 y x \<le> CB_BRAD_HALF"
    "x <s 0 \<and> y <s 0 \<longrightarrow> CB_BRAD_HALF \<le> cb_fx16_atan2 y x \<and> cb_fx16_atan2 y x \<le> CB_BRAD_HALF + CB_BRAD_QUARTER"
    using left r by (simp_all add: word_le_def cs word_sle_eq word_sless_alt)
  have b: "0 <=s x \<and> y <s 0 \<longrightarrow> CB_BRAD_HALF + CB_BRAD_QUARTER \<le> cb_fx16_atan2 y x \<or> cb_fx16_atan2 y x = 0"
    using right r' quarter_below [of "cb_fx16_atan2 y x"] by (auto simp: cs word_le_def)
  have diag: "cb_fx16_atan2 y y = 8192 \<and> cb_fx16_atan2 y (- y) = CB_BRAD_HALF - 8192
      \<and> cb_fx16_atan2 (- y) (- y) = CB_BRAD_HALF + 8192 \<and> cb_fx16_atan2 (- y) y = - 8192" if p: "0 <s y"
  proof -
    have "0 < sint y" "y \<noteq> 0" "y \<noteq> CB_FX16_MIN" using p by (auto simp: word_sless_alt cint)
    moreover from this have "cb_fx16_atan2 y y = 8192"
      by (simp add: atan2_first first_octants_def ratio_self atan_oct_ends)
    ultimately show ?thesis
      using fx16_atan2_reflections [of y y] fx16_atan2_reflections [of y "- y"] by (simp add: half)
  qed
  have o: "0 <=s x \<longrightarrow> cb_fx16_atan2 y x <=s cb_fx16_atan2 y' x" "x <s 0 \<longrightarrow> cb_fx16_atan2 y' x \<le> cb_fx16_atan2 y x"
    using atan2_order [OF assms] by blast+
  note refl = fx16_atan2_reflections [of y x]
  show ?thesis
    by (intro conjI o q l b axes impI [OF diag] refl [THEN conjunct1] refl [THEN conjunct2, THEN conjunct1]
        refl [THEN conjunct2, THEN conjunct2])
qed

lemma fx16_atan2_quadrants_witness:
  "cb_fx16_atan2 65536 131072 <=s cb_fx16_atan2 200000 131072
    \<and> cb_fx16_atan2 200000 (- 131072) \<le> cb_fx16_atan2 65536 (- 131072)
    \<and> CB_BRAD_QUARTER \<le> cb_fx16_atan2 65536 (- 131072) \<and> cb_fx16_atan2 (- 65536) (- 65536) = CB_BRAD_HALF + 8192"
  using fx16_atan2_quadrants [of 65536 200000 131072] fx16_atan2_quadrants [of 65536 200000 "- 131072"]
  by (simp add: word_sle_eq word_sless_alt)

end
