(* ===== verification/Rng_Pcg32.thy ===== *)
theory Rng_Pcg32
  imports Info Fixed16 Trig_Tables
begin

unbundle bit_operations_syntax

text \<open>
  The generator of \<open>cbase_random.c\<close>: PCG32, a 64-bit linear congruential step followed by the
  XSH-RR output permutation.  This theory holds the state, the seeding and the draws of whole
  words, and shows two facts about the generator itself: the step has full period \<open>2^64\<close> for
  every odd increment, and over one period every 32-bit output occurs equally often.

  The locale \<open>u32_source\<close> is what the rejection loop of \<open>Rng_Bounded\<close> relies on: draws
  keep the state good, and every output recurs from every good state.
\<close>

section \<open>Definitions\<close>

record cb_rng_t =
  rng_info :: cb_info_t
  rng_state :: u64
  rng_inc :: u64

definition CB__PCG_MULT :: u64 where "CB__PCG_MULT = 6364136223846793005"

definition cb__pcg_step :: "cb_rng_t \<Rightarrow> cb_rng_t" where
  "cb__pcg_step rng = rng\<lparr>rng_state := rng_state rng * CB__PCG_MULT + rng_inc rng\<rparr>"

definition cb__pcg_output :: "u64 \<Rightarrow> u32" where
  "cb__pcg_output state =
     (let xs = ucast (drop_bit 27 (drop_bit 18 state XOR state)) :: u32;
          rot = ucast (drop_bit 59 state) :: u32;
          shr = rot;
          shl = (32 - rot) AND 31
      in ucast (ucast (drop_bit (unat shr) xs) OR push_bit (unat shl) (ucast xs :: u64)))"

definition cb_rng_seed :: "u64 \<Rightarrow> u64 \<Rightarrow> cb_rng_t" where
  "cb_rng_seed seed stream =
     (let rng = \<lparr>rng_info = CB_INFO_OK, rng_state = 0, rng_inc = push_bit 1 stream OR 1\<rparr>;
          rng = cb__pcg_step rng;
          rng = rng\<lparr>rng_state := rng_state rng + seed\<rparr>
      in cb__pcg_step rng)"

definition cb_rng_u32 :: "cb_rng_t \<Rightarrow> u32 \<times> cb_rng_t" where
  "cb_rng_u32 rng =
     (let old = rng_state rng;
          rng = cb__pcg_step rng
      in (cb__pcg_output old, rng))"

definition cb_rng_u64 :: "cb_rng_t \<Rightarrow> u64 \<times> cb_rng_t" where
  "cb_rng_u64 rng =
     (let (high, rng) = cb_rng_u32 rng;
          (low, rng) = cb_rng_u32 rng
      in (push_bit 32 (ucast high) OR ucast low, rng))"

definition cb_rng_brad :: "cb_rng_t \<Rightarrow> cb_brad_t \<times> cb_rng_t" where
  "cb_rng_brad rng = (let (u, rng) = cb_rng_u32 rng in (ucast (drop_bit 16 u), rng))"

definition cb_rng_bool :: "cb_rng_t \<Rightarrow> bool \<times> cb_rng_t" where
  "cb_rng_bool rng = (let (u, rng) = cb_rng_u32 rng in (drop_bit 31 u \<noteq> 0, rng))"

definition cb_rng_fx16_unit :: "cb_rng_t \<Rightarrow> cb_fx16_t \<times> cb_rng_t" where
  "cb_rng_fx16_unit rng = (let (u, rng) = cb_rng_u32 rng in (drop_bit 16 u, rng))"

definition cb_rng_chance_fx16 :: "cb_rng_t \<Rightarrow> cb_fx16_t \<Rightarrow> bool \<times> cb_rng_t" where
  "cb_rng_chance_fx16 rng probability =
     (if probability <=s 0 then (False, rng)
      else if CB_FX16_ONE <=s probability then (True, rng)
      else let (u, rng) = cb_rng_fx16_unit rng in (u <s probability, rng))"

section \<open>The linear congruential step has full period\<close>

definition lcg :: "u64 \<Rightarrow> u64 \<Rightarrow> u64" where
  "lcg c x = x * CB__PCG_MULT + c"

text \<open>\<open>geo a n\<close> is \<open>1 + a + ... + a^(n-1)\<close>.\<close>

fun geo :: "int \<Rightarrow> nat \<Rightarrow> int" where
  "geo a 0 = 0"
| "geo a (Suc n) = geo a n * a + 1"

lemma geo_pow: "geo a n * (a - 1) = a ^ n - 1"
  by (induction n) (simp_all add: algebra_simps)

lemma geo_add: "geo a (m + n) = geo a m * a ^ n + geo a n"
  by (induction n) (simp_all add: algebra_simps)

lemma geo_double: "geo a (2 * m) = geo a m * (a ^ m + 1)"
  unfolding mult_2 geo_add by (simp add: algebra_simps)

lemma pow_mod_4:
  assumes "a mod 4 = (1 :: int)" shows "a ^ m mod 4 = 1"
proof -
  have "a ^ m mod 4 = (a mod 4) ^ m mod 4" by (simp only: power_mod)
  then show ?thesis by (simp add: assms)
qed

lemma geo_parity:
  assumes "a mod 4 = (1 :: int)" shows "even (geo a n) = even n"
proof -
  have "odd a" using assms by presburger
  then show ?thesis by (induction n) simp_all
qed

lemma dvd_double_odd:
  assumes "b mod 4 = (2 :: int)"
  shows "2 ^ Suc k dvd s * b \<longleftrightarrow> 2 ^ k dvd s"
proof -
  obtain h where h: "b = 2 * h" "odd h"
  proof
    show "b = 2 * (b div 2)" "odd (b div 2)" using assms by presburger+
  qed
  have "2 ^ Suc k dvd s * b \<longleftrightarrow> 2 * 2 ^ k dvd 2 * (s * h)" by (simp add: h(1) ac_simps)
  also have "\<dots> \<longleftrightarrow> 2 ^ k dvd s * h" by (rule dvd_mult_cancel_left [THEN trans]) simp
  also have "\<dots> \<longleftrightarrow> 2 ^ k dvd s"
    using h(2) by (intro coprime_dvd_mult_left_iff) simp
  finally show ?thesis .
qed

lemma geo_dvd:
  assumes a: "a mod 4 = (1 :: int)"
  shows "2 ^ k dvd geo a n \<longleftrightarrow> 2 ^ k dvd n"
proof (induction k arbitrary: n)
  case (Suc k)
  show ?case
  proof (cases "even n")
    case True
    then obtain m where n: "n = 2 * m" by blast
    have "(a ^ m + 1) mod 4 = (a ^ m mod 4 + 1) mod 4" by (simp only: mod_simps)
    then have "(a ^ m + 1) mod 4 = 2" by (simp add: pow_mod_4 [OF a])
    then have "2 ^ Suc k dvd geo a n \<longleftrightarrow> 2 ^ k dvd geo a m"
      unfolding n geo_double by (rule dvd_double_odd)
    also have "\<dots> \<longleftrightarrow> 2 ^ Suc k dvd n" unfolding Suc.IH by (simp add: n)
    finally show ?thesis .
  next
    case False
    then have "odd (geo a n)" using geo_parity [OF a] by simp
    moreover have "\<not> 2 ^ Suc k dvd j" if "odd j" for j :: int
      using that dvd_trans [of 2 "2 ^ Suc k" j] by auto
    moreover have "\<not> 2 ^ Suc k dvd n"
      using False dvd_trans [of 2 "2 ^ Suc k" n] by auto
    ultimately show ?thesis by blast
  qed
qed simp

lemma lcg_iter:
  "(lcg c ^^ n) x = word_of_int (uint x * uint CB__PCG_MULT ^ n + uint c * geo (uint CB__PCG_MULT) n)"
  by (induction n) (simp_all add: lcg_def algebra_simps)

lemma lcg_cycle:
  assumes "odd c"
  shows "(lcg c ^^ n) x = x \<longleftrightarrow> 2 ^ 64 dvd n"
proof -
  define a where "a = uint CB__PCG_MULT"
  have a4: "a mod 4 = 1" by (simp add: a_def CB__PCG_MULT_def)
  define u where "u = uint x * (a - 1) + uint c"
  have "odd (uint c)" using assms by transfer (simp add: even_take_bit_eq)
  moreover have "even (a - 1)" using a4 by presburger
  ultimately have "odd u" by (simp add: u_def)
  have "(lcg c ^^ n) x = x \<longleftrightarrow> word_of_int (uint x * a ^ n + uint c * geo a n) = (word_of_int (uint x) :: u64)"
    by (simp add: lcg_iter a_def)
  also have "\<dots> \<longleftrightarrow> 2 ^ 64 dvd (uint x * a ^ n + uint c * geo a n) - uint x"
    by (simp only: word_of_int_eq_iff take_bit_eq_mod mod_eq_dvd_iff) simp
  also have "(uint x * a ^ n + uint c * geo a n) - uint x = geo a n * u"
    using arg_cong [OF geo_pow [of a n], of "(*) (uint x)"] by (simp add: u_def algebra_simps)
  also have "2 ^ 64 dvd geo a n * u \<longleftrightarrow> 2 ^ 64 dvd geo a n"
    using \<open>odd u\<close>
    by (intro coprime_dvd_mult_left_iff) (simp only: coprime_power_left_iff coprime_left_2_iff_odd simp_thms)
  also have "\<dots> \<longleftrightarrow> 2 ^ 64 dvd n" by (rule geo_dvd [OF a4])
  finally show ?thesis .
qed


lemma bij_lcg: "bij (lcg c)"
proof -
  have "inj (lcg c)"
  proof (rule injI)
    fix x y assume "lcg c x = lcg c y"
    then have "x * CB__PCG_MULT = y * CB__PCG_MULT" by (simp add: lcg_def)
    then have "x * (CB__PCG_MULT * 13877824140714322085) = y * (CB__PCG_MULT * 13877824140714322085)"
      by (simp only: mult.assoc [symmetric])
    moreover have "CB__PCG_MULT * 13877824140714322085 = 1"
      by (simp add: CB__PCG_MULT_def)
    ultimately show "x = y" by (simp only: mult_1_right)
  qed
  then show ?thesis by (simp add: finite_UNIV_inj_surj bij_def)
qed

lemma lcg_orbit_inj:
  assumes "odd c"
  shows "inj_on (\<lambda>n. (lcg c ^^ n) x) {..< 2 ^ 64}"
proof (rule linorder_inj_onI)
  fix m n :: nat
  assume mn: "m < n" "m \<in> {..< 2 ^ 64}" "n \<in> {..< 2 ^ 64}"
  show "(lcg c ^^ m) x \<noteq> (lcg c ^^ n) x"
  proof
    assume eq: "(lcg c ^^ m) x = (lcg c ^^ n) x"
    have "(lcg c ^^ n) x = (lcg c ^^ m) ((lcg c ^^ (n - m)) x)"
      using mn(1) by (metis comp_apply funpow_add le_add_diff_inverse less_imp_le)
    with eq have "x = (lcg c ^^ (n - m)) x"
      using bij_lcg [of c] by (metis bij_fn bij_is_inj inj_eq)
    then have "2 ^ 64 dvd n - m" using lcg_cycle [OF assms] by metis
    then show False using mn by (auto dest!: dvd_imp_le)
  qed
qed (rule linear)

lemma lcg_reaches:
  assumes "odd c"
  shows "\<exists>n < 2 ^ 64. (lcg c ^^ n) x = y"
proof -
  let ?o = "\<lambda>n. (lcg c ^^ n) x"
  have "card (?o ` {..< 2 ^ 64}) = 2 ^ 64" by (simp only: card_image [OF lcg_orbit_inj [OF assms]] card_lessThan)
  then have "?o ` {..< 2 ^ 64} = UNIV" by (intro card_subset_eq) (simp_all add: card_word)
  then have "y \<in> ?o ` {..< 2 ^ 64}" by simp
  then show ?thesis by blast
qed

lemma step_lcg: "cb__pcg_step rng = rng\<lparr>rng_state := lcg (rng_inc rng) (rng_state rng)\<rparr>"
  by (simp add: cb__pcg_step_def lcg_def)

lemma snd_u32: "snd (cb_rng_u32 rng) = cb__pcg_step rng"
  by (simp add: cb_rng_u32_def)

lemma step_iter:
  "(cb__pcg_step ^^ n) rng = rng\<lparr>rng_state := (lcg (rng_inc rng) ^^ n) (rng_state rng)\<rparr>"
  by (induction n) (simp_all add: step_lcg)

section \<open>The output permutation is equidistributed\<close>

text \<open>The output is the rotation that PCG's XSH-RR names, so the two-part shift of the source is
  a rotation for every amount, 0 included.\<close>

definition xsh :: "u64 \<Rightarrow> u64" where
  "xsh s = drop_bit 18 s XOR s"

definition rr :: "u64 \<Rightarrow> u32" where
  "rr v = word_rotr (unat (drop_bit 59 v)) (ucast (drop_bit 27 v))"


lemma rotate_shift: "unat ((32 - r :: u32) AND 31) = (32 - unat r) mod 32" if "unat r < 32"
proof -
  have "(32 - r) AND 31 = take_bit 5 (32 - r)" by (simp add: take_bit_eq_mask mask_eq_exp_minus_1)
  then have "unat ((32 - r) AND 31) = unat (32 - r) mod 32"
    by (simp only: unsigned_take_bit_eq) (simp add: take_bit_eq_mod)
  then show ?thesis using that by (simp add: unat_sub word_le_nat_alt)
qed

lemma rotate_split:
  assumes "r < 32"
  shows "ucast (ucast (drop_bit r (x :: u32)) OR push_bit ((32 - r) mod 32) (ucast x :: u64)) = word_rotr r x"
proof (rule bit_word_eqI)
  fix n assume "n < LENGTH(32)"
  then have n: "n < 32" by simp
  show "bit (ucast (ucast (drop_bit r x) OR push_bit ((32 - r) mod 32) (ucast x :: u64)) :: u32) n = bit (word_rotr r x) n"
  proof (cases "r = 0")
    case True
    then show ?thesis using n by (simp add: bit_simps bit_word_rotr_iff)
  next
    case False
    then have "(32 - r) mod 32 = 32 - r" using assms by simp
    moreover have "(n + r) mod 32 = (if n + r < 32 then n + r else n + r - 32)"
      using n assms by (simp add: mod_if)
    ultimately show ?thesis
      using n assms False by (auto simp: bit_simps bit_word_rotr_iff ac_simps dest: bit_imp_le_length)
  qed
qed

lemma output_rr: "cb__pcg_output s = rr (xsh s)"
proof -
  have rot: "unat (ucast (drop_bit 59 s) :: u32) = unat (drop_bit 59 s)" and lt: "unat (drop_bit 59 s) < 32"
    using unsigned_less [where 'a = nat, of s]
    by (simp only: unsigned_ucast_eq unat_drop_bit_eq, simp add: drop_bit_eq_div take_bit_eq_mod)+
  have "drop_bit 59 (xsh s) = drop_bit 59 s"
    by (rule bit_word_eqI) (auto simp: xsh_def bit_simps dest: bit_imp_le_length)
  then show ?thesis
    using lt
    by (simp add: cb__pcg_output_def rr_def Let_def rotate_shift rotate_split rot xsh_def)
qed

lemma bij_xsh: "bij xsh"
proof -
  let ?inv = "\<lambda>v :: u64. v XOR drop_bit 18 v XOR drop_bit 36 v XOR drop_bit 54 v"
  have "?inv (xsh s) = s" for s
    by (rule bit_word_eqI) (auto simp: xsh_def bit_simps dest: bit_imp_le_length)
  then have "inj xsh" by (metis injI)
  then show ?thesis by (simp add: finite_UNIV_inj_surj bij_def)
qed

text \<open>The 64-bit words that rotate to a given output are one per rotation amount and low bits.\<close>

definition rr_word :: "u32 \<Rightarrow> nat \<times> nat \<Rightarrow> u64" where
  "rr_word v = (\<lambda>(r, l). word_of_nat (r * 2 ^ 59 + unat (word_rotl r v) * 2 ^ 27 + l))"

lemma rr_word_parts:
  assumes "r < 32" "l < 2 ^ 27"
  shows "unat (drop_bit 59 (rr_word v (r, l))) = r"
    and "ucast (drop_bit 27 (rr_word v (r, l))) = word_rotl r v"
    and "unat (rr_word v (r, l)) mod 2 ^ 27 = l"
proof -
  define w where "w = unat (word_rotl r v)"
  have w: "w < 4294967296" using unsigned_less [where 'a = nat, of "word_rotl r v"] by (simp add: w_def)
  have u: "unat (rr_word v (r, l)) = r * 2 ^ 59 + w * 2 ^ 27 + l"
  proof -
    have "r * 2 ^ 59 + w * 2 ^ 27 + l < 2 ^ LENGTH(64)" using assms w by simp
    then show ?thesis
      by (simp only: rr_word_def prod.case w_def [symmetric] unat_of_nat mod_less)
  qed
  show "unat (drop_bit 59 (rr_word v (r, l))) = r"
    using assms w by (simp only: unat_drop_bit_eq u) (simp add: drop_bit_eq_div)
  show "unat (rr_word v (r, l)) mod 2 ^ 27 = l"
  proof -
    have "r * 2 ^ 59 + w * 2 ^ 27 + l = l + (r * 2 ^ 32 + w) * 2 ^ 27" by simp
    then show ?thesis using assms(2) by (simp only: u mod_mult_self1 mod_less)
  qed
  have "unat (drop_bit 27 (rr_word v (r, l))) = r * 2 ^ 32 + w"
    using assms by (simp only: unat_drop_bit_eq u) (simp add: drop_bit_eq_div)
  then have "unat (ucast (drop_bit 27 (rr_word v (r, l))) :: u32) = w"
    using w by (simp only: unsigned_ucast_eq) (simp add: take_bit_eq_mod)
  then show "ucast (drop_bit 27 (rr_word v (r, l))) = word_rotl r v"
    by (simp add: w_def word_unat_eq_iff)
qed

lemma split_word: "(x :: nat) = x div (a * b) * (a * b) + x div a mod b * a + x mod a"
proof -
  have "x mod (a * b) = x div a mod b * a + x mod a" by (simp add: mod_mult2_eq)
  then show ?thesis using div_mult_mod_eq [of x "a * b"] by simp
qed

lemma rr_word_rebuild:
  assumes "rr s = v"
  shows "s = rr_word v (unat (drop_bit 59 s), unat s mod 2 ^ 27)" "unat (drop_bit 59 s) < 32"
proof -
  have n: "unat s < 2 ^ 64" using unsigned_less [where 'a = nat, of s] by simp
  have d: "unat (drop_bit 59 s) = unat s div 2 ^ 59" "unat (drop_bit 27 s) = unat s div 2 ^ 27"
    by (simp only: unat_drop_bit_eq, simp add: drop_bit_eq_div)+
  show "unat (drop_bit 59 s) < 32" using n unfolding d by (simp add: less_mult_imp_div_less)
  have "word_rotl (unat (drop_bit 59 s)) v = ucast (drop_bit 27 s)"
    using assms by (simp add: rr_def word_rot_gal)
  then have "unat (word_rotl (unat (drop_bit 59 s)) v) = unat s div 2 ^ 27 mod 2 ^ 32"
    by (simp only: unsigned_ucast_eq d) (simp add: take_bit_eq_mod)
  moreover have "unat s = unat s div 2 ^ 59 * 2 ^ 59 + unat s div 2 ^ 27 mod 2 ^ 32 * 2 ^ 27 + unat s mod 2 ^ 27"
    using split_word [of "unat s" "2 ^ 27" "2 ^ 32"] by simp
  ultimately have "unat s div 2 ^ 59 * 2 ^ 59 + unat (word_rotl (unat s div 2 ^ 59) v) * 2 ^ 27 + unat s mod 2 ^ 27 = unat s"
    unfolding d by (simp only:)
  then show "s = rr_word v (unat (drop_bit 59 s), unat s mod 2 ^ 27)"
    by (simp only: rr_word_def prod.case d word_nat_inv)
qed

lemma card_rr: "card {s. rr s = v} = 2 ^ 32"
proof -
  have "bij_betw (rr_word v) ({..< 32} \<times> {..< 2 ^ 27}) {s. rr s = v}"
  proof (rule bij_betwI')
    fix p q assume pq: "p \<in> {..< 32 :: nat} \<times> {..< 2 ^ 27 :: nat}" "q \<in> {..< 32 :: nat} \<times> {..< 2 ^ 27 :: nat}"
    obtain r l r' l' where [simp]: "p = (r, l)" "q = (r', l')" by (cases p; cases q) blast
    have b: "r < 32" "l < 2 ^ 27" "r' < 32" "l' < 2 ^ 27" using pq by simp_all
    show "(rr_word v p = rr_word v q) = (p = q)"
      using rr_word_parts(1,3) [OF b(1,2), of v] rr_word_parts(1,3) [OF b(3,4), of v] by auto
  next
    fix p assume "p \<in> {..< 32 :: nat} \<times> {..< 2 ^ 27 :: nat}"
    then show "rr_word v p \<in> {s. rr s = v}"
      by (cases p) (simp only: mem_Collect_eq mem_Times_iff fst_conv snd_conv lessThan_iff rr_def rr_word_parts word_rot_lr)
  next
    fix s assume "s \<in> {s. rr s = v}"
    then have "rr s = v" by simp
    from rr_word_rebuild [OF this]
    show "\<exists>p \<in> {..< 32} \<times> {..< 2 ^ 27}. s = rr_word v p"
      by (intro bexI [of _ "(unat (drop_bit 59 s), unat s mod 2 ^ 27)"]) simp_all
  qed
  from bij_betw_same_card [OF this] show ?thesis by (simp only: card_cartesian_product card_lessThan) simp
qed

lemma card_output: "card {s. cb__pcg_output s = v} = 2 ^ 32"
proof -
  have "bij_betw xsh {s. cb__pcg_output s = v} {s. rr s = v}"
    using bij_xsh by (auto simp: bij_betw_def bij_def output_rr inj_on_def image_iff)
  from bij_betw_same_card [OF this] show ?thesis by (simp add: card_rr)
qed

lemma output_surj: "\<exists>s. cb__pcg_output s = v"
  using card_output [of v] by (metis (mono_tags) Collect_empty_eq card.empty power_not_zero zero_neq_numeral)

section \<open>A source of words whose outputs recur\<close>

locale u32_source =
  fixes draw :: "'s \<Rightarrow> u32 \<times> 's"
    and good :: "'s \<Rightarrow> bool"
  assumes draw_good: "good s \<Longrightarrow> good (snd (draw s))"
    and recurs: "good s \<Longrightarrow> \<exists>n. fst (draw (((\<lambda>s. snd (draw s)) ^^ n) s)) = v"
begin

lemma iter_good: "good s \<Longrightarrow> good (((\<lambda>s. snd (draw s)) ^^ n) s)"
  by (induction n) (simp_all add: draw_good)

lemma recurs_later:
  assumes "good s"
  shows "\<exists>n \<ge> k. fst (draw (((\<lambda>s. snd (draw s)) ^^ n) s)) = v"
proof -
  obtain n where "fst (draw (((\<lambda>s. snd (draw s)) ^^ n) (((\<lambda>s. snd (draw s)) ^^ k) s))) = v"
    using recurs [OF iter_good [OF assms]] by blast
  then have "fst (draw (((\<lambda>s. snd (draw s)) ^^ (n + k)) s)) = v"
    by (simp add: funpow_add)
  then show ?thesis by (intro exI [of _ "n + k"]) simp
qed

text \<open>A rejection loop meets its first accepted word after finitely many rejected ones.\<close>

lemma first_accepted:
  assumes "good s" "P v"
  shows "\<exists>n. P (fst (draw (((\<lambda>s. snd (draw s)) ^^ n) s)))
    \<and> (\<forall>m < n. \<not> P (fst (draw (((\<lambda>s. snd (draw s)) ^^ m) s))))"
proof -
  let ?out = "\<lambda>n. fst (draw (((\<lambda>s. snd (draw s)) ^^ n) s))"
  have "\<exists>n. P (?out n)" using recurs [OF assms(1), of v] assms(2) by metis
  then show ?thesis by (rule exists_least_iff [THEN iffD1])
qed

end

lemma u32_iter: "((\<lambda>s. snd (cb_rng_u32 s)) ^^ n) rng = (cb__pcg_step ^^ n) rng"
  by (simp add: snd_u32)

lemma fst_u32: "fst (cb_rng_u32 rng) = cb__pcg_output (rng_state rng)"
  by (simp add: cb_rng_u32_def)

interpretation rng_source: u32_source cb_rng_u32 "\<lambda>rng. odd (rng_inc rng)"
proof unfold_locales
  fix rng :: cb_rng_t and v :: u32
  assume odd: "odd (rng_inc rng)"
  then show "odd (rng_inc (snd (cb_rng_u32 rng)))" by (simp add: snd_u32 cb__pcg_step_def)
  obtain s where "cb__pcg_output s = v" using output_surj by blast
  moreover obtain n where "(lcg (rng_inc rng) ^^ n) (rng_state rng) = s" using lcg_reaches [OF odd] by blast
  ultimately show "\<exists>n. fst (cb_rng_u32 (((\<lambda>s. snd (cb_rng_u32 s)) ^^ n) rng)) = v"
    by (intro exI [of _ n]) (simp add: u32_iter fst_u32 step_iter)
qed

text \<open>How often a predicate of the output holds over one period.\<close>

definition period_count :: "cb_rng_t \<Rightarrow> (u32 \<Rightarrow> bool) \<Rightarrow> nat" where
  "period_count rng P = card {n. n < 2 ^ 64 \<and> P (fst (cb_rng_u32 ((cb__pcg_step ^^ n) rng)))}"

lemma card_output_pred: "card {s. P (cb__pcg_output s)} = 2 ^ 32 * card {v. P v}"
proof -
  have "{s. P (cb__pcg_output s)} = (\<Union>v \<in> {v. P v}. {s. cb__pcg_output s = v})" by blast
  then have "card {s. P (cb__pcg_output s)} = (\<Sum>v \<in> {v. P v}. card {s. cb__pcg_output s = v})"
    by (simp only:) (rule card_UN_disjoint, auto)
  then show ?thesis by (simp only: card_output sum_constant) simp
qed

lemma period_count:
  assumes "odd (rng_inc rng)"
  shows "period_count rng P = 2 ^ 32 * card {v. P v}"
proof -
  let ?o = "\<lambda>n. (lcg (rng_inc rng) ^^ n) (rng_state rng)"
  let ?N = "{n. n < 2 ^ 64 \<and> P (fst (cb_rng_u32 ((cb__pcg_step ^^ n) rng)))}"
  have "bij_betw ?o ?N {s. P (cb__pcg_output s)}"
    unfolding bij_betw_def
  proof
    show "inj_on ?o ?N" by (rule inj_on_subset [OF lcg_orbit_inj [OF assms]]) auto
    show "?o ` ?N = {s. P (cb__pcg_output s)}"
    proof (intro equalityI subsetI)
      fix s assume "s \<in> {s. P (cb__pcg_output s)}"
      moreover obtain n where "n < 2 ^ 64" "?o n = s" using lcg_reaches [OF assms] by blast
      ultimately show "s \<in> ?o ` ?N" by (intro image_eqI [of _ _ n]) (simp_all add: fst_u32 step_iter)
    qed (auto simp: fst_u32 step_iter)
  qed
  from bij_betw_same_card [OF this] show ?thesis by (simp only: period_count_def card_output_pred)
qed

lemma seed_odd: "odd (rng_inc (cb_rng_seed seed stream))"
  by (simp add: cb_rng_seed_def cb__pcg_step_def even_or_iff)

lemma card_word_less: "n \<le> 2 ^ LENGTH('a) \<Longrightarrow> card {v :: 'a::len word. unat v < n} = n"
proof -
  assume n: "n \<le> 2 ^ LENGTH('a)"
  have "bij_betw unat {v :: 'a word. unat v < n} {..< n}"
    by (rule bij_betw_byWitness [where f' = word_of_nat]) (use n in \<open>auto simp: unat_of_nat\<close>)
  from bij_betw_same_card [OF this] show ?thesis by simp
qed

lemma half_word_top: "drop_bit 31 (u :: u32) \<noteq> 0 \<longleftrightarrow> \<not> unat u < 2 ^ 31"
proof -
  have "unat (drop_bit 31 u) = unat u div 2 ^ 31" by (simp only: unat_drop_bit_eq) (simp add: drop_bit_eq_div)
  then show ?thesis by (simp add: word_unat_eq_iff div_eq_0_iff)
qed

lemma sint_top16: "sint (drop_bit 16 (u :: u32)) = int (unat u div 65536)"
proof -
  have "unat (drop_bit 16 u) = unat u div 65536" by (simp only: unat_drop_bit_eq) (simp add: drop_bit_eq_div)
  moreover have "unat u div 65536 < 65536" using unsigned_less [where 'a = nat, of u] by (simp add: div_less_iff_less_mult)
  ultimately show ?thesis by (subst sint_of_small) simp_all
qed

lemma eval_rng: "cb_rng_u32 \<lparr>rng_info = i, rng_state = s, rng_inc = c\<rparr>
  = (cb__pcg_output s, \<lparr>rng_info = i, rng_state = s * 6364136223846793005 + c, rng_inc = c\<rparr>)"
  by (simp add: cb_rng_u32_def cb__pcg_step_def CB__PCG_MULT_def)

lemma count_bool:
  assumes "odd (rng_inc rng)"
  shows "card {n. n < 2 ^ 64 \<and> fst (cb_rng_bool ((cb__pcg_step ^^ n) rng))} = 2 ^ 63"
proof -
  have "card {v :: u32. \<not> unat v < 2 ^ 31} = card (UNIV - {v :: u32. unat v < 2 ^ 31})"
    by (intro arg_cong [of _ _ card]) auto
  also have "\<dots> = 2 ^ 31"
    using card_word_less [where 'a = 32, of "2 ^ 31"] by (subst card_Diff_subset) (simp_all add: card_word)
  finally have c: "card {v :: u32. \<not> unat v < 2 ^ 31} = 2 ^ 31" .
  have "fst (cb_rng_bool r) = (\<not> unat (fst (cb_rng_u32 r)) < 2 ^ 31)" for r
    unfolding half_word_top [symmetric] by (simp add: cb_rng_bool_def split_def Let_def)
  then have "card {n. n < 2 ^ 64 \<and> fst (cb_rng_bool ((cb__pcg_step ^^ n) rng))}
      = period_count rng (\<lambda>v. \<not> unat v < 2 ^ 31)"
    by (simp only: period_count_def)
  then show ?thesis unfolding period_count [OF assms] c by simp
qed

lemma count_chance:
  assumes "odd (rng_inc rng)" "0 <s p" "p <s CB_FX16_ONE"
  shows "card {n. n < 2 ^ 64 \<and> fst (cb_rng_chance_fx16 ((cb__pcg_step ^^ n) rng) p)} = unat p * 2 ^ 48"
proof -
  have p: "0 < sint p" "sint p < 65536" using assms(2,3) by (simp_all add: word_sless_alt cint)
  then have up: "sint p = int (unat p)" by (simp add: sint_pos_unat)
  have "fst (cb_rng_chance_fx16 r p) = (unat (fst (cb_rng_u32 r)) < unat p * 65536)" for r
  proof -
    have "fst (cb_rng_chance_fx16 r p) = (drop_bit 16 (fst (cb_rng_u32 r)) <s p)"
      using p by (simp add: cb_rng_chance_fx16_def cb_rng_fx16_unit_def split_def Let_def word_sle_eq cint)
    also have "\<dots> = (unat (fst (cb_rng_u32 r)) div 65536 < unat p)"
      by (simp only: word_sless_alt sint_top16 up of_nat_less_iff)
    finally show ?thesis by (simp add: div_less_iff_less_mult)
  qed
  then have "card {n. n < 2 ^ 64 \<and> fst (cb_rng_chance_fx16 ((cb__pcg_step ^^ n) rng) p)}
      = period_count rng (\<lambda>v. unat v < unat p * 65536)"
    by (simp only: period_count_def)
  also have "\<dots> = 2 ^ 32 * (unat p * 65536)"
  proof -
    have "unat p < 65536" using p(2) unfolding up by (simp only: of_nat_less_iff of_nat_numeral [symmetric, where 'a = int])
    then show ?thesis unfolding period_count [OF assms(1)] by (subst card_word_less) simp_all
  qed
  finally show ?thesis by simp
qed

section \<open>Properties\<close>


text \<open>C34. The state of a seeded generator runs through all \<open>2^64\<close> states before it returns:
  drawing \<open>n\<close> words brings the generator back exactly when \<open>2^64\<close> divides \<open>n\<close>, and every state is
  reached within a period.\<close>

theorem pcg_full_period:
  "(((\<lambda>rng. snd (cb_rng_u32 rng)) ^^ n) (cb_rng_seed seed stream) = cb_rng_seed seed stream
      \<longleftrightarrow> 2 ^ 64 dvd n)
    \<and> (\<exists>k < 2 ^ 64. rng_state (((\<lambda>rng. snd (cb_rng_u32 rng)) ^^ k) (cb_rng_seed seed stream)) = s)"
proof -
  define rng where "rng = cb_rng_seed seed stream"
  have odd: "odd (rng_inc rng)" unfolding rng_def by (rule seed_odd)
  have "rng\<lparr>rng_state := x\<rparr> = rng \<longleftrightarrow> x = rng_state rng" for x by (cases rng) auto
  then show ?thesis
    unfolding rng_def [symmetric] u32_iter step_iter lcg_cycle [OF odd, of n "rng_state rng", symmetric]
    using lcg_reaches [OF odd] by simp
qed

text \<open>Over one period of a seeded generator every 32-bit value comes out exactly \<open>2^32\<close> times:
  the XSH-RR permutation is equidistributed.\<close>

theorem pcg_equidistributed:
  "card {n. n < 2 ^ 64 \<and>
      fst (cb_rng_u32 (((\<lambda>rng. snd (cb_rng_u32 rng)) ^^ n) (cb_rng_seed seed stream))) = v} = 2 ^ 32"
  using period_count [OF seed_odd, of seed stream "\<lambda>u. u = v"] by (simp add: period_count_def u32_iter)

text \<open>Seeding with 42 and stream 54 gives the published first six outputs of PCG32.\<close>

lemma pcg_reference_vector:
  "map (\<lambda>n. fst (cb_rng_u32 (((\<lambda>rng. snd (cb_rng_u32 rng)) ^^ n) (cb_rng_seed 42 54)))) [0 ..< 6]
    = [0xa15c02b7, 0x7b47f409, 0xba1d3330, 0x83d2f293, 0xbfa4784b, 0xcbed606e]"
  by (simp add: cb_rng_seed_def cb__pcg_step_def CB__PCG_MULT_def Let_def eval_rng upt_rec eval_nat_numeral,
      simp add: cb__pcg_output_def)

text \<open>The coin of \<open>cb_rng_bool\<close> is fair and \<open>cb_rng_chance_fx16\<close> is exact: over one period of
  a seeded generator the coin is true half of the time, and a chance \<open>p\<close> strictly between 0 and one
  is true for exactly \<open>p / 2^16\<close> of the draws.  Chances outside that range answer without drawing.\<close>

theorem rng_chance_exact:
  "card {n. n < 2 ^ 64 \<and> fst (cb_rng_bool ((cb__pcg_step ^^ n) (cb_rng_seed seed stream)))} = 2 ^ 63
    \<and> (0 <s p \<and> p <s CB_FX16_ONE \<longrightarrow>
        card {n. n < 2 ^ 64 \<and> fst (cb_rng_chance_fx16 ((cb__pcg_step ^^ n) (cb_rng_seed seed stream)) p)}
          = unat p * 2 ^ 48)
    \<and> (p <=s 0 \<longrightarrow> cb_rng_chance_fx16 rng p = (False, rng))
    \<and> (CB_FX16_ONE <=s p \<longrightarrow> cb_rng_chance_fx16 rng p = (True, rng))"
  using count_bool [OF seed_odd] count_chance [OF seed_odd]
  by (auto simp: cb_rng_chance_fx16_def word_sle_eq cint)

lemma rng_chance_exact_witness:
  "card {n. n < 2 ^ 64 \<and> fst (cb_rng_chance_fx16 ((cb__pcg_step ^^ n) (cb_rng_seed 42 54)) 16384)} = 2 ^ 62
    \<and> cb_rng_chance_fx16 (cb_rng_seed 42 54) 0 = (False, cb_rng_seed 42 54)
    \<and> cb_rng_chance_fx16 (cb_rng_seed 42 54) 65536 = (True, cb_rng_seed 42 54)"
  using rng_chance_exact [of 42 54 16384] rng_chance_exact [of 42 54 0 "cb_rng_seed 42 54"]
    rng_chance_exact [of 42 54 65536 "cb_rng_seed 42 54"]
  by (simp add: word_sless_alt word_sle_eq cint)

end
