(* ===== verification/Rng_Bounded.thy ===== *)
theory Rng_Bounded
  imports Rng_Pcg32
begin

unbundle bit_operations_syntax

text \<open>
  The bounded draws of \<open>cbase_random.c\<close>: \<open>cb_rng_u32_below\<close>, Lemire's multiplication method
  with its rejection loop, and the signed and fixed-point ranges that call it.

  The loop is a \<open>partial_function\<close>, so that not returning is the value \<open>None\<close>.  On a generator
  with an odd increment it always returns, because every word recurs (\<open>u32_source\<close>); the word
  it accepts is unbiased, because every result below the bound has the same number of accepted
  words.
\<close>

section \<open>Definitions\<close>

partial_function (option) below_loop ::
  "cb_rng_t \<Rightarrow> u32 \<Rightarrow> u32 \<Rightarrow> u64 \<Rightarrow> u32 \<Rightarrow> (u64 \<times> cb_rng_t) option" where
  "below_loop rng bound t m l =
     (if l < t
      then
        let (x, rng) = cb_rng_u32 rng;
            m = ucast x * ucast bound;
            l = ucast m
        in below_loop rng bound t m l
      else Some (m, rng))"

definition cb_rng_u32_below :: "cb_rng_t \<Rightarrow> u32 \<Rightarrow> (u32 \<times> cb_rng_t) option" where
  "cb_rng_u32_below rng bound =
     (if bound = 0 then Some (0, rng)
      else
        let (x, rng) = cb_rng_u32 rng;
            m = (ucast x :: u64) * ucast bound;
            l = (ucast m :: u32)
        in if l < bound
           then
             let t = ucast (push_bit 32 1 mod (ucast bound :: u64))
             in case below_loop rng bound t m l of
                  None \<Rightarrow> None
                | Some (m, rng) \<Rightarrow> Some (ucast (drop_bit 32 m), rng)
           else Some (ucast (drop_bit 32 m), rng))"

definition cb_rng_i32_range :: "cb_rng_t \<Rightarrow> i32 \<Rightarrow> i32 \<Rightarrow> (i32 \<times> cb_rng_t) option" where
  "cb_rng_i32_range rng lo hi_inclusive =
     (if hi_inclusive <s lo then Some (lo, rng)
      else
        let span64 = (scast hi_inclusive :: i64) - scast lo + 1
        in case (if push_bit 32 1 <=s span64 then Some (cb_rng_u32 rng)
                 else cb_rng_u32_below rng (ucast span64)) of
             None \<Rightarrow> None
           | Some (r, rng) \<Rightarrow> Some (scast ((scast lo :: i64) + ucast r), rng))"

definition cb_rng_fx16_range :: "cb_rng_t \<Rightarrow> cb_fx16_t \<Rightarrow> cb_fx16_t \<Rightarrow> (cb_fx16_t \<times> cb_rng_t) option" where
  "cb_rng_fx16_range rng lo hi =
     (if hi <=s lo then Some (lo, rng)
      else
        let span = (scast hi :: i64) - scast lo;
            span = (if ucast (0xFFFFFFFF :: u32) <s span then ucast (0xFFFFFFFF :: u32) else span)
        in case cb_rng_u32_below rng (ucast span) of
             None \<Rightarrow> None
           | Some (r, rng) \<Rightarrow> Some (scast ((scast lo :: i64) + ucast r), rng))"

section \<open>The product of a word and a bound\<close>

text \<open>Which words the loop accepts, and the result it reads off them, over the natural numbers.\<close>

definition lemire_ok :: "nat \<Rightarrow> nat \<Rightarrow> bool" where
  "lemire_ok b x \<longleftrightarrow> 2 ^ 32 mod b \<le> x * b mod 2 ^ 32"

lemma unat_up64: "unat (ucast (x :: u32) :: u64) = unat x"
  using unsigned_less [where 'a = nat, of x] by (simp only: unsigned_ucast_eq) (simp add: take_bit_eq_mod)

lemma unat_product: "unat ((ucast (x :: u32) :: u64) * ucast (b :: u32)) = unat x * unat b"
proof -
  have "unat x * unat b < 2 ^ 32 * 2 ^ 32"
    using unsigned_less [where 'a = nat, of x] unsigned_less [where 'a = nat, of b]
    by (intro mult_strict_mono) simp_all
  then have lt: "unat x * unat b < 2 ^ LENGTH(64)" by simp
  have "unat ((ucast x :: u64) * ucast b) = unat x * unat b mod 2 ^ LENGTH(64)"
    by (simp only: unat_word_ariths unat_up64)
  then show ?thesis using lt by (simp only: mod_less)
qed

lemma unat_low: "unat (ucast (m :: u64) :: u32) = unat m mod 2 ^ 32"
  by (simp only: unsigned_ucast_eq) (simp add: take_bit_eq_mod)

lemma unat_high: "unat (ucast (drop_bit 32 (m :: u64)) :: u32) = unat m div 2 ^ 32"
proof -
  have "unat m div 2 ^ 32 < 2 ^ 32"
    using unsigned_less [where 'a = nat, of m] by (simp add: div_less_iff_less_mult)
  then show ?thesis
    by (simp only: unsigned_ucast_eq unat_drop_bit_eq) (simp add: drop_bit_eq_div take_bit_eq_mod)
qed

lemma unat_threshold:
  assumes "b \<noteq> (0 :: u32)"
  shows "unat (ucast (push_bit 32 1 mod (ucast b :: u64)) :: u32) = 2 ^ 32 mod unat b"
proof -
  note b = unat_up64 [of b]
  have "0 < unat b" using assms by (simp add: unat_gt_0)
  then have "2 ^ 32 mod unat b < unat b" by simp
  also have "unat b < 2 ^ 32" using unsigned_less [where 'a = nat, of b] by simp
  finally have lt: "2 ^ 32 mod unat b < (2::nat) ^ 32" .
  have "unat (push_bit 32 1 mod (ucast b :: u64)) = 2 ^ 32 mod unat b"
    by (simp only: unat_mod_distrib b) simp
  then show ?thesis using lt by (simp only: unat_low mod_less)
qed


section \<open>The loop returns\<close>

lemma below_loop_step:
  "l < t \<Longrightarrow> below_loop rng bound t m l =
     below_loop (cb__pcg_step rng) bound t (ucast (fst (cb_rng_u32 rng)) * ucast bound)
       (ucast ((ucast (fst (cb_rng_u32 rng)) :: u64) * ucast bound))"
  by (subst below_loop.simps) (simp add: split_def Let_def snd_u32)

lemma below_loop_done: "\<not> l < t \<Longrightarrow> below_loop rng bound t m l = Some (m, rng)"
  by (subst below_loop.simps) simp

definition product :: "u32 \<Rightarrow> u32 \<Rightarrow> u64" where
  "product x bound = ucast x * ucast bound"

lemma below_loop_iter:
  assumes "\<not> (ucast (product (fst (cb_rng_u32 ((cb__pcg_step ^^ n) rng))) bound) < t)"
    and "\<And>k. k < n \<Longrightarrow> (ucast (product (fst (cb_rng_u32 ((cb__pcg_step ^^ k) rng))) bound) < t)"
  shows "below_loop (cb__pcg_step rng) bound t (product (fst (cb_rng_u32 rng)) bound)
      (ucast (product (fst (cb_rng_u32 rng)) bound))
    = Some (product (fst (cb_rng_u32 ((cb__pcg_step ^^ n) rng))) bound, (cb__pcg_step ^^ Suc n) rng)"
  using assms
proof (induction n arbitrary: rng)
  case 0
  then show ?case by (simp add: below_loop_done)
next
  case (Suc n)
  have sh: "(cb__pcg_step ^^ k) (cb__pcg_step rng) = (cb__pcg_step ^^ Suc k) rng" for k
    by (simp add: funpow_swap1)
  have "ucast (product (fst (cb_rng_u32 rng)) bound) < t" using Suc.prems(2) [of 0] by simp
  then have "below_loop (cb__pcg_step rng) bound t (product (fst (cb_rng_u32 rng)) bound)
      (ucast (product (fst (cb_rng_u32 rng)) bound))
    = below_loop (cb__pcg_step (cb__pcg_step rng)) bound t
        (product (fst (cb_rng_u32 (cb__pcg_step rng))) bound)
        (ucast (product (fst (cb_rng_u32 (cb__pcg_step rng))) bound))"
    by (simp only: below_loop_step product_def [symmetric])
  also have "\<dots> = Some (product (fst (cb_rng_u32 ((cb__pcg_step ^^ Suc n) rng))) bound, (cb__pcg_step ^^ Suc (Suc n)) rng)"
    using Suc.IH [of "cb__pcg_step rng"] Suc.prems unfolding sh by (metis Suc_less_eq)
  finally show ?case .
qed

text \<open>The threshold is below the bound, so the test that guards it only saves its computation.\<close>

definition accepted :: "u32 \<Rightarrow> u32 \<Rightarrow> bool" where
  "accepted bound x \<longleftrightarrow> lemire_ok (unat bound) (unat x)"

lemma accepted_iff:
  assumes "bound \<noteq> 0"
  shows "accepted bound x \<longleftrightarrow> \<not> ucast (product x bound) < (ucast (push_bit 32 1 mod (ucast bound :: u64)) :: u32)"
  unfolding word_less_nat_alt unat_threshold [OF assms]
  unfolding unat_low product_def unat_product
  by (simp only: accepted_def lemire_ok_def not_less)

lemma below_returns:
  assumes b: "bound \<noteq> 0"
    and acc: "accepted bound (fst (cb_rng_u32 ((cb__pcg_step ^^ n) rng)))"
    and rej: "\<And>k. k < n \<Longrightarrow> \<not> accepted bound (fst (cb_rng_u32 ((cb__pcg_step ^^ k) rng)))"
  shows "cb_rng_u32_below rng bound
    = Some (ucast (drop_bit 32 (product (fst (cb_rng_u32 ((cb__pcg_step ^^ n) rng))) bound)),
        (cb__pcg_step ^^ Suc n) rng)"
proof -
  let ?t = "ucast (push_bit 32 1 mod (ucast bound :: u64)) :: u32"
  let ?x = "fst (cb_rng_u32 rng)"
  have loop: "below_loop (cb__pcg_step rng) bound ?t (product ?x bound) (ucast (product ?x bound))
      = Some (product (fst (cb_rng_u32 ((cb__pcg_step ^^ n) rng))) bound, (cb__pcg_step ^^ Suc n) rng)"
    by (rule below_loop_iter) (use acc rej in \<open>simp_all add: accepted_iff [OF b]\<close>)
  have tb: "unat ?t < unat bound"
    unfolding unat_threshold [OF b] using b by (simp add: unat_gt_0)
  show ?thesis
  proof (cases "(ucast (product ?x bound) :: u32) < bound")
    case True
    then show ?thesis
      using b loop by (simp add: cb_rng_u32_below_def split_def Let_def snd_u32 product_def [symmetric])
  next
    case False
    then have "\<not> ucast (product ?x bound) < ?t"
      using tb by (simp only: word_less_nat_alt not_less)
    then have "Some (product ?x bound, cb__pcg_step rng)
        = Some (product (fst (cb_rng_u32 ((cb__pcg_step ^^ n) rng))) bound, (cb__pcg_step ^^ Suc n) rng)"
      using loop below_loop_done by metis
    then show ?thesis
      using b False by (simp add: cb_rng_u32_below_def split_def Let_def snd_u32 product_def [symmetric])
  qed
qed

section \<open>Every result has the same number of accepted words\<close>

lemma ceil_le: "0 < b \<Longrightarrow> c \<le> x * b \<longleftrightarrow> (c + b - 1) div b \<le> (x :: nat)"
proof
  assume b: "0 < b" and le: "c \<le> x * b"
  then have "(c + b - 1) div b \<le> (x * b + (b - 1)) div b" by (intro div_le_mono) simp
  also have "\<dots> = x" using b by (simp only: div_mult_self3) simp
  finally show "(c + b - 1) div b \<le> x" .
next
  assume b: "0 < b" and le: "(c + b - 1) div b \<le> x"
  have "c + b - 1 < (c + b - 1) div b * b + b"
    using b mod_less_divisor [OF b, of "c + b - 1"] div_mult_mod_eq [of "c + b - 1" b] by linarith
  moreover have "(c + b - 1) div b * b \<le> x * b" using le by (rule mult_le_mono1)
  ultimately show "c \<le> x * b" using b by linarith
qed

lemma multiples_in_window:
  assumes b: "0 < (b :: nat)"
  shows "card {x. c \<le> x * b \<and> x * b < c + q * b} = q"
proof -
  define x0 where "x0 = (c + b - 1) div b"
  have "(x * b < c + q * b) = (x < x0 + q)" for x
  proof (cases "q \<le> x")
    case True
    then obtain y where x: "x = y + q" by (metis le_add_diff_inverse2)
    have "(x * b < c + q * b) = (\<not> c \<le> y * b)" by (auto simp: x algebra_simps)
    then show ?thesis unfolding ceil_le [OF b] by (simp add: x x0_def not_le)
  next
    case False
    then have "x * b < q * b" using b by simp
    then have "x * b < c + q * b" by linarith
    then show ?thesis using False by simp
  qed
  moreover have "c \<le> x * b \<longleftrightarrow> x0 \<le> x" for x unfolding x0_def by (rule ceil_le [OF b])
  ultimately have "{x. c \<le> x * b \<and> x * b < c + q * b} = {x. x0 \<le> x \<and> x < x0 + q}"
    by (simp only:)
  also have "\<dots> = {x0 ..< x0 + q}" by auto
  finally have "{x. c \<le> x * b \<and> x * b < c + q * b} = {x0 ..< x0 + q}" .
  then show ?thesis by simp
qed

lemma lemire_window:
  assumes "r < b"
  shows "{x. x < 2 ^ 32 \<and> lemire_ok b x \<and> x * b div 2 ^ 32 = r}
    = {x. r * 2 ^ 32 + 2 ^ 32 mod b \<le> x * b \<and> x * b < r * 2 ^ 32 + 2 ^ 32 mod b + 2 ^ 32 div b * b}"
proof -
  have N: "2 ^ 32 mod b + 2 ^ 32 div b * b = (2 ^ 32 :: nat)" by simp
  have "(x < 2 ^ 32 \<and> lemire_ok b x \<and> x * b div 2 ^ 32 = r)
      = (r * 2 ^ 32 + 2 ^ 32 mod b \<le> x * b \<and> x * b < r * 2 ^ 32 + 2 ^ 32)" for x
  proof -
    define p where "p = x * b"
    have p: "p = p div 2 ^ 32 * 2 ^ 32 + p mod 2 ^ 32" "p mod 2 ^ 32 < 2 ^ 32" by simp_all
    have "p < r * 2 ^ 32 + 2 ^ 32 \<longrightarrow> x < 2 ^ 32"
    proof
      assume "p < r * 2 ^ 32 + 2 ^ 32"
      also have "r * 2 ^ 32 + 2 ^ 32 \<le> b * 2 ^ 32" using assms by simp
      finally have "x * b < 2 ^ 32 * b" by (simp add: p_def ac_simps)
      then show "x < 2 ^ 32" by simp
    qed
    moreover have "(p div 2 ^ 32 = r) = (r * 2 ^ 32 \<le> p \<and> p < r * 2 ^ 32 + 2 ^ 32)" using p by auto
    moreover have "(2 ^ 32 mod b \<le> p mod 2 ^ 32) = (r * 2 ^ 32 + 2 ^ 32 mod b \<le> p)" if "p div 2 ^ 32 = r"
      using p(1) unfolding that by (metis add_le_cancel_left)
    ultimately show ?thesis unfolding lemire_ok_def p_def [symmetric] by linarith
  qed
  then show ?thesis by (simp only: add.assoc N)
qed

lemma card_lemire: "r < b \<Longrightarrow> card {x. x < 2 ^ 32 \<and> lemire_ok b x \<and> x * b div 2 ^ 32 = r} = 2 ^ 32 div b"
  by (simp only: lemire_window) (rule multiples_in_window, simp)

definition result :: "u32 \<Rightarrow> u32 \<Rightarrow> u32" where
  "result bound x = ucast (drop_bit 32 (product x bound))"

lemma unat_result: "unat (result bound x) = unat x * unat bound div 2 ^ 32"
  by (simp only: result_def unat_high product_def unat_product)

lemma result_below: "bound \<noteq> 0 \<Longrightarrow> result bound x < bound"
proof -
  assume "bound \<noteq> 0"
  then have "unat x * unat bound < 2 ^ 32 * unat bound"
    using unsigned_less [where 'a = nat, of x] by (simp add: unat_gt_0)
  then show ?thesis
    by (simp only: word_less_nat_alt unat_result) (simp add: div_less_iff_less_mult mult.commute)
qed

lemma card_accepted:
  assumes "r < bound"
  shows "card {x. accepted bound x \<and> result bound x = r} = 2 ^ 32 div unat bound"
proof -
  have r: "unat r < unat bound" using assms by (simp add: word_less_nat_alt)
  have "bij_betw unat {x. accepted bound x \<and> result bound x = r}
      {x. x < 2 ^ 32 \<and> lemire_ok (unat bound) x \<and> x * unat bound div 2 ^ 32 = unat r}"
    by (rule bij_betw_byWitness [where f' = word_of_nat])
      (use unsigned_less [where 'a = nat and 'b = 32] in
        \<open>auto simp: accepted_def unat_of_nat word_unat_eq_iff [of _ r] unat_result\<close>)
  from bij_betw_same_card [OF this] show ?thesis using card_lemire [OF r] by simp
qed

lemma some_accepted:
  assumes "bound \<noteq> 0" shows "\<exists>x. accepted bound x"
proof -
  have "0 < bound" using assms by (simp add: word_gt_0)
  moreover have "0 < 2 ^ 32 div unat bound"
    using assms unsigned_less [where 'a = nat, of bound]
    by (simp add: div_greater_zero_iff unat_gt_0)
  ultimately have "card {x. accepted bound x \<and> result bound x = 0} \<noteq> 0"
    using card_accepted by simp
  then show ?thesis by (metis (mono_tags, lifting) Collect_empty_eq card.empty)
qed

lemma below_first_accepted:
  assumes "odd (rng_inc rng)" "bound \<noteq> 0"
  obtains n where "accepted bound (fst (cb_rng_u32 ((cb__pcg_step ^^ n) rng)))"
    "\<And>k. k < n \<Longrightarrow> \<not> accepted bound (fst (cb_rng_u32 ((cb__pcg_step ^^ k) rng)))"
    "cb_rng_u32_below rng bound
      = Some (result bound (fst (cb_rng_u32 ((cb__pcg_step ^^ n) rng))), (cb__pcg_step ^^ Suc n) rng)"
proof -
  obtain v where "accepted bound v" using some_accepted [OF assms(2)] by blast
  from rng_source.first_accepted [OF assms(1), of "accepted bound", OF this]
  obtain n where n: "accepted bound (fst (cb_rng_u32 ((cb__pcg_step ^^ n) rng)))"
    "\<And>k. k < n \<Longrightarrow> \<not> accepted bound (fst (cb_rng_u32 ((cb__pcg_step ^^ k) rng)))"
    by (auto simp: u32_iter)
  show ?thesis
    by (rule that [OF n]) (simp_all only: below_returns [OF assms(2) n] result_def)
qed

lemma step_inj: "cb__pcg_step a = cb__pcg_step b \<Longrightarrow> a = b"
proof -
  assume eq: "cb__pcg_step a = cb__pcg_step b"
  have "inj (lcg (rng_inc b))" using bij_lcg by (rule bij_is_inj)
  moreover have "rng_inc a = rng_inc b" "rng_info a = rng_info b"
    "lcg (rng_inc a) (rng_state a) = lcg (rng_inc b) (rng_state b)"
    using arg_cong [OF eq, of rng_inc] arg_cong [OF eq, of rng_info] arg_cong [OF eq, of rng_state]
    by (simp_all add: step_lcg)
  ultimately show "a = b" by (metis cb_rng_t.equality inj_eq old.unit.exhaust)
qed

lemma step_iter_fields:
  "rng_inc ((cb__pcg_step ^^ n) rng) = rng_inc rng" "rng_info ((cb__pcg_step ^^ n) rng) = rng_info rng"
  by (simp_all add: step_iter)

lemma below_at_once:
  assumes odd: "odd (rng_inc rng)" and b: "bound \<noteq> 0"
  shows "cb_rng_u32_below rng bound = Some (r, cb__pcg_step rng)
    \<longleftrightarrow> accepted bound (fst (cb_rng_u32 rng)) \<and> result bound (fst (cb_rng_u32 rng)) = r"
proof
  assume "accepted bound (fst (cb_rng_u32 rng)) \<and> result bound (fst (cb_rng_u32 rng)) = r"
  then show "cb_rng_u32_below rng bound = Some (r, cb__pcg_step rng)"
    using below_returns [OF b, of 0 rng] by (simp add: result_def)
next
  assume eq: "cb_rng_u32_below rng bound = Some (r, cb__pcg_step rng)"
  obtain n where n: "accepted bound (fst (cb_rng_u32 ((cb__pcg_step ^^ n) rng)))"
    "cb_rng_u32_below rng bound
      = Some (result bound (fst (cb_rng_u32 ((cb__pcg_step ^^ n) rng))), (cb__pcg_step ^^ Suc n) rng)"
    using below_first_accepted [OF odd b] by blast
  then have "cb__pcg_step ((cb__pcg_step ^^ n) rng) = cb__pcg_step rng" using eq by simp
  then have "(cb__pcg_step ^^ n) rng = rng" by (rule step_inj)
  then show "accepted bound (fst (cb_rng_u32 rng)) \<and> result bound (fst (cb_rng_u32 rng)) = r"
    using n eq by simp
qed

lemma below_some:
  assumes "odd (rng_inc rng)"
  obtains x n where "cb_rng_u32_below rng bound = Some (x, (cb__pcg_step ^^ n) rng)"
    "bound \<noteq> 0 \<Longrightarrow> x < bound"
proof (cases "bound = 0")
  case True
  then show ?thesis using that [of 0 0] by (simp add: cb_rng_u32_below_def)
next
  case False
  from below_first_accepted [OF assms False] obtain n where "cb_rng_u32_below rng bound
      = Some (result bound (fst (cb_rng_u32 ((cb__pcg_step ^^ n) rng))), (cb__pcg_step ^^ Suc n) rng)"
    by metis
  then show ?thesis using that result_below [OF False] by metis
qed

text \<open>The narrowing at the end of a signed range is exact.\<close>

lemma range_narrow:
  assumes "sint (lo :: i32) + int (unat (r :: u32)) \<le> 2147483647"
  shows "sint (scast ((scast lo :: i64) + ucast r) :: i32) = sint lo + int (unat r)"
proof -
  define u where "u = int (unat r)"
  have u: "0 \<le> u" "u < 4294967296" using unsigned_less [where 'a = int, of r] by (simp_all add: u_def)
  have r: "sint (ucast r :: i64) = u"
    using unsigned_less [where 'a = nat, of r] by (subst sint_of_small) (simp_all only: unat_up64 u_def, simp)
  have l: "sint (scast lo :: i64) = sint lo" by (rule sint_scast_up) simp
  have s: "sint ((scast lo :: i64) + ucast r) = sint lo + u"
    using sint32_range [of lo] u by (subst sint_add_fits) (simp_all only: r l fits_def, simp_all)
  show ?thesis
    using sint32_range [of lo] assms u unfolding u_def [symmetric]
    by (subst sint_scast_fits) (simp_all only: s fits_def, simp_all)
qed

lemma span_word:
  assumes "0 < k" "k < 2 ^ 32" "sint w = k"
  shows "unat (ucast (w :: i64) :: u32) = nat k"
proof -
  have "uint w = k" using assms sint_nonneg_uint [of w] by simp
  then have "unat w = nat k" by (simp only: nat_uint_eq [symmetric])
  then show ?thesis using assms by (simp only: unat_low) (simp add: nat_less_iff)
qed

lemma i32_range_inside:
  assumes odd: "odd (rng_inc rng)" and le: "sint lo \<le> sint hi"
  obtains x n where "cb_rng_i32_range rng lo hi = Some (x, (cb__pcg_step ^^ n) rng)"
    "sint lo \<le> sint x" "sint x \<le> sint hi"
proof -
  let ?span = "(scast hi :: i64) - scast lo + 1"
  have l: "sint (scast v :: i64) = sint v" for v :: i32 by (rule sint_scast_up) simp
  note rg = sint32_range [of lo] sint32_range [of hi]
  have "sint ((scast hi :: i64) - scast lo) = sint hi - sint lo"
    using rg by (subst sint_sub_fits) (simp_all only: l fits_def, simp_all)
  then have s: "sint ?span = sint hi - sint lo + 1"
    using rg by (subst sint_add_fits) (simp_all only: fits_def, simp_all)
  obtain r n where r: "(if push_bit 32 1 <=s ?span then Some (cb_rng_u32 rng)
        else cb_rng_u32_below rng (ucast ?span)) = Some (r, (cb__pcg_step ^^ n) rng)"
    and rb: "sint lo + int (unat r) \<le> sint hi"
  proof (cases "push_bit 32 1 <=s ?span")
    case True
    then have "sint lo + 4294967295 \<le> sint hi" using s by (simp add: word_sle_eq)
    moreover have "int (unat (fst (cb_rng_u32 rng))) \<le> 4294967295"
      using unsigned_less [where 'a = int, of "fst (cb_rng_u32 rng)"] by simp
    ultimately have "sint lo + int (unat (fst (cb_rng_u32 rng))) \<le> sint hi" by linarith
    then show ?thesis
      using that [of "fst (cb_rng_u32 rng)" 1] True by (simp add: snd_u32 [symmetric])
  next
    case False
    then have "sint ?span < 2 ^ 32" using s by (simp add: word_sle_eq)
    then have u: "unat (ucast ?span :: u32) = nat (sint hi - sint lo + 1)"
      using le s by (intro span_word) simp_all
    have nz: "(ucast ?span :: u32) \<noteq> 0" using u le by auto
    from below_some [OF odd, of "ucast ?span"] obtain x n
      where x: "cb_rng_u32_below rng (ucast ?span) = Some (x, (cb__pcg_step ^^ n) rng)"
        "x < ucast ?span" using nz by metis
    from x(2) have "unat x < nat (sint hi - sint lo + 1)" by (simp only: word_less_nat_alt u)
    then have "sint lo + int (unat x) \<le> sint hi" by linarith
    then show ?thesis using that [of x n] False x(1) by (simp del: of_nat_unat)
  qed
  have "sint lo + int (unat r) \<le> 2147483647" using rb rg by linarith
  from range_narrow [OF this] have v: "sint (scast ((scast lo :: i64) + ucast r) :: i32) = sint lo + int (unat r)" .
  show ?thesis
    by (rule that [of "scast ((scast lo :: i64) + ucast r)" n])
      (use le r rb v in \<open>simp_all add: cb_rng_i32_range_def word_sless_alt del: of_nat_unat\<close>)
qed

lemma fx16_range_inside:
  assumes odd: "odd (rng_inc rng)" and lt: "sint lo < sint hi"
  obtains x n where "cb_rng_fx16_range rng lo hi = Some (x, (cb__pcg_step ^^ n) rng)"
    "sint lo \<le> sint x" "sint x < sint hi"
proof -
  let ?span = "(scast hi :: i64) - scast lo"
  have l: "sint (scast v :: i64) = sint v" for v :: i32 by (rule sint_scast_up) simp
  note rg = sint32_range [of lo] sint32_range [of hi]
  have s: "sint ?span = sint hi - sint lo"
    using rg by (subst sint_sub_fits) (simp_all only: l fits_def, simp_all)
  have cap: "\<not> ucast (0xFFFFFFFF :: u32) <s ?span"
    using rg by (simp add: word_sless_alt s)
  have u: "unat (ucast ?span :: u32) = nat (sint hi - sint lo)"
    by (rule span_word) (use lt rg s in simp_all)
  have nz: "(ucast ?span :: u32) \<noteq> 0" using u lt by auto
  from below_some [OF odd, of "ucast ?span"] obtain x n
    where x: "cb_rng_u32_below rng (ucast ?span) = Some (x, (cb__pcg_step ^^ n) rng)"
      "x < ucast ?span" using nz by metis
  from x(2) have "unat x < nat (sint hi - sint lo)" by (simp only: word_less_nat_alt u)
  then have b: "sint lo + int (unat x) < sint hi" by linarith
  then have "sint lo + int (unat x) \<le> 2147483647" using rg by linarith
  from range_narrow [OF this]
  have v: "sint (scast ((scast lo :: i64) + ucast x) :: i32) = sint lo + int (unat x)" .
  show ?thesis
    by (rule that [of "scast ((scast lo :: i64) + ucast x)" n])
      (use lt x(1) b v cap in \<open>simp_all add: cb_rng_fx16_range_def word_sle_eq del: of_nat_unat\<close>)
qed

section \<open>Properties\<close>

text \<open>C22. A bounded draw always returns, although its rejection loop has no counter: on every
  generator with an odd increment it takes finitely many words, the result is below the bound, and
  only the position in the stream changes.  A zero bound answers 0 without drawing.\<close>

theorem rng_below_returns:
  assumes "odd (rng_inc rng)"
  shows "\<exists>x n. cb_rng_u32_below rng bound = Some (x, ((\<lambda>rng. snd (cb_rng_u32 rng)) ^^ n) rng)
    \<and> (if bound = 0 then x = 0 \<and> n = 0 else x < bound \<and> 0 < n)"
proof (cases "bound = 0")
  case True
  then show ?thesis by (intro exI [of _ 0]) (simp add: cb_rng_u32_below_def)
next
  case False
  from below_first_accepted [OF assms False] obtain n where n: "cb_rng_u32_below rng bound
      = Some (result bound (fst (cb_rng_u32 ((cb__pcg_step ^^ n) rng))), (cb__pcg_step ^^ Suc n) rng)"
    by metis
  show ?thesis
    using False result_below [OF False] n
    by (intro exI [of _ "result bound (fst (cb_rng_u32 ((cb__pcg_step ^^ n) rng)))"] exI [of _ "Suc n"])
      (simp only: u32_iter if_False zero_less_Suc simp_thms)
qed

lemma rng_below_returns_witness:
  "\<exists>x n. cb_rng_u32_below (cb_rng_seed 42 54) 6
      = Some (x, ((\<lambda>rng. snd (cb_rng_u32 rng)) ^^ n) (cb_rng_seed 42 54)) \<and> x < 6 \<and> 0 < n"
  using rng_below_returns [OF seed_odd, of 42 54 6] by simp

text \<open>C20. The bounded draw is unbiased.  Over one period of a seeded generator, every value below
  the bound is returned after a single word at the same number of positions, \<open>2^32 * (2^32 div
  bound)\<close>; at the positions in between the word is rejected and the draw moves on.\<close>

theorem rng_below_unbiased:
  assumes "r < bound"
  shows "card {n. n < 2 ^ 64 \<and>
      cb_rng_u32_below ((cb__pcg_step ^^ n) (cb_rng_seed seed stream)) bound
        = Some (r, (cb__pcg_step ^^ Suc n) (cb_rng_seed seed stream))}
    = 2 ^ 32 * (2 ^ 32 div unat bound)"
proof -
  define rng where "rng = cb_rng_seed seed stream"
  have odd: "odd (rng_inc rng)" unfolding rng_def by (rule seed_odd)
  have b: "bound \<noteq> 0" using assms by auto
  have "(cb_rng_u32_below ((cb__pcg_step ^^ n) rng) bound = Some (r, (cb__pcg_step ^^ Suc n) rng))
      = (accepted bound (fst (cb_rng_u32 ((cb__pcg_step ^^ n) rng)))
        \<and> result bound (fst (cb_rng_u32 ((cb__pcg_step ^^ n) rng))) = r)" for n
    using below_at_once [of "(cb__pcg_step ^^ n) rng", OF _ b] odd by (simp add: step_iter_fields)
  then have "card {n. n < 2 ^ 64 \<and>
      cb_rng_u32_below ((cb__pcg_step ^^ n) rng) bound = Some (r, (cb__pcg_step ^^ Suc n) rng)}
    = period_count rng (\<lambda>x. accepted bound x \<and> result bound x = r)"
    by (simp only: period_count_def)
  then show ?thesis
    unfolding rng_def [symmetric] by (simp only: period_count [OF odd] card_accepted [OF assms])
qed

lemma rng_below_unbiased_witness:
  "card {n. n < 2 ^ 64 \<and>
      cb_rng_u32_below ((cb__pcg_step ^^ n) (cb_rng_seed 42 54)) 6
        = Some (5, (cb__pcg_step ^^ Suc n) (cb_rng_seed 42 54))} = 2 ^ 32 * 715827882"
  using rng_below_unbiased [of 5 6 42 54] by simp

text \<open>The signed and the fixed-point ranges stay inside their bounds for every pair of bounds,
  the full 32-bit range included, with no overflow on the way; malformed bounds answer the lower
  one without drawing.\<close>

theorem rng_ranges_inside:
  assumes "odd (rng_inc rng)"
  shows "(if sint lo \<le> sint hi
      then \<exists>x n. cb_rng_i32_range rng lo hi = Some (x, ((\<lambda>rng. snd (cb_rng_u32 rng)) ^^ n) rng)
        \<and> sint lo \<le> sint x \<and> sint x \<le> sint hi
      else cb_rng_i32_range rng lo hi = Some (lo, rng))
    \<and> (if sint lo < sint hi
      then \<exists>x n. cb_rng_fx16_range rng lo hi = Some (x, ((\<lambda>rng. snd (cb_rng_u32 rng)) ^^ n) rng)
        \<and> sint lo \<le> sint x \<and> sint x < sint hi
      else cb_rng_fx16_range rng lo hi = Some (lo, rng))"
proof -
  have "\<exists>x n. cb_rng_i32_range rng lo hi = Some (x, (cb__pcg_step ^^ n) rng)
        \<and> sint lo \<le> sint x \<and> sint x \<le> sint hi" if "sint lo \<le> sint hi"
    using i32_range_inside [OF assms that] by metis
  moreover have "\<exists>x n. cb_rng_fx16_range rng lo hi = Some (x, (cb__pcg_step ^^ n) rng)
        \<and> sint lo \<le> sint x \<and> sint x < sint hi" if "sint lo < sint hi"
    using fx16_range_inside [OF assms that] by metis
  moreover have "cb_rng_i32_range rng lo hi = Some (lo, rng)" if "\<not> sint lo \<le> sint hi"
    using that by (simp add: cb_rng_i32_range_def word_sless_alt)
  moreover have "cb_rng_fx16_range rng lo hi = Some (lo, rng)" if "\<not> sint lo < sint hi"
    using that by (simp add: cb_rng_fx16_range_def word_sle_eq)
  ultimately show ?thesis by (simp only: u32_iter split: if_split) blast
qed

lemma rng_ranges_inside_witness:
  "(\<exists>x n. cb_rng_i32_range (cb_rng_seed 42 54) CB_FX16_MIN CB_FX16_MAX
      = Some (x, ((\<lambda>rng. snd (cb_rng_u32 rng)) ^^ n) (cb_rng_seed 42 54)))
    \<and> (\<exists>x n. cb_rng_fx16_range (cb_rng_seed 42 54) CB_FX16_MIN CB_FX16_MAX
      = Some (x, ((\<lambda>rng. snd (cb_rng_u32 rng)) ^^ n) (cb_rng_seed 42 54)) \<and> sint x < 2147483647)"
  using rng_ranges_inside [OF seed_odd, of CB_FX16_MIN CB_FX16_MAX 42 54]
  by (simp only: cint) (simp, blast)

end
