(* ===== verification/Buffers.thy ===== *)
theory Buffers
  imports Prelude
begin

unbundle bit_operations_syntax

text \<open>
  Byte buffers: a buffer is the list of its bytes, and the two operations are what \<open>memcpy\<close>
  does with it, reading a run of bytes at an offset and overwriting one.  The lemmas say that a
  write is read back, that it leaves everything outside its run alone, and that runs side by
  side join.
\<close>

definition get_bytes :: "nat \<Rightarrow> nat \<Rightarrow> 'b list \<Rightarrow> 'b list" where
  "get_bytes off len buf = take len (drop off buf)"

definition put_bytes :: "nat \<Rightarrow> 'b list \<Rightarrow> 'b list \<Rightarrow> 'b list" where
  "put_bytes off bs buf = take off buf @ bs @ drop (off + length bs) buf"

lemma length_get_bytes [slice]: "off + len \<le> length buf \<Longrightarrow> length (get_bytes off len buf) = len"
  by (simp add: get_bytes_def)

lemma length_put_bytes [slice]:
  "off + length bs \<le> length buf \<Longrightarrow> length (put_bytes off bs buf) = length buf"
  by (simp add: put_bytes_def)

lemma nth_put_bytes:
  assumes "off + length bs \<le> length buf"
  shows "put_bytes off bs buf ! k =
    (if off \<le> k \<and> k < off + length bs then bs ! (k - off) else buf ! k)"
  using assms by (auto simp: put_bytes_def nth_append)

lemma nth_get_bytes: "off + len \<le> length buf \<Longrightarrow> k < len \<Longrightarrow> get_bytes off len buf ! k = buf ! (off + k)"
  by (simp add: get_bytes_def)

lemma get_put_same [slice]:
  "off + length bs \<le> length buf \<Longrightarrow> length bs = len \<Longrightarrow> get_bytes off len (put_bytes off bs buf) = bs"
  by (auto simp: get_bytes_def put_bytes_def)

lemma get_put_other [slice]:
  assumes "off + length bs \<le> length buf" "o' + len \<le> off \<or> off + length bs \<le> o'"
  shows "get_bytes o' len (put_bytes off bs buf) = get_bytes o' len buf"
proof (rule nth_equalityI)
  show l: "length (get_bytes o' len (put_bytes off bs buf)) = length (get_bytes o' len buf)"
    by (simp add: get_bytes_def length_put_bytes [OF assms(1)])
  fix k assume "k < length (get_bytes o' len (put_bytes off bs buf))"
  then have "k < len" "o' + k < length buf"
    by (auto simp: get_bytes_def length_put_bytes [OF assms(1)])
  then show "get_bytes o' len (put_bytes off bs buf) ! k = get_bytes o' len buf ! k"
    using assms by (auto simp: get_bytes_def length_put_bytes nth_put_bytes)
qed

lemma get_bytes_append: "get_bytes off (m + n) buf = get_bytes off m buf @ get_bytes (off + m) n buf"
  by (simp add: get_bytes_def take_add add.commute)

lemma get_bytes_0 [simp]: "get_bytes off 0 buf = []"
  by (simp add: get_bytes_def)

lemma put_bytes_Nil [simp]: "put_bytes off [] buf = buf"
  by (simp add: put_bytes_def)

lemma put_get_bytes: "off + len \<le> length buf \<Longrightarrow> put_bytes off (get_bytes off len buf) buf = buf"
  by (simp add: put_bytes_def get_bytes_def)
    (metis append_take_drop_id drop_drop add.commute)

lemma put_put_same:
  "off + length bs \<le> length buf \<Longrightarrow> length cs = length bs \<Longrightarrow>
    put_bytes off cs (put_bytes off bs buf) = put_bytes off cs buf"
  by (simp add: put_bytes_def)

lemma put_bytes_append:
  assumes "off + length bs + length cs \<le> length buf"
  shows "put_bytes (off + length bs) cs (put_bytes off bs buf) = put_bytes off (bs @ cs) buf"
  using assms by (auto simp: put_bytes_def ac_simps)

lemma drop_put_bytes: "off + length bs \<le> length buf \<Longrightarrow> off + length bs \<le> k \<Longrightarrow>
    drop k (put_bytes off bs buf) = drop k buf"
  by (simp add: put_bytes_def)

lemma take_put_bytes: "off + length bs \<le> length buf \<Longrightarrow> k \<le> off \<Longrightarrow>
    take k (put_bytes off bs buf) = take k buf"
  by (simp add: put_bytes_def)

text \<open>Storing the bytes one by one.\<close>

lemma put_bytes_Cons:
  "off + Suc (length bs) \<le> length buf \<Longrightarrow> put_bytes off (b # bs) buf = put_bytes (Suc off) bs (buf[off := b])"
  by (rule nth_equalityI) (auto simp: length_put_bytes nth_put_bytes nth_list_update nth_Cons' Suc_le_eq)

lemma put_bytes_2: "off + 2 \<le> length buf \<Longrightarrow> put_bytes off [a, b] buf = buf[off := a, Suc off := b]"
  by (simp add: put_bytes_Cons)

lemma put_bytes_4:
  "off + 4 \<le> length buf \<Longrightarrow> put_bytes off [a, b, c, d] buf = buf[off := a, off + 1 := b, off + 2 := c, off + 3 := d]"
  by (simp add: put_bytes_Cons numeral_2_eq_2 numeral_3_eq_3)

lemma put_bytes_8:
  "off + 8 \<le> length buf \<Longrightarrow> put_bytes off [a, b, c, d, e, f, g, h] buf =
    buf[off := a, off + 1 := b, off + 2 := c, off + 3 := d, off + 4 := e, off + 5 := f, off + 6 := g, off + 7 := h]"
  by (simp add: put_bytes_Cons eval_nat_numeral)

text \<open>The low byte of a word, as the code masks it.\<close>

lemma low_byte: "(ucast (v AND 0xFF :: 'a::len word) :: u8) = ucast v"
proof -
  have "v AND 0xFF = take_bit 8 v" by (simp add: take_bit_eq_mask mask_eq_exp_minus_1)
  then show ?thesis by (intro bit_word_eqI) (auto simp: bit_simps)
qed

end
