(* ===== verification/Rng_Shuffle.thy ===== *)
theory Rng_Shuffle
  imports Rng_Bounded Buffers "HOL-Library.Multiset"
begin

text \<open>
  \<open>cb_rng_shuffle\<close>: Fisher-Yates on an array of \<open>n\<close> elements of \<open>stride\<close> bytes, in place in the
  caller's buffer.  The buffer is a byte list and a swap is the three \<open>memcpy\<close> calls through the
  scratch buffer.

  The specification \<open>fisher_yates\<close> swaps the elements of a list by a given list of indices.  The
  code refines it on the elements of the buffer, with the indices its bounded draws return, and
  every permutation of distinct elements comes from exactly one list of indices.
\<close>

section \<open>Definitions\<close>

definition CB_RNG_SHUFFLE_MAX_STRIDE :: nat where "CB_RNG_SHUFFLE_MAX_STRIDE = 256"

text \<open>One pass of the loop body after the draw: nothing when the index is drawn itself, otherwise the
  three copies through the scratch buffer.\<close>

definition shuffle_swap :: "u8 list \<Rightarrow> nat \<Rightarrow> nat \<Rightarrow> nat \<Rightarrow> u8 list" where
  "shuffle_swap bytes stride i j =
     (if j = i then bytes
      else
        let pi = i * stride;
            pj = j * stride;
            tmp = get_bytes pi stride bytes;
            bytes = put_bytes pi (get_bytes pj stride bytes) bytes
        in put_bytes pj tmp bytes)"

text \<open>The loop at index \<open>i\<close>, counting down to 1.  The element count fits \<open>size_t\<close>, and the bound of
  the draw is the one that the source narrows to 32 bits.\<close>

fun shuffle_loop :: "cb_rng_t \<Rightarrow> u8 list \<Rightarrow> nat \<Rightarrow> nat \<Rightarrow> (cb_rng_t \<times> u8 list) option" where
  "shuffle_loop rng bytes stride 0 = Some (rng, bytes)"
| "shuffle_loop rng bytes stride (Suc k) =
     (case cb_rng_u32_below rng (ucast (word_of_nat (Suc k) + 1 :: size_t)) of
        None \<Rightarrow> None
      | Some (j, rng) \<Rightarrow> shuffle_loop rng (shuffle_swap bytes stride (Suc k) (unat j)) stride k)"

definition cb_rng_shuffle :: "cb_rng_t \<Rightarrow> u8 list \<Rightarrow> nat \<Rightarrow> nat \<Rightarrow> (cb_rng_t \<times> u8 list) option" where
  "cb_rng_shuffle rng base n stride =
     (if n < 2 then Some (rng, base)
      else if CB_RNG_SHUFFLE_MAX_STRIDE < stride
      then Some (rng\<lparr>rng_info := CB_INFO_RNG_BAD_STRIDE\<rparr>, base)
      else shuffle_loop rng base stride (n - 1))"

section \<open>Elements of a buffer\<close>

definition elems :: "nat \<Rightarrow> nat \<Rightarrow> 'b list \<Rightarrow> 'b list list" where
  "elems n stride buf = map (\<lambda>k. get_bytes (k * stride) stride buf) [0 ..< n]"

lemma length_elems [simp]: "length (elems n stride buf) = n" by (simp add: elems_def)

lemma elems_fit: "k < n \<Longrightarrow> n * stride \<le> len \<Longrightarrow> k * stride + stride \<le> (len :: nat)"
  using mult_le_mono1 [of "Suc k" n stride] by simp

lemma elems_apart:
  assumes "i \<noteq> (j :: nat)" shows "i * s + s \<le> j * s \<or> j * s + s \<le> i * s"
proof (cases "i < j")
  case True
  then show ?thesis using mult_le_mono1 [of "Suc i" j s] by simp
next
  case False
  then show ?thesis using assms mult_le_mono1 [of "Suc j" i s] by simp
qed

lemma elems_put:
  assumes "i < n" "n * stride \<le> length buf" "length bs = stride"
  shows "elems n stride (put_bytes (i * stride) bs buf) = (elems n stride buf)[i := bs]"
proof (rule nth_equalityI)
  fix k assume "k < length (elems n stride (put_bytes (i * stride) bs buf))"
  then have k: "k < n" by simp
  have fit: "i * stride + length bs \<le> length buf" using elems_fit [OF assms(1,2)] assms(3) by simp
  show "elems n stride (put_bytes (i * stride) bs buf) ! k = (elems n stride buf)[i := bs] ! k"
  proof (cases "k = i")
    case True
    then show ?thesis using k fit assms(3) by (simp add: elems_def get_put_same)
  next
    case False
    then show ?thesis
      using k fit assms(3) elems_apart [OF False, of stride]
      by (simp add: elems_def get_put_other)
  qed
qed simp

lemma drop_elems_put:
  assumes "i < n" "n * stride \<le> length buf" "length bs = stride"
  shows "drop (n * stride) (put_bytes (i * stride) bs buf) = drop (n * stride) buf"
  using elems_fit [OF assms(1,2)] elems_fit [OF assms(1) order_refl, of stride] assms(3)
  by (simp add: drop_put_bytes)

text \<open>Two buffers of the same length agree if their elements and their rests do.\<close>

lemma elems_get: "i < n \<Longrightarrow> elems n stride buf ! i = get_bytes (i * stride) stride buf"
  by (simp add: elems_def)

section \<open>Fisher-Yates on lists\<close>

fun fisher_yates :: "nat list \<Rightarrow> 'a list \<Rightarrow> 'a list" where
  "fisher_yates [] xs = xs"
| "fisher_yates (j # js) xs = fisher_yates js (xs[length js + 1 := xs ! j, j := xs ! (length js + 1)])"

text \<open>Index lists for an array of \<open>n + 1\<close> elements: the first index is for the last element.\<close>

fun indices :: "nat \<Rightarrow> nat list set" where
  "indices 0 = {[]}"
| "indices (Suc n) = {j # js |j js. j \<le> Suc n \<and> js \<in> indices n}"

lemma indices_length: "js \<in> indices n \<Longrightarrow> length js = n"
  by (induction n arbitrary: js) auto

lemma mset_swap_at:
  assumes "i < length xs" "j < length xs"
  shows "mset (xs[i := xs ! j, j := xs ! i]) = mset xs"
  using mset_swap [OF assms(2,1)] by (simp add: list_update_swap)

lemma fisher_yates_mset:
  "js \<in> indices n \<Longrightarrow> n < length xs \<Longrightarrow> mset (fisher_yates js xs) = mset xs"
proof (induction n arbitrary: js xs)
  case (Suc n)
  then obtain j ks where js: "js = j # ks" "j \<le> Suc n" "ks \<in> indices n" by auto
  then have "mset (fisher_yates ks (xs[Suc n := xs ! j, j := xs ! Suc n]))
      = mset (xs[Suc n := xs ! j, j := xs ! Suc n])"
    using Suc.prems by (intro Suc.IH) simp_all
  then show ?case using js Suc.prems by (simp add: indices_length mset_swap_at)
qed simp

lemma fisher_yates_length: "length (fisher_yates js xs) = length xs"
  by (induction js xs rule: fisher_yates.induct) simp_all

lemma fisher_yates_above:
  "js \<in> indices n \<Longrightarrow> n < k \<Longrightarrow> fisher_yates js xs ! k = xs ! k"
proof (induction n arbitrary: js xs)
  case (Suc n)
  then obtain j ks where "js = j # ks" "j \<le> Suc n" "ks \<in> indices n" by auto
  then show ?case using Suc by (simp add: indices_length)
qed simp

lemma fisher_yates_last:
  assumes "j \<le> Suc n" "ks \<in> indices n" "Suc n < length xs"
  shows "fisher_yates (j # ks) xs ! Suc n = xs ! j"
  using assms
  by (cases "j = Suc n") (simp_all add: fisher_yates_above [OF assms(2)] indices_length nth_list_update)

lemma distinct_swap_at:
  assumes "i < length xs" "j < length xs" "distinct xs"
  shows "distinct (xs[i := xs ! j, j := xs ! i])"
  using mset_eq_imp_distinct_iff [OF mset_swap_at [OF assms(1,2)]] assms(3) by simp

lemma fisher_yates_inj:
  assumes "distinct xs" "n < length xs" "js \<in> indices n" "js' \<in> indices n"
    and "fisher_yates js xs = fisher_yates js' xs"
  shows "js = js'"
  using assms
proof (induction n arbitrary: js js' xs)
  case (Suc n)
  obtain j ks where js: "js = j # ks" "j \<le> Suc n" "ks \<in> indices n" using Suc.prems(3) by auto
  obtain j' ks' where js': "js' = j' # ks'" "j' \<le> Suc n" "ks' \<in> indices n" using Suc.prems(4) by auto
  have "xs ! j = xs ! j'"
    using fisher_yates_last [OF js(2,3) Suc.prems(2)] fisher_yates_last [OF js'(2,3) Suc.prems(2)]
      Suc.prems(5) by (simp only: js(1) js'(1))
  then have j: "j = j'" using Suc.prems(1,2) js(2) js'(2) by (simp add: nth_eq_iff_index_eq)
  have "ks = ks'"
  proof (rule Suc.IH)
    show "distinct (xs[Suc n := xs ! j, j := xs ! Suc n])"
      using Suc.prems(1,2) js(2) by (intro distinct_swap_at) simp_all
    show "fisher_yates ks (xs[Suc n := xs ! j, j := xs ! Suc n])
        = fisher_yates ks' (xs[Suc n := xs ! j, j := xs ! Suc n])"
      using Suc.prems(5) js(3) js'(3) by (simp add: js(1) js'(1) j indices_length)
  qed (use Suc.prems(2) js(3) js'(3) in simp_all)
  then show ?case using j js(1) js'(1) by simp
qed simp

lemma mset_take_drop:
  assumes "mset ys = mset xs" "drop k ys = drop k xs"
  shows "mset (take k ys) = mset (take k xs)"
proof -
  have "mset (take k zs) = mset zs - mset (drop k zs)" for zs :: "'a list"
    by (metis add_diff_cancel_right' append_take_drop_id mset_append)
  then show ?thesis using assms by simp
qed

lemma fisher_yates_surj:
  assumes "mset ys = mset xs" "drop (Suc n) ys = drop (Suc n) xs" "n < length xs"
  shows "\<exists>js \<in> indices n. fisher_yates js xs = ys"
  using assms
proof (induction n arbitrary: xs)
  case 0
  then have "mset (take 1 ys) = mset (take 1 xs)" by (intro mset_take_drop) simp_all
  then have "take 1 ys = take 1 xs" using 0(3) by (cases xs; cases ys) simp_all
  then have "ys = xs" using 0(2) by (metis One_nat_def append_take_drop_id)
  then show ?case by simp
next
  case (Suc n)
  have len: "length ys = length xs" using Suc.prems(1) by (rule mset_eq_length)
  have "ys ! Suc n \<in> set (take (Suc (Suc n)) ys)"
    using Suc.prems(3) len by (auto simp: in_set_conv_nth intro!: exI [of _ "Suc n"])
  moreover have "set (take (Suc (Suc n)) ys) = set (take (Suc (Suc n)) xs)"
    using mset_take_drop [OF Suc.prems(1,2)] by (rule mset_eq_setD)
  ultimately obtain j where j: "j \<le> Suc n" "xs ! j = ys ! Suc n"
    by (auto simp: in_set_conv_nth less_Suc_eq_le)
  define xs' where "xs' = xs[Suc n := xs ! j, j := xs ! Suc n]"
  have "mset ys = mset xs'"
    using mset_swap_at [of "Suc n" xs j] j(1) Suc.prems(1,3) by (simp add: xs'_def)
  moreover have "drop (Suc n) ys = drop (Suc n) xs'"
  proof -
    have "xs' ! Suc n = ys ! Suc n"
      using j Suc.prems(3) by (cases "j = Suc n") (simp_all add: xs'_def nth_list_update)
    moreover have "drop (Suc (Suc n)) xs' = drop (Suc (Suc n)) ys"
      using j(1) Suc.prems(2) by (simp add: xs'_def)
    ultimately show ?thesis
      using Suc.prems(3) len by (metis Cons_nth_drop_Suc length_list_update xs'_def)
  qed
  ultimately obtain js where "js \<in> indices n" "fisher_yates js xs' = ys"
    using Suc.IH [of xs'] Suc.prems(3) by (auto simp: xs'_def)
  then show ?case
    using j(1) by (intro bexI [of _ "j # js"]) (simp_all add: xs'_def indices_length)
qed

section \<open>The code refines the specification\<close>

lemma length_shuffle_swap:
  assumes "i < n" "j < n" "n * stride \<le> length buf"
  shows "length (shuffle_swap buf stride i j) = length buf"
  using elems_fit [OF assms(1,3)] elems_fit [OF assms(2,3)]
  by (simp add: shuffle_swap_def Let_def slice)

lemma elems_swap:
  assumes "i < n" "j < n" "n * stride \<le> length buf"
  shows "elems n stride (shuffle_swap buf stride i j)
    = (elems n stride buf)[i := elems n stride buf ! j, j := elems n stride buf ! i]"
proof (cases "j = i")
  case False
  then show ?thesis
    using elems_fit [OF assms(1,3)] elems_fit [OF assms(2,3)] assms
    by (simp add: shuffle_swap_def Let_def elems_put elems_get slice)
qed (simp add: shuffle_swap_def)

lemma drop_shuffle_swap:
  assumes "i < n" "j < n" "n * stride \<le> length buf"
  shows "drop (n * stride) (shuffle_swap buf stride i j) = drop (n * stride) buf"
  using elems_fit [OF assms(1,3)] elems_fit [OF assms(2,3)] assms
  by (simp add: shuffle_swap_def Let_def drop_elems_put slice)


text \<open>The indices that the loop draws, one bounded draw per pass.\<close>

fun draw_indices :: "cb_rng_t \<Rightarrow> nat \<Rightarrow> (nat list \<times> cb_rng_t) option" where
  "draw_indices rng 0 = Some ([], rng)"
| "draw_indices rng (Suc k) =
     (case cb_rng_u32_below rng (word_of_nat (k + 2)) of
        None \<Rightarrow> None
      | Some (j, rng) \<Rightarrow>
          (case draw_indices rng k of None \<Rightarrow> None | Some (js, rng) \<Rightarrow> Some (unat j # js, rng)))"

lemma loop_bound: "k + 2 < 2 ^ 32 \<Longrightarrow> (ucast (word_of_nat (Suc k) + 1 :: size_t) :: u32) = word_of_nat (k + 2)"
proof -
  assume k: "k + 2 < 2 ^ 32"
  have "(word_of_nat (Suc k) + 1 :: size_t) = word_of_nat (k + 2)" by simp
  then have "unat (ucast (word_of_nat (Suc k) + 1 :: size_t) :: u32) = k + 2"
    using k by (simp only: unat_low unat_of_nat) simp
  moreover have "unat (word_of_nat (k + 2) :: u32) = k + 2" using k by (simp only: unat_of_nat) simp
  ultimately show ?thesis by (simp only: word_unat_eq_iff)
qed

lemma below_index:
  assumes "odd (rng_inc rng)" "k + 2 < 2 ^ 32"
  obtains j m where "cb_rng_u32_below rng (word_of_nat (k + 2)) = Some (j, (cb__pcg_step ^^ m) rng)"
    "unat j \<le> Suc k"
proof -
  have u: "unat (word_of_nat (k + 2) :: u32) = k + 2" using assms(2) by (simp only: unat_of_nat) simp
  then have "(word_of_nat (k + 2) :: u32) \<noteq> 0" by (metis add_is_0 unat_0 zero_neq_numeral)
  with below_some [OF assms(1), of "word_of_nat (k + 2)"] obtain j m
    where "cb_rng_u32_below rng (word_of_nat (k + 2)) = Some (j, (cb__pcg_step ^^ m) rng)"
      "j < word_of_nat (k + 2)" by metis
  then show ?thesis using that u by (simp only: word_less_nat_alt)
qed

lemma shuffle_refines:
  assumes "odd (rng_inc rng)" "k + 1 < 2 ^ 32" "k < n" "n * stride \<le> length buf"
  shows "\<exists>js m buf'. draw_indices rng k = Some (js, (cb__pcg_step ^^ m) rng) \<and> js \<in> indices k
    \<and> shuffle_loop rng buf stride k = Some ((cb__pcg_step ^^ m) rng, buf')
    \<and> elems n stride buf' = fisher_yates js (elems n stride buf)
    \<and> drop (n * stride) buf' = drop (n * stride) buf \<and> length buf' = length buf"
  using assms
proof (induction k arbitrary: rng buf)
  case 0
  then show ?case by (auto intro!: exI [of _ "0 :: nat"])
next
  case (Suc k)
  have k: "k + 2 < 2 ^ 32" using Suc.prems(2) by simp
  obtain j m where j: "cb_rng_u32_below rng (word_of_nat (k + 2)) = Some (j, (cb__pcg_step ^^ m) rng)"
    "unat j \<le> Suc k" using below_index [OF Suc.prems(1) k] by metis
  define buf1 where "buf1 = shuffle_swap buf stride (Suc k) (unat j)"
  have jn: "unat j < n" "Suc k < n" using j(2) Suc.prems(3) by simp_all
  have b1: "length buf1 = length buf" "drop (n * stride) buf1 = drop (n * stride) buf"
    "elems n stride buf1 = (elems n stride buf)[Suc k := elems n stride buf ! unat j, unat j := elems n stride buf ! Suc k]"
    unfolding buf1_def
    by (rule length_shuffle_swap drop_shuffle_swap elems_swap, rule jn, rule jn, rule Suc.prems)+
  obtain js m' buf' where IH: "draw_indices ((cb__pcg_step ^^ m) rng) k = Some (js, (cb__pcg_step ^^ m') ((cb__pcg_step ^^ m) rng))"
    "js \<in> indices k"
    "shuffle_loop ((cb__pcg_step ^^ m) rng) buf1 stride k = Some ((cb__pcg_step ^^ m') ((cb__pcg_step ^^ m) rng), buf')"
    "elems n stride buf' = fisher_yates js (elems n stride buf1)"
    "drop (n * stride) buf' = drop (n * stride) buf1" "length buf' = length buf1"
    using Suc.IH [of "(cb__pcg_step ^^ m) rng" buf1] Suc.prems b1(1) by (auto simp: step_iter_fields)
  have st: "(cb__pcg_step ^^ m') ((cb__pcg_step ^^ m) rng) = (cb__pcg_step ^^ (m' + m)) rng"
    by (simp add: funpow_add)
  have "draw_indices rng (Suc k) = Some (unat j # js, (cb__pcg_step ^^ (m' + m)) rng)"
    by (simp only: draw_indices.simps j option.case prod.case IH(1) st)
  moreover have "shuffle_loop rng buf stride (Suc k) = Some ((cb__pcg_step ^^ (m' + m)) rng, buf')"
    by (simp only: shuffle_loop.simps loop_bound [OF k] j option.case prod.case buf1_def [symmetric] IH(3) st)
  moreover have "elems n stride buf' = fisher_yates (unat j # js) (elems n stride buf)"
    using IH(2) by (simp add: IH(4) b1(3) indices_length)
  moreover have "unat j # js \<in> indices (Suc k)" using j(2) IH(2) by simp
  ultimately show ?case using IH(5,6) b1(1,2) by metis
qed

lemma shuffle_result:
  assumes "odd (rng_inc rng)" "n < 2 ^ 32" "n * stride \<le> length base" "stride \<le> CB_RNG_SHUFFLE_MAX_STRIDE"
  shows "\<exists>js rng' base'. draw_indices rng (n - 1) = Some (js, rng') \<and> js \<in> indices (n - 1)
    \<and> cb_rng_shuffle rng base n stride = Some (rng', base')
    \<and> elems n stride base' = fisher_yates js (elems n stride base)
    \<and> mset (elems n stride base') = mset (elems n stride base)
    \<and> drop (n * stride) base' = drop (n * stride) base
    \<and> length base' = length base \<and> rng_info rng' = rng_info rng"
proof (cases "n < 2")
  case True
  then have "n - 1 = 0" by simp
  then show ?thesis using True by (auto simp: cb_rng_shuffle_def)
next
  case False
  have k: "n - 1 + 1 < 2 ^ 32" "n - 1 < n" using False assms(2) by simp_all
  obtain js m buf' where r: "draw_indices rng (n - 1) = Some (js, (cb__pcg_step ^^ m) rng)"
    "js \<in> indices (n - 1)"
    "shuffle_loop rng base stride (n - 1) = Some ((cb__pcg_step ^^ m) rng, buf')"
    "elems n stride buf' = fisher_yates js (elems n stride base)"
    "drop (n * stride) buf' = drop (n * stride) base" "length buf' = length base"
    using shuffle_refines [OF assms(1) k assms(3)] by blast
  have "cb_rng_shuffle rng base n stride = Some ((cb__pcg_step ^^ m) rng, buf')"
    using False assms(4) r(3) by (simp add: cb_rng_shuffle_def)
  moreover have "mset (elems n stride buf') = mset (elems n stride base)"
    unfolding r(4) using r(2) k(2) by (intro fisher_yates_mset) simp_all
  ultimately show ?thesis using r by (auto simp: step_iter_fields)
qed

section \<open>Properties\<close>

text \<open>C23. \<open>cb_rng_shuffle\<close> refines Fisher-Yates: on a buffer that holds the \<open>n\<close> elements, with a
  stride that the scratch buffer holds and fewer than \<open>2^32\<close> elements, it returns, and the elements
  are those that swapping by the drawn indices gives, a permutation of the elements before; bytes
  beyond the array, the buffer's length and the generator's \<open>info\<close> are untouched.\<close>

theorem rng_shuffle_refines:
  assumes "odd (rng_inc rng)" "n < 2 ^ 32" "n * stride \<le> length base" "stride \<le> CB_RNG_SHUFFLE_MAX_STRIDE"
  shows "\<exists>js rng' base'. draw_indices rng (n - 1) = Some (js, rng') \<and> js \<in> indices (n - 1)
    \<and> cb_rng_shuffle rng base n stride = Some (rng', base')
    \<and> elems n stride base' = fisher_yates js (elems n stride base)
    \<and> mset (elems n stride base') = mset (elems n stride base)
    \<and> drop (n * stride) base' = drop (n * stride) base
    \<and> length base' = length base \<and> rng_info rng' = rng_info rng"
  using assms by (rule shuffle_result)

lemma rng_shuffle_refines_witness:
  "\<exists>rng' base'. cb_rng_shuffle (cb_rng_seed 42 54) [1, 2, 3, 4, 5, 6, 7] 3 2 = Some (rng', base')
    \<and> mset (elems 3 2 base') = {# [1, 2], [3, 4], [5, 6] #} \<and> drop 6 base' = [7]"
proof -
  have "elems 3 2 [1, 2, 3, 4, 5, 6, 7 :: u8] = [[1, 2], [3, 4], [5, 6]]"
    by (simp add: elems_def get_bytes_def upt_rec)
  then show ?thesis
    using rng_shuffle_refines [OF seed_odd, of 3 2 "[1, 2, 3, 4, 5, 6, 7]" 42 54]
    by (auto simp: CB_RNG_SHUFFLE_MAX_STRIDE_def)
qed

text \<open>The shuffle is unbiased given unbiased draws: each arrangement of distinct elements has
  exactly one list of admissible indices, the pass at \<open>i\<close> choosing among \<open>i + 1\<close>, and the code
  leaves that arrangement exactly when its draws are those indices.\<close>

theorem rng_shuffle_one_draw_per_arrangement:
  assumes "distinct (elems n stride base)" "mset ys = mset (elems n stride base)"
    and "0 < n" "n < 2 ^ 32" "n * stride \<le> length base" "stride \<le> CB_RNG_SHUFFLE_MAX_STRIDE"
  shows "\<exists>js \<in> indices (n - 1). \<forall>rng. odd (rng_inc rng) \<longrightarrow>
    ((\<exists>rng' base'. cb_rng_shuffle rng base n stride = Some (rng', base') \<and> elems n stride base' = ys)
      \<longleftrightarrow> (\<exists>rng'. draw_indices rng (n - 1) = Some (js, rng')))"
proof -
  have len: "length (elems n stride base) = n" "length ys = n"
    using mset_eq_length [OF assms(2)] by simp_all
  then obtain js where js: "js \<in> indices (n - 1)" "fisher_yates js (elems n stride base) = ys"
    using fisher_yates_surj [OF assms(2), of "n - 1"] assms(3) by auto
  show ?thesis
  proof (intro bexI allI impI)
    fix rng :: cb_rng_t assume odd: "odd (rng_inc rng)"
    obtain ks rng' base' where r: "draw_indices rng (n - 1) = Some (ks, rng')" "ks \<in> indices (n - 1)"
      "cb_rng_shuffle rng base n stride = Some (rng', base')"
      "elems n stride base' = fisher_yates ks (elems n stride base)"
      using shuffle_result [OF odd assms(4-6)] by blast
    have "(fisher_yates ks (elems n stride base) = ys) = (ks = js)"
      using fisher_yates_inj [OF assms(1) _ r(2) js(1)] js(2) len assms(3) by auto
    then show "(\<exists>rng' base'. cb_rng_shuffle rng base n stride = Some (rng', base') \<and> elems n stride base' = ys)
      \<longleftrightarrow> (\<exists>rng'. draw_indices rng (n - 1) = Some (js, rng'))"
      using r by auto
  qed (rule js(1))
qed

lemma rng_shuffle_one_draw_per_arrangement_witness:
  "\<exists>js \<in> indices 2. \<forall>rng. odd (rng_inc rng) \<longrightarrow>
    ((\<exists>rng' base'. cb_rng_shuffle rng [10, 20, 30] 3 1 = Some (rng', base') \<and> elems 3 1 base' = [[30], [10], [20]])
      \<longleftrightarrow> (\<exists>rng'. draw_indices rng 2 = Some (js, rng')))"
proof -
  have "elems 3 1 [10, 20, 30 :: u8] = [[10], [20], [30]]"
    by (simp add: elems_def get_bytes_def upt_rec)
  then show ?thesis
    using rng_shuffle_one_draw_per_arrangement [of 3 1 "[10, 20, 30]" "[[30], [10], [20]]"]
    by (simp add: CB_RNG_SHUFFLE_MAX_STRIDE_def add_mset_commute)
qed

end
