(* ===== verification/Bytes.thy ===== *)
theory Bytes
  imports Info Buffers
begin

unbundle bit_operations_syntax

text \<open>
  The bounded reader and writer of \<open>cbase_bytes.c\<close>: little-endian integers, byte runs and frames
  with a 16-bit length prefix, with the sticky status of the two structures.

  The pointer of a structure is the list of the bytes it points at; sizes and positions are
  \<open>size_t\<close> words.  An operation returns its status with the structure after it, and a read its
  output cell too, which keeps its old content when the read fails.
\<close>

section \<open>Definitions\<close>

record cb_bytes_writer_t =
  w_info :: cb_info_t
  w_data :: "u8 list"
  w_cap :: size_t
  w_pos :: size_t

record cb_bytes_reader_t =
  r_info :: cb_info_t
  r_data :: "u8 list"
  r_len :: size_t
  r_pos :: size_t

definition cb_bytes_writer_init :: "u8 list \<Rightarrow> size_t \<Rightarrow> cb_bytes_writer_t" where
  "cb_bytes_writer_init buf cap = \<lparr>w_info = CB_INFO_OK, w_data = buf, w_cap = cap, w_pos = 0\<rparr>"

definition cb__bytes_w_check :: "cb_bytes_writer_t \<Rightarrow> size_t \<Rightarrow> cb_info_t \<times> cb_bytes_writer_t" where
  "cb__bytes_w_check w n =
     (if w_info w \<noteq> CB_INFO_OK then (w_info w, w)
      else if w_cap w < n \<or> w_cap w - n < w_pos w
      then (CB_INFO_BYTES_OUT_OF_BOUNDS, w\<lparr>w_info := CB_INFO_BYTES_OUT_OF_BOUNDS\<rparr>)
      else (CB_INFO_OK, w))"

definition cb_bytes_write_u8 :: "cb_bytes_writer_t \<Rightarrow> u8 \<Rightarrow> cb_info_t \<times> cb_bytes_writer_t" where
  "cb_bytes_write_u8 w v =
     (let (info, w) = cb__bytes_w_check w 1
      in if info \<noteq> CB_INFO_OK then (info, w)
         else (CB_INFO_OK, w\<lparr>w_data := (w_data w)[unat (w_pos w) := v], w_pos := w_pos w + 1\<rparr>))"

definition cb_bytes_write_u16_le :: "cb_bytes_writer_t \<Rightarrow> u16 \<Rightarrow> cb_info_t \<times> cb_bytes_writer_t" where
  "cb_bytes_write_u16_le w v =
     (let (info, w) = cb__bytes_w_check w 2
      in if info \<noteq> CB_INFO_OK then (info, w)
         else (CB_INFO_OK,
           w\<lparr>w_data := (w_data w)
               [unat (w_pos w + 0) := ucast (v AND 0xFF),
                unat (w_pos w + 1) := ucast (drop_bit 8 v AND 0xFF)],
             w_pos := w_pos w + 2\<rparr>))"

definition cb_bytes_write_u32_le :: "cb_bytes_writer_t \<Rightarrow> u32 \<Rightarrow> cb_info_t \<times> cb_bytes_writer_t" where
  "cb_bytes_write_u32_le w v =
     (let (info, w) = cb__bytes_w_check w 4
      in if info \<noteq> CB_INFO_OK then (info, w)
         else (CB_INFO_OK,
           w\<lparr>w_data := (w_data w)
               [unat (w_pos w + 0) := ucast (v AND 0xFF),
                unat (w_pos w + 1) := ucast (drop_bit 8 v AND 0xFF),
                unat (w_pos w + 2) := ucast (drop_bit 16 v AND 0xFF),
                unat (w_pos w + 3) := ucast (drop_bit 24 v AND 0xFF)],
             w_pos := w_pos w + 4\<rparr>))"

definition cb_bytes_write_u64_le :: "cb_bytes_writer_t \<Rightarrow> u64 \<Rightarrow> cb_info_t \<times> cb_bytes_writer_t" where
  "cb_bytes_write_u64_le w v =
     (let (info, w) = cb__bytes_w_check w 8
      in if info \<noteq> CB_INFO_OK then (info, w)
         else (CB_INFO_OK,
           w\<lparr>w_data := (w_data w)
               [unat (w_pos w + 0) := ucast (v AND 0xFF),
                unat (w_pos w + 1) := ucast (drop_bit 8 v AND 0xFF),
                unat (w_pos w + 2) := ucast (drop_bit 16 v AND 0xFF),
                unat (w_pos w + 3) := ucast (drop_bit 24 v AND 0xFF),
                unat (w_pos w + 4) := ucast (drop_bit 32 v AND 0xFF),
                unat (w_pos w + 5) := ucast (drop_bit 40 v AND 0xFF),
                unat (w_pos w + 6) := ucast (drop_bit 48 v AND 0xFF),
                unat (w_pos w + 7) := ucast (drop_bit 56 v AND 0xFF)],
             w_pos := w_pos w + 8\<rparr>))"

definition cb_bytes_write_i8 :: "cb_bytes_writer_t \<Rightarrow> i8 \<Rightarrow> cb_info_t \<times> cb_bytes_writer_t" where
  "cb_bytes_write_i8 w v = cb_bytes_write_u8 w v"

definition cb_bytes_write_i16_le :: "cb_bytes_writer_t \<Rightarrow> i16 \<Rightarrow> cb_info_t \<times> cb_bytes_writer_t" where
  "cb_bytes_write_i16_le w v = cb_bytes_write_u16_le w v"

definition cb_bytes_write_i32_le :: "cb_bytes_writer_t \<Rightarrow> i32 \<Rightarrow> cb_info_t \<times> cb_bytes_writer_t" where
  "cb_bytes_write_i32_le w v = cb_bytes_write_u32_le w v"

definition cb_bytes_write_i64_le :: "cb_bytes_writer_t \<Rightarrow> i64 \<Rightarrow> cb_info_t \<times> cb_bytes_writer_t" where
  "cb_bytes_write_i64_le w v = cb_bytes_write_u64_le w v"

definition cb_bytes_write_bytes ::
  "cb_bytes_writer_t \<Rightarrow> u8 list \<Rightarrow> size_t \<Rightarrow> cb_info_t \<times> cb_bytes_writer_t" where
  "cb_bytes_write_bytes w src n =
     (let (info, w) = cb__bytes_w_check w n
      in if info \<noteq> CB_INFO_OK then (info, w)
         else
           let w = (if 0 < n
                    then w\<lparr>w_data := put_bytes (unat (w_pos w)) (get_bytes 0 (unat n) src) (w_data w)\<rparr>
                    else w)
           in (CB_INFO_OK, w\<lparr>w_pos := w_pos w + n\<rparr>))"

definition cb_bytes_writer_len :: "cb_bytes_writer_t \<Rightarrow> size_t" where
  "cb_bytes_writer_len w = w_pos w"

definition cb_bytes_reader_init :: "u8 list \<Rightarrow> size_t \<Rightarrow> cb_bytes_reader_t" where
  "cb_bytes_reader_init buf len = \<lparr>r_info = CB_INFO_OK, r_data = buf, r_len = len, r_pos = 0\<rparr>"

definition cb__bytes_r_check :: "cb_bytes_reader_t \<Rightarrow> size_t \<Rightarrow> cb_info_t \<times> cb_bytes_reader_t" where
  "cb__bytes_r_check r n =
     (if r_info r \<noteq> CB_INFO_OK then (r_info r, r)
      else if r_len r < n \<or> r_len r - n < r_pos r
      then (CB_INFO_BYTES_OUT_OF_BOUNDS, r\<lparr>r_info := CB_INFO_BYTES_OUT_OF_BOUNDS\<rparr>)
      else (CB_INFO_OK, r))"

text \<open>The byte at an offset from the position.\<close>

abbreviation byte_at :: "cb_bytes_reader_t \<Rightarrow> size_t \<Rightarrow> u8" where
  "byte_at r k \<equiv> r_data r ! unat (r_pos r + k)"

definition cb_bytes_read_u8 :: "cb_bytes_reader_t \<Rightarrow> u8 \<Rightarrow> cb_info_t \<times> u8 \<times> cb_bytes_reader_t" where
  "cb_bytes_read_u8 r out =
     (let (info, r) = cb__bytes_r_check r 1
      in if info \<noteq> CB_INFO_OK then (info, out, r)
         else (CB_INFO_OK, r_data r ! unat (r_pos r), r\<lparr>r_pos := r_pos r + 1\<rparr>))"

definition cb_bytes_read_u16_le :: "cb_bytes_reader_t \<Rightarrow> u16 \<Rightarrow> cb_info_t \<times> u16 \<times> cb_bytes_reader_t" where
  "cb_bytes_read_u16_le r out =
     (let (info, r) = cb__bytes_r_check r 2
      in if info \<noteq> CB_INFO_OK then (info, out, r)
         else
           let v = ucast (byte_at r 0) OR push_bit 8 (ucast (byte_at r 1))
           in (CB_INFO_OK, v, r\<lparr>r_pos := r_pos r + 2\<rparr>))"

definition cb_bytes_read_u32_le :: "cb_bytes_reader_t \<Rightarrow> u32 \<Rightarrow> cb_info_t \<times> u32 \<times> cb_bytes_reader_t" where
  "cb_bytes_read_u32_le r out =
     (let (info, r) = cb__bytes_r_check r 4
      in if info \<noteq> CB_INFO_OK then (info, out, r)
         else
           let v = ucast (byte_at r 0) OR push_bit 8 (ucast (byte_at r 1))
                 OR push_bit 16 (ucast (byte_at r 2)) OR push_bit 24 (ucast (byte_at r 3))
           in (CB_INFO_OK, v, r\<lparr>r_pos := r_pos r + 4\<rparr>))"

definition cb_bytes_read_u64_le :: "cb_bytes_reader_t \<Rightarrow> u64 \<Rightarrow> cb_info_t \<times> u64 \<times> cb_bytes_reader_t" where
  "cb_bytes_read_u64_le r out =
     (let (info, r) = cb__bytes_r_check r 8
      in if info \<noteq> CB_INFO_OK then (info, out, r)
         else
           let v = ucast (byte_at r 0) OR push_bit 8 (ucast (byte_at r 1))
                 OR push_bit 16 (ucast (byte_at r 2)) OR push_bit 24 (ucast (byte_at r 3))
                 OR push_bit 32 (ucast (byte_at r 4)) OR push_bit 40 (ucast (byte_at r 5))
                 OR push_bit 48 (ucast (byte_at r 6)) OR push_bit 56 (ucast (byte_at r 7))
           in (CB_INFO_OK, v, r\<lparr>r_pos := r_pos r + 8\<rparr>))"

definition cb_bytes_read_i8 :: "cb_bytes_reader_t \<Rightarrow> i8 \<Rightarrow> cb_info_t \<times> i8 \<times> cb_bytes_reader_t" where
  "cb_bytes_read_i8 r out =
     (let (info, u, r) = cb_bytes_read_u8 r 0
      in if info \<noteq> CB_INFO_OK then (info, out, r) else (CB_INFO_OK, u, r))"

definition cb_bytes_read_i16_le :: "cb_bytes_reader_t \<Rightarrow> i16 \<Rightarrow> cb_info_t \<times> i16 \<times> cb_bytes_reader_t" where
  "cb_bytes_read_i16_le r out =
     (let (info, u, r) = cb_bytes_read_u16_le r 0
      in if info \<noteq> CB_INFO_OK then (info, out, r) else (CB_INFO_OK, u, r))"

definition cb_bytes_read_i32_le :: "cb_bytes_reader_t \<Rightarrow> i32 \<Rightarrow> cb_info_t \<times> i32 \<times> cb_bytes_reader_t" where
  "cb_bytes_read_i32_le r out =
     (let (info, u, r) = cb_bytes_read_u32_le r 0
      in if info \<noteq> CB_INFO_OK then (info, out, r) else (CB_INFO_OK, u, r))"

definition cb_bytes_read_i64_le :: "cb_bytes_reader_t \<Rightarrow> i64 \<Rightarrow> cb_info_t \<times> i64 \<times> cb_bytes_reader_t" where
  "cb_bytes_read_i64_le r out =
     (let (info, u, r) = cb_bytes_read_u64_le r 0
      in if info \<noteq> CB_INFO_OK then (info, out, r) else (CB_INFO_OK, u, r))"

text \<open>The caller's destination is the buffer \<open>out\<close>, whose first \<open>n\<close> bytes are overwritten.\<close>

definition cb_bytes_read_bytes ::
  "cb_bytes_reader_t \<Rightarrow> u8 list \<Rightarrow> size_t \<Rightarrow> cb_info_t \<times> u8 list \<times> cb_bytes_reader_t" where
  "cb_bytes_read_bytes r out n =
     (let (info, r) = cb__bytes_r_check r n
      in if info \<noteq> CB_INFO_OK then (info, out, r)
         else
           let out = (if 0 < n then put_bytes 0 (get_bytes (unat (r_pos r)) (unat n) (r_data r)) out else out)
           in (CB_INFO_OK, out, r\<lparr>r_pos := r_pos r + n\<rparr>))"

definition cb_bytes_reader_remaining :: "cb_bytes_reader_t \<Rightarrow> size_t" where
  "cb_bytes_reader_remaining r = (if r_info r \<noteq> CB_INFO_OK then 0 else r_len r - r_pos r)"

definition cb_bytes_begin_frame_u16 :: "cb_bytes_writer_t \<Rightarrow> cb_info_t \<times> size_t \<times> cb_bytes_writer_t" where
  "cb_bytes_begin_frame_u16 w =
     (if w_info w \<noteq> CB_INFO_OK then (w_info w, 0, w)
      else
        let mark = w_pos w;
            (info, w) = cb_bytes_write_u16_le w 0
        in if info \<noteq> CB_INFO_OK then (info, 0, w) else (CB_INFO_OK, mark, w))"

definition cb_bytes_end_frame_u16 :: "cb_bytes_writer_t \<Rightarrow> size_t \<Rightarrow> cb_info_t \<times> cb_bytes_writer_t" where
  "cb_bytes_end_frame_u16 w mark =
     (if w_info w \<noteq> CB_INFO_OK then (w_info w, w)
      else
        let body = w_pos w - mark - 2
        in if 0xFFFF < body
           then (CB_INFO_BYTES_FRAME_TOO_LARGE, w\<lparr>w_info := CB_INFO_BYTES_FRAME_TOO_LARGE\<rparr>)
           else
             let len = (ucast body :: u16)
             in (CB_INFO_OK,
                 w\<lparr>w_data := (w_data w)
                     [unat (mark + 0) := ucast (len AND 0xFF),
                      unat (mark + 1) := ucast (drop_bit 8 len AND 0xFF)]\<rparr>))"

definition cb_bytes_read_frame_u16 ::
  "cb_bytes_reader_t \<Rightarrow> cb_bytes_reader_t \<Rightarrow> cb_info_t \<times> cb_bytes_reader_t \<times> cb_bytes_reader_t" where
  "cb_bytes_read_frame_u16 r out_sub =
     (if r_info r \<noteq> CB_INFO_OK then (r_info r, out_sub, r)
      else
        let saved_pos = r_pos r;
            (info, body_len, r) = cb_bytes_read_u16_le r 0
        in if info \<noteq> CB_INFO_OK then (info, out_sub, r)
           else
             let (info, r) = cb__bytes_r_check r (ucast body_len)
             in if info \<noteq> CB_INFO_OK then (info, out_sub, r\<lparr>r_pos := saved_pos\<rparr>)
                else
                  let out_sub = cb_bytes_reader_init (drop (unat (r_pos r)) (r_data r)) (ucast body_len)
                  in (CB_INFO_OK, out_sub, r\<lparr>r_pos := r_pos r + ucast body_len\<rparr>))"


section \<open>Little-endian bytes\<close>

definition le_bytes :: "nat \<Rightarrow> 'a::len word \<Rightarrow> u8 list" where
  "le_bytes n v = map (\<lambda>k. ucast (drop_bit (8 * k) v)) [0 ..< n]"

fun le_word :: "u8 list \<Rightarrow> 'a::len word" where
  "le_word [] = 0"
| "le_word (b # bs) = ucast b OR push_bit 8 (le_word bs)"

text \<open>The value of a little-endian byte string.\<close>

fun le_val :: "u8 list \<Rightarrow> nat" where
  "le_val [] = 0"
| "le_val (b # bs) = unat b + 256 * le_val bs"

lemma length_le_bytes [simp]: "length (le_bytes n v) = n" by (simp add: le_bytes_def)

lemma le_bytes_0: "le_bytes 0 v = []" by (simp add: le_bytes_def)

lemma le_bytes_Suc: "le_bytes (Suc n) v = ucast v # le_bytes n (drop_bit 8 v)"
  by (simp add: le_bytes_def upt_conv_Cons map_Suc_upt [symmetric] del: upt_Suc) (simp add: ac_simps)

lemmas le_bytes_eval = le_bytes_0 le_bytes_Suc numeral_eq_Suc pred_numeral_simps

lemma le_word_bytes:
  "8 * n = LENGTH('a) \<Longrightarrow> le_word (le_bytes n v) = (v :: 'a::len word)"
proof -
  assume n: "8 * n = LENGTH('a)"
  have "bit (le_word (le_bytes m w) :: 'a word) i = (i < 8 * m \<and> bit w i)" if "8 * m \<le> LENGTH('a)"
    for m i and w :: "'a word"
    using that
  proof (induction m arbitrary: w i)
    case (Suc m)
    have "bit (ucast (ucast w :: u8) :: 'a word) i = (i < 8 \<and> bit w i)"
      by (auto simp: bit_simps dest: bit_imp_le_length)
    moreover have "bit (push_bit 8 (le_word (le_bytes m (drop_bit 8 w))) :: 'a word) i = (8 \<le> i \<and> i < 8 + 8 * m \<and> bit w i)"
      using Suc by (auto simp: bit_simps dest: bit_imp_le_length)
    ultimately show ?case by (auto simp: le_bytes_Suc bit_or_iff)
  qed (simp add: le_bytes_0)
  from this [of n v] show ?thesis using n by (intro bit_word_eqI) simp
qed

lemma unat_low8: "unat (ucast v :: u8) = unat (v :: 'a::len word) mod 256"
  by (simp only: unsigned_ucast_eq) (simp add: take_bit_eq_mod)

lemma le_val_bytes: "8 * n = LENGTH('a) \<Longrightarrow> le_val (le_bytes n v) = unat (v :: 'a::len word)"
proof -
  assume n: "8 * n = LENGTH('a)"
  have "le_val (le_bytes m w) = unat w mod 2 ^ (8 * m)" for m and w :: "'a word"
  proof (induction m arbitrary: w)
    case (Suc m)
    have "unat (drop_bit 8 w) = unat w div 256"
      by (simp only: unat_drop_bit_eq) (simp add: drop_bit_eq_div)
    then have "le_val (le_bytes (Suc m) w) = unat w mod 256 + 256 * (unat w div 256 mod 2 ^ (8 * m))"
      by (simp add: le_bytes_Suc Suc.IH unat_low8)
    also have "\<dots> = unat w mod (256 * 2 ^ (8 * m))" by (simp add: mod_mult2_eq)
    finally show ?case by (simp add: power_add)
  qed (simp add: le_bytes_0)
  from this [of n v] show ?thesis using unsigned_less [where 'a = nat, of v] by (simp add: n)
qed

section \<open>Writing and reading a run of bytes\<close>

definition wf_writer :: "cb_bytes_writer_t \<Rightarrow> bool" where
  "wf_writer w \<longleftrightarrow> unat (w_cap w) \<le> length (w_data w) \<and> w_pos w \<le> w_cap w"

definition wf_reader :: "cb_bytes_reader_t \<Rightarrow> bool" where
  "wf_reader r \<longleftrightarrow> unat (r_len r) \<le> length (r_data r) \<and> r_pos r \<le> r_len r"

text \<open>What every write does with the bytes of its value, and what every read does before it
  decodes.\<close>

definition emit :: "cb_bytes_writer_t \<Rightarrow> u8 list \<Rightarrow> cb_info_t \<times> cb_bytes_writer_t" where
  "emit w bs =
     (if w_info w \<noteq> CB_INFO_OK then (w_info w, w)
      else if unat (w_cap w) < unat (w_pos w) + length bs
      then (CB_INFO_BYTES_OUT_OF_BOUNDS, w\<lparr>w_info := CB_INFO_BYTES_OUT_OF_BOUNDS\<rparr>)
      else (CB_INFO_OK,
        w\<lparr>w_data := put_bytes (unat (w_pos w)) bs (w_data w), w_pos := w_pos w + word_of_nat (length bs)\<rparr>))"

definition consume :: "cb_bytes_reader_t \<Rightarrow> nat \<Rightarrow> cb_info_t \<times> u8 list \<times> cb_bytes_reader_t" where
  "consume r n =
     (if r_info r \<noteq> CB_INFO_OK then (r_info r, [], r)
      else if unat (r_len r) < unat (r_pos r) + n
      then (CB_INFO_BYTES_OUT_OF_BOUNDS, [], r\<lparr>r_info := CB_INFO_BYTES_OUT_OF_BOUNDS\<rparr>)
      else (CB_INFO_OK, get_bytes (unat (r_pos r)) n (r_data r), r\<lparr>r_pos := r_pos r + word_of_nat n\<rparr>))"

text \<open>The bounds test of the source is free of wrap-around: it asks for room exactly.\<close>

lemma room_test:
  assumes "pos \<le> (cap :: size_t)"
  shows "(cap < n \<or> cap - n < pos) = (unat cap < unat pos + unat n)"
proof (cases "cap < n")
  case True
  then show ?thesis by (simp add: word_less_nat_alt)
next
  case False
  then have "unat (cap - n) = unat cap - unat n" by (simp add: unat_sub)
  then show ?thesis using False by (auto simp: word_less_nat_alt)
qed

lemma w_check:
  "wf_writer w \<Longrightarrow> cb__bytes_w_check w n =
    (if w_info w \<noteq> CB_INFO_OK then (w_info w, w)
     else if unat (w_cap w) < unat (w_pos w) + unat n
     then (CB_INFO_BYTES_OUT_OF_BOUNDS, w\<lparr>w_info := CB_INFO_BYTES_OUT_OF_BOUNDS\<rparr>)
     else (CB_INFO_OK, w))"
  unfolding cb__bytes_w_check_def wf_writer_def by (simp only: room_test)

lemma r_check:
  "wf_reader r \<Longrightarrow> cb__bytes_r_check r n =
    (if r_info r \<noteq> CB_INFO_OK then (r_info r, r)
     else if unat (r_len r) < unat (r_pos r) + unat n
     then (CB_INFO_BYTES_OUT_OF_BOUNDS, r\<lparr>r_info := CB_INFO_BYTES_OUT_OF_BOUNDS\<rparr>)
     else (CB_INFO_OK, r))"
  unfolding cb__bytes_r_check_def wf_reader_def by (simp only: room_test)

lemma unat_pos_plus:
  "unat pos + k \<le> unat (cap :: size_t) \<Longrightarrow> unat (pos + word_of_nat k :: size_t) = unat pos + k"
  using unsigned_less [where 'a = nat, of cap] by (simp add: unat_word_ariths unat_of_nat)


lemma unat_pos_of: "unat pos + k < 18446744073709551616 \<Longrightarrow> unat (pos + word_of_nat k :: size_t) = unat pos + k"
  by (simp add: unat_word_ariths unat_of_nat)

lemma unat_pos_numeral:
  "unat pos + numeral k < 18446744073709551616 \<Longrightarrow> unat (pos + numeral k :: size_t) = unat pos + numeral k"
  using unat_pos_of [of pos "numeral k"] by (simp only: of_nat_numeral)

lemma unat_pos_Suc:
  "unat pos + 1 < 18446744073709551616 \<Longrightarrow> unat (pos + 1 :: size_t) = Suc (unat pos)"
  using unat_pos_of [of pos 1] by simp

lemma room_lt: "\<not> unat (cap :: size_t) < n \<Longrightarrow> n < 18446744073709551616"
  using unsigned_less [where 'a = nat, of cap] by simp

lemma le_bytes_1: "le_bytes (Suc 0) v = [ucast v]"
  by (simp add: le_bytes_def)

lemma le_bytes_2: "le_bytes 2 v = [ucast v, ucast (drop_bit 8 v)]"
  by (simp add: le_bytes_def upt_rec)

lemma le_bytes_4:
  "le_bytes 4 v = [ucast v, ucast (drop_bit 8 v), ucast (drop_bit 16 v), ucast (drop_bit 24 v)]"
  by (simp add: le_bytes_def upt_rec)

lemma le_bytes_8:
  "le_bytes 8 v = [ucast v, ucast (drop_bit 8 v), ucast (drop_bit 16 v), ucast (drop_bit 24 v),
    ucast (drop_bit 32 v), ucast (drop_bit 40 v), ucast (drop_bit 48 v), ucast (drop_bit 56 v)]"
  by (simp add: le_bytes_def upt_rec)

lemma write_u8_emit:
  assumes "wf_writer w"
  shows "cb_bytes_write_u8 w v = emit w (le_bytes 1 v)"
proof -
  have "unat (w_pos w) + 1 \<le> length (w_data w)" if "\<not> unat (w_cap w) < Suc (unat (w_pos w))"
    using that assms by (simp add: wf_writer_def)
  then show ?thesis
    using assms by (simp add: cb_bytes_write_u8_def w_check emit_def le_bytes_1 put_bytes_Cons)
qed

lemma write_u16_emit:
  assumes "wf_writer w"
  shows "cb_bytes_write_u16_le w v = emit w (le_bytes 2 v)"
proof (cases "w_info w = CB_INFO_OK \<and> \<not> unat (w_cap w) < unat (w_pos w) + 2")
  case True
  then have "unat (w_pos w) + 2 \<le> length (w_data w)" using assms by (simp add: wf_writer_def)
  then show ?thesis
    using True assms room_lt [of "w_cap w" "unat (w_pos w) + 2"]
    by (simp add: cb_bytes_write_u16_le_def w_check emit_def le_bytes_2 low_byte put_bytes_2 unat_pos_Suc)
qed (use assms in \<open>auto simp: cb_bytes_write_u16_le_def w_check emit_def\<close>)

lemma write_u32_emit:
  assumes "wf_writer w"
  shows "cb_bytes_write_u32_le w v = emit w (le_bytes 4 v)"
proof (cases "w_info w = CB_INFO_OK \<and> \<not> unat (w_cap w) < unat (w_pos w) + 4")
  case True
  then have "unat (w_pos w) + 4 \<le> length (w_data w)" using assms by (simp add: wf_writer_def)
  then show ?thesis
    using True assms room_lt [of "w_cap w" "unat (w_pos w) + 4"]
    by (simp add: cb_bytes_write_u32_le_def w_check emit_def le_bytes_4 low_byte put_bytes_4
        unat_pos_Suc unat_pos_numeral)
qed (use assms in \<open>auto simp: cb_bytes_write_u32_le_def w_check emit_def\<close>)

lemma write_u64_emit:
  assumes "wf_writer w"
  shows "cb_bytes_write_u64_le w v = emit w (le_bytes 8 v)"
proof (cases "w_info w = CB_INFO_OK \<and> \<not> unat (w_cap w) < unat (w_pos w) + 8")
  case True
  then have "unat (w_pos w) + 8 \<le> length (w_data w)" using assms by (simp add: wf_writer_def)
  then show ?thesis
    using True assms room_lt [of "w_cap w" "unat (w_pos w) + 8"]
    by (simp add: cb_bytes_write_u64_le_def w_check emit_def le_bytes_8 low_byte put_bytes_8
        unat_pos_Suc unat_pos_numeral)
qed (use assms in \<open>auto simp: cb_bytes_write_u64_le_def w_check emit_def\<close>)

lemma write_bytes_emit:
  assumes "wf_writer w" "unat n \<le> length src"
  shows "cb_bytes_write_bytes w src n = emit w (take (unat n) src)"
  using assms by (auto simp: cb_bytes_write_bytes_def w_check emit_def get_bytes_def word_gt_0)


text \<open>A read decodes the bytes it consumed, or leaves the output cell alone.\<close>

definition fetch :: "cb_bytes_reader_t \<Rightarrow> nat \<Rightarrow> (u8 list \<Rightarrow> 'a) \<Rightarrow> 'a \<Rightarrow> cb_info_t \<times> 'a \<times> cb_bytes_reader_t" where
  "fetch r n dec out =
     (let (info, bs, r) = consume r n in (info, if info = CB_INFO_OK then dec bs else out, r))"

lemma fetch_cases:
  "r_info r \<noteq> CB_INFO_OK \<Longrightarrow> fetch r n dec out = (r_info r, out, r)"
  "r_info r = CB_INFO_OK \<Longrightarrow> unat (r_len r) < unat (r_pos r) + n \<Longrightarrow>
    fetch r n dec out = (CB_INFO_BYTES_OUT_OF_BOUNDS, out, r\<lparr>r_info := CB_INFO_BYTES_OUT_OF_BOUNDS\<rparr>)"
  "r_info r = CB_INFO_OK \<Longrightarrow> \<not> unat (r_len r) < unat (r_pos r) + n \<Longrightarrow>
    fetch r n dec out = (CB_INFO_OK, dec (get_bytes (unat (r_pos r)) n (r_data r)), r\<lparr>r_pos := r_pos r + word_of_nat n\<rparr>)"
  by (simp_all add: fetch_def consume_def)

lemma get_bytes_Suc: "off < length buf \<Longrightarrow> get_bytes off (Suc n) buf = buf ! off # get_bytes (Suc off) n buf"
  by (simp add: get_bytes_def Cons_nth_drop_Suc [symmetric])

lemma get_bytes_1: "off < length buf \<Longrightarrow> get_bytes off (Suc 0) buf = [buf ! off]"
  by (simp add: get_bytes_Suc)

lemma get_bytes_2: "off + 2 \<le> length buf \<Longrightarrow> get_bytes off 2 buf = [buf ! off, buf ! Suc off]"
  by (simp add: get_bytes_Suc numeral_2_eq_2)

lemma get_bytes_4: "off + 4 \<le> length buf \<Longrightarrow>
    get_bytes off 4 buf = [buf ! off, buf ! Suc off, buf ! (off + 2), buf ! (off + 3)]"
  by (simp add: get_bytes_Suc eval_nat_numeral)

lemma get_bytes_8: "off + 8 \<le> length buf \<Longrightarrow>
    get_bytes off 8 buf = [buf ! off, buf ! Suc off, buf ! (off + 2), buf ! (off + 3),
      buf ! (off + 4), buf ! (off + 5), buf ! (off + 6), buf ! (off + 7)]"
  by (simp add: get_bytes_Suc eval_nat_numeral)

lemma push_bit_or: "push_bit n (a OR b) = push_bit n a OR push_bit n (b :: 'a::len word)"
  by (rule bit_word_eqI) (auto simp: bit_simps)

lemma le_word_1: "le_word [a] = (ucast a :: 'a::len word)" by simp

lemma le_word_2: "le_word [a, b] = (ucast a OR push_bit 8 (ucast b) :: 'a::len word)" by simp

lemma le_word_4: "le_word [a, b, c, d] =
    (ucast a OR push_bit 8 (ucast b) OR push_bit 16 (ucast c) OR push_bit 24 (ucast d) :: 'a::len word)"
  by (simp only: le_word.simps push_bit_or push_bit_push_bit or.right_neutral push_bit_of_0 or.assoc) simp

lemma le_word_8: "le_word [a, b, c, d, e, f, g, h] =
    (ucast a OR push_bit 8 (ucast b) OR push_bit 16 (ucast c) OR push_bit 24 (ucast d)
      OR push_bit 32 (ucast e) OR push_bit 40 (ucast f) OR push_bit 48 (ucast g) OR push_bit 56 (ucast h) :: 'a::len word)"
  by (simp only: le_word.simps push_bit_or push_bit_push_bit or.right_neutral push_bit_of_0 or.assoc) simp

lemma read_u8_fetch:
  assumes "wf_reader r"
  shows "cb_bytes_read_u8 r out = fetch r 1 le_word out"
proof -
  have "unat (r_pos r) < length (r_data r)" if "\<not> unat (r_len r) < Suc (unat (r_pos r))"
    using that assms by (simp add: wf_reader_def)
  then show ?thesis
    using assms by (simp add: cb_bytes_read_u8_def r_check fetch_def consume_def get_bytes_1)
qed

lemma read_u16_fetch:
  assumes "wf_reader r"
  shows "cb_bytes_read_u16_le r out = fetch r 2 le_word out"
proof (cases "r_info r = CB_INFO_OK \<and> \<not> unat (r_len r) < unat (r_pos r) + 2")
  case True
  then have "unat (r_pos r) + 2 \<le> length (r_data r)" using assms by (simp add: wf_reader_def)
  then show ?thesis
    using True assms room_lt [of "r_len r" "unat (r_pos r) + 2"]
    by (simp add: cb_bytes_read_u16_le_def r_check fetch_cases get_bytes_2 unat_pos_Suc
        del: push_bit_of_0)
qed (use assms in \<open>auto simp: cb_bytes_read_u16_le_def r_check fetch_cases\<close>)

lemma read_u32_fetch:
  assumes "wf_reader r"
  shows "cb_bytes_read_u32_le r out = fetch r 4 le_word out"
proof (cases "r_info r = CB_INFO_OK \<and> \<not> unat (r_len r) < unat (r_pos r) + 4")
  case True
  then have "unat (r_pos r) + 4 \<le> length (r_data r)" using assms by (simp add: wf_reader_def)
  then show ?thesis
    using True assms room_lt [of "r_len r" "unat (r_pos r) + 4"]
    by (simp add: cb_bytes_read_u32_le_def r_check fetch_cases get_bytes_4 unat_pos_Suc
        unat_pos_numeral le_word_4 del: le_word.simps)
qed (use assms in \<open>auto simp: cb_bytes_read_u32_le_def r_check fetch_cases\<close>)

lemma read_u64_fetch:
  assumes "wf_reader r"
  shows "cb_bytes_read_u64_le r out = fetch r 8 le_word out"
proof (cases "r_info r = CB_INFO_OK \<and> \<not> unat (r_len r) < unat (r_pos r) + 8")
  case True
  then have "unat (r_pos r) + 8 \<le> length (r_data r)" using assms by (simp add: wf_reader_def)
  then show ?thesis
    using True assms room_lt [of "r_len r" "unat (r_pos r) + 8"]
    by (simp add: cb_bytes_read_u64_le_def r_check fetch_cases get_bytes_8 unat_pos_Suc
        unat_pos_numeral le_word_8 del: le_word.simps)
qed (use assms in \<open>auto simp: cb_bytes_read_u64_le_def r_check fetch_cases\<close>)

lemma read_bytes_fetch:
  assumes "wf_reader r"
  shows "cb_bytes_read_bytes r out n
    = fetch r (unat n) (\<lambda>bs. bs @ drop (unat n) out) out"
proof (cases "r_info r = CB_INFO_OK \<and> \<not> unat (r_len r) < unat (r_pos r) + unat n")
  case True
  then have "unat (r_pos r) + unat n \<le> length (r_data r)" using assms by (simp add: wf_reader_def)
  then show ?thesis
    using True assms
    by (auto simp: cb_bytes_read_bytes_def r_check fetch_cases word_gt_0 put_bytes_def length_get_bytes)
qed (use assms in \<open>auto simp: cb_bytes_read_bytes_def r_check fetch_cases\<close>)


lemma emit_wf: "wf_writer w \<Longrightarrow> wf_writer (snd (emit w bs))"
proof -
  assume wf: "wf_writer w"
  show ?thesis
  proof (cases "w_info w = CB_INFO_OK \<and> \<not> unat (w_cap w) < unat (w_pos w) + length bs")
    case True
    then have "unat (w_pos w) + length bs \<le> unat (w_cap w)" by simp
    from unat_pos_plus [OF this] show ?thesis
      using True wf by (simp add: emit_def wf_writer_def word_le_nat_alt length_put_bytes)
  qed (use wf in \<open>auto simp: emit_def wf_writer_def\<close>)
qed

lemma emit_ok:
  "w_info w = CB_INFO_OK \<Longrightarrow> unat (w_pos w) + length bs \<le> unat (w_cap w) \<Longrightarrow>
    emit w bs = (CB_INFO_OK,
      w\<lparr>w_data := put_bytes (unat (w_pos w)) bs (w_data w), w_pos := w_pos w + word_of_nat (length bs)\<rparr>)"
  by (simp add: emit_def)

lemma emit_failed:
  "fst (emit w bs) \<noteq> CB_INFO_OK \<Longrightarrow>
    snd (emit w bs) = w\<lparr>w_info := fst (emit w bs)\<rparr>"
  by (auto simp: emit_def split: if_splits)

lemma fetch_failed:
  "fetch r n dec out = (info, v, r') \<Longrightarrow> info \<noteq> CB_INFO_OK \<Longrightarrow> v = out \<and> r' = r\<lparr>r_info := info\<rparr>"
  by (auto simp: fetch_def consume_def split: if_splits)

section \<open>The contract of a fixed-width value on the wire\<close>

locale wire_codec =
  fixes wr :: "cb_bytes_writer_t \<Rightarrow> 'a \<Rightarrow> cb_info_t \<times> cb_bytes_writer_t"
    and rd :: "cb_bytes_reader_t \<Rightarrow> 'a \<Rightarrow> cb_info_t \<times> 'a \<times> cb_bytes_reader_t"
    and enc :: "'a \<Rightarrow> u8 list"
    and dec :: "u8 list \<Rightarrow> 'a"
    and width :: nat
  assumes write_emit: "wf_writer w \<Longrightarrow> wr w v = emit w (enc v)"
    and read_fetch: "wf_reader r \<Longrightarrow> rd r out = fetch r width dec out"
    and enc_width: "length (enc v) = width"
    and dec_enc: "dec (enc v) = v"
begin

lemma write_keeps_wf: "wf_writer w \<Longrightarrow> wf_writer (snd (wr w v))"
  by (simp add: write_emit emit_wf)

lemma write_failed:
  "wf_writer w \<Longrightarrow> wr w v = (info, w') \<Longrightarrow> info \<noteq> CB_INFO_OK \<Longrightarrow> w' = w\<lparr>w_info := info\<rparr>"
  using emit_failed [of w "enc v"] by (simp add: write_emit)

lemma write_sticky: "wf_writer w \<Longrightarrow> w_info w \<noteq> CB_INFO_OK \<Longrightarrow> wr w v = (w_info w, w)"
  by (simp add: write_emit emit_def)

lemma read_failed:
  "wf_reader r \<Longrightarrow> rd r out = (info, v, r') \<Longrightarrow> info \<noteq> CB_INFO_OK \<Longrightarrow> v = out \<and> r' = r\<lparr>r_info := info\<rparr>"
  by (simp add: read_fetch fetch_failed)

lemma read_sticky: "wf_reader r \<Longrightarrow> r_info r \<noteq> CB_INFO_OK \<Longrightarrow> rd r out = (r_info r, out, r)"
  by (simp add: read_fetch fetch_cases)

lemma read_encoded:
  assumes "wf_reader r" "r_info r = CB_INFO_OK" "unat (r_pos r) + width \<le> unat (r_len r)"
    and "get_bytes (unat (r_pos r)) width (r_data r) = enc v"
  shows "rd r out = (CB_INFO_OK, v, r\<lparr>r_pos := r_pos r + word_of_nat width\<rparr>)"
  using assms by (simp add: read_fetch fetch_cases dec_enc)

lemma roundtrip:
  assumes "wf_writer w" "wr w v = (CB_INFO_OK, w')"
    and "wf_reader r" "r_info r = CB_INFO_OK" "r_data r = w_data w'" "r_pos r = w_pos w" "w_pos w' \<le> r_len r"
  shows "rd r out = (CB_INFO_OK, v, r\<lparr>r_pos := w_pos w'\<rparr>)"
proof -
  have ok: "w_info w = CB_INFO_OK" "unat (w_pos w) + width \<le> unat (w_cap w)"
    using assms(1,2) by (auto simp: write_emit emit_def enc_width split: if_splits)
  have w': "w' = w\<lparr>w_data := put_bytes (unat (w_pos w)) (enc v) (w_data w), w_pos := w_pos w + word_of_nat width\<rparr>"
    using assms(1,2) ok by (simp add: write_emit emit_ok enc_width)
  have "unat (w_pos w) + width \<le> length (w_data w)" using assms(1) ok(2) by (simp add: wf_writer_def)
  then have "get_bytes (unat (w_pos w)) width (w_data w') = enc v"
    by (simp add: w' get_put_same enc_width)
  moreover have "unat (w_pos w) + width \<le> unat (r_len r)"
    using assms(7) unat_pos_plus [OF ok(2)] by (simp add: w' word_le_nat_alt)
  ultimately show ?thesis
    using read_encoded [OF assms(3,4)] assms(5,6) w' by simp
qed

end

lemma read_signed_fetch:
  assumes "wf_reader r"
  shows "cb_bytes_read_i8 r out8 = fetch r 1 le_word out8"
    and "cb_bytes_read_i16_le r out16 = fetch r 2 le_word out16"
    and "cb_bytes_read_i32_le r out32 = fetch r 4 le_word out32"
    and "cb_bytes_read_i64_le r out64 = fetch r 8 le_word out64"
  using assms
  by (simp_all add: cb_bytes_read_i8_def cb_bytes_read_i16_le_def cb_bytes_read_i32_le_def
      cb_bytes_read_i64_le_def read_u8_fetch read_u16_fetch read_u32_fetch read_u64_fetch
      fetch_def split_def Let_def prod_eq_iff)

interpretation u8_wire: wire_codec cb_bytes_write_u8 cb_bytes_read_u8 "le_bytes 1" le_word 1
  by unfold_locales (simp_all only: write_u8_emit read_u8_fetch length_le_bytes, rule le_word_bytes, simp)

interpretation u16_wire: wire_codec cb_bytes_write_u16_le cb_bytes_read_u16_le "le_bytes 2" le_word 2
  by unfold_locales (simp_all only: write_u16_emit read_u16_fetch length_le_bytes, rule le_word_bytes, simp)

interpretation u32_wire: wire_codec cb_bytes_write_u32_le cb_bytes_read_u32_le "le_bytes 4" le_word 4
  by unfold_locales (simp_all only: write_u32_emit read_u32_fetch length_le_bytes, rule le_word_bytes, simp)

interpretation u64_wire: wire_codec cb_bytes_write_u64_le cb_bytes_read_u64_le "le_bytes 8" le_word 8
  by unfold_locales (simp_all only: write_u64_emit read_u64_fetch length_le_bytes, rule le_word_bytes, simp)

interpretation i8_wire: wire_codec cb_bytes_write_i8 cb_bytes_read_i8 "le_bytes 1" le_word 1
  by unfold_locales (simp_all only: cb_bytes_write_i8_def write_u8_emit read_signed_fetch length_le_bytes, rule le_word_bytes, simp)

interpretation i16_wire: wire_codec cb_bytes_write_i16_le cb_bytes_read_i16_le "le_bytes 2" le_word 2
  by unfold_locales (simp_all only: cb_bytes_write_i16_le_def write_u16_emit read_signed_fetch length_le_bytes, rule le_word_bytes, simp)

interpretation i32_wire: wire_codec cb_bytes_write_i32_le cb_bytes_read_i32_le "le_bytes 4" le_word 4
  by unfold_locales (simp_all only: cb_bytes_write_i32_le_def write_u32_emit read_signed_fetch length_le_bytes, rule le_word_bytes, simp)

interpretation i64_wire: wire_codec cb_bytes_write_i64_le cb_bytes_read_i64_le "le_bytes 8" le_word 8
  by unfold_locales (simp_all only: cb_bytes_write_i64_le_def write_u64_emit read_signed_fetch length_le_bytes, rule le_word_bytes, simp)


section \<open>Messages\<close>

text \<open>A message is a list of fields, written one after the other and read back in the same order;
  the reader knows the kinds, and the lengths of the byte runs.\<close>

datatype field = U8 u8 | U16 u16 | U32 u32 | U64 u64 | I8 i8 | I16 i16 | I32 i32 | I64 i64 | Run "u8 list"

fun field_bytes :: "field \<Rightarrow> u8 list" where
  "field_bytes (U8 v) = le_bytes 1 v"
| "field_bytes (U16 v) = le_bytes 2 v"
| "field_bytes (U32 v) = le_bytes 4 v"
| "field_bytes (U64 v) = le_bytes 8 v"
| "field_bytes (I8 v) = le_bytes 1 v"
| "field_bytes (I16 v) = le_bytes 2 v"
| "field_bytes (I32 v) = le_bytes 4 v"
| "field_bytes (I64 v) = le_bytes 8 v"
| "field_bytes (Run bs) = bs"

fun write_field :: "cb_bytes_writer_t \<Rightarrow> field \<Rightarrow> cb_info_t \<times> cb_bytes_writer_t" where
  "write_field w (U8 v) = cb_bytes_write_u8 w v"
| "write_field w (U16 v) = cb_bytes_write_u16_le w v"
| "write_field w (U32 v) = cb_bytes_write_u32_le w v"
| "write_field w (U64 v) = cb_bytes_write_u64_le w v"
| "write_field w (I8 v) = cb_bytes_write_i8 w v"
| "write_field w (I16 v) = cb_bytes_write_i16_le w v"
| "write_field w (I32 v) = cb_bytes_write_i32_le w v"
| "write_field w (I64 v) = cb_bytes_write_i64_le w v"
| "write_field w (Run bs) = cb_bytes_write_bytes w bs (word_of_nat (length bs))"

definition write_fields :: "field list \<Rightarrow> cb_bytes_writer_t \<Rightarrow> cb_bytes_writer_t" where
  "write_fields fs w = fold (\<lambda>f w. snd (write_field w f)) fs w"

fun read_field :: "cb_bytes_reader_t \<Rightarrow> field \<Rightarrow> cb_info_t \<times> field \<times> cb_bytes_reader_t" where
  "read_field r (U8 _) = (let (i, v, r) = cb_bytes_read_u8 r 0 in (i, U8 v, r))"
| "read_field r (U16 _) = (let (i, v, r) = cb_bytes_read_u16_le r 0 in (i, U16 v, r))"
| "read_field r (U32 _) = (let (i, v, r) = cb_bytes_read_u32_le r 0 in (i, U32 v, r))"
| "read_field r (U64 _) = (let (i, v, r) = cb_bytes_read_u64_le r 0 in (i, U64 v, r))"
| "read_field r (I8 _) = (let (i, v, r) = cb_bytes_read_i8 r 0 in (i, I8 v, r))"
| "read_field r (I16 _) = (let (i, v, r) = cb_bytes_read_i16_le r 0 in (i, I16 v, r))"
| "read_field r (I32 _) = (let (i, v, r) = cb_bytes_read_i32_le r 0 in (i, I32 v, r))"
| "read_field r (I64 _) = (let (i, v, r) = cb_bytes_read_i64_le r 0 in (i, I64 v, r))"
| "read_field r (Run bs) =
     (let (i, v, r) = cb_bytes_read_bytes r (replicate (length bs) 0) (word_of_nat (length bs)) in (i, Run v, r))"

fun read_fields :: "cb_bytes_reader_t \<Rightarrow> field list \<Rightarrow> field list \<times> cb_bytes_reader_t" where
  "read_fields r [] = ([], r)"
| "read_fields r (f # fs) =
     (let (_, v, r) = read_field r f; (vs, r) = read_fields r fs in (v # vs, r))"

text \<open>A run's length is a \<open>size_t\<close>.\<close>

definition sizes_ok :: "field list \<Rightarrow> bool" where
  "sizes_ok fs \<longleftrightarrow> (\<forall>f \<in> set fs. length (field_bytes f) < 2 ^ 64)"

lemma write_field_emit:
  "wf_writer w \<Longrightarrow> length (field_bytes f) < 2 ^ 64 \<Longrightarrow> write_field w f = emit w (field_bytes f)"
  by (cases f)
    (simp_all add: u8_wire.write_emit u16_wire.write_emit u32_wire.write_emit u64_wire.write_emit
      i8_wire.write_emit i16_wire.write_emit i32_wire.write_emit i64_wire.write_emit
      write_bytes_emit unat_of_nat)

lemma read_field_encoded:
  assumes "wf_reader r" "r_info r = CB_INFO_OK" "length (field_bytes f) < 2 ^ 64"
    and "unat (r_pos r) + length (field_bytes f) \<le> unat (r_len r)"
    and "get_bytes (unat (r_pos r)) (length (field_bytes f)) (r_data r) = field_bytes f"
  shows "read_field r f = (CB_INFO_OK, f, r\<lparr>r_pos := r_pos r + word_of_nat (length (field_bytes f))\<rparr>)"
  using assms
  by (cases f)
    (simp_all add: u8_wire.read_encoded u16_wire.read_encoded u32_wire.read_encoded u64_wire.read_encoded
      i8_wire.read_encoded i16_wire.read_encoded i32_wire.read_encoded i64_wire.read_encoded
      read_bytes_fetch fetch_cases unat_of_nat)

lemma write_fields_Cons: "write_fields (f # fs) w = write_fields fs (snd (write_field w f))"
  by (simp add: write_fields_def)

lemma write_fields_sticky:
  "wf_writer w \<Longrightarrow> sizes_ok fs \<Longrightarrow> w_info w \<noteq> CB_INFO_OK \<Longrightarrow> write_fields fs w = w"
  by (induction fs) (simp_all add: write_fields_def sizes_ok_def write_field_emit emit_def)

lemma write_fields_ok:
  assumes "wf_writer w" "sizes_ok fs" "w_info w = CB_INFO_OK"
    and "unat (w_pos w) + length (concat (map field_bytes fs)) \<le> unat (w_cap w)"
  shows "write_fields fs w =
    w\<lparr>w_data := put_bytes (unat (w_pos w)) (concat (map field_bytes fs)) (w_data w),
      w_pos := w_pos w + word_of_nat (length (concat (map field_bytes fs)))\<rparr>"
  using assms
proof (induction fs arbitrary: w)
  case (Cons f fs)
  let ?b = "field_bytes f" and ?bs = "concat (map field_bytes fs)"
  define w1 where "w1 = w\<lparr>w_data := put_bytes (unat (w_pos w)) ?b (w_data w), w_pos := w_pos w + word_of_nat (length ?b)\<rparr>"
  have fits: "unat (w_pos w) + length ?b \<le> unat (w_cap w)" using Cons.prems(4) by simp
  have sz: "length ?b < 2 ^ 64" "sizes_ok fs" using Cons.prems(2) by (simp_all add: sizes_ok_def)
  have st: "write_field w f = (CB_INFO_OK, w1)"
    using write_field_emit [OF Cons.prems(1) sz(1)] emit_ok [OF Cons.prems(3) fits] by (simp add: w1_def)
  have pos: "unat (w_pos w1) = unat (w_pos w) + length ?b"
    using unat_pos_plus [OF fits] by (simp add: w1_def)
  have wf1: "wf_writer w1"
    using emit_wf [OF Cons.prems(1), of ?b] emit_ok [OF Cons.prems(3) fits] by (simp add: w1_def)
  have "write_fields fs w1 = w1\<lparr>w_data := put_bytes (unat (w_pos w1)) ?bs (w_data w1),
      w_pos := w_pos w1 + word_of_nat (length ?bs)\<rparr>"
    using Cons.prems(3,4) pos by (intro Cons.IH wf1 sz) (simp_all add: w1_def)
  also have "\<dots> = w\<lparr>w_data := put_bytes (unat (w_pos w)) (?b @ ?bs) (w_data w),
      w_pos := w_pos w + word_of_nat (length (?b @ ?bs))\<rparr>"
  proof -
    have "unat (w_pos w) + length ?b + length ?bs \<le> length (w_data w)"
      using Cons.prems(1,4) by (simp add: wf_writer_def)
    then have "put_bytes (unat (w_pos w1)) ?bs (w_data w1) = put_bytes (unat (w_pos w)) (?b @ ?bs) (w_data w)"
      unfolding pos by (simp add: w1_def put_bytes_append)
    then show ?thesis by (simp add: w1_def add.assoc)
  qed
  finally show ?case by (simp add: write_fields_Cons st)
qed (simp add: write_fields_def)

lemma write_fields_full:
  assumes "wf_writer w" "sizes_ok fs" "w_info w = CB_INFO_OK"
    and "\<not> unat (w_pos w) + length (concat (map field_bytes fs)) \<le> unat (w_cap w)"
  shows "w_info (write_fields fs w) = CB_INFO_BYTES_OUT_OF_BOUNDS"
  using assms
proof (induction fs arbitrary: w)
  case Nil
  then show ?case by (simp add: wf_writer_def word_le_nat_alt)
next
  case (Cons f fs)
  have sz: "length (field_bytes f) < 2 ^ 64" "sizes_ok fs" using Cons.prems(2) by (simp_all add: sizes_ok_def)
  note st = write_field_emit [OF Cons.prems(1) sz(1)]
  have wf1: "wf_writer (snd (write_field w f))" unfolding st by (rule emit_wf [OF Cons.prems(1)])
  show ?case
  proof (cases "unat (w_pos w) + length (field_bytes f) \<le> unat (w_cap w)")
    case True
    then have "w_info (write_fields fs (snd (write_field w f))) = CB_INFO_BYTES_OUT_OF_BOUNDS"
      using Cons.prems(3,4) unat_pos_plus [OF True]
      by (intro Cons.IH wf1 sz) (simp_all add: st emit_ok)
    then show ?thesis by (simp add: write_fields_Cons)
  next
    case False
    then have f: "w_info (snd (write_field w f)) = CB_INFO_BYTES_OUT_OF_BOUNDS"
      using Cons.prems(3) by (simp add: st emit_def)
    then have "write_fields fs (snd (write_field w f)) = snd (write_field w f)"
      by (intro write_fields_sticky wf1 sz) simp
    then show ?thesis using f by (simp add: write_fields_Cons)
  qed
qed

lemma read_fields_encoded:
  assumes "wf_reader r" "r_info r = CB_INFO_OK" "sizes_ok fs"
    and "unat (r_pos r) + length (concat (map field_bytes fs)) \<le> unat (r_len r)"
    and "get_bytes (unat (r_pos r)) (length (concat (map field_bytes fs))) (r_data r) = concat (map field_bytes fs)"
  shows "read_fields r fs = (fs, r\<lparr>r_pos := r_pos r + word_of_nat (length (concat (map field_bytes fs)))\<rparr>)"
  using assms
proof (induction fs arbitrary: r)
  case (Cons f fs)
  let ?b = "field_bytes f" and ?bs = "concat (map field_bytes fs)"
  define r1 where "r1 = r\<lparr>r_pos := r_pos r + word_of_nat (length ?b)\<rparr>"
  have fits: "unat (r_pos r) + length ?b \<le> unat (r_len r)" using Cons.prems(4) by simp
  have len: "unat (r_pos r) + length ?b \<le> length (r_data r)"
    using fits Cons.prems(1) by (simp add: wf_reader_def)
  have sz: "length ?b < 2 ^ 64" "sizes_ok fs" using Cons.prems(3) by (simp_all add: sizes_ok_def)
  have split: "get_bytes (unat (r_pos r)) (length ?b) (r_data r) @ get_bytes (unat (r_pos r) + length ?b) (length ?bs) (r_data r) = ?b @ ?bs"
    using Cons.prems(5) by (simp add: get_bytes_append)
  then have parts: "get_bytes (unat (r_pos r)) (length ?b) (r_data r) = ?b"
    "get_bytes (unat (r_pos r) + length ?b) (length ?bs) (r_data r) = ?bs"
    by (simp_all add: length_get_bytes [OF len])
  have st: "read_field r f = (CB_INFO_OK, f, r1)"
    unfolding r1_def by (rule read_field_encoded [OF Cons.prems(1,2) sz(1) fits parts(1)])
  have pos: "unat (r_pos r1) = unat (r_pos r) + length ?b"
    using unat_pos_plus [OF fits] by (simp add: r1_def)
  have "read_fields r1 fs = (fs, r1\<lparr>r_pos := r_pos r1 + word_of_nat (length ?bs)\<rparr>)"
    using Cons.prems(1,2,4) sz(2) parts(2) pos fits
    by (intro Cons.IH) (simp_all add: r1_def wf_reader_def word_le_nat_alt)
  then show ?case by (simp add: st r1_def add.assoc)
qed simp


section \<open>Frames\<close>

text \<open>A frame written by a well-formed begin/end pair around the fields of its body.\<close>

definition write_frame :: "cb_bytes_writer_t \<Rightarrow> field list \<Rightarrow> cb_info_t \<times> cb_bytes_writer_t" where
  "write_frame w fs =
     (let (_, mark, w) = cb_bytes_begin_frame_u16 w in cb_bytes_end_frame_u16 (write_fields fs w) mark)"

lemma begin_frame_ok:
  assumes "wf_writer w" "w_info w = CB_INFO_OK" "unat (w_pos w) + 2 \<le> unat (w_cap w)"
  shows "cb_bytes_begin_frame_u16 w = (CB_INFO_OK, w_pos w,
    w\<lparr>w_data := put_bytes (unat (w_pos w)) [0, 0] (w_data w), w_pos := w_pos w + 2\<rparr>)"
  using assms by (simp add: cb_bytes_begin_frame_u16_def write_u16_emit emit_ok le_bytes_2)

lemma frame_body:
  assumes "unat mark + 2 + n \<le> unat (cap :: size_t)"
  shows "mark + 2 + word_of_nat n - mark - 2 = (word_of_nat n :: size_t)" "unat (word_of_nat n :: size_t) = n"
  using assms unsigned_less [where 'a = nat, of cap] by (simp_all add: unat_of_nat)

lemma write_frame_body:
  assumes "wf_writer w" "sizes_ok fs" "w_info w = CB_INFO_OK"
    and "unat (w_pos w) + 2 + length (concat (map field_bytes fs)) \<le> unat (w_cap w)"
  obtains w1 where "cb_bytes_begin_frame_u16 w = (CB_INFO_OK, w_pos w, w1)"
    "write_fields fs w1 = w\<lparr>w_data := put_bytes (unat (w_pos w)) ([0, 0] @ concat (map field_bytes fs)) (w_data w),
      w_pos := w_pos w + 2 + word_of_nat (length (concat (map field_bytes fs)))\<rparr>"
proof
  let ?bs = "concat (map field_bytes fs)"
  define w1 where "w1 = w\<lparr>w_data := put_bytes (unat (w_pos w)) [0, 0] (w_data w), w_pos := w_pos w + 2\<rparr>"
  have room: "unat (w_pos w) + 2 \<le> unat (w_cap w)" using assms(4) by simp
  show "cb_bytes_begin_frame_u16 w = (CB_INFO_OK, w_pos w, w1)"
    unfolding w1_def by (rule begin_frame_ok [OF assms(1,3) room])
  have wf1: "wf_writer w1"
    using emit_wf [OF assms(1), of "[0, 0]"] room by (simp add: emit_ok assms(3) w1_def)
  have pos: "unat (w_pos w1) = unat (w_pos w) + 2"
    using unat_pos_plus [OF room] by (simp add: w1_def)
  have "write_fields fs w1 = w1\<lparr>w_data := put_bytes (unat (w_pos w1)) ?bs (w_data w1),
      w_pos := w_pos w1 + word_of_nat (length ?bs)\<rparr>"
    using assms pos by (intro write_fields_ok wf1) (simp_all add: w1_def)
  moreover have "put_bytes (unat (w_pos w1)) ?bs (w_data w1) = put_bytes (unat (w_pos w)) ([0, 0] @ ?bs) (w_data w)"
    using assms(1,4) put_bytes_append [of "unat (w_pos w)" "[0, 0]" ?bs "w_data w"]
    unfolding pos by (simp add: w1_def wf_writer_def)
  ultimately show "write_fields fs w1 = w\<lparr>w_data := put_bytes (unat (w_pos w)) ([0, 0] @ ?bs) (w_data w),
      w_pos := w_pos w + 2 + word_of_nat (length ?bs)\<rparr>"
    by (simp add: w1_def)
qed

lemma unat_low16: "unat (ucast (v :: size_t) :: u16) = unat v mod 65536"
  by (simp only: unsigned_ucast_eq) (simp add: take_bit_eq_mod)

lemma patch_prefix:
  assumes "off + 2 + length bs \<le> length buf"
  shows "(put_bytes off ([0, 0] @ bs) buf)[off := a, Suc off := b] = put_bytes off ([a, b] @ bs) buf"
proof (rule nth_equalityI)
  fix k assume "k < length ((put_bytes off ([0, 0] @ bs) buf)[off := a, Suc off := b])"
  then show "(put_bytes off ([0, 0] @ bs) buf)[off := a, Suc off := b] ! k = put_bytes off ([a, b] @ bs) buf ! k"
    using assms
    by (cases "k = off"; cases "k = Suc off") (simp_all add: nth_list_update length_put_bytes nth_put_bytes nth_Cons')
qed (use assms in \<open>simp add: length_put_bytes\<close>)

lemma write_frame_ok:
  assumes "wf_writer w" "sizes_ok fs" "w_info w = CB_INFO_OK"
    and "unat (w_pos w) + 2 + length (concat (map field_bytes fs)) \<le> unat (w_cap w)"
    and "length (concat (map field_bytes fs)) \<le> 65535"
  shows "write_frame w fs = (CB_INFO_OK,
    w\<lparr>w_data := put_bytes (unat (w_pos w))
        (le_bytes 2 (word_of_nat (length (concat (map field_bytes fs))) :: u16) @ concat (map field_bytes fs)) (w_data w),
      w_pos := w_pos w + 2 + word_of_nat (length (concat (map field_bytes fs)))\<rparr>)"
proof -
  let ?bs = "concat (map field_bytes fs)"
  obtain w1 where w1: "cb_bytes_begin_frame_u16 w = (CB_INFO_OK, w_pos w, w1)"
    "write_fields fs w1 = w\<lparr>w_data := put_bytes (unat (w_pos w)) ([0, 0] @ ?bs) (w_data w),
      w_pos := w_pos w + 2 + word_of_nat (length ?bs)\<rparr>"
    using write_frame_body [OF assms(1-4)] .
  note body = frame_body [OF assms(4)]
  have small: "\<not> 0xFFFF < (word_of_nat (length ?bs) :: size_t)"
    using assms(5) by (simp only: word_less_nat_alt body(2)) simp
  have len: "(ucast (word_of_nat (length ?bs) :: size_t) :: u16) = word_of_nat (length ?bs)"
    using assms(5) by (simp add: word_unat_eq_iff unat_low16 body(2) unat_of_nat)
  have suc: "unat (w_pos w + 1) = Suc (unat (w_pos w))"
    using assms(4) unsigned_less [where 'a = nat, of "w_cap w"] by (intro unat_pos_Suc) simp
  have fits: "unat (w_pos w) + 2 + length ?bs \<le> length (w_data w)"
    using assms(1,4) by (simp add: wf_writer_def)
  show ?thesis
    unfolding write_frame_def w1(1) Let_def prod.case w1(2) cb_bytes_end_frame_u16_def
    using small patch_prefix [OF fits] suc assms(3)
    by (simp add: body(1) len low_byte le_bytes_2)
qed


lemma write_frame_too_large:
  assumes "wf_writer w" "sizes_ok fs" "w_info w = CB_INFO_OK"
    and "unat (w_pos w) + 2 + length (concat (map field_bytes fs)) \<le> unat (w_cap w)"
    and "65535 < length (concat (map field_bytes fs))"
  shows "fst (write_frame w fs) = CB_INFO_BYTES_FRAME_TOO_LARGE
    \<and> w_info (snd (write_frame w fs)) = CB_INFO_BYTES_FRAME_TOO_LARGE"
proof -
  let ?bs = "concat (map field_bytes fs)"
  obtain w1 where w1: "cb_bytes_begin_frame_u16 w = (CB_INFO_OK, w_pos w, w1)"
    "write_fields fs w1 = w\<lparr>w_data := put_bytes (unat (w_pos w)) ([0, 0] @ ?bs) (w_data w),
      w_pos := w_pos w + 2 + word_of_nat (length ?bs)\<rparr>"
    using write_frame_body [OF assms(1-4)] .
  note body = frame_body [OF assms(4)]
  have large: "0xFFFF < (word_of_nat (length ?bs) :: size_t)"
    using assms(5) by (simp only: word_less_nat_alt body(2)) simp
  show ?thesis
    unfolding write_frame_def w1(1) Let_def prod.case w1(2) cb_bytes_end_frame_u16_def
    using large assms(3) by (simp add: body(1))
qed

lemma unat_up16: "unat (ucast (v :: u16) :: size_t) = unat v"
  using unsigned_less [where 'a = nat, of v] by (simp only: unsigned_ucast_eq) (simp add: take_bit_eq_mod)

lemma read_frame_ok:
  assumes "wf_reader r" "r_info r = CB_INFO_OK" "length bs \<le> 65535"
    and "unat (r_pos r) + 2 + length bs \<le> unat (r_len r)"
    and "get_bytes (unat (r_pos r)) (2 + length bs) (r_data r) = le_bytes 2 (word_of_nat (length bs) :: u16) @ bs"
  obtains sub where "cb_bytes_read_frame_u16 r out_sub
      = (CB_INFO_OK, sub, r\<lparr>r_pos := r_pos r + 2 + word_of_nat (length bs)\<rparr>)"
    "sub = cb_bytes_reader_init (r_data sub) (word_of_nat (length bs))"
    "take (length bs) (r_data sub) = bs" "length bs \<le> length (r_data sub)"
proof
  have fits: "unat (r_pos r) + 2 \<le> unat (r_len r)" using assms(4) by simp
  have len: "unat (r_pos r) + 2 + length bs \<le> length (r_data r)"
    using assms(1,4) by (simp add: wf_reader_def)
  have "get_bytes (unat (r_pos r)) 2 (r_data r) @ get_bytes (unat (r_pos r) + 2) (length bs) (r_data r)
      = le_bytes 2 (word_of_nat (length bs) :: u16) @ bs"
    using assms(5) by (simp only: get_bytes_append)
  moreover have "length (get_bytes (unat (r_pos r)) 2 (r_data r)) = 2"
    using len by (intro length_get_bytes) simp
  ultimately have parts: "get_bytes (unat (r_pos r)) 2 (r_data r) = le_bytes 2 (word_of_nat (length bs) :: u16)"
    "get_bytes (unat (r_pos r) + 2) (length bs) (r_data r) = bs"
    by simp_all
  define r1 where "r1 = r\<lparr>r_pos := r_pos r + 2\<rparr>"
  have rd: "cb_bytes_read_u16_le r 0 = (CB_INFO_OK, word_of_nat (length bs), r1)"
    using u16_wire.read_encoded [OF assms(1,2) fits parts(1)] by (simp add: r1_def)
  have pos: "unat (r_pos r1) = unat (r_pos r) + 2"
    using unat_pos_plus [OF fits] by (simp add: r1_def)
  have n: "unat (word_of_nat (length bs) :: u16) = length bs" using assms(3) by (simp add: unat_of_nat)
  then have nn: "ucast (word_of_nat (length bs) :: u16) = (word_of_nat (length bs) :: size_t)"
    using assms(3) by (simp add: word_unat_eq_iff unat_up16 unat_of_nat)
  have wf1: "wf_reader r1" using assms(1,4) pos by (simp add: r1_def wf_reader_def word_le_nat_alt)
  have chk: "cb__bytes_r_check r1 (ucast (word_of_nat (length bs) :: u16)) = (CB_INFO_OK, r1)"
  proof -
    have "r_info r1 = CB_INFO_OK" "r_len r1 = r_len r" using assms(2) by (simp_all add: r1_def)
    then show ?thesis using assms(4) by (simp add: r_check [OF wf1] unat_up16 n pos)
  qed
  let ?sub = "cb_bytes_reader_init (drop (unat (r_pos r1)) (r_data r1)) (word_of_nat (length bs))"
  show "cb_bytes_read_frame_u16 r out_sub = (CB_INFO_OK, ?sub, r\<lparr>r_pos := r_pos r + 2 + word_of_nat (length bs)\<rparr>)"
    by (simp add: cb_bytes_read_frame_u16_def assms(2) rd chk [unfolded nn] nn) (simp add: r1_def)
  show "?sub = cb_bytes_reader_init (r_data ?sub) (word_of_nat (length bs))"
    by (simp add: cb_bytes_reader_init_def)
  show "take (length bs) (r_data ?sub) = bs"
    using parts(2) by (simp add: cb_bytes_reader_init_def pos) (simp add: r1_def get_bytes_def)
  show "length bs \<le> length (r_data ?sub)"
    using len by (simp add: cb_bytes_reader_init_def pos) (simp add: r1_def)
qed

lemma read_frame_failed:
  assumes "wf_reader r" "cb_bytes_read_frame_u16 r sub = (info, sub', r')" "info \<noteq> CB_INFO_OK"
  shows "sub' = sub \<and> r' = r\<lparr>r_info := info\<rparr>"
proof (cases "r_info r = CB_INFO_OK")
  case False
  then show ?thesis using assms(2) by (auto simp: cb_bytes_read_frame_u16_def)
next
  case ok: True
  obtain i v r1 where rd: "cb_bytes_read_u16_le r 0 = (i, v, r1)" by (metis prod_cases3)
  show ?thesis
  proof (cases "i = CB_INFO_OK")
    case False
    then show ?thesis
      using u16_wire.read_failed [OF assms(1) rd False] assms(2) ok rd
      by (auto simp: cb_bytes_read_frame_u16_def)
  next
    case True
    then have r1: "r1 = r\<lparr>r_pos := r_pos r + 2\<rparr>"
      using rd assms(1) ok by (auto simp: u16_wire.read_fetch fetch_def consume_def split: if_splits)
    obtain j r2 where chk: "cb__bytes_r_check r1 (ucast v) = (j, r2)" by (metis surj_pair)
    then have "j \<noteq> CB_INFO_OK \<Longrightarrow> r2 = r1\<lparr>r_info := j\<rparr>"
      using ok by (auto simp: cb__bytes_r_check_def r1 split: if_splits)
    then show ?thesis
      using assms(2,3) ok rd True chk r1
      by (auto simp: cb_bytes_read_frame_u16_def split: if_splits)
  qed
qed

lemma write_field_cases:
  assumes "wf_writer w" "length (field_bytes f) < 2 ^ 64"
  shows "write_field w f =
    (if w_info w \<noteq> CB_INFO_OK then (w_info w, w)
     else if unat (w_cap w) < unat (w_pos w) + length (field_bytes f)
     then (CB_INFO_BYTES_OUT_OF_BOUNDS, w\<lparr>w_info := CB_INFO_BYTES_OUT_OF_BOUNDS\<rparr>)
     else (CB_INFO_OK, w\<lparr>w_data := put_bytes (unat (w_pos w)) (field_bytes f) (w_data w),
       w_pos := w_pos w + word_of_nat (length (field_bytes f))\<rparr>))"
  unfolding write_field_emit [OF assms] emit_def ..

lemma read_field_failed:
  assumes "wf_reader r" "length (field_bytes f) < 2 ^ 64" "r_info r \<noteq> CB_INFO_OK \<or> unat (r_len r) < unat (r_pos r) + length (field_bytes f)"
  shows "fst (read_field r f) \<noteq> CB_INFO_OK \<and> snd (snd (read_field r f)) = r\<lparr>r_info := fst (read_field r f)\<rparr>"
  using assms
  by (cases f; cases "r_info r = CB_INFO_OK")
    (simp_all add: u8_wire.read_fetch u16_wire.read_fetch u32_wire.read_fetch u64_wire.read_fetch
      i8_wire.read_fetch i16_wire.read_fetch i32_wire.read_fetch i64_wire.read_fetch
      read_bytes_fetch fetch_cases unat_of_nat)


lemma read_field_ok:
  assumes "wf_reader r" "length (field_bytes f) < 2 ^ 64" "r_info r = CB_INFO_OK"
    and "\<not> unat (r_len r) < unat (r_pos r) + length (field_bytes f)"
  shows "fst (read_field r f) = CB_INFO_OK"
  using assms
  by (cases f)
    (simp_all add: u8_wire.read_fetch u16_wire.read_fetch u32_wire.read_fetch u64_wire.read_fetch
      i8_wire.read_fetch i16_wire.read_fetch i32_wire.read_fetch i64_wire.read_fetch
      read_bytes_fetch fetch_cases unat_of_nat)

lemma read_field_sticky:
  assumes "wf_reader r" "length (field_bytes f) < 2 ^ 64" "r_info r \<noteq> CB_INFO_OK"
  shows "fst (read_field r f) = r_info r \<and> snd (snd (read_field r f)) = r"
  using assms
  by (cases f)
    (simp_all add: u8_wire.read_sticky u16_wire.read_sticky u32_wire.read_sticky u64_wire.read_sticky
      i8_wire.read_sticky i16_wire.read_sticky i32_wire.read_sticky i64_wire.read_sticky
      read_bytes_fetch fetch_cases)

section \<open>Properties\<close>

text \<open>C6. Whole messages survive the wire: after writing any list of fields into a fresh writer the
  status is OK exactly when their bytes fit the capacity, and then reading the written bytes with
  the same kinds gives back every field, with status OK and nothing remaining.  When they do not
  fit, the sticky status is the out-of-bounds one, however many writes follow.\<close>

theorem wire_message_roundtrip:
  assumes "unat cap \<le> length buf" "sizes_ok fs"
  shows "if length (concat (map field_bytes fs)) \<le> unat cap
    then let w = write_fields fs (cb_bytes_writer_init buf cap);
             r = cb_bytes_reader_init (w_data w) (cb_bytes_writer_len w);
             (vs, r') = read_fields r fs
         in w_info w = CB_INFO_OK \<and> vs = fs \<and> r_info r' = CB_INFO_OK \<and> cb_bytes_reader_remaining r' = 0
    else w_info (write_fields fs (cb_bytes_writer_init buf cap)) = CB_INFO_BYTES_OUT_OF_BOUNDS"
proof -
  let ?bs = "concat (map field_bytes fs)" and ?w = "cb_bytes_writer_init buf cap"
  have wf: "wf_writer ?w" using assms(1) by (simp add: wf_writer_def cb_bytes_writer_init_def)
  have w0: "w_info ?w = CB_INFO_OK" "w_pos ?w = 0" "w_cap ?w = cap" "w_data ?w = buf"
    by (simp_all add: cb_bytes_writer_init_def)
  show ?thesis
  proof (cases "length ?bs \<le> unat cap")
    case True
    define w where "w = write_fields fs ?w"
    define n where "n = (word_of_nat (length ?bs) :: size_t)"
    have n: "unat n = length ?bs"
      using True unsigned_less [where 'a = nat, of cap] by (simp add: n_def unat_of_nat)
    have w: "w = ?w\<lparr>w_data := put_bytes 0 ?bs buf, w_pos := n\<rparr>"
      using write_fields_ok [OF wf assms(2) w0(1)] True by (simp add: w_def w0 n_def)
    have fits: "length ?bs \<le> length buf" using True assms(1) by simp
    define r where "r = cb_bytes_reader_init (w_data w) (cb_bytes_writer_len w)"
    have r: "r_info r = CB_INFO_OK" "r_pos r = 0" "r_len r = n" "r_data r = put_bytes 0 ?bs buf"
      by (simp_all add: r_def cb_bytes_reader_init_def cb_bytes_writer_len_def w)
    have "read_fields r fs = (fs, r\<lparr>r_pos := r_pos r + word_of_nat (length ?bs)\<rparr>)"
      by (rule read_fields_encoded)
        (use fits assms(2) in \<open>simp_all add: r wf_reader_def n length_put_bytes get_put_same\<close>)
    then have "read_fields r fs = (fs, r\<lparr>r_pos := n\<rparr>)" by (simp add: r n_def)
    then show ?thesis
      unfolding if_P [OF True] Let_def w_def [symmetric] r_def [symmetric]
      using w0(1) r(1,3) by (simp add: cb_bytes_reader_remaining_def) (simp add: w)
  next
    case False
    then show ?thesis using write_fields_full [OF wf assms(2) w0(1)] by (simp add: w0)
  qed
qed

lemma wire_message_roundtrip_witness:
  "let fs = [U16 7, I32 (- 5), Run [1, 2, 3]];
       w = write_fields fs (cb_bytes_writer_init (replicate 10 0) 10);
       r = cb_bytes_reader_init (w_data w) (cb_bytes_writer_len w)
   in w_info w = CB_INFO_OK \<and> fst (read_fields r fs) = fs"
  using wire_message_roundtrip [of 10 "replicate 10 0" "[U16 7, I32 (- 5), Run [1, 2, 3]]"]
  by (simp add: sizes_ok_def Let_def split_def)

text \<open>The integers on the wire are little-endian on every host: the bytes that a write leaves,
  read as a little-endian number, are the value.\<close>

theorem wire_little_endian:
  assumes "wf_writer w"
  shows "(cb_bytes_write_u16_le w a = (CB_INFO_OK, w16) \<longrightarrow>
      le_val (get_bytes (unat (w_pos w)) 2 (w_data w16)) = unat a)
    \<and> (cb_bytes_write_u32_le w b = (CB_INFO_OK, w32) \<longrightarrow>
      le_val (get_bytes (unat (w_pos w)) 4 (w_data w32)) = unat b)
    \<and> (cb_bytes_write_u64_le w c = (CB_INFO_OK, w64) \<longrightarrow>
      le_val (get_bytes (unat (w_pos w)) 8 (w_data w64)) = unat c)"
proof -
  have g: "get_bytes (unat (w_pos w)) (length bs) (w_data w') = bs" if "emit w bs = (CB_INFO_OK, w')" for bs w'
    using that assms by (auto simp: emit_def wf_writer_def get_put_same split: if_splits)
  show ?thesis
    using g [of "le_bytes 2 a" w16] g [of "le_bytes 4 b" w32] g [of "le_bytes 8 c" w64]
    by (simp add: u16_wire.write_emit u32_wire.write_emit u64_wire.write_emit assms le_val_bytes)
qed

lemma wire_little_endian_witness:
  "le_val (get_bytes 0 4 (w_data (snd (cb_bytes_write_u32_le (cb_bytes_writer_init [0, 0, 0, 0] 4) 0x01020304)))) = 0x01020304"
proof -
  have "cb_bytes_write_u32_le (cb_bytes_writer_init [0, 0, 0, 0] 4) 0x01020304
      = (CB_INFO_OK, snd (cb_bytes_write_u32_le (cb_bytes_writer_init [0, 0, 0, 0] 4) 0x01020304))"
    by (simp add: cb_bytes_write_u32_le_def cb__bytes_w_check_def cb_bytes_writer_init_def)
  then show ?thesis
    using wire_little_endian [where w = "cb_bytes_writer_init [0, 0, 0, 0] 4" and b = "0x01020304"]
    by (simp add: wf_writer_def cb_bytes_writer_init_def)
qed

text \<open>C25. Operations are atomic and the status is sticky: a write or a read of any field that does
  not return OK changes nothing but the status, which it returns; a structure whose status is not
  OK answers that status without change; and a failed frame read leaves its position and the
  sub-reader alone although the length prefix had been read.\<close>

theorem wire_errors_atomic:
  assumes "wf_writer w" "wf_reader r" "length (field_bytes f) < 2 ^ 64"
  shows "(fst (write_field w f) \<noteq> CB_INFO_OK \<longrightarrow> snd (write_field w f) = w\<lparr>w_info := fst (write_field w f)\<rparr>)
    \<and> (w_info w \<noteq> CB_INFO_OK \<longrightarrow> write_field w f = (w_info w, w) \<and> write_frame w [f] = (w_info w, w))
    \<and> (fst (read_field r f) \<noteq> CB_INFO_OK \<longrightarrow>
        snd (snd (read_field r f)) = r\<lparr>r_info := fst (read_field r f)\<rparr>)
    \<and> (r_info r \<noteq> CB_INFO_OK \<longrightarrow> fst (read_field r f) = r_info r \<and> snd (snd (read_field r f)) = r)
    \<and> (fst (cb_bytes_read_frame_u16 r sub) \<noteq> CB_INFO_OK \<longrightarrow>
        cb_bytes_read_frame_u16 r sub
          = (fst (cb_bytes_read_frame_u16 r sub), sub, r\<lparr>r_info := fst (cb_bytes_read_frame_u16 r sub)\<rparr>))"
proof (intro conjI impI)
  note wr = write_field_emit [OF assms(1,3)]
  show "snd (write_field w f) = w\<lparr>w_info := fst (write_field w f)\<rparr>" if "fst (write_field w f) \<noteq> CB_INFO_OK"
    using that emit_failed unfolding wr by blast
  show "write_field w f = (w_info w, w)" if "w_info w \<noteq> CB_INFO_OK"
    using that by (simp add: wr emit_def)
  then show "write_frame w [f] = (w_info w, w)" if "w_info w \<noteq> CB_INFO_OK"
    using that by (simp add: write_frame_def cb_bytes_begin_frame_u16_def cb_bytes_end_frame_u16_def write_fields_def)
  show "snd (snd (read_field r f)) = r\<lparr>r_info := fst (read_field r f)\<rparr>" if "fst (read_field r f) \<noteq> CB_INFO_OK"
    using that read_field_failed [OF assms(2,3)] read_field_ok [OF assms(2,3)] by blast
  show "fst (read_field r f) = r_info r" if "r_info r \<noteq> CB_INFO_OK"
    using read_field_sticky [OF assms(2,3) that] by simp
  show "snd (snd (read_field r f)) = r" if "r_info r \<noteq> CB_INFO_OK"
    using read_field_sticky [OF assms(2,3) that] by simp
  show "cb_bytes_read_frame_u16 r sub
      = (fst (cb_bytes_read_frame_u16 r sub), sub, r\<lparr>r_info := fst (cb_bytes_read_frame_u16 r sub)\<rparr>)"
    if "fst (cb_bytes_read_frame_u16 r sub) \<noteq> CB_INFO_OK"
    using read_frame_failed [OF assms(2) _ that] by (metis prod.collapse)
qed

lemma wire_errors_atomic_witness:
  "let w = cb_bytes_writer_init [0] 1; r = cb_bytes_reader_init [9, 0] 2
   in write_field w (U32 1) = (CB_INFO_BYTES_OUT_OF_BOUNDS, w\<lparr>w_info := CB_INFO_BYTES_OUT_OF_BOUNDS\<rparr>)
    \<and> snd (snd (read_field r (U32 0))) = r\<lparr>r_info := CB_INFO_BYTES_OUT_OF_BOUNDS\<rparr>
    \<and> snd (cb_bytes_read_frame_u16 r r) = (r, r\<lparr>r_info := CB_INFO_BYTES_OUT_OF_BOUNDS\<rparr>)"
proof -
  let ?w = "cb_bytes_writer_init [0] 1" and ?r = "cb_bytes_reader_init [9, 0] 2"
  have f: "fst (write_field ?w (U32 1)) = CB_INFO_BYTES_OUT_OF_BOUNDS"
    "fst (read_field ?r (U32 0)) = CB_INFO_BYTES_OUT_OF_BOUNDS"
    "fst (cb_bytes_read_frame_u16 ?r ?r) = CB_INFO_BYTES_OUT_OF_BOUNDS"
    by (simp_all add: cb_bytes_write_u32_le_def cb__bytes_w_check_def cb_bytes_writer_init_def
        cb_bytes_read_u32_le_def cb__bytes_r_check_def cb_bytes_reader_init_def
        cb_bytes_read_frame_u16_def cb_bytes_read_u16_le_def Let_def)
  show ?thesis
    using wire_errors_atomic [of ?w ?r "U32 1" ?r] wire_errors_atomic [of ?w ?r "U32 0" ?r] f
    by (simp add: wf_writer_def wf_reader_def cb_bytes_writer_init_def cb_bytes_reader_init_def prod_eq_iff)
qed


text \<open>C24. Frames round-trip: a frame whose body is at most 65535 bytes, written into enough room,
  is read back as a sub-reader that holds exactly the body, from which the fields are recovered
  with nothing remaining, while the outer reader continues right behind the frame.  A longer body
  is refused when the frame ends, with the sticky frame-too-large status.\<close>

theorem wire_frame_roundtrip:
  assumes "wf_writer w" "sizes_ok fs" "w_info w = CB_INFO_OK"
    and "unat (w_pos w) + 2 + length (concat (map field_bytes fs)) \<le> unat (w_cap w)"
  shows "if length (concat (map field_bytes fs)) \<le> 65535
    then (let (info, w') = write_frame w fs;
              r = \<lparr>r_info = CB_INFO_OK, r_data = w_data w', r_len = w_pos w', r_pos = w_pos w\<rparr>;
              (rinfo, sub, r') = cb_bytes_read_frame_u16 r out_sub;
              (vs, sub') = read_fields sub fs
          in info = CB_INFO_OK \<and> rinfo = CB_INFO_OK \<and> r_pos r' = w_pos w'
            \<and> vs = fs \<and> r_info sub' = CB_INFO_OK \<and> cb_bytes_reader_remaining sub' = 0)
    else fst (write_frame w fs) = CB_INFO_BYTES_FRAME_TOO_LARGE
      \<and> w_info (snd (write_frame w fs)) = CB_INFO_BYTES_FRAME_TOO_LARGE"
proof (cases "length (concat (map field_bytes fs)) \<le> 65535")
  case False
  then show ?thesis using write_frame_too_large [OF assms] by simp
next
  case True
  let ?bs = "concat (map field_bytes fs)"
  let ?f = "le_bytes 2 (word_of_nat (length ?bs) :: u16) @ ?bs"
  define w' where "w' = snd (write_frame w fs)"
  have wf: "write_frame w fs = (CB_INFO_OK, w')"
    using write_frame_ok [OF assms True] by (simp add: w'_def)
  have w': "w_data w' = put_bytes (unat (w_pos w)) ?f (w_data w)" "w_cap w' = w_cap w"
    "w_pos w' = w_pos w + 2 + word_of_nat (length ?bs)"
    using write_frame_ok [OF assms True] wf by simp_all
  have "w_pos w' = w_pos w + word_of_nat (2 + length ?bs)" by (simp add: w'(3))
  then have pos: "unat (w_pos w') = unat (w_pos w) + 2 + length ?bs"
    using unat_pos_plus [of "w_pos w" "2 + length ?bs" "w_cap w"] assms(4) by simp
  have room: "unat (w_pos w) + length ?f \<le> length (w_data w)"
    using assms(1,4) by (simp add: wf_writer_def)
  define r where "r = \<lparr>r_info = CB_INFO_OK, r_data = w_data w', r_len = w_pos w', r_pos = w_pos w\<rparr>"
  have r: "wf_reader r" "r_info r = CB_INFO_OK" "unat (r_pos r) + 2 + length ?bs \<le> unat (r_len r)"
    using room pos by (simp_all add: r_def wf_reader_def word_le_nat_alt w'(1) length_put_bytes)
  have got: "get_bytes (unat (r_pos r)) (2 + length ?bs) (r_data r) = ?f"
    using room by (simp add: r_def w'(1) get_put_same)
  obtain sub where sub: "cb_bytes_read_frame_u16 r out_sub
      = (CB_INFO_OK, sub, r\<lparr>r_pos := r_pos r + 2 + word_of_nat (length ?bs)\<rparr>)"
    "sub = cb_bytes_reader_init (r_data sub) (word_of_nat (length ?bs))"
    "take (length ?bs) (r_data sub) = ?bs" "length ?bs \<le> length (r_data sub)"
    using read_frame_ok [OF r(1,2) True r(3) got] .
  have n: "unat (word_of_nat (length ?bs) :: size_t) = length ?bs"
    by (rule frame_body(2) [OF assms(4)])
  have s: "r_info sub = CB_INFO_OK" "r_len sub = word_of_nat (length ?bs)" "r_pos sub = 0"
    by (subst sub(2), simp add: cb_bytes_reader_init_def)+
  have "read_fields sub fs = (fs, sub\<lparr>r_pos := r_pos sub + word_of_nat (length ?bs)\<rparr>)"
    by (rule read_fields_encoded) (use s sub(3,4) n assms(2) in \<open>simp_all add: wf_reader_def get_bytes_def\<close>)
  then show ?thesis
    unfolding if_P [OF True] wf Let_def prod.case r_def [symmetric] sub(1)
    using s by (simp add: w'(3) r_def cb_bytes_reader_remaining_def)
qed

lemma wire_frame_roundtrip_witness:
  "let w = cb_bytes_writer_init (replicate 9 0) 9; (info, w') = write_frame w [U16 513, Run [4]];
       (rinfo, sub, _) = cb_bytes_read_frame_u16 \<lparr>r_info = CB_INFO_OK, r_data = w_data w', r_len = w_pos w', r_pos = 0\<rparr> (cb_bytes_reader_init [] 0)
   in info = CB_INFO_OK \<and> rinfo = CB_INFO_OK \<and> fst (read_fields sub [U16 513, Run [4]]) = [U16 513, Run [4]]"
  using wire_frame_roundtrip [of "cb_bytes_writer_init (replicate 9 0) 9" "[U16 513, Run [4]]" "cb_bytes_reader_init [] 0"]
  by (simp add: wf_writer_def cb_bytes_writer_init_def sizes_ok_def Let_def split_def)

end
