(* ===== verification/Sha256.thy ===== *)
theory Sha256
  imports Prelude Buffers
begin

unbundle bit_operations_syntax

text \<open>
  SHA-256 of \<open>cbase_hash.c\<close>: the compression function with its two loops over the message
  schedule, and the streaming context.

  A pointer with a length is the list of the bytes, so \<open>p += n; len -= n\<close> drops bytes.  The
  buffer index is a natural number: it stays below 64.  What the schedule array and the context hold before they are
  written is never read.

  The specification is FIPS 180-4: the schedule by its recurrence, rotations of words, the padded
  message and its blocks.  The code is shown to compute it, whatever the sizes of the updates.
\<close>

section \<open>Definitions\<close>

definition CB_SHA256_BLOCK_LEN :: nat where "CB_SHA256_BLOCK_LEN = 64"
definition CB_SHA256_DIGEST_LEN :: nat where "CB_SHA256_DIGEST_LEN = 32"

record cb_sha256_ctx_t =
  sha_state :: "u32 list"
  sha_total_bits :: u64
  sha_buffer :: "u8 list"
  sha_buffer_len :: nat

definition cb__sha256_k :: "u32 list" where
  "cb__sha256_k =
    [0x428A2F98, 0x71374491, 0xB5C0FBCF, 0xE9B5DBA5,
     0x3956C25B, 0x59F111F1, 0x923F82A4, 0xAB1C5ED5,
     0xD807AA98, 0x12835B01, 0x243185BE, 0x550C7DC3,
     0x72BE5D74, 0x80DEB1FE, 0x9BDC06A7, 0xC19BF174,
     0xE49B69C1, 0xEFBE4786, 0x0FC19DC6, 0x240CA1CC,
     0x2DE92C6F, 0x4A7484AA, 0x5CB0A9DC, 0x76F988DA,
     0x983E5152, 0xA831C66D, 0xB00327C8, 0xBF597FC7,
     0xC6E00BF3, 0xD5A79147, 0x06CA6351, 0x14292967,
     0x27B70A85, 0x2E1B2138, 0x4D2C6DFC, 0x53380D13,
     0x650A7354, 0x766A0ABB, 0x81C2C92E, 0x92722C85,
     0xA2BFE8A1, 0xA81A664B, 0xC24B8B70, 0xC76C51A3,
     0xD192E819, 0xD6990624, 0xF40E3585, 0x106AA070,
     0x19A4C116, 0x1E376C08, 0x2748774C, 0x34B0BCB5,
     0x391C0CB3, 0x4ED8AA4A, 0x5B9CCA4F, 0x682E6FF3,
     0x748F82EE, 0x78A5636F, 0x84C87814, 0x8CC70208,
     0x90BEFFFA, 0xA4506CEB, 0xBEF9A3F7, 0xC67178F2]"

definition cb__sha256_h0 :: "u32 list" where
  "cb__sha256_h0 =
    [0x6A09E667, 0xBB67AE85, 0x3C6EF372, 0xA54FF53A,
     0x510E527F, 0x9B05688C, 0x1F83D9AB, 0x5BE0CD19]"

definition cb__rotr32 :: "u32 \<Rightarrow> nat \<Rightarrow> u32" where
  "cb__rotr32 x n = drop_bit n x OR ucast (push_bit (32 - n) (ucast x :: u64) AND 0xFFFFFFFF)"

definition CB__CH :: "u32 \<Rightarrow> u32 \<Rightarrow> u32 \<Rightarrow> u32" where
  "CB__CH x y z = (x AND y) XOR (NOT x AND z)"

definition CB__MAJ :: "u32 \<Rightarrow> u32 \<Rightarrow> u32 \<Rightarrow> u32" where
  "CB__MAJ x y z = (x AND y) XOR (x AND z) XOR (y AND z)"

definition CB__BSIG0 :: "u32 \<Rightarrow> u32" where
  "CB__BSIG0 x = cb__rotr32 x 2 XOR cb__rotr32 x 13 XOR cb__rotr32 x 22"

definition CB__BSIG1 :: "u32 \<Rightarrow> u32" where
  "CB__BSIG1 x = cb__rotr32 x 6 XOR cb__rotr32 x 11 XOR cb__rotr32 x 25"

definition CB__SSIG0 :: "u32 \<Rightarrow> u32" where
  "CB__SSIG0 x = cb__rotr32 x 7 XOR cb__rotr32 x 18 XOR drop_bit 3 x"

definition CB__SSIG1 :: "u32 \<Rightarrow> u32" where
  "CB__SSIG1 x = cb__rotr32 x 17 XOR cb__rotr32 x 19 XOR drop_bit 10 x"

text \<open>The three loops of the compression function: loading the block, extending the schedule, and
  the rounds on the eight working variables.\<close>

definition load_word :: "u8 list \<Rightarrow> nat \<Rightarrow> u32" where
  "load_word block i =
     (let p = drop (i * 4) block
      in push_bit 24 (ucast (p ! 0)) OR push_bit 16 (ucast (p ! 1))
         OR push_bit 8 (ucast (p ! 2)) OR ucast (p ! 3))"

definition load_loop :: "u8 list \<Rightarrow> u32 list \<Rightarrow> u32 list" where
  "load_loop block w = fold (\<lambda>i w. w[i := load_word block i]) [0 ..< 16] w"

definition schedule_loop :: "u32 list \<Rightarrow> u32 list" where
  "schedule_loop w =
     fold (\<lambda>i w. w[i := CB__SSIG1 (w ! (i - 2)) + w ! (i - 7) + CB__SSIG0 (w ! (i - 15)) + w ! (i - 16)])
       [16 ..< 64] w"

type_synonym work = "u32 \<times> u32 \<times> u32 \<times> u32 \<times> u32 \<times> u32 \<times> u32 \<times> u32"

fun round_step :: "u32 list \<Rightarrow> nat \<Rightarrow> work \<Rightarrow> work" where
  "round_step w i (a, b, c, d, e, f, g, h) =
     (let t1 = h + CB__BSIG1 e + CB__CH e f g + cb__sha256_k ! i + w ! i;
          t2 = CB__BSIG0 a + CB__MAJ a b c
      in (t1 + t2, a, b, c, d + t1, e, f, g))"

definition cb__sha256_compress :: "u32 list \<Rightarrow> u8 list \<Rightarrow> u32 list" where
  "cb__sha256_compress st block =
     (let w = schedule_loop (load_loop block (replicate 64 0));
          (a, b, c, d, e, f, g, h) =
            fold (round_step w) [0 ..< 64]
              (st ! 0, st ! 1, st ! 2, st ! 3, st ! 4, st ! 5, st ! 6, st ! 7)
      in st[0 := st ! 0 + a, 1 := st ! 1 + b, 2 := st ! 2 + c, 3 := st ! 3 + d,
           4 := st ! 4 + e, 5 := st ! 5 + f, 6 := st ! 6 + g, 7 := st ! 7 + h])"

definition cb_sha256_init :: "cb_sha256_ctx_t \<Rightarrow> cb_sha256_ctx_t" where
  "cb_sha256_init ctx =
     ctx\<lparr>sha_state := fold (\<lambda>i st. st[i := cb__sha256_h0 ! i]) [0 ..< 8] (sha_state ctx),
       sha_total_bits := 0, sha_buffer_len := 0\<rparr>"

text \<open>The loop over the full blocks of the input: the state after it and the bytes left.\<close>

function full_blocks :: "u32 list \<Rightarrow> u8 list \<Rightarrow> u32 list \<times> u8 list" where
  "full_blocks st p =
     (if CB_SHA256_BLOCK_LEN \<le> length p
      then full_blocks (cb__sha256_compress st (take 64 p)) (drop CB_SHA256_BLOCK_LEN p)
      else (st, p))"
  by pat_completeness auto

termination
  by (relation "measure (\<lambda>(st, p). length p)") (auto simp: CB_SHA256_BLOCK_LEN_def)

declare full_blocks.simps [simp del]

text \<open>The tail of the update, after a partial block has been completed or where there was none.\<close>

definition update_blocks :: "cb_sha256_ctx_t \<Rightarrow> u8 list \<Rightarrow> cb_sha256_ctx_t" where
  "update_blocks ctx p =
     (let (st, p) = full_blocks (sha_state ctx) p;
          ctx = ctx\<lparr>sha_state := st\<rparr>
      in if 0 < length p then ctx\<lparr>sha_buffer := put_bytes 0 p (sha_buffer ctx), sha_buffer_len := length p\<rparr>
         else ctx)"

definition cb_sha256_update :: "cb_sha256_ctx_t \<Rightarrow> u8 list \<Rightarrow> cb_sha256_ctx_t" where
  "cb_sha256_update ctx p =
     (if length p = 0 then ctx
      else
        let ctx = ctx\<lparr>sha_total_bits := sha_total_bits ctx + word_of_nat (length p) * 8\<rparr>
        in if 0 < sha_buffer_len ctx
           then
             let need = CB_SHA256_BLOCK_LEN - sha_buffer_len ctx
             in if length p < need
                then ctx\<lparr>sha_buffer := put_bytes (sha_buffer_len ctx) p (sha_buffer ctx),
                       sha_buffer_len := sha_buffer_len ctx + length p\<rparr>
                else
                  let ctx = ctx\<lparr>sha_buffer := put_bytes (sha_buffer_len ctx) (take need p) (sha_buffer ctx)\<rparr>;
                      ctx = ctx\<lparr>sha_state := cb__sha256_compress (sha_state ctx) (sha_buffer ctx), sha_buffer_len := 0\<rparr>
                  in update_blocks ctx (drop need p)
           else update_blocks ctx p)"

text \<open>\<open>while (buffer_len < limit) buffer[buffer_len++] = 0\<close>\<close>

function zero_pad :: "nat \<Rightarrow> cb_sha256_ctx_t \<Rightarrow> cb_sha256_ctx_t" where
  "zero_pad limit ctx =
     (if sha_buffer_len ctx < limit
      then zero_pad limit (ctx\<lparr>sha_buffer := (sha_buffer ctx)[sha_buffer_len ctx := 0], sha_buffer_len := sha_buffer_len ctx + 1\<rparr>)
      else ctx)"
  by pat_completeness auto

termination
  by (relation "measure (\<lambda>(limit, ctx). limit - sha_buffer_len ctx)") auto

declare zero_pad.simps [simp del]

definition store_bits :: "u64 \<Rightarrow> u8 list \<Rightarrow> u8 list" where
  "store_bits bits buf = buf
     [56 := ucast (drop_bit 56 bits AND 0xFF), 57 := ucast (drop_bit 48 bits AND 0xFF),
      58 := ucast (drop_bit 40 bits AND 0xFF), 59 := ucast (drop_bit 32 bits AND 0xFF),
      60 := ucast (drop_bit 24 bits AND 0xFF), 61 := ucast (drop_bit 16 bits AND 0xFF),
      62 := ucast (drop_bit 8 bits AND 0xFF), 63 := ucast (bits AND 0xFF)]"

definition store_digest :: "u32 list \<Rightarrow> u8 list \<Rightarrow> u8 list" where
  "store_digest st out =
     fold (\<lambda>i out. out
         [i * 4 + 0 := ucast (drop_bit 24 (st ! i) AND 0xFF), i * 4 + 1 := ucast (drop_bit 16 (st ! i) AND 0xFF),
          i * 4 + 2 := ucast (drop_bit 8 (st ! i) AND 0xFF), i * 4 + 3 := ucast (st ! i AND 0xFF)])
       [0 ..< 8] out"

text \<open>\<open>memset(ctx, 0, sizeof(*ctx))\<close>\<close>

definition wiped_ctx :: cb_sha256_ctx_t where
  "wiped_ctx = \<lparr>sha_state = replicate 8 0, sha_total_bits = 0, sha_buffer = replicate 64 0, sha_buffer_len = 0\<rparr>"

definition cb_sha256_final :: "cb_sha256_ctx_t \<Rightarrow> u8 list \<Rightarrow> u8 list \<times> cb_sha256_ctx_t" where
  "cb_sha256_final ctx out =
     (let bits = sha_total_bits ctx;
          ctx = ctx\<lparr>sha_buffer := (sha_buffer ctx)[sha_buffer_len ctx := 0x80], sha_buffer_len := sha_buffer_len ctx + 1\<rparr>;
          ctx = (if CB_SHA256_BLOCK_LEN - 8 < sha_buffer_len ctx
                 then
                   let ctx = zero_pad CB_SHA256_BLOCK_LEN ctx
                   in ctx\<lparr>sha_state := cb__sha256_compress (sha_state ctx) (sha_buffer ctx), sha_buffer_len := 0\<rparr>
                 else ctx);
          ctx = zero_pad (CB_SHA256_BLOCK_LEN - 8) ctx;
          ctx = ctx\<lparr>sha_buffer := store_bits bits (sha_buffer ctx)\<rparr>;
          ctx = ctx\<lparr>sha_state := cb__sha256_compress (sha_state ctx) (sha_buffer ctx)\<rparr>
      in (store_digest (sha_state ctx) out, wiped_ctx))"

text \<open>The one-shot hash; \<open>ctx\<close> is what the stack held.\<close>

definition cb_sha256 :: "cb_sha256_ctx_t \<Rightarrow> u8 list \<Rightarrow> u8 list \<Rightarrow> u8 list" where
  "cb_sha256 ctx input out =
     (let ctx = cb_sha256_init ctx;
          ctx = cb_sha256_update ctx input
      in fst (cb_sha256_final ctx out))"


section \<open>The specification: FIPS 180-4\<close>

text \<open>Rotations (3.2), the functions (4.1.2), the schedule and the compression (6.2.2), the padded
  message (5.1.1) and its blocks (5.2.1).\<close>

definition fips_Sigma0 :: "u32 \<Rightarrow> u32" where
  "fips_Sigma0 x = word_rotr 2 x XOR word_rotr 13 x XOR word_rotr 22 x"

definition fips_Sigma1 :: "u32 \<Rightarrow> u32" where
  "fips_Sigma1 x = word_rotr 6 x XOR word_rotr 11 x XOR word_rotr 25 x"

definition fips_sigma0 :: "u32 \<Rightarrow> u32" where
  "fips_sigma0 x = word_rotr 7 x XOR word_rotr 18 x XOR drop_bit 3 x"

definition fips_sigma1 :: "u32 \<Rightarrow> u32" where
  "fips_sigma1 x = word_rotr 17 x XOR word_rotr 19 x XOR drop_bit 10 x"

text \<open>The big-endian value of four bytes.\<close>

definition be_word :: "u8 list \<Rightarrow> u32" where
  "be_word bs = fold (\<lambda>b w. w * 256 + ucast b) bs 0"

fun fips_W :: "u8 list \<Rightarrow> nat \<Rightarrow> u32" where
  "fips_W M t =
     (if t < 16 then be_word (get_bytes (4 * t) 4 M)
      else fips_sigma1 (fips_W M (t - 2)) + fips_W M (t - 7) + fips_sigma0 (fips_W M (t - 15)) + fips_W M (t - 16))"

declare fips_W.simps [simp del] upt_rec_numeral [simp del]

fun fips_round :: "u8 list \<Rightarrow> nat \<Rightarrow> work \<Rightarrow> work" where
  "fips_round M t (a, b, c, d, e, f, g, h) =
     (let T1 = h + fips_Sigma1 e + CB__CH e f g + cb__sha256_k ! t + fips_W M t;
          T2 = fips_Sigma0 a + CB__MAJ a b c
      in (T1 + T2, a, b, c, d + T1, e, f, g))"

fun work_of :: "u32 list \<Rightarrow> work" where
  "work_of st = (st ! 0, st ! 1, st ! 2, st ! 3, st ! 4, st ! 5, st ! 6, st ! 7)"

fun work_list :: "work \<Rightarrow> u32 list" where
  "work_list (a, b, c, d, e, f, g, h) = [a, b, c, d, e, f, g, h]"

definition fips_compress :: "u32 list \<Rightarrow> u8 list \<Rightarrow> u32 list" where
  "fips_compress H M = map2 (+) H (work_list (fold (fips_round M) [0 ..< 64] (work_of H)))"

definition be_bytes :: "nat \<Rightarrow> 'a::len word \<Rightarrow> u8 list" where
  "be_bytes n v = map (\<lambda>k. ucast (drop_bit (8 * (n - 1 - k)) v)) [0 ..< n]"

definition fips_pad :: "u8 list \<Rightarrow> u8 list" where
  "fips_pad m =
     m @ [0x80] @ replicate ((119 - length m mod 64) mod 64) 0
       @ be_bytes 8 (word_of_nat (8 * length m) :: u64)"

function fips_blocks :: "u8 list \<Rightarrow> u8 list list" where
  "fips_blocks m = (if length m < 64 then [] else take 64 m # fips_blocks (drop 64 m))"
  by pat_completeness auto

termination
  by (relation "measure length") auto

declare fips_blocks.simps [simp del]

definition fips_sha256 :: "u8 list \<Rightarrow> u8 list" where
  "fips_sha256 m =
     concat (map (be_bytes 4) (fold (\<lambda>M H. fips_compress H M) (fips_blocks (fips_pad m)) cb__sha256_h0))"

section \<open>The compression function\<close>

lemma rotr_rotr:
  assumes "0 < n" "n < 32"
  shows "cb__rotr32 x n = word_rotr n x"
proof (rule bit_word_eqI)
  fix k assume "k < LENGTH(32)"
  then have k: "k < 32" by simp
  have m: "(0xFFFFFFFF :: u64) = mask 32" by (simp add: mask_eq_exp_minus_1)
  have "(k + n) mod 32 = (if k + n < 32 then k + n else k + n - 32)"
    using k assms by (simp add: mod_if)
  then show "bit (cb__rotr32 x n) k = bit (word_rotr n x) k"
    using k assms unfolding cb__rotr32_def m
    by (auto simp: bit_simps bit_mask_iff bit_word_rotr_iff ac_simps dest: bit_imp_le_length)
qed

lemma sigmas [simp]:
  "CB__BSIG0 x = fips_Sigma0 x" "CB__BSIG1 x = fips_Sigma1 x"
  "CB__SSIG0 x = fips_sigma0 x" "CB__SSIG1 x = fips_sigma1 x"
  by (simp_all add: CB__BSIG0_def CB__BSIG1_def CB__SSIG0_def CB__SSIG1_def fips_Sigma0_def
      fips_Sigma1_def fips_sigma0_def fips_sigma1_def rotr_rotr)

lemma or_disjoint_add: "(push_bit 8 w :: u32) OR ucast (b :: u8) = w * 256 + ucast b"
proof -
  have "push_bit 8 w AND ucast b = 0"
    by (rule bit_word_eqI) (auto simp: bit_simps dest: bit_imp_le_length)
  then have "push_bit 8 w + ucast b = push_bit 8 w OR ucast b"
    using word_plus_and_or [of "push_bit 8 w" "ucast b"] by (simp only: add_0_left)
  then show ?thesis by (simp add: push_bit_eq_mult)
qed

lemma push_bit_or32: "push_bit n (a OR b) = push_bit n a OR push_bit n (b :: u32)"
  by (rule bit_word_eqI) (auto simp: bit_simps)

lemma four_bytes: "4 \<le> length p \<Longrightarrow> \<exists>a b c d r. p = a # b # c # d # r"
  by (auto simp: numeral_eq_Suc Suc_le_length_iff)

lemma work_cases: "\<exists>a b c d e f g h. v = (a, b, c, d, e, f, g, h :: 'a)"
  by (metis surj_pair)

lemma fips_W_16: "i < 16 \<Longrightarrow> fips_W M i = be_word (get_bytes (4 * i) 4 M)"
  by (simp add: fips_W.simps)

lemma load_word_be:
  assumes "i < 16" "length block = 64"
  shows "load_word block i = be_word (get_bytes (4 * i) 4 block)"
proof -
  let ?p = "drop (i * 4) block"
  have "4 \<le> length ?p" using assms by simp
  then obtain a b c d r where p: "?p = a # b # c # d # r" using four_bytes by blast
  have "be_word [a, b, c, d] = push_bit 8 (push_bit 8 (push_bit 8 (ucast a) OR ucast b) OR ucast c) OR ucast d"
    unfolding or_disjoint_add by (simp add: be_word_def)
  also have "\<dots> = push_bit 24 (ucast a) OR push_bit 16 (ucast b) OR push_bit 8 (ucast c) OR ucast d"
    by (simp only: push_bit_or32 push_bit_push_bit or.assoc) simp
  finally show ?thesis by (simp add: load_word_def p get_bytes_def mult.commute)
qed

lemma load_loop_prefix:
  assumes "n \<le> 16" "length w = 64"
  shows "length (fold (\<lambda>i w. w[i := load_word block i]) [0 ..< n] w) = 64
    \<and> (\<forall>i < n. fold (\<lambda>i w. w[i := load_word block i]) [0 ..< n] w ! i = load_word block i)"
  using assms by (induction n) (auto simp: nth_list_update less_Suc_eq)

lemma schedule_prefix:
  assumes "length w = 64" "\<And>i. i < 16 \<Longrightarrow> w ! i = fips_W M i" "16 \<le> n" "n \<le> 64"
  shows "let w' = fold (\<lambda>i w. w[i := CB__SSIG1 (w ! (i - 2)) + w ! (i - 7) + CB__SSIG0 (w ! (i - 15)) + w ! (i - 16)]) [16 ..< n] w
    in length w' = 64 \<and> (\<forall>i < n. w' ! i = fips_W M i)"
  using assms(3,4)
proof (induction n rule: dec_induct)
  case base
  then show ?case using assms(1,2) by simp
next
  case (step n)
  have "fips_W M n = fips_sigma1 (fips_W M (n - 2)) + fips_W M (n - 7) + fips_sigma0 (fips_W M (n - 15)) + fips_W M (n - 16)"
    using step(1) by (subst fips_W.simps) simp
  then show ?case using step by (auto simp: Let_def nth_list_update less_Suc_eq)
qed

lemma schedule_W:
  assumes "length block = 64"
  shows "let w = schedule_loop (load_loop block (replicate 64 0)) in \<forall>i < 64. w ! i = fips_W block i"
proof -
  have "length (load_loop block (replicate 64 0)) = 64
      \<and> (\<forall>i < 16. load_loop block (replicate 64 0) ! i = fips_W block i)"
    using load_loop_prefix [of 16 "replicate 64 0" block] load_word_be [OF _ assms]
    by (simp add: load_loop_def fips_W_16)
  then show ?thesis
    using schedule_prefix [of "load_loop block (replicate 64 0)" block 64]
    by (simp add: schedule_loop_def Let_def)
qed

lemma rounds_eq:
  assumes "\<And>i. i < n \<Longrightarrow> w ! i = fips_W M i"
  shows "fold (round_step w) [0 ..< n] v = fold (fips_round M) [0 ..< n] v"
  using assms
proof (induction n)
  case (Suc n)
  obtain a b c d e f g h where "fold (fips_round M) [0 ..< n] v = (a, b, c, d, e, f, g, h)"
    using work_cases [of "fold (fips_round M) [0 ..< n] v"] by blast
  then show ?case using Suc by simp
qed simp

lemma list8: "length H = 8 \<Longrightarrow> H = [H ! 0, H ! 1, H ! 2, H ! 3, H ! 4, H ! 5, H ! 6, H ! 7]"
  by (rule nth_equalityI) (auto simp: less_Suc_eq numeral_eq_Suc)

lemma compress_fips:
  assumes "length H = 8" "length block = 64"
  shows "cb__sha256_compress H block = fips_compress H block"
proof -
  obtain a b c d e f g h where v: "fold (fips_round block) [0 ..< 64] (work_of H) = (a, b, c, d, e, f, g, h)"
    using work_cases [of "fold (fips_round block) [0 ..< 64] (work_of H)"] by blast
  let ?w = "schedule_loop (load_loop block (replicate 64 0))"
  have "fold (round_step ?w) [0 ..< 64] (work_of H) = (a, b, c, d, e, f, g, h)"
    using rounds_eq [of 64 ?w block "work_of H"] schedule_W [OF assms(2)] v by (simp add: Let_def)
  then have "cb__sha256_compress H block = H[0 := H ! 0 + a, 1 := H ! 1 + b, 2 := H ! 2 + c, 3 := H ! 3 + d,
           4 := H ! 4 + e, 5 := H ! 5 + f, 6 := H ! 6 + g, 7 := H ! 7 + h]"
    by (simp add: cb__sha256_compress_def)
  also have "\<dots> = map2 (+) H [a, b, c, d, e, f, g, h]"
    by (subst (1 2) list8 [OF assms(1)]) simp
  finally show ?thesis by (simp add: fips_compress_def v del: work_of.simps)
qed


lemma length_compress [simp]: "length (cb__sha256_compress st block) = length st"
  by (simp add: cb__sha256_compress_def split_def Let_def)

section \<open>Padding and the digest\<close>

lemma length_be_bytes [simp]: "length (be_bytes n v) = n" by (simp add: be_bytes_def)

lemma be_bytes_4:
  "be_bytes 4 v = [ucast (drop_bit 24 v), ucast (drop_bit 16 v), ucast (drop_bit 8 v), ucast v]"
  by (simp add: be_bytes_def upt_rec)

lemma be_bytes_8:
  "be_bytes 8 v = [ucast (drop_bit 56 v), ucast (drop_bit 48 v), ucast (drop_bit 40 v), ucast (drop_bit 32 v),
     ucast (drop_bit 24 v), ucast (drop_bit 16 v), ucast (drop_bit 8 v), ucast v]"
  by (simp add: be_bytes_def upt_rec)

lemma store_bits_put: "64 \<le> length buf \<Longrightarrow> store_bits bits buf = put_bytes 56 (be_bytes 8 bits) buf"
  by (simp add: store_bits_def be_bytes_8 put_bytes_8 low_byte)

lemma store_digest_prefix:
  assumes "n \<le> 8" "32 \<le> length out"
  shows "fold (\<lambda>i out. out
         [i * 4 + 0 := ucast (drop_bit 24 (st ! i) AND 0xFF), i * 4 + 1 := ucast (drop_bit 16 (st ! i) AND 0xFF),
          i * 4 + 2 := ucast (drop_bit 8 (st ! i) AND 0xFF), i * 4 + 3 := ucast (st ! i AND 0xFF)])
       [0 ..< n] out = put_bytes 0 (concat (map (\<lambda>i. be_bytes 4 (st ! i)) [0 ..< n])) out"
  using assms
proof (induction n)
  case (Suc n)
  let ?bs = "concat (map (\<lambda>i. be_bytes 4 (st ! i)) [0 ..< n])"
  have len: "length ?bs = n * 4" by (simp add: length_concat comp_def sum_list_triv)
  then have fits: "0 + length ?bs + length (be_bytes 4 (st ! n)) \<le> length out" using Suc.prems by simp
  have "put_bytes (n * 4) (be_bytes 4 (st ! n)) (put_bytes 0 ?bs out) = put_bytes 0 (?bs @ be_bytes 4 (st ! n)) out"
    using put_bytes_append [OF fits] len by simp
  moreover have "n * 4 + 4 \<le> length (put_bytes 0 ?bs out)" using fits len by (simp add: length_put_bytes)
  ultimately show ?case using Suc by (simp add: be_bytes_4 put_bytes_4 low_byte)
qed simp

lemma store_digest_put:
  assumes "length st = 8" "32 \<le> length out"
  shows "store_digest st out = put_bytes 0 (concat (map (be_bytes 4) st)) out"
proof -
  have "map (\<lambda>i. be_bytes 4 (st ! i)) [0 ..< 8] = map (be_bytes 4) st"
    using assms(1) by (intro nth_equalityI) simp_all
  then show ?thesis
    using store_digest_prefix [of 8 out st] assms(2) by (simp only: store_digest_def order_refl)
qed

lemma zero_pad_put:
  assumes "sha_buffer_len ctx \<le> limit" "limit \<le> length (sha_buffer ctx)"
  shows "zero_pad limit ctx = ctx\<lparr>sha_buffer := put_bytes (sha_buffer_len ctx) (replicate (limit - sha_buffer_len ctx) 0) (sha_buffer ctx),
    sha_buffer_len := limit\<rparr>"
  using assms
proof (induction limit ctx rule: zero_pad.induct)
  case (1 limit ctx)
  show ?case
  proof (cases "sha_buffer_len ctx < limit")
    case True
    define ctx' where "ctx' = ctx\<lparr>sha_buffer := (sha_buffer ctx)[sha_buffer_len ctx := 0], sha_buffer_len := sha_buffer_len ctx + 1\<rparr>"
    have "zero_pad limit ctx = zero_pad limit ctx'"
      using True by (subst zero_pad.simps) (simp add: ctx'_def)
    also have "\<dots> = ctx'\<lparr>sha_buffer := put_bytes (sha_buffer_len ctx') (replicate (limit - sha_buffer_len ctx') 0) (sha_buffer ctx'),
        sha_buffer_len := limit\<rparr>"
      unfolding ctx'_def using True 1(3) by (intro 1(1) True) simp_all
    also have "replicate (limit - sha_buffer_len ctx) 0 = 0 # replicate (limit - sha_buffer_len ctx') (0 :: u8)"
      using True by (simp add: ctx'_def Suc_diff_Suc flip: replicate_Suc)
    then have "put_bytes (sha_buffer_len ctx') (replicate (limit - sha_buffer_len ctx') 0) (sha_buffer ctx')
        = put_bytes (sha_buffer_len ctx) (replicate (limit - sha_buffer_len ctx) 0) (sha_buffer ctx)"
      using True 1(3) by (simp add: put_bytes_Cons ctx'_def)
    finally show ?thesis by (simp add: ctx'_def)
  next
    case False
    then show ?thesis using 1(2) by (subst zero_pad.simps) simp
  qed
qed

lemma full_blocks_short: "length p < 64 \<Longrightarrow> full_blocks st p = (st, p)"
  by (subst full_blocks.simps) (simp add: CB_SHA256_BLOCK_LEN_def)

lemma full_blocks_long:
  "64 \<le> length p \<Longrightarrow> full_blocks st p = full_blocks (cb__sha256_compress st (take 64 p)) (drop 64 p)"
  by (subst full_blocks.simps) (simp add: CB_SHA256_BLOCK_LEN_def)

lemma full_blocks_one: "length b = 64 \<Longrightarrow> full_blocks st (b @ p) = full_blocks (cb__sha256_compress st b) p"
  by (subst full_blocks_long) simp_all

text \<open>The input may be split anywhere.\<close>

lemma full_blocks_append: "full_blocks st m = (st', t) \<Longrightarrow> full_blocks st (m @ d) = full_blocks st' (t @ d)"
proof (induction st m rule: full_blocks.induct)
  case (1 st m)
  show ?case
  proof (cases "64 \<le> length m")
    case True
    then have "full_blocks (cb__sha256_compress st (take 64 m)) (drop 64 m @ d) = full_blocks st' (t @ d)"
      using 1 by (simp add: CB_SHA256_BLOCK_LEN_def full_blocks_long)
    then show ?thesis using True by (subst full_blocks_long) simp_all
  next
    case False
    then show ?thesis using 1(2) by (simp add: full_blocks_short)
  qed
qed

lemma full_blocks_lengths:
  "full_blocks st m = (st', t) \<Longrightarrow> length t = length m mod 64 \<and> length st' = length st"
proof (induction st m rule: full_blocks.induct)
  case (1 st m)
  show ?case
  proof (cases "64 \<le> length m")
    case True
    then have "length t = (length m - 64) mod 64 \<and> length st' = length st"
      using 1 by (simp add: CB_SHA256_BLOCK_LEN_def full_blocks_long)
    then show ?thesis using True by (simp add: le_mod_geq)
  next
    case False
    then show ?thesis using 1(2) by (simp add: full_blocks_short)
  qed
qed

lemma full_blocks_fips:
  "length st = 8 \<Longrightarrow> fst (full_blocks st m) = fold (\<lambda>M H. fips_compress H M) (fips_blocks m) st"
proof (induction st m rule: full_blocks.induct)
  case (1 st m)
  show ?case
  proof (cases "64 \<le> length m")
    case True
    have c: "cb__sha256_compress st (take 64 m) = fips_compress st (take 64 m)"
      using 1(2) True by (intro compress_fips) simp_all
    have "length (fips_compress st (take 64 m)) = 8"
      using length_compress [of st "take 64 m"] 1(2) unfolding c by simp
    then show ?thesis
      using 1(1) True by (simp add: CB_SHA256_BLOCK_LEN_def full_blocks_long fips_blocks.simps [of m] c)
  next
    case False
    then show ?thesis by (simp add: full_blocks_short fips_blocks.simps [of m])
  qed
qed


section \<open>The streaming context\<close>

text \<open>The context represents the message fed so far.\<close>

definition sha_rep :: "cb_sha256_ctx_t \<Rightarrow> u8 list \<Rightarrow> bool" where
  "sha_rep ctx m \<longleftrightarrow> length (sha_buffer ctx) = 64 \<and> sha_buffer_len ctx = length m mod 64
    \<and> full_blocks cb__sha256_h0 m = (sha_state ctx, take (sha_buffer_len ctx) (sha_buffer ctx))
    \<and> sha_total_bits ctx = word_of_nat (8 * length m)"

text \<open>A context as the caller declares it, its arrays of the declared sizes with any content.\<close>

definition sha_storage :: "cb_sha256_ctx_t \<Rightarrow> bool" where
  "sha_storage ctx \<longleftrightarrow> length (sha_state ctx) = 8 \<and> length (sha_buffer ctx) = 64"

lemma length_h0: "length cb__sha256_h0 = 8" by (simp add: cb__sha256_h0_def)

lemma init_rep: "sha_storage ctx \<Longrightarrow> sha_rep (cb_sha256_init ctx) []"
proof -
  assume st: "sha_storage ctx"
  have cp: "take n (fold (\<lambda>i st. st[i := cb__sha256_h0 ! i]) [0 ..< n] xs) = take n cb__sha256_h0
      \<and> length (fold (\<lambda>i st. st[i := cb__sha256_h0 ! i]) [0 ..< n] xs) = length xs"
    if "n \<le> 8" "length xs = 8" for n xs
    using that by (induction n) (auto simp: take_Suc_conv_app_nth length_h0)
  have "fold (\<lambda>i st. st[i := cb__sha256_h0 ! i]) [0 ..< 8] (sha_state ctx) = cb__sha256_h0"
  proof -
    have "length (sha_state ctx) = 8" using st by (simp add: sha_storage_def)
    from cp [OF order_refl this] have "take 8 (fold (\<lambda>i st. st[i := cb__sha256_h0 ! i]) [0 ..< 8] (sha_state ctx)) = take 8 cb__sha256_h0"
      "length (fold (\<lambda>i st. st[i := cb__sha256_h0 ! i]) [0 ..< 8] (sha_state ctx)) = 8"
      using \<open>length (sha_state ctx) = 8\<close> by (blast, simp only:)
    then show ?thesis by (simp only: take_all length_h0 order_refl)
  qed
  then show ?thesis
    using st by (simp add: sha_rep_def cb_sha256_init_def sha_storage_def full_blocks_short)
qed

lemma update_blocks_rep:
  assumes "length (sha_buffer ctx) = 64" "full_blocks cb__sha256_h0 m = (sha_state ctx, [])"
    and "sha_total_bits ctx = word_of_nat (8 * length (m @ p))" "sha_buffer_len ctx = 0"
  shows "sha_rep (update_blocks ctx p) (m @ p)"
proof -
  obtain st' t where f: "full_blocks (sha_state ctx) p = (st', t)" by (metis surj_pair)
  then have all: "full_blocks cb__sha256_h0 (m @ p) = (st', t)"
    using full_blocks_append [OF assms(2)] by simp
  have t: "length t = length (m @ p) mod 64" "length t < 64"
    using full_blocks_lengths [OF all] by simp_all
  show ?thesis
    using assms(1,3,4) f all t
    by (cases "t = []") (auto simp: sha_rep_def update_blocks_def length_put_bytes put_bytes_def)
qed

lemma update_rep:
  assumes "sha_rep ctx m"
  shows "sha_rep (cb_sha256_update ctx d) (m @ d)"
proof -
  let ?bl = "sha_buffer_len ctx" and ?t = "take (sha_buffer_len ctx) (sha_buffer ctx)"
  have r: "length (sha_buffer ctx) = 64" "?bl = length m mod 64" "?bl < 64"
    "full_blocks cb__sha256_h0 m = (sha_state ctx, ?t)" "sha_total_bits ctx = word_of_nat (8 * length m)"
    using assms by (simp_all add: sha_rep_def)
  have bits: "sha_total_bits ctx + word_of_nat (length d) * 8 = word_of_nat (8 * length (m @ d))"
    by (simp add: r(5) algebra_simps)
  consider "d = []" | "d \<noteq> []" "?bl = 0" | "d \<noteq> []" "0 < ?bl" "length d < 64 - ?bl" | "d \<noteq> []" "0 < ?bl" "64 - ?bl \<le> length d"
    by linarith
  then show ?thesis
  proof cases
    case 1
    then show ?thesis using assms by (simp add: cb_sha256_update_def)
  next
    case 2
    then show ?thesis
      using r bits by (simp add: cb_sha256_update_def) (intro update_blocks_rep, simp_all)
  next
    case 3
    have "full_blocks cb__sha256_h0 (m @ d) = (sha_state ctx, ?t @ d)"
      using full_blocks_append [OF r(4)] 3(3) by (simp add: full_blocks_short r(1))
    moreover have "length (m @ d) mod 64 = ?bl + length d"
      using full_blocks_lengths [OF calculation] r(1,3) by simp
    moreover have "take (?bl + length d) (put_bytes ?bl d (sha_buffer ctx)) = ?t @ d"
      using r(1,3) by (simp add: put_bytes_def)
    ultimately show ?thesis
      using 3 r(1) bits
      by (simp add: cb_sha256_update_def CB_SHA256_BLOCK_LEN_def sha_rep_def length_put_bytes)
  next
    case 4
    let ?need = "64 - ?bl"
    have "put_bytes ?bl (take ?need d) (sha_buffer ctx) = ?t @ take ?need d"
      using 4 r(1,3) by (simp add: put_bytes_def)
    moreover have "full_blocks cb__sha256_h0 (m @ take ?need d) = (cb__sha256_compress (sha_state ctx) (?t @ take ?need d), [])"
      using full_blocks_append [OF r(4), of "take ?need d"] full_blocks_one [of "?t @ take ?need d" "sha_state ctx" "[]"]
        4 r(1,3) by (simp add: full_blocks_short)
    moreover define ctx2 where "ctx2 = ctx\<lparr>sha_total_bits := sha_total_bits ctx + word_of_nat (length d) * 8,
      sha_buffer := put_bytes ?bl (take ?need d) (sha_buffer ctx),
      sha_state := cb__sha256_compress (sha_state ctx) (put_bytes ?bl (take ?need d) (sha_buffer ctx)), sha_buffer_len := 0\<rparr>"
    moreover have "cb_sha256_update ctx d = update_blocks ctx2 (drop ?need d)"
      using 4 by (simp add: cb_sha256_update_def CB_SHA256_BLOCK_LEN_def ctx2_def Let_def)
    moreover have "sha_total_bits ctx2 = word_of_nat (8 * length ((m @ take ?need d) @ drop ?need d))"
      using bits by (simp add: ctx2_def)
    ultimately have "sha_rep (cb_sha256_update ctx d) ((m @ take ?need d) @ drop ?need d)"
      using r(1,3,4) 4(3) by (simp only:) (rule update_blocks_rep, simp_all)
    then show ?thesis by simp
  qed
qed

lemma put_bytes_after: "put_bytes (length t) zs (t @ r) = t @ zs @ drop (length zs) r"
  by (simp add: put_bytes_def)

lemma final_state:
  assumes "sha_rep ctx m" "32 \<le> length out"
  shows "cb_sha256_final ctx out = (put_bytes 0 (fips_sha256 m) out, wiped_ctx)"
proof -
  let ?bl = "sha_buffer_len ctx" and ?t = "take (sha_buffer_len ctx) (sha_buffer ctx)"
  let ?be = "be_bytes 8 (sha_total_bits ctx)"
  have r: "length (sha_buffer ctx) = 64" "?bl = length m mod 64" "?bl < 64" "length ?t = ?bl"
    "full_blocks cb__sha256_h0 m = (sha_state ctx, ?t)" "sha_total_bits ctx = word_of_nat (8 * length m)"
    using assms by (simp_all add: sha_rep_def)
  have len8: "length (sha_state ctx) = 8" using full_blocks_lengths [OF r(5)] by (simp add: length_h0)
  define k where "k = (119 - ?bl) mod 64"
  have pad: "fips_pad m = m @ ([0x80] @ replicate k 0 @ ?be)"
    by (simp add: fips_pad_def k_def r(2,6))
  have blocks: "fold (\<lambda>M H. fips_compress H M) (fips_blocks (fips_pad m)) cb__sha256_h0
      = fst (full_blocks (sha_state ctx) (?t @ [0x80] @ replicate k 0 @ ?be))"
    using full_blocks_fips [OF length_h0, of "fips_pad m"] full_blocks_append [OF r(5)] by (simp add: pad)
  define st where "st = fst (full_blocks (sha_state ctx) (?t @ [0x80] @ replicate k 0 @ ?be))"
  have st8: "length st = 8"
    using full_blocks_lengths [of "sha_state ctx"] len8 unfolding st_def by (metis prod.collapse)
  have dig: "fips_sha256 m = concat (map (be_bytes 4) st)" by (simp only: fips_sha256_def blocks st_def)
  define ctx1 where "ctx1 = ctx\<lparr>sha_buffer := (sha_buffer ctx)[?bl := 0x80], sha_buffer_len := ?bl + 1\<rparr>"
  have b1: "(sha_buffer ctx)[?bl := 0x80] = ?t @ [0x80] @ drop (?bl + 1) (sha_buffer ctx)"
    using r(1,3) by (simp add: upd_conv_take_nth_drop)
  show ?thesis
  proof (cases "?bl + 1 \<le> 56")
    case True
    then have k: "k = 55 - ?bl" by (simp add: k_def) (simp add: mod_if)
    have z: "zero_pad 56 ctx1 = ctx1\<lparr>sha_buffer := put_bytes (?bl + 1) (replicate k 0) (sha_buffer ctx1), sha_buffer_len := 56\<rparr>"
      using True r(1) by (subst zero_pad_put) (simp_all add: ctx1_def k)
    have buf: "put_bytes 56 ?be (put_bytes (?bl + 1) (replicate k 0) (sha_buffer ctx1)) = ?t @ [0x80] @ replicate k 0 @ ?be"
      using True r(1,3,4) put_bytes_after [of "?t @ [0x80]" "replicate k 0" "drop (?bl + 1) (sha_buffer ctx)"]
        put_bytes_after [of "?t @ [0x80] @ replicate k 0" ?be "drop (k + (?bl + 1)) (sha_buffer ctx)"]
      unfolding ctx1_def cb_sha256_ctx_t.simps b1 by (simp add: k)
    have "st = cb__sha256_compress (sha_state ctx) (?t @ [0x80] @ replicate k 0 @ ?be)"
      using full_blocks_one [of "?t @ [0x80] @ replicate k 0 @ ?be" "sha_state ctx" "[]"] True r(4)
      by (simp add: st_def k full_blocks_short)
    moreover have "cb_sha256_final ctx out = (store_digest (cb__sha256_compress (sha_state ctx)
        (store_bits (sha_total_bits ctx) (sha_buffer (zero_pad 56 ctx1)))) out, wiped_ctx)"
      using True z by (simp add: cb_sha256_final_def CB_SHA256_BLOCK_LEN_def Let_def flip: ctx1_def)
        (simp add: ctx1_def)
    moreover have "store_bits (sha_total_bits ctx) (sha_buffer (zero_pad 56 ctx1)) = ?t @ [0x80] @ replicate k 0 @ ?be"
    proof -
      have sz: "sha_buffer (zero_pad 56 ctx1) = put_bytes (?bl + 1) (replicate k 0) (sha_buffer ctx1)"
        unfolding z by simp
      have "length (sha_buffer (zero_pad 56 ctx1)) = 64"
        unfolding sz using True r(1) by (subst length_put_bytes) (simp_all add: ctx1_def k)
      then show ?thesis using buf by (simp only: store_bits_put sz order_refl)
    qed
    ultimately show ?thesis using store_digest_put [OF st8 assms(2)] by (simp add: dig)
  next
    case False
    then have k: "k = 119 - ?bl" using r(3) by (simp add: k_def)
    define ctx2 where "ctx2 = ctx1\<lparr>sha_buffer := ?t @ [0x80] @ replicate (63 - ?bl) 0,
      sha_state := cb__sha256_compress (sha_state ctx) (?t @ [0x80] @ replicate (63 - ?bl) 0), sha_buffer_len := 0\<rparr>"
    have "put_bytes (?bl + 1) (replicate (63 - ?bl) 0) (sha_buffer ctx1) = ?t @ [0x80] @ replicate (63 - ?bl) 0"
      using r(1,3,4) put_bytes_after [of "?t @ [0x80]" "replicate (63 - ?bl) 0" "drop (?bl + 1) (sha_buffer ctx)"]
      unfolding ctx1_def cb_sha256_ctx_t.simps b1 by simp
    then have z1: "zero_pad 64 ctx1 = ctx1\<lparr>sha_buffer := ?t @ [0x80] @ replicate (63 - ?bl) 0, sha_buffer_len := 64\<rparr>"
      using r(1,3) by (subst zero_pad_put) (simp_all add: ctx1_def)
    have z2: "zero_pad 56 ctx2 = ctx2\<lparr>sha_buffer := put_bytes 0 (replicate 56 0) (sha_buffer ctx2), sha_buffer_len := 56\<rparr>"
      using r(3,4) by (subst zero_pad_put) (simp_all add: ctx2_def)
    have sb: "store_bits (sha_total_bits ctx) (sha_buffer (zero_pad 56 ctx2)) = replicate 56 0 @ ?be"
    proof -
      have sz: "sha_buffer (zero_pad 56 ctx2) = put_bytes 0 (replicate 56 0) (sha_buffer ctx2)"
        unfolding z2 by simp
      have "length (sha_buffer ctx2) = 64" using r(3,4) by (simp add: ctx2_def)
      then show ?thesis unfolding sz by (simp add: store_bits_put put_bytes_def)
    qed
    have "replicate k 0 @ ?be = replicate (63 - ?bl) 0 @ replicate 56 0 @ ?be"
      using False r(3) by (simp add: k flip: append_assoc replicate_add)
    then have "st = cb__sha256_compress (cb__sha256_compress (sha_state ctx) (?t @ [0x80] @ replicate (63 - ?bl) 0)) (replicate 56 0 @ ?be)"
      using full_blocks_one [of "?t @ [0x80] @ replicate (63 - ?bl) 0" "sha_state ctx" "replicate 56 0 @ ?be"]
        full_blocks_one [of "replicate 56 0 @ ?be" _ "[]"] r(3,4)
      by (simp add: st_def full_blocks_short)
    moreover have "cb_sha256_final ctx out = (store_digest (cb__sha256_compress (sha_state ctx2)
        (store_bits (sha_total_bits ctx) (sha_buffer (zero_pad 56 ctx2)))) out, wiped_ctx)"
      using False z1 z2 by (simp add: cb_sha256_final_def CB_SHA256_BLOCK_LEN_def Let_def flip: ctx1_def)
        (simp add: ctx1_def ctx2_def)
    moreover have "sha_state ctx2 = cb__sha256_compress (sha_state ctx) (?t @ [0x80] @ replicate (63 - ?bl) 0)"
      by (simp add: ctx2_def)
    ultimately show ?thesis using store_digest_put [OF st8 assms(2)] by (simp only: dig sb)
  qed
qed


section \<open>The contract of a streaming digest\<close>

locale message_stream =
  fixes start :: "'c \<Rightarrow> 'c"
    and feed :: "'c \<Rightarrow> u8 list \<Rightarrow> 'c"
    and finish :: "'c \<Rightarrow> u8 list \<Rightarrow> u8 list \<times> 'c"
    and storage :: "'c \<Rightarrow> bool"
    and rep :: "'c \<Rightarrow> u8 list \<Rightarrow> bool"
    and digest :: "u8 list \<Rightarrow> u8 list"
    and wiped :: 'c
  assumes start_rep: "storage c \<Longrightarrow> rep (start c) []"
    and feed_rep: "rep c m \<Longrightarrow> rep (feed c d) (m @ d)"
    and finish_rep: "rep c m \<Longrightarrow> 32 \<le> length out \<Longrightarrow> finish c out = (put_bytes 0 (digest m) out, wiped)"
begin

lemma feed_all: "rep c m \<Longrightarrow> rep (fold (\<lambda>d c. feed c d) ds c) (m @ concat ds)"
proof (induction ds arbitrary: c m)
  case (Cons d ds)
  then show ?case using Cons.IH [OF feed_rep [OF Cons.prems, of d]] by simp
qed simp

lemma chunked:
  "storage c \<Longrightarrow> 32 \<le> length out \<Longrightarrow>
    finish (fold (\<lambda>d c. feed c d) ds (start c)) out = (put_bytes 0 (digest (concat ds)) out, wiped)"
  using finish_rep [OF feed_all [OF start_rep, of c ds]] by simp

lemma chunking_irrelevant:
  assumes "storage c" "storage c'" "32 \<le> length out" "concat ds = concat ds'"
  shows "finish (fold (\<lambda>d c. feed c d) ds (start c)) out = finish (fold (\<lambda>d c. feed c d) ds' (start c')) out"
  using assms by (simp add: chunked)

end

interpretation sha256: message_stream cb_sha256_init cb_sha256_update cb_sha256_final sha_storage sha_rep
  fips_sha256 wiped_ctx
  by unfold_locales (rule init_rep update_rep final_state, assumption+)+

lemma sha256_once: "sha_storage ctx \<Longrightarrow> 32 \<le> length out \<Longrightarrow>
    cb_sha256 ctx m out = put_bytes 0 (fips_sha256 m) out"
  using sha256.chunked [of ctx out "[m]"] by (simp add: cb_sha256_def)

lemma length_fips_sha256: "length (fips_sha256 m) = 32"
proof -
  define st where "st = fold (\<lambda>M H. fips_compress H M) (fips_blocks (fips_pad m)) cb__sha256_h0"
  have "length st = 8"
    unfolding st_def full_blocks_fips [OF length_h0, symmetric]
    using full_blocks_lengths [of cb__sha256_h0 "fips_pad m"] length_h0 by (metis prod.collapse)
  then show ?thesis
    by (simp add: fips_sha256_def length_concat comp_def sum_list_triv flip: st_def)
qed

section \<open>Where the constants come from\<close>

text \<open>FIPS 180-4 takes them from the first 64 primes: the first 32 bits of the fractional parts of
  the cube roots (4.2.2) and, for the first eight, of the square roots (5.3.3).\<close>

definition first_primes :: "nat list" where
  "first_primes = 
   [2, 3, 5, 7, 11, 13, 17, 19, 23, 29, 31, 37, 41, 43, 47, 53, 59, 61, 67, 71, 73, 79, 83, 89, 97, 101,
    103, 107, 109, 113, 127, 131, 137, 139, 149, 151, 157, 163, 167, 173, 179, 181, 191, 193, 197, 199,
    211, 223, 227, 229, 233, 239, 241, 251, 257, 263, 269, 271, 277, 281, 283, 293, 307, 311]"

text \<open>\<open>r\<close> is the floor of \<open>2^32\<close> times the \<open>k\<close>-th root of \<open>p\<close>.\<close>

definition root32 :: "nat \<Rightarrow> nat \<Rightarrow> nat \<Rightarrow> bool" where
  "root32 k p r \<longleftrightarrow> r ^ k \<le> p * 2 ^ (32 * k) \<and> p * 2 ^ (32 * k) < Suc r ^ k"

text \<open>The integral part of a root below 7.\<close>

definition small_root :: "nat \<Rightarrow> nat \<Rightarrow> nat" where
  "small_root k p = sum_list (map (\<lambda>q. if q ^ k \<le> p then 1 else 0) [1, 2, 3, 4, 5, 6])"

fun roots :: "nat \<Rightarrow> nat list \<Rightarrow> u32 list \<Rightarrow> bool" where
  "roots k [] [] = True"
| "roots k (p # ps) (w # ws) = (root32 k p (small_root k p * 2 ^ 32 + unat w) \<and> roots k ps ws)"
| "roots k _ _ = False"

section \<open>Properties\<close>

text \<open>The tables are right: each round constant is the first 32 bits of the fractional part of
  the cube root of its prime, each initial word those of the square root of its prime, and the
  listed numbers, all below \<open>18^2\<close>, are primes.\<close>

theorem sha256_constants:
  "roots 3 first_primes cb__sha256_k \<and> roots 2 (take 8 first_primes) cb__sha256_h0
    \<and> (list_all (\<lambda>p. [d \<leftarrow> [2, 3, 5, 7, 11, 13, 17]. d < p \<and> p mod d = 0] = []) first_primes)"
  by (simp add: first_primes_def cb__sha256_k_def cb__sha256_h0_def root32_def small_root_def)


text \<open>The compression function is the one of FIPS 180-4: loading the block and extending the
  schedule in place computes its recurrence, the two-part shifts are rotations for every amount the
  code uses, and the rotating assignments of the round loop are its rounds.\<close>

theorem sha256_compress_fips:
  assumes "length H = 8" "length block = 64"
  shows "cb__sha256_compress H block = fips_compress H block"
  using assms by (rule compress_fips)

lemma sha256_compress_fips_witness:
  "cb__sha256_compress cb__sha256_h0 (replicate 64 0) = fips_compress cb__sha256_h0 (replicate 64 0)"
  by (rule sha256_compress_fips) (simp_all add: cb__sha256_h0_def)

text \<open>C5. Hashing a message in any pieces, empty and partial ones included, gives the SHA-256 of
  FIPS 180-4 of the whole message, written to the first 32 bytes of the output, and leaves the
  context wiped; the one-shot function gives the same digest.\<close>

theorem sha256_streaming:
  assumes "sha_storage ctx" "32 \<le> length out"
  shows "cb_sha256_final (fold (\<lambda>d c. cb_sha256_update c d) ds (cb_sha256_init ctx)) out
      = (put_bytes 0 (fips_sha256 (concat ds)) out, wiped_ctx)
    \<and> cb_sha256 ctx (concat ds) out = put_bytes 0 (fips_sha256 (concat ds)) out
    \<and> length (fips_sha256 (concat ds)) = CB_SHA256_DIGEST_LEN"
  using sha256.chunked [OF assms] sha256_once [OF assms] length_fips_sha256
  by (simp add: CB_SHA256_DIGEST_LEN_def)

lemma sha256_streaming_witness:
  "cb_sha256_final (fold (\<lambda>d c. cb_sha256_update c d) [[0x61], [], [0x62, 0x63]] (cb_sha256_init wiped_ctx))
      (replicate 32 0) = (put_bytes 0 (fips_sha256 [0x61, 0x62, 0x63]) (replicate 32 0), wiped_ctx)"
  using sha256_streaming [of wiped_ctx "replicate 32 0" "[[0x61], [], [0x62, 0x63]]"]
  by (simp add: sha_storage_def wiped_ctx_def)

end
