(* ===== verification/Hmac.thy ===== *)
theory Hmac
  imports Sha256
begin

unbundle bit_operations_syntax

text \<open>
  HMAC-SHA256 of \<open>cbase_hash.c\<close>, on top of the streaming SHA-256 of theory \<open>Sha256\<close>.  The
  specification is RFC 2104; the context of the code satisfies the same streaming contract as the
  hash's.

  \<open>stk\<close> is what the stack holds where a local context is declared.
\<close>

section \<open>Definitions\<close>

record cb_hmac_sha256_ctx_t =
  hmac_inner :: cb_sha256_ctx_t
  hmac_outer_key_pad :: "u8 list"

definition CB__HMAC_IPAD :: u8 where "CB__HMAC_IPAD = 0x36"
definition CB__HMAC_OPAD :: u8 where "CB__HMAC_OPAD = 0x5C"

definition cb__hmac_derive_block_key :: "cb_sha256_ctx_t \<Rightarrow> u8 list \<Rightarrow> u8 list" where
  "cb__hmac_derive_block_key stk key =
     (let out_block = replicate CB_SHA256_BLOCK_LEN 0
      in if CB_SHA256_BLOCK_LEN < length key then cb_sha256 stk key out_block
         else if 0 < length key then put_bytes 0 key out_block
         else out_block)"

text \<open>The loop that fills both pads, byte by byte.\<close>

definition pad_loop :: "u8 list \<Rightarrow> u8 list \<times> u8 list \<Rightarrow> u8 list \<times> u8 list" where
  "pad_loop block_key pads =
     fold (\<lambda>i (ipad, opad). (ipad[i := block_key ! i XOR CB__HMAC_IPAD], opad[i := block_key ! i XOR CB__HMAC_OPAD]))
       [0 ..< CB_SHA256_BLOCK_LEN] pads"

definition cb_hmac_sha256_init ::
  "cb_sha256_ctx_t \<Rightarrow> u8 list \<Rightarrow> u8 list \<Rightarrow> cb_hmac_sha256_ctx_t \<Rightarrow> cb_hmac_sha256_ctx_t" where
  "cb_hmac_sha256_init stk ipad key ctx =
     (let block_key = cb__hmac_derive_block_key stk key;
          (ipad, opad) = pad_loop block_key (ipad, hmac_outer_key_pad ctx);
          inner = cb_sha256_init (hmac_inner ctx);
          inner = cb_sha256_update inner ipad
      in ctx\<lparr>hmac_inner := inner, hmac_outer_key_pad := opad\<rparr>)"

definition cb_hmac_sha256_update :: "cb_hmac_sha256_ctx_t \<Rightarrow> u8 list \<Rightarrow> cb_hmac_sha256_ctx_t" where
  "cb_hmac_sha256_update ctx data = ctx\<lparr>hmac_inner := cb_sha256_update (hmac_inner ctx) data\<rparr>"

definition wiped_hmac :: cb_hmac_sha256_ctx_t where
  "wiped_hmac = \<lparr>hmac_inner = wiped_ctx, hmac_outer_key_pad = replicate 64 0\<rparr>"

definition cb_hmac_sha256_final ::
  "cb_sha256_ctx_t \<Rightarrow> u8 list \<Rightarrow> cb_hmac_sha256_ctx_t \<Rightarrow> u8 list \<Rightarrow> u8 list \<times> cb_hmac_sha256_ctx_t" where
  "cb_hmac_sha256_final stk inner_digest ctx out =
     (let (inner_digest, inner) = cb_sha256_final (hmac_inner ctx) inner_digest;
          outer = cb_sha256_init stk;
          outer = cb_sha256_update outer (hmac_outer_key_pad ctx);
          outer = cb_sha256_update outer (take CB_SHA256_DIGEST_LEN inner_digest);
          (out, outer) = cb_sha256_final outer out
      in (out, wiped_hmac))"

definition cb_hmac_sha256_abort :: "cb_hmac_sha256_ctx_t \<Rightarrow> cb_hmac_sha256_ctx_t" where
  "cb_hmac_sha256_abort ctx = wiped_hmac"

definition cb_hmac_sha256 ::
  "cb_sha256_ctx_t \<Rightarrow> cb_hmac_sha256_ctx_t \<Rightarrow> u8 list \<Rightarrow> u8 list \<Rightarrow> u8 list \<Rightarrow> u8 list \<Rightarrow> u8 list \<Rightarrow> u8 list" where
  "cb_hmac_sha256 stk ctx ipad inner_digest key msg out =
     (let ctx = cb_hmac_sha256_init stk ipad key ctx;
          ctx = cb_hmac_sha256_update ctx msg
      in fst (cb_hmac_sha256_final stk inner_digest ctx out))"

section \<open>The specification: RFC 2104\<close>

definition rfc_key :: "u8 list \<Rightarrow> u8 list" where
  "rfc_key key =
     (let k = (if 64 < length key then fips_sha256 key else key) in k @ replicate (64 - length k) 0)"

definition rfc_hmac :: "u8 list \<Rightarrow> u8 list \<Rightarrow> u8 list" where
  "rfc_hmac key m =
     fips_sha256 (map (\<lambda>b. b XOR 0x5C) (rfc_key key) @ fips_sha256 (map (\<lambda>b. b XOR 0x36) (rfc_key key) @ m))"

section \<open>The code implements it\<close>

definition hmac_storage :: "cb_hmac_sha256_ctx_t \<Rightarrow> bool" where
  "hmac_storage ctx \<longleftrightarrow> sha_storage (hmac_inner ctx) \<and> length (hmac_outer_key_pad ctx) = 64"

definition hmac_rep :: "u8 list \<Rightarrow> cb_hmac_sha256_ctx_t \<Rightarrow> u8 list \<Rightarrow> bool" where
  "hmac_rep key ctx m \<longleftrightarrow> sha_rep (hmac_inner ctx) (map (\<lambda>b. b XOR 0x36) (rfc_key key) @ m)
    \<and> hmac_outer_key_pad ctx = map (\<lambda>b. b XOR 0x5C) (rfc_key key)"

lemma length_rfc_key: "length (rfc_key key) = 64"
  by (simp add: rfc_key_def Let_def length_fips_sha256)

lemma derive_rfc: "sha_storage stk \<Longrightarrow> cb__hmac_derive_block_key stk key = rfc_key key"
  by (simp add: cb__hmac_derive_block_key_def rfc_key_def Let_def CB_SHA256_BLOCK_LEN_def
      sha256_once length_fips_sha256 put_bytes_def)

lemma pad_loop_prefix:
  assumes "n \<le> 64" "length (k :: u8 list) = 64" "length a = 64" "length b = 64"
  shows "fold (\<lambda>i (ipad, opad). (ipad[i := k ! i XOR p], opad[i := k ! i XOR q])) [0 ..< n] (a, b)
    = (map (\<lambda>x. x XOR p) (take n k) @ drop n a, map (\<lambda>x. x XOR q) (take n k) @ drop n b)"
  using assms
proof (induction n)
  case (Suc n)
  have upd: "(map f (take n k) @ drop n c)[n := f (k ! n)] = map f (take (Suc n) k) @ drop (Suc n) c"
    if "length c = 64" for f :: "u8 \<Rightarrow> u8" and c
    using that Suc.prems by (intro nth_equalityI) (auto simp: nth_append nth_list_update less_Suc_eq)
  show ?case using Suc upd [of a "\<lambda>x. x XOR p"] upd [of b "\<lambda>x. x XOR q"] by simp
qed simp

lemma hmac_start:
  assumes "hmac_storage ctx" "sha_storage stk" "length ipad = 64"
  shows "hmac_rep key (cb_hmac_sha256_init stk ipad key ctx) []"
proof -
  have p: "pad_loop (rfc_key key) (ipad, hmac_outer_key_pad ctx)
      = (map (\<lambda>b. b XOR 0x36) (rfc_key key), map (\<lambda>b. b XOR 0x5C) (rfc_key key))"
    using assms unfolding pad_loop_def CB_SHA256_BLOCK_LEN_def CB__HMAC_IPAD_def CB__HMAC_OPAD_def
    by (subst pad_loop_prefix) (simp_all add: length_rfc_key hmac_storage_def)
  have "sha_rep (cb_sha256_update (cb_sha256_init (hmac_inner ctx)) (map (\<lambda>b. b XOR 0x36) (rfc_key key)))
      ([] @ map (\<lambda>b. b XOR 0x36) (rfc_key key))"
    using assms(1) by (intro sha256.feed_rep sha256.start_rep) (simp add: hmac_storage_def)
  then show ?thesis
    by (simp add: hmac_rep_def cb_hmac_sha256_init_def derive_rfc [OF assms(2)] p)
qed

lemma hmac_finish:
  assumes "hmac_rep key ctx m" "sha_storage stk" "32 \<le> length out" "32 \<le> length inner_digest"
  shows "cb_hmac_sha256_final stk inner_digest ctx out = (put_bytes 0 (rfc_hmac key m) out, wiped_hmac)"
proof -
  let ?i = "fips_sha256 (map (\<lambda>b. b XOR 0x36) (rfc_key key) @ m)"
  have i: "cb_sha256_final (hmac_inner ctx) inner_digest = (put_bytes 0 ?i inner_digest, wiped_ctx)"
    using assms(1,4) by (intro sha256.finish_rep) (simp_all add: hmac_rep_def)
  have t: "take CB_SHA256_DIGEST_LEN (put_bytes 0 ?i inner_digest) = ?i"
    by (simp add: CB_SHA256_DIGEST_LEN_def put_bytes_def length_fips_sha256)
  have "sha_rep (cb_sha256_update (cb_sha256_update (cb_sha256_init stk) (hmac_outer_key_pad ctx)) ?i)
      (([] @ hmac_outer_key_pad ctx) @ ?i)"
    by (intro sha256.feed_rep sha256.start_rep assms(2))
  then have "cb_sha256_final (cb_sha256_update (cb_sha256_update (cb_sha256_init stk) (hmac_outer_key_pad ctx)) ?i) out
      = (put_bytes 0 (fips_sha256 (hmac_outer_key_pad ctx @ ?i)) out, wiped_ctx)"
    using sha256.finish_rep [OF _ assms(3)] by simp
  then show ?thesis
    using assms(1) by (simp add: cb_hmac_sha256_final_def i t rfc_hmac_def hmac_rep_def)
qed

text \<open>The stack's content does not matter, so the contract is stated for a zeroed one.\<close>

interpretation hmac: message_stream
  "cb_hmac_sha256_init wiped_ctx (replicate 64 0) key" cb_hmac_sha256_update
  "cb_hmac_sha256_final wiped_ctx (replicate 32 0)" hmac_storage "hmac_rep key" "rfc_hmac key" wiped_hmac
  for key
proof unfold_locales
  have s: "sha_storage wiped_ctx" by (simp add: sha_storage_def wiped_ctx_def)
  show "hmac_rep key (cb_hmac_sha256_init wiped_ctx (replicate 64 0) key c) []" if "hmac_storage c" for c
    using that s by (intro hmac_start) simp_all
  show "hmac_rep key (cb_hmac_sha256_update c d) (m @ d)" if "hmac_rep key c m" for c m d
    using that sha256.feed_rep [of "hmac_inner c" "map (\<lambda>b. b XOR 0x36) (rfc_key key) @ m" d]
    by (simp add: hmac_rep_def cb_hmac_sha256_update_def)
  show "cb_hmac_sha256_final wiped_ctx (replicate 32 0) c out = (put_bytes 0 (rfc_hmac key m) out, wiped_hmac)"
    if "hmac_rep key c m" "32 \<le> length out" for c m out
    using that s by (intro hmac_finish) simp_all
qed

lemma hmac_feed_rep: "hmac_rep key c m \<Longrightarrow> hmac_rep key (fold (\<lambda>d c. cb_hmac_sha256_update c d) ds c) (m @ concat ds)"
  by (rule hmac.feed_all)

section \<open>Properties\<close>

text \<open>C26. HMAC-SHA256 is that of RFC 2104, for keys of every length (shorter than a block, exactly
  one, longer) and messages fed in any pieces, whatever the stack held before; finishing or
  aborting leaves no key material in the context.\<close>

theorem hmac_rfc2104:
  assumes "hmac_storage ctx" "sha_storage stk" "length ipad = 64" "32 \<le> length inner_digest" "32 \<le> length out"
  shows "cb_hmac_sha256_final stk inner_digest
        (fold (\<lambda>d c. cb_hmac_sha256_update c d) ds (cb_hmac_sha256_init stk ipad key ctx)) out
      = (put_bytes 0 (rfc_hmac key (concat ds)) out, wiped_hmac)
    \<and> cb_hmac_sha256 stk ctx ipad inner_digest key (concat ds) out = put_bytes 0 (rfc_hmac key (concat ds)) out
    \<and> cb_hmac_sha256_abort ctx = wiped_hmac"
proof -
  have "hmac_rep key (fold (\<lambda>d c. cb_hmac_sha256_update c d) es (cb_hmac_sha256_init stk ipad key ctx)) (concat es)" for es
    using hmac_feed_rep [OF hmac_start [OF assms(1-3)], of key es] by simp
  then have fin: "cb_hmac_sha256_final stk inner_digest
        (fold (\<lambda>d c. cb_hmac_sha256_update c d) es (cb_hmac_sha256_init stk ipad key ctx)) out
      = (put_bytes 0 (rfc_hmac key (concat es)) out, wiped_hmac)" for es
    using assms by (intro hmac_finish) simp_all
  show ?thesis
    using fin [of ds] fin [of "[concat ds]"] by (simp add: cb_hmac_sha256_def cb_hmac_sha256_abort_def)
qed

lemma hmac_rfc2104_witness:
  "cb_hmac_sha256 wiped_ctx wiped_hmac (replicate 64 0) (replicate 32 0) [0x4A, 0x65] [1, 2] (replicate 32 0)
    = put_bytes 0 (rfc_hmac [0x4A, 0x65] [1, 2]) (replicate 32 0)"
  using hmac_rfc2104 [of wiped_hmac wiped_ctx "replicate 64 0" "replicate 32 0" "replicate 32 0" "[[1], [2]]" "[0x4A, 0x65]"]
  by (simp add: hmac_storage_def sha_storage_def wiped_ctx_def wiped_hmac_def)

end
