(* ===== verification/Time_Loop.thy ===== *)
theory Time_Loop
  imports Info Fixed16
begin

unbundle bit_operations_syntax

text \<open>
  \<open>cbase_time.c\<close>: the nanosecond clock of the two platforms, the interruptible sleep, and the
  fixed-timestep loop.

  The operating system is a parameter: the counter and the frequency of Windows, the \<open>timespec\<close> of
  POSIX, the outcomes of \<open>nanosleep\<close>, and the reading of the clock at the time of a call.  The
  abstract view of the loop is that of an ideal clock: the ticks run so far are the time since the
  first call divided by the length of a tick.
\<close>

section \<open>Definitions\<close>

text \<open>\<open>QueryPerformanceFrequency\<close> returns a success flag and a signed value; the static cache is
  passed in and out.\<close>

definition cb__qpc_get_freq :: "bool \<times> i64 \<Rightarrow> u64 \<Rightarrow> u64 \<times> u64" where
  "cb__qpc_get_freq qpf cached =
     (let f = cached
      in if f = 0
         then
           let (ok, quad) = qpf;
               f = (if \<not> ok \<or> quad <=s 0 then 1 else quad)
           in (f, f)
         else (f, cached))"

definition cb_time_now_ns_windows :: "i64 \<Rightarrow> bool \<times> i64 \<Rightarrow> u64 \<Rightarrow> u64 \<times> u64" where
  "cb_time_now_ns_windows counter qpf cached =
     (let (freq, cached) = cb__qpc_get_freq qpf cached;
          ticks = counter;
          whole = ticks div freq;
          frac = ticks mod freq
      in (whole * 1000000000 + (frac * 1000000000) div freq, cached))"

definition cb_time_now_ns_posix :: "i64 \<Rightarrow> i64 \<Rightarrow> u64" where
  "cb_time_now_ns_posix tv_sec tv_nsec = tv_sec * 1000000000 + tv_nsec"

definition cb_time_now_us :: "u64 \<Rightarrow> u64" where "cb_time_now_us now_ns = now_ns div 1000"
definition cb_time_now_ms :: "u64 \<Rightarrow> u64" where "cb_time_now_ms now_ns = now_ns div 1000000"

text \<open>A call of \<open>nanosleep\<close> sleeps the whole request, is interrupted with a remaining time, or fails
  with another error.  The loop consumes one outcome per call and returns the requests it made.\<close>

type_synonym timespec = "i64 \<times> i64"

datatype sleep_outcome = Slept | Interrupted timespec | Failed

fun sleep_loop :: "sleep_outcome list \<Rightarrow> timespec \<Rightarrow> timespec list" where
  "sleep_loop [] req = []"
| "sleep_loop (Slept # os) req = [req]"
| "sleep_loop (Failed # os) req = [req]"
| "sleep_loop (Interrupted rem # os) req = req # sleep_loop os rem"

definition sleep_request :: "u32 \<Rightarrow> timespec" where
  "sleep_request ms = (ucast (ms div 1000), ucast (ms mod 1000 * 1000000))"

definition cb_time_sleep_ms :: "sleep_outcome list \<Rightarrow> u32 \<Rightarrow> timespec list" where
  "cb_time_sleep_ms outcomes ms = sleep_loop outcomes (sleep_request ms)"

record ('f, 'u) cb_tick_loop_t =
  loop_info :: cb_info_t
  tick_ns :: u64
  max_ticks_per_call :: u32
  last_time_ns :: u64
  accumulator_ns :: u64
  sim_tick_index :: u64
  started :: bool
  clock_fn :: "'f option"
  clock_user :: "'u option"

record cb_tick_loop_step_t =
  step_info :: cb_info_t
  ticks_to_run :: u32
  first_tick_index :: u64
  leftover_ns :: u64

definition cb_tick_loop_create :: "u32 \<Rightarrow> u32 \<Rightarrow> ('f, 'u) cb_tick_loop_t" where
  "cb_tick_loop_create tick_hz max_ticks =
     (let loop = \<lparr>loop_info = CB_INFO_OK, tick_ns = 0, max_ticks_per_call = max_ticks,
            last_time_ns = 0, accumulator_ns = 0, sim_tick_index = 0, started = False,
            clock_fn = None, clock_user = None\<rparr>
      in if tick_hz = 0 then loop\<lparr>loop_info := CB_INFO_TIME_BAD_TICK_HZ\<rparr>
         else loop\<lparr>tick_ns := 1000000000 div ucast tick_hz\<rparr>)"

definition cb_tick_loop_set_clock ::
  "('f, 'u) cb_tick_loop_t \<Rightarrow> 'f option \<Rightarrow> 'u option \<Rightarrow> ('f, 'u) cb_tick_loop_t" where
  "cb_tick_loop_set_clock loop fn user =
     loop\<lparr>clock_fn := fn, clock_user := (if fn \<noteq> None then user else None)\<rparr>"

text \<open>What the clocks read at the time of the call: the installed ones and the default one.\<close>

type_synonym ('f, 'u) clocks = "('f \<Rightarrow> 'u option \<Rightarrow> u64) \<times> u64"

definition cb__tick_loop_now :: "('f, 'u) clocks \<Rightarrow> ('f, 'u) cb_tick_loop_t \<Rightarrow> u64" where
  "cb__tick_loop_now clocks loop =
     (case clock_fn loop of Some fn \<Rightarrow> fst clocks fn (clock_user loop) | None \<Rightarrow> snd clocks)"

definition cb_tick_loop_advance ::
  "('f, 'u) clocks \<Rightarrow> ('f, 'u) cb_tick_loop_t \<Rightarrow> cb_tick_loop_step_t \<times> ('f, 'u) cb_tick_loop_t" where
  "cb_tick_loop_advance clocks loop =
     (let step = \<lparr>step_info = CB_INFO_OK, ticks_to_run = 0, first_tick_index = sim_tick_index loop, leftover_ns = 0\<rparr>;
          now = cb__tick_loop_now clocks loop
      in if \<not> started loop then (step, loop\<lparr>started := True, last_time_ns := now\<rparr>)
         else
           let elapsed = (if last_time_ns loop \<le> now then now - last_time_ns loop else 0);
               loop = loop\<lparr>last_time_ns := now\<rparr>;
               loop = loop\<lparr>accumulator_ns := accumulator_ns loop + elapsed\<rparr>
           in if tick_ns loop = 0
              then (step\<lparr>step_info := CB_INFO_TIME_BAD_TICK_HZ, first_tick_index := sim_tick_index loop\<rparr>,
                    loop\<lparr>loop_info := CB_INFO_TIME_BAD_TICK_HZ\<rparr>)
              else
                let ticks64 = accumulator_ns loop div tick_ns loop;
                    leftover = accumulator_ns loop - ticks64 * tick_ns loop;
                    (ticks64, clamped) =
                      (if max_ticks_per_call loop \<noteq> 0 \<and> ucast (max_ticks_per_call loop) < ticks64
                       then (ucast (max_ticks_per_call loop), True) else (ticks64, False));
                    (ticks64, clamped) =
                      (if (0xFFFFFFFF :: u64) < ticks64 then (0xFFFFFFFF, True) else (ticks64, clamped));
                    step = step\<lparr>first_tick_index := sim_tick_index loop, ticks_to_run := ucast ticks64\<rparr>;
                    loop = loop\<lparr>sim_tick_index := sim_tick_index loop + ticks64\<rparr>
                in if clamped
                   then (step\<lparr>leftover_ns := leftover, step_info := CB_INFO_TIME_TICK_LAG\<rparr>,
                         loop\<lparr>accumulator_ns := leftover, loop_info := CB_INFO_TIME_TICK_LAG\<rparr>)
                   else (step\<lparr>leftover_ns := leftover\<rparr>, loop\<lparr>accumulator_ns := leftover\<rparr>))"

definition cb_tick_loop_alpha :: "('f, 'u) cb_tick_loop_t \<Rightarrow> cb_fx16_t" where
  "cb_tick_loop_alpha loop =
     (if tick_ns loop = 0 then 0
      else
        let num = push_bit 16 (accumulator_ns loop);
            q = num div tick_ns loop;
            cap = push_bit 16 1 - 1;
            q = (if cap < q then cap else q)
        in ucast q)"

definition cb_tick_loop_reset :: "('f, 'u) cb_tick_loop_t \<Rightarrow> ('f, 'u) cb_tick_loop_t" where
  "cb_tick_loop_reset loop =
     loop\<lparr>loop_info := (if tick_ns loop = 0 then CB_INFO_TIME_BAD_TICK_HZ else CB_INFO_OK),
       last_time_ns := 0, accumulator_ns := 0, sim_tick_index := 0, started := False\<rparr>"

section \<open>The clock\<close>

lemma unat_qpc: "unat (whole :: u64) * 1000000000 + unat frac * 1000000000 div unat freq < 2 ^ 64 \<Longrightarrow>
    unat frac * 1000000000 < 2 ^ 64 \<Longrightarrow>
    unat (whole * 1000000000 + (frac * 1000000000) div freq) = unat whole * 1000000000 + unat frac * 1000000000 div (unat (freq :: u64))"
proof -
  assume a: "unat whole * 1000000000 + unat frac * 1000000000 div unat freq < 2 ^ 64"
    and b: "unat frac * 1000000000 < 2 ^ 64"
  have f: "unat (frac * 1000000000) = unat frac * 1000000000"
    using b by (simp add: unat_word_ariths)
  have w: "unat (whole * 1000000000) = unat whole * 1000000000"
    using a by (simp add: unat_word_ariths)
  show ?thesis using a by (simp add: unat_plus_if' w f unat_div)
qed

lemma split_division:
  assumes "0 < (f :: nat)"
  shows "t div f * c + t mod f * c div f = t * c div f"
proof -
  have "t * c = (t div f * c) * f + t mod f * c"
    by (metis add_mult_distrib div_mult_mod_eq mult.assoc mult.commute)
  then show ?thesis using assms by simp
qed


section \<open>One advance\<close>

text \<open>How many ticks one call may run.\<close>

definition tick_cap :: "u32 \<Rightarrow> nat" where
  "tick_cap max_ticks = (if max_ticks = 0 then 2 ^ 32 - 1 else unat max_ticks)"

lemma tick_cap_lt: "tick_cap m < 2 ^ 32"
  using unsigned_less [where 'a = nat, of m] by (simp add: tick_cap_def)

lemma unat_up32: "unat (ucast (x :: u32) :: u64) = unat x"
  using unsigned_less [where 'a = nat, of x] by (simp only: unsigned_ucast_eq) (simp add: take_bit_eq_mod)

lemma unat_down32: "unat (x :: u64) < 2 ^ 32 \<Longrightarrow> unat (ucast x :: u32) = unat x"
  by (simp only: unsigned_ucast_eq) (simp add: take_bit_eq_mod)

text \<open>The two clamps of the source are one minimum.\<close>

lemma clamp_twice:
  fixes t :: u64 and m :: u32
  defines "c1 \<equiv> (if m \<noteq> 0 \<and> ucast (m :: u32) < t then (ucast m, True) else (t, False))"
  defines "c2 \<equiv> (if (0xFFFFFFFF :: u64) < fst c1 then (0xFFFFFFFF, True) else c1)"
  shows "unat (fst c2) = min (unat t) (tick_cap m)" "snd c2 = (tick_cap m < unat t)"
proof -
  have m: "unat m \<le> 4294967295" using unsigned_less [where 'a = nat, of m] by simp
  have g: "(0xFFFFFFFF < x) = (4294967295 < unat x)" for x :: u64
    by (simp add: word_less_nat_alt)
  have l: "(ucast m < t) = (unat m < unat t)" by (simp only: word_less_nat_alt unat_up32)
  show "unat (fst c2) = min (unat t) (tick_cap m)" "snd c2 = (tick_cap m < unat t)"
    using m unfolding c2_def c1_def
    by (auto simp: g l tick_cap_def unat_up32 min_def not_less)
qed

lemma advance_running:
  fixes loop :: "('f, 'u) cb_tick_loop_t" and clocks :: "('f, 'u) clocks"
  defines "now \<equiv> cb__tick_loop_now clocks loop"
  defines "tot \<equiv> unat (accumulator_ns loop) + (unat now - unat (last_time_ns loop))"
  defines "n \<equiv> min (tot div unat (tick_ns loop)) (tick_cap (max_ticks_per_call loop))"
  defines "lag \<equiv> tick_cap (max_ticks_per_call loop) < tot div unat (tick_ns loop)"
  assumes "started loop" "tick_ns loop \<noteq> 0" "tot < 2 ^ 64"
  shows "cb_tick_loop_advance clocks loop =
    (\<lparr>step_info = (if lag then CB_INFO_TIME_TICK_LAG else CB_INFO_OK), ticks_to_run = word_of_nat n,
       first_tick_index = sim_tick_index loop, leftover_ns = word_of_nat (tot mod unat (tick_ns loop))\<rparr>,
     loop\<lparr>last_time_ns := now, accumulator_ns := word_of_nat (tot mod unat (tick_ns loop)),
       sim_tick_index := sim_tick_index loop + word_of_nat n,
       loop_info := (if lag then CB_INFO_TIME_TICK_LAG else loop_info loop)\<rparr>)"
proof -
  let ?el = "if last_time_ns loop \<le> now then now - last_time_ns loop else 0"
  define acc where "acc = accumulator_ns loop + ?el"
  define t where "t = acc div tick_ns loop"
  define c1 where "c1 = (if max_ticks_per_call loop \<noteq> 0 \<and> ucast (max_ticks_per_call loop) < t
    then (ucast (max_ticks_per_call loop), True) else (t, False))"
  define c2 where "c2 = (if (0xFFFFFFFF :: u64) < fst c1 then (0xFFFFFFFF, True) else c1)"
  have el: "unat ?el = unat now - unat (last_time_ns loop)"
    by (simp add: unat_sub word_le_nat_alt)
  then have acc: "unat acc = tot"
    using assms(7) by (simp add: acc_def tot_def unat_word_ariths)
  have t: "unat t = tot div unat (tick_ns loop)" by (simp add: t_def unat_div acc)
  have "unat (acc - t * tick_ns loop) = tot mod unat (tick_ns loop)"
    by (simp add: t_def flip: minus_div_mult_eq_mod) (metis acc minus_div_mult_eq_mod unat_mod)
  then have lo: "acc - t * tick_ns loop = word_of_nat (tot mod unat (tick_ns loop))"
    by (metis word_nat_inv)
  note c = clamp_twice [of "max_ticks_per_call loop" t, folded c1_def, folded c2_def]
  have n: "unat (fst c2) = n" "snd c2 = lag" by (simp_all add: c t n_def lag_def)
  then have w: "fst c2 = word_of_nat n" by (metis word_nat_inv)
  have "n < 2 ^ 32" unfolding n_def using tick_cap_lt [of "max_ticks_per_call loop"] by linarith
  then have d: "ucast (fst c2) = (word_of_nat n :: u32)"
    using unat_down32 [of "fst c2"] n by (metis word_nat_inv)
  have "cb_tick_loop_advance clocks loop =
    (let (tk, cl) = c2;
         step = \<lparr>step_info = CB_INFO_OK, ticks_to_run = ucast tk, first_tick_index = sim_tick_index loop, leftover_ns = 0\<rparr>;
         loop' = loop\<lparr>last_time_ns := now, accumulator_ns := acc, sim_tick_index := sim_tick_index loop + tk\<rparr>
     in if cl
        then (step\<lparr>leftover_ns := acc - t * tick_ns loop, step_info := CB_INFO_TIME_TICK_LAG\<rparr>,
              loop'\<lparr>accumulator_ns := acc - t * tick_ns loop, loop_info := CB_INFO_TIME_TICK_LAG\<rparr>)
        else (step\<lparr>leftover_ns := acc - t * tick_ns loop\<rparr>, loop'\<lparr>accumulator_ns := acc - t * tick_ns loop\<rparr>))"
    using assms(5,6)
    by (simp add: cb_tick_loop_advance_def Let_def split_def c2_def c1_def t_def acc_def flip: now_def)
  then show ?thesis
    using n(2) w d lo by (simp add: split_def Let_def)
qed


section \<open>A run of the loop\<close>

text \<open>One call of \<open>cb_tick_loop_advance\<close> per reading of the clock.\<close>

fun advances :: "u64 list \<Rightarrow> ('f, 'u) cb_tick_loop_t \<Rightarrow> cb_tick_loop_step_t list \<times> ('f, 'u) cb_tick_loop_t" where
  "advances [] loop = ([], loop)"
| "advances (now # ts) loop =
     (let (step, loop) = cb_tick_loop_advance (\<lambda>_ _. now, now) loop;
          (steps, loop) = advances ts loop
      in (step # steps, loop))"

text \<open>The loop never runs ahead of the clock, and without lag it is exactly at the clock.\<close>

definition on_time :: "u64 \<Rightarrow> ('f, 'u) cb_tick_loop_t \<Rightarrow> bool" where
  "on_time t0 loop \<longleftrightarrow> started loop \<and> tick_ns loop \<noteq> 0 \<and> unat t0 \<le> unat (last_time_ns loop)
    \<and> unat (accumulator_ns loop) < unat (tick_ns loop)
    \<and> loop_info loop \<in> {CB_INFO_OK, CB_INFO_TIME_TICK_LAG}
    \<and> unat (sim_tick_index loop) * unat (tick_ns loop) + unat (accumulator_ns loop)
        \<le> unat (last_time_ns loop) - unat t0
    \<and> (loop_info loop = CB_INFO_OK \<longrightarrow>
        unat (sim_tick_index loop) * unat (tick_ns loop) + unat (accumulator_ns loop)
          = unat (last_time_ns loop) - unat t0)"

lemma now_const: "cb__tick_loop_now (\<lambda>_ _. now, now) loop = now"
  by (simp add: cb__tick_loop_now_def split: option.splits)

lemma advance_on_time:
  assumes ot: "on_time t0 loop" and le: "unat (last_time_ns loop) \<le> unat now"
    and adv: "cb_tick_loop_advance (\<lambda>_ _. now, now) loop = (step, loop')"
  shows "on_time t0 loop'" "last_time_ns loop' = now" "tick_ns loop' = tick_ns loop"
    "max_ticks_per_call loop' = max_ticks_per_call loop"
    "first_tick_index step = sim_tick_index loop"
    "unat (ticks_to_run step) \<le> tick_cap (max_ticks_per_call loop)"
    "unat (sim_tick_index loop') = unat (sim_tick_index loop) + unat (ticks_to_run step)"
    "leftover_ns step = accumulator_ns loop'"
    "(loop_info loop' = CB_INFO_OK) = (loop_info loop = CB_INFO_OK \<and> step_info step = CB_INFO_OK)"
proof -
  define T A L I where "T = unat (tick_ns loop)" and "A = unat (accumulator_ns loop)"
    and "L = unat (last_time_ns loop)" and "I = unat (sim_tick_index loop)"
  define tot where "tot = A + (unat now - L)"
  define n where "n = min (tot div T) (tick_cap (max_ticks_per_call loop))"
  define lag where "lag \<longleftrightarrow> tick_cap (max_ticks_per_call loop) < tot div T"
  have o: "started loop" "tick_ns loop \<noteq> 0" "0 < T" "unat t0 \<le> L" "A < T" "I * T + A \<le> L - unat t0"
    "loop_info loop = CB_INFO_OK \<Longrightarrow> I * T + A = L - unat t0"
    "loop_info loop \<in> {CB_INFO_OK, CB_INFO_TIME_TICK_LAG}"
    using ot by (simp_all add: on_time_def T_def A_def L_def I_def unat_gt_0)
  have now: "unat now < 2 ^ 64" using unsigned_less [where 'a = nat, of now] by simp
  have tot: "I * T + tot \<le> unat now - unat t0" using o(4,6) le by (simp add: tot_def L_def)
  then have tot64: "tot < 2 ^ 64" using now by linarith
  have n: "n * T + tot mod T \<le> tot" "\<not> lag \<Longrightarrow> n * T + tot mod T = tot"
  proof -
    have "n * T \<le> tot div T * T" by (rule mult_le_mono1) (simp add: n_def)
    moreover have "tot div T * T + tot mod T = tot" by simp
    ultimately show "n * T + tot mod T \<le> tot" by linarith
    show "n * T + tot mod T = tot" if "\<not> lag" using that by (simp add: lag_def n_def min_def)
  qed
  have nb: "n < 2 ^ 32" unfolding n_def using tick_cap_lt [of "max_ticks_per_call loop"] by linarith
  have "(I + n) * T \<le> I * T + tot" using n(1) by (simp add: algebra_simps)
  also have "\<dots> < 2 ^ 64" using tot now by linarith
  finally have IT: "(I + n) * T < 2 ^ 64" .
  have "(I + n) * 1 \<le> (I + n) * T" using o(3) by (intro mult_le_mono2) simp
  then have "I + n \<le> (I + n) * T" by (simp only: mult_1_right)
  then have In: "I + n < 2 ^ 64" using IT by (rule le_less_trans)
  have r: "tot mod T < T" using o(3) by simp
  have Tb: "T < 2 ^ 64" using unsigned_less [where 'a = nat, of "tick_ns loop"] by (simp add: T_def)
  note eqs = T_def [symmetric] A_def [symmetric] L_def [symmetric] I_def [symmetric]
  have sl: "step = \<lparr>step_info = (if lag then CB_INFO_TIME_TICK_LAG else CB_INFO_OK), ticks_to_run = word_of_nat n,
       first_tick_index = sim_tick_index loop, leftover_ns = word_of_nat (tot mod T)\<rparr>"
    "loop' = loop\<lparr>last_time_ns := now, accumulator_ns := word_of_nat (tot mod T),
       sim_tick_index := sim_tick_index loop + word_of_nat n,
       loop_info := (if lag then CB_INFO_TIME_TICK_LAG else loop_info loop)\<rparr>"
    using advance_running [where clocks = "(\<lambda>_ _. now, now)" and loop = loop, unfolded now_const eqs, folded tot_def, folded n_def lag_def]
      o(1,2) tot64 adv by simp_all
  have acc: "unat (accumulator_ns loop') = tot mod T"
    using r Tb by (simp add: sl(2) unat_of_nat)
  have tr: "unat (ticks_to_run step) = n" using nb by (simp add: sl(1) unat_of_nat)
  have idx: "unat (sim_tick_index loop') = I + n"
    using In by (simp add: sl(2) unat_word_ariths unat_of_nat I_def [symmetric])
  show "last_time_ns loop' = now" "tick_ns loop' = tick_ns loop"
    "max_ticks_per_call loop' = max_ticks_per_call loop" "first_tick_index step = sim_tick_index loop"
    "leftover_ns step = accumulator_ns loop'"
    by (simp_all add: sl)
  show "unat (ticks_to_run step) \<le> tick_cap (max_ticks_per_call loop)" unfolding tr by (simp add: n_def)
  show "unat (sim_tick_index loop') = unat (sim_tick_index loop) + unat (ticks_to_run step)"
    unfolding idx tr by (simp add: I_def)
  show "(loop_info loop' = CB_INFO_OK) = (loop_info loop = CB_INFO_OK \<and> step_info step = CB_INFO_OK)"
    by (simp add: sl)
  have b: "(I + n) * T + tot mod T \<le> unat now - unat t0"
    using n(1) tot by (simp add: algebra_simps)
  have e: "(I + n) * T + tot mod T = unat now - unat t0" if "\<not> lag" "loop_info loop = CB_INFO_OK"
    using n(2) [OF that(1)] o(7) [OF that(2)] o(4) le by (simp add: algebra_simps tot_def L_def)
  have tn: "unat (tick_ns loop') = T" "loop_info loop' = (if lag then CB_INFO_TIME_TICK_LAG else loop_info loop)"
    "started loop'" "last_time_ns loop' = now"
    using o(1) by (simp_all add: sl(2) T_def)
  show "on_time t0 loop'"
    unfolding on_time_def acc idx tn(1,2,4)
    using b e r o(2,4,8) tn(1,3) le by (auto simp: sl(2) L_def)
qed


definition contiguous :: "nat \<Rightarrow> cb_tick_loop_step_t list \<Rightarrow> bool" where
  "contiguous i steps \<longleftrightarrow>
     (\<forall>k < length steps. unat (first_tick_index (steps ! k)) = i + (\<Sum>s \<leftarrow> take k steps. unat (ticks_to_run s)))"

lemma contiguous_Cons:
  "contiguous i (s # steps) \<longleftrightarrow>
    unat (first_tick_index s) = i \<and> contiguous (i + unat (ticks_to_run s)) steps"
proof
  assume c: "contiguous i (s # steps)"
  have "unat (first_tick_index (steps ! k)) = i + unat (ticks_to_run s) + (\<Sum>s \<leftarrow> take k steps. unat (ticks_to_run s))"
    if "k < length steps" for k
    using c [unfolded contiguous_def, rule_format, of "Suc k"] that by simp
  then show "unat (first_tick_index s) = i \<and> contiguous (i + unat (ticks_to_run s)) steps"
    using c [unfolded contiguous_def, rule_format, of 0] by (simp add: contiguous_def)
next
  assume c: "unat (first_tick_index s) = i \<and> contiguous (i + unat (ticks_to_run s)) steps"
  show "contiguous i (s # steps)"
    unfolding contiguous_def
  proof (intro allI impI)
    fix k assume "k < length (s # steps)"
    then show "unat (first_tick_index ((s # steps) ! k)) = i + (\<Sum>s \<leftarrow> take k (s # steps). unat (ticks_to_run s))"
      using c by (cases k) (simp_all add: contiguous_def)
  qed
qed

lemma advances_on_time:
  assumes "on_time t0 loop" "sorted (map unat (last_time_ns loop # ts))" "advances ts loop = (steps, loop')"
  shows "on_time t0 loop' \<and> last_time_ns loop' = last (last_time_ns loop # ts) \<and> tick_ns loop' = tick_ns loop
    \<and> unat (sim_tick_index loop') = unat (sim_tick_index loop) + (\<Sum>s \<leftarrow> steps. unat (ticks_to_run s))
    \<and> (\<forall>s \<in> set steps. unat (ticks_to_run s) \<le> tick_cap (max_ticks_per_call loop))
    \<and> contiguous (unat (sim_tick_index loop)) steps
    \<and> (loop_info loop' = CB_INFO_OK) = (loop_info loop = CB_INFO_OK \<and> (\<forall>s \<in> set steps. step_info s = CB_INFO_OK))"
  using assms
proof (induction ts arbitrary: loop steps)
  case Nil
  then show ?case by (simp add: contiguous_def)
next
  case (Cons t ts)
  obtain st loop1 where a: "cb_tick_loop_advance (\<lambda>_ _. t, t) loop = (st, loop1)" by (metis surj_pair)
  obtain sts where r: "advances ts loop1 = (sts, loop')" "steps = st # sts"
    using Cons.prems(3) a by (auto simp: split_def Let_def prod_eq_iff)
  have "unat (last_time_ns loop) \<le> unat t" using Cons.prems(2) by simp
  note s = advance_on_time [OF Cons.prems(1) this a]
  have "sorted (map unat (last_time_ns loop1 # ts))" using Cons.prems(2) s(2) by simp
  note IH = Cons.IH [OF s(1) this r(1)]
  show ?case using IH s by (simp add: r(2) contiguous_Cons)
qed

lemma first_advance:
  "\<not> started loop \<Longrightarrow> cb_tick_loop_advance (\<lambda>_ _. t0, t0) loop
    = (\<lparr>step_info = CB_INFO_OK, ticks_to_run = 0, first_tick_index = sim_tick_index loop, leftover_ns = 0\<rparr>,
       loop\<lparr>started := True, last_time_ns := t0\<rparr>)"
  by (simp add: cb_tick_loop_advance_def Let_def now_const)

lemma create_fields:
  "0 < hz \<Longrightarrow> unat (tick_ns (cb_tick_loop_create hz m)) = 1000000000 div unat hz"
  by (auto simp: cb_tick_loop_create_def Let_def unat_div unat_up32)

lemma create_start [simp]:
  "\<not> started (cb_tick_loop_create hz m)" "sim_tick_index (cb_tick_loop_create hz m) = 0"
  "accumulator_ns (cb_tick_loop_create hz m) = 0" "max_ticks_per_call (cb_tick_loop_create hz m) = m"
  "loop_info (cb_tick_loop_create hz m) = (if hz = 0 then CB_INFO_TIME_BAD_TICK_HZ else CB_INFO_OK)"
  by (simp_all add: cb_tick_loop_create_def Let_def)

lemma create_on_time:
  assumes "0 < hz" "unat hz \<le> 1000000000"
  shows "on_time t0 ((cb_tick_loop_create hz m :: ('f, 'u) cb_tick_loop_t)\<lparr>started := True, last_time_ns := t0\<rparr>)"
proof -
  have hz: "hz \<noteq> 0" using assms(1) by auto
  have "0 < 1000000000 div unat hz"
    using assms by (simp add: div_greater_zero_iff word_less_nat_alt)
  then have pos: "0 < unat (tick_ns (cb_tick_loop_create hz m :: ('f, 'u) cb_tick_loop_t))"
    by (simp add: create_fields [OF assms(1)])
  then have "tick_ns (cb_tick_loop_create hz m :: ('f, 'u) cb_tick_loop_t) \<noteq> 0" by (metis unat_0 less_irrefl)
  then show ?thesis using pos hz by (simp add: on_time_def)
qed

text \<open>The rate that the truncated tick length gives is the requested one within a part of it.\<close>

lemma create_rate:
  assumes "0 < hz" "unat hz \<le> 1000000000"
  shows "unat (tick_ns (cb_tick_loop_create hz m)) * unat hz \<le> 1000000000"
    "1000000000 < (unat (tick_ns (cb_tick_loop_create hz m)) + 1) * unat hz"
proof -
  have "0 < unat hz" using assms(1) by (simp add: word_less_nat_alt)
  then have "1000000000 mod unat hz < unat hz" by simp
  moreover have "1000000000 div unat hz * unat hz + 1000000000 mod unat hz = 1000000000" by simp
  ultimately show "unat (tick_ns (cb_tick_loop_create hz m)) * unat hz \<le> 1000000000"
    "1000000000 < (unat (tick_ns (cb_tick_loop_create hz m)) + 1) * unat hz"
    unfolding create_fields [OF assms(1)] distrib_right mult_1 by linarith+
qed

lemma alpha_value:
  assumes "unat (accumulator_ns loop) < unat (tick_ns loop)" "unat (tick_ns loop) \<le> 1000000000"
  shows "sint (cb_tick_loop_alpha loop) = int (unat (accumulator_ns loop) * 65536 div unat (tick_ns loop))"
    "unat (accumulator_ns loop) * 65536 div unat (tick_ns loop) < 65536"
proof -
  define A T where "A = unat (accumulator_ns loop)" and "T = unat (tick_ns loop)"
  have AT: "A < T" "T \<le> 1000000000" using assms by (simp_all add: A_def T_def)
  have q: "A * 65536 div T < 65536" using AT by (simp add: div_less_iff_less_mult)
  have "unat (push_bit 16 (accumulator_ns loop)) = A * 65536"
    using AT by (simp add: push_bit_eq_mult unat_word_ariths A_def)
  then have d: "unat (push_bit 16 (accumulator_ns loop) div tick_ns loop) = A * 65536 div T"
    by (simp only: unat_div T_def)
  have nz: "tick_ns loop \<noteq> 0" using AT by (auto simp: T_def)
  have nc: "\<not> push_bit 16 1 - 1 < push_bit 16 (accumulator_ns loop) div tick_ns loop"
    unfolding word_less_nat_alt d using q by simp
  have a: "cb_tick_loop_alpha loop = ucast (push_bit 16 (accumulator_ns loop) div tick_ns loop)"
    unfolding cb_tick_loop_alpha_def Let_def if_not_P [OF nz] if_not_P [OF nc] ..
  have "unat (cb_tick_loop_alpha loop) = A * 65536 div T"
    unfolding a using q by (subst unat_down32) (simp_all only: d, simp)
  then have "sint (cb_tick_loop_alpha loop) = int (A * 65536 div T)"
    using q by (subst sint_of_small) simp_all
  then show "sint (cb_tick_loop_alpha loop) = int (unat (accumulator_ns loop) * 65536 div unat (tick_ns loop))"
    "unat (accumulator_ns loop) * 65536 div unat (tick_ns loop) < 65536"
    using q by (simp_all only: A_def T_def)
qed

definition span_ns :: "timespec \<Rightarrow> int" where
  "span_ns ts = sint (fst ts) * 1000000000 + sint (snd ts)"

text \<open>The time slept: what each interrupted call slept, and the last request.\<close>

fun slept_ns :: "sleep_outcome list \<Rightarrow> timespec \<Rightarrow> int" where
  "slept_ns [] req = 0"
| "slept_ns (Slept # os) req = span_ns req"
| "slept_ns (Failed # os) req = 0"
| "slept_ns (Interrupted rem # os) req = (span_ns req - span_ns rem) + slept_ns os rem"

lemma slept_all: "\<forall>r \<in> set os. r \<noteq> Failed \<and> r \<noteq> Slept \<Longrightarrow> slept_ns (os @ [Slept]) req = span_ns req"
proof (induction os arbitrary: req)
  case (Cons r os)
  then show ?case by (cases r) simp_all
qed simp

lemma sleep_request_span:
  "span_ns (sleep_request ms) = int (unat ms) * 1000000"
  "0 \<le> sint (snd (sleep_request ms)) \<and> sint (snd (sleep_request ms)) < 1000000000"
proof -
  have m: "unat ms mod 1000 < 1000" by simp
  have u: "unat (ms mod 1000 * 1000000) = unat ms mod 1000 * 1000000"
    by (simp add: unat_word_ariths)
  have s: "sint (snd (sleep_request ms)) = int (unat ms mod 1000 * 1000000)"
    unfolding sleep_request_def snd_conv using m by (subst sint_of_small) (simp_all only: unat_up32 u, simp)
  have "unat (ms div 1000) < 2 ^ 63"
    using unsigned_less [where 'a = nat, of ms] by (simp add: unat_div div_less_iff_less_mult)
  then have f: "sint (fst (sleep_request ms)) = int (unat ms div 1000)"
    unfolding sleep_request_def fst_conv by (subst sint_of_small) (simp_all add: unat_up32 unat_div)
  have "unat ms div 1000 * 1000000000 + unat ms mod 1000 * 1000000
      = (unat ms div 1000 * 1000 + unat ms mod 1000) * 1000000"
    unfolding distrib_right by simp
  then have "unat ms div 1000 * 1000000000 + unat ms mod 1000 * 1000000 = unat ms * 1000000"
    by (simp only: div_mult_mod_eq)
  then have "int (unat ms div 1000 * 1000000000 + unat ms mod 1000 * 1000000) = int (unat ms * 1000000)"
    by (rule arg_cong)
  then show "span_ns (sleep_request ms) = int (unat ms) * 1000000"
    unfolding span_ns_def s f of_nat_add of_nat_mult of_nat_numeral .
  show "0 \<le> sint (snd (sleep_request ms)) \<and> sint (snd (sleep_request ms)) < 1000000000"
    unfolding s using m by simp
qed

section \<open>Properties\<close>

text \<open>C21. The loop keeps time.  For a rate of 1 Hz to 1 GHz and any non-decreasing readings of the
  clock, the ticks handed out never exceed the cap of a call, follow each other without gap or
  overlap, add up to the tick index, and never run ahead of the clock; and as long as no call
  reports a lag, their number is exactly the time since the first call divided by the length of a
  tick, with the remainder in the accumulator.\<close>

theorem tick_loop_keeps_time:
  assumes "0 < hz" "unat hz \<le> 1000000000" "sorted (map unat (t0 # ts))"
    and "advances (t0 # ts) (cb_tick_loop_create hz m) = (steps, loop)"
  defines "elapsed \<equiv> unat (last (t0 # ts)) - unat t0" and "tick \<equiv> 1000000000 div unat hz"
  shows "(\<forall>s \<in> set steps. unat (ticks_to_run s) \<le> tick_cap m) \<and> contiguous 0 steps
    \<and> unat (sim_tick_index loop) = (\<Sum>s \<leftarrow> steps. unat (ticks_to_run s))
    \<and> unat (sim_tick_index loop) * tick + unat (accumulator_ns loop) \<le> elapsed
    \<and> (loop_info loop = CB_INFO_OK) = (\<forall>s \<in> set steps. step_info s = CB_INFO_OK)
    \<and> (loop_info loop = CB_INFO_OK \<longrightarrow>
        unat (sim_tick_index loop) = elapsed div tick \<and> unat (accumulator_ns loop) = elapsed mod tick)"
proof -
  define loop0 where "loop0 = (cb_tick_loop_create hz m :: ('a, 'b) cb_tick_loop_t)\<lparr>started := True, last_time_ns := t0\<rparr>"
  have nz: "hz \<noteq> 0" using assms(1) by auto
  have l0: "sim_tick_index loop0 = 0" "loop_info loop0 = CB_INFO_OK" "max_ticks_per_call loop0 = m"
    "last_time_ns loop0 = t0" "unat (tick_ns loop0) = tick"
    using nz by (simp_all add: loop0_def tick_def create_fields [OF assms(1)])
  have ot: "on_time t0 loop0" unfolding loop0_def by (rule create_on_time [OF assms(1,2)])
  obtain sts st where st: "advances ts loop0 = (sts, loop)" "steps = st # sts"
    "ticks_to_run st = 0" "first_tick_index st = 0" "step_info st = CB_INFO_OK"
    using assms(4) by (auto simp: loop0_def first_advance split_def Let_def prod_eq_iff)
  have "sorted (map unat (last_time_ns loop0 # ts))" using assms(3) l0(4) by simp
  note r = advances_on_time [OF ot this st(1)]
  have o: "on_time t0 loop" "unat (tick_ns loop) = tick" "last_time_ns loop = last (t0 # ts)"
    using r l0 by simp_all
  have tk: "unat (accumulator_ns loop) < tick" using o(1,2) by (simp add: on_time_def)
  have le: "unat (sim_tick_index loop) * tick + unat (accumulator_ns loop) \<le> elapsed"
    using o by (simp add: on_time_def elapsed_def)
  have eq: "unat (sim_tick_index loop) * tick + unat (accumulator_ns loop) = elapsed" if "loop_info loop = CB_INFO_OK"
    using o that by (simp add: on_time_def elapsed_def)
  have "unat (sim_tick_index loop) = elapsed div tick" "unat (accumulator_ns loop) = elapsed mod tick"
    if "loop_info loop = CB_INFO_OK"
    using tk eq [OF that, symmetric] by simp_all
  then show ?thesis using r le l0 st(2-5) by (simp add: contiguous_Cons)
qed

lemma tick_loop_keeps_time_witness:
  "let (steps, loop) = advances [1000, 50001000, 110001000]
     (cb_tick_loop_create 50 8 :: (unit, unit) cb_tick_loop_t)
   in unat (sim_tick_index loop) = 5 \<and> unat (accumulator_ns loop) = 10000000 \<and> contiguous 0 steps"
proof -
  obtain steps and loop :: "(unit, unit) cb_tick_loop_t"
    where r: "advances [1000, 50001000, 110001000] (cb_tick_loop_create 50 8) = (steps, loop)"
    by (metis surj_pair)
  then have k: "loop_info loop = CB_INFO_OK"
    by (auto simp: cb_tick_loop_create_def cb_tick_loop_advance_def now_const Let_def)
  have "contiguous 0 steps"
    "loop_info loop = CB_INFO_OK \<longrightarrow> unat (sim_tick_index loop) = 5 \<and> unat (accumulator_ns loop) = 10000000"
    using tick_loop_keeps_time [OF _ _ _ r, simplified] by (simp, blast)
  then show ?thesis using k by (simp add: r del: advances.simps)
qed


text \<open>The tick length is the truncated period, so the rate is met from above within one
  nanosecond per tick, for rates up to 1 GHz.  Beyond, the constructor answers OK with a tick length
  of zero, and the first step after the baseline reports the bad rate.\<close>

theorem tick_loop_rate:
  assumes "0 < hz" "loop = cb_tick_loop_create hz m"
  shows "if unat hz \<le> 1000000000
    then unat (tick_ns loop) * unat hz \<le> 1000000000
      \<and> 1000000000 < (unat (tick_ns loop) + 1) * unat hz
    else loop_info loop = CB_INFO_OK \<and> tick_ns loop = 0
      \<and> (let (steps, loop') = advances [t0, t1] loop
         in map step_info steps = [CB_INFO_OK, CB_INFO_TIME_BAD_TICK_HZ]
          \<and> loop_info loop' = CB_INFO_TIME_BAD_TICK_HZ \<and> sim_tick_index loop' = 0)"
proof (cases "unat hz \<le> 1000000000")
  case True
  show ?thesis unfolding if_P [OF True] assms(2) using create_rate [OF assms(1) True] by (rule conjI)
next
  case False
  have nz: "hz \<noteq> 0" using assms(1) by auto
  have "unat (1000000000 div ucast hz :: u64) = 0" using False by (simp add: unat_div unat_up32)
  then have z: "(1000000000 div ucast hz :: u64) = 0" by (simp add: unat_eq_0)
  show ?thesis
    using False nz z by (simp add: assms(2) cb_tick_loop_create_def cb_tick_loop_advance_def Let_def now_const)
qed

lemma tick_loop_rate_witness:
  "let loop = cb_tick_loop_create 60 0 :: (unit, unit) cb_tick_loop_t;
       fast = cb_tick_loop_create 2000000000 0 :: (unit, unit) cb_tick_loop_t
   in unat (tick_ns loop) * 60 \<le> 1000000000 \<and> loop_info fast = CB_INFO_OK \<and> tick_ns fast = 0"
  unfolding Let_def
  using tick_loop_rate [OF _ refl [of "cb_tick_loop_create 60 0 :: (unit, unit) cb_tick_loop_t"]]
    tick_loop_rate [OF _ refl [of "cb_tick_loop_create 2000000000 0 :: (unit, unit) cb_tick_loop_t"]] by simp

text \<open>The interpolation factor is the fraction of a tick in the accumulator, rounded down to
  Q16.16: with less than a tick accumulated it lies in \<open>[0, 1)\<close> and no
  intermediate wraps; it is 0 after a reset.\<close>

theorem tick_loop_alpha_fraction:
  assumes "unat (accumulator_ns loop) < unat (tick_ns loop)" "unat (tick_ns loop) \<le> 1000000000"
  shows "sint (cb_tick_loop_alpha loop) = int (unat (accumulator_ns loop) * 65536 div unat (tick_ns loop))
    \<and> 0 \<le> sint (cb_tick_loop_alpha loop) \<and> sint (cb_tick_loop_alpha loop) < sint CB_FX16_ONE
    \<and> cb_tick_loop_alpha (cb_tick_loop_reset loop) = 0"
proof -
  have "int (unat (accumulator_ns loop) * 65536 div unat (tick_ns loop)) < 65536"
    using alpha_value(2) [OF assms] by (simp only: of_nat_less_iff of_nat_numeral [where 'a = int, symmetric])
  then show ?thesis
    unfolding alpha_value(1) [OF assms] by (simp add: cint cb_tick_loop_alpha_def cb_tick_loop_reset_def)
qed

lemma tick_loop_alpha_fraction_witness:
  "sint (cb_tick_loop_alpha
    ((cb_tick_loop_create 50 0 :: (unit, unit) cb_tick_loop_t)\<lparr>accumulator_ns := 15000000\<rparr>)) = 49152"
  using tick_loop_alpha_fraction
    [of "(cb_tick_loop_create 50 0 :: (unit, unit) cb_tick_loop_t)\<lparr>accumulator_ns := 15000000\<rparr>"]
  by (simp add: create_fields)

text \<open>The Windows clock converts counter ticks to nanoseconds exactly, rounded down, although the
  straightforward product would overflow: whenever the result fits and the frequency is at most
  18 GHz.  A failed or non-positive frequency query counts as 1, and the cache keeps the answer.\<close>

theorem time_qpc_exact:
  assumes "cb_time_now_ns_windows counter qpf cached = (ns, cached')"
    and "freq = (if cached \<noteq> 0 then cached else if \<not> fst qpf \<or> snd qpf <=s 0 then 1 else snd qpf)"
    and "unat freq \<le> 18000000000" "unat counter * 1000000000 div unat freq < 2 ^ 64"
  shows "unat ns = unat counter * 1000000000 div unat freq \<and> cached' = freq \<and> freq \<noteq> 0"
proof -
  have fz: "freq \<noteq> 0" using assms(2) by (auto split: if_splits)
  then have f0: "0 < unat freq" by (simp add: unat_gt_0)
  have c: "cb__qpc_get_freq qpf cached = (freq, freq)"
    by (auto simp: cb__qpc_get_freq_def Let_def split_def assms(2))
  have ns: "ns = counter div freq * 1000000000 + (counter mod freq * 1000000000) div freq" "cached' = freq"
    using assms(1) by (auto simp: cb_time_now_ns_windows_def c Let_def)
  have "unat (counter mod freq) < 18000000000"
    using mod_less_divisor [OF f0, of "unat counter"] assms(3) by (simp add: unat_mod)
  then have b: "unat (counter mod freq) * 1000000000 < 2 ^ 64" by simp
  have "unat (counter div freq) * 1000000000 + unat (counter mod freq) * 1000000000 div unat freq
      = unat counter * 1000000000 div unat freq"
    unfolding unat_div unat_mod by (rule split_division [OF f0])
  then show ?thesis using unat_qpc [OF _ b] assms(4) ns fz by simp
qed

lemma time_qpc_exact_witness:
  "let (ns, cached) = cb_time_now_ns_windows 5 (True, 3) 0 in unat ns = 1666666666 \<and> cached = 3"
  using time_qpc_exact [of 5 "(True, 3)" 0 _ _ 3]
  by (cases "cb_time_now_ns_windows 5 (True, 3) 0") (simp add: word_sle_eq)

text \<open>Signals do not cut a sleep short: however often \<open>nanosleep\<close> is interrupted, each call asks
  for the time that remained, so when it finally completes, the time slept adds up to the requested
  milliseconds; the request is a well-formed \<open>timespec\<close>, and any other error ends the loop.\<close>

theorem time_sleep_complete:
  assumes "\<forall>r \<in> set interruptions. r \<noteq> Failed \<and> r \<noteq> Slept"
  shows "slept_ns (interruptions @ [Slept]) (sleep_request ms) = int (unat ms) * 1000000
    \<and> cb_time_sleep_ms (interruptions @ [Slept]) ms
        = sleep_request ms # [rem. Interrupted rem \<leftarrow> interruptions]
    \<and> cb_time_sleep_ms (interruptions @ [Failed]) ms
        = sleep_request ms # [rem. Interrupted rem \<leftarrow> interruptions]
    \<and> 0 \<le> sint (snd (sleep_request ms)) \<and> sint (snd (sleep_request ms)) < 1000000000"
proof -
  have "sleep_loop (os @ [e]) req = req # [rem. Interrupted rem \<leftarrow> os]"
    if "\<forall>r \<in> set os. r \<noteq> Failed \<and> r \<noteq> Slept" "e = Slept \<or> e = Failed" for os e req
    using that
  proof (induction os arbitrary: req)
    case (Cons r os)
    then show ?case by (cases r) auto
  qed auto
  then show ?thesis
    using slept_all [OF assms] sleep_request_span [of ms] assms by (simp add: cb_time_sleep_ms_def)
qed

lemma time_sleep_complete_witness:
  "slept_ns [Interrupted (1, 5), Slept] (sleep_request 1500) = 1500000000"
  using time_sleep_complete [of "[Interrupted (1, 5)]" 1500] by simp

end
