(* ===== verification/Arena.thy ===== *)
theory Arena
  imports Info Buffers
begin

text \<open>
  The arena allocator of \<open>src/cbase_arena.c\<close>.  A pointer to a block is the identity of its
  allocation, so the heap is a map from identities to blocks: the fields of the header and, in
  \<open>blk_raw\<close>, the bytes of the whole allocation (32 bytes of header, 16 guard bytes, the user data, 16
  guard bytes).  A pointer into a block is its identity and an offset.  \<open>malloc\<close> is a parameter that
  yields, if it succeeds, an identity and the bytes found there; \<open>malloc_spec\<close> states what the code
  relies on.  A step whose result is \<open>None\<close> follows a pointer that is null or freed.
\<close>

section \<open>Definitions\<close>

definition CB__GUARD_SIZE :: size_t where "CB__GUARD_SIZE = 16"
definition CB__GUARD_BYTE :: u8 where "CB__GUARD_BYTE = 0xCB"

text \<open>The enumeration; \<open>CB_ARENA_OTHER\<close> stands for the integers that name no strategy.\<close>

datatype cb_arena_strategy_t = CB_ARENA_FIXED | CB_ARENA_LINEAR | CB_ARENA_EXPONENTIAL | CB_ARENA_OTHER nat

record cb__arena_block_t =
  blk_size :: size_t
  blk_used :: size_t
  blk_data :: size_t
  blk_next :: "nat option"
  blk_raw :: "u8 list"

type_synonym heap = "nat \<Rightarrow> cb__arena_block_t option"
type_synonym malloc = "heap \<Rightarrow> size_t \<Rightarrow> (nat \<times> u8 list) option"

record cb_arena_t =
  arena_info :: cb_info_t
  arena_strategy :: cb_arena_strategy_t
  arena_initial_size :: size_t
  arena_head :: "nat option"
  arena_current :: "nat option"

record cb_arena_alloc_result_t =
  result_info :: cb_info_t
  result_ptr :: "(nat \<times> size_t) option"

definition sizeof_block :: size_t where "sizeof_block = 32"

definition cb__arena_block_create :: "malloc \<Rightarrow> heap \<Rightarrow> size_t \<Rightarrow> nat option \<times> heap" where
  "cb__arena_block_create malloc h sz =
     (let total_size = sizeof_block + CB__GUARD_SIZE + sz + CB__GUARD_SIZE
      in case malloc h total_size of
           None \<Rightarrow> (None, h)
         | Some (block, raw) \<Rightarrow>
             let guard_head = sizeof_block;
                 data = guard_head + CB__GUARD_SIZE;
                 guard_tail = data + sz;
                 raw = put_bytes (unat guard_head) (replicate (unat CB__GUARD_SIZE) CB__GUARD_BYTE) raw;
                 raw = put_bytes (unat guard_tail) (replicate (unat CB__GUARD_SIZE) CB__GUARD_BYTE) raw
             in (Some block,
                 h(block \<mapsto> \<lparr>blk_size = sz, blk_used = 0, blk_data = data, blk_next = None, blk_raw = raw\<rparr>)))"

definition cb__arena_block_check_guards :: "cb__arena_block_t \<Rightarrow> bool" where
  "cb__arena_block_check_guards block =
     (let guard_head = unat (blk_data block - CB__GUARD_SIZE);
          guard_tail = unat (blk_data block + blk_size block)
      in list_all (\<lambda>i. blk_raw block ! (guard_head + i) = CB__GUARD_BYTE
          \<and> blk_raw block ! (guard_tail + i) = CB__GUARD_BYTE) [0 ..< unat CB__GUARD_SIZE])"

partial_function (option) cb__arena_block_destroy :: "heap \<Rightarrow> nat option \<Rightarrow> heap option" where
  "cb__arena_block_destroy h block =
     (case block of
        None \<Rightarrow> Some h
      | Some b \<Rightarrow>
          (case h b of
             None \<Rightarrow> None
           | Some blk \<Rightarrow> cb__arena_block_destroy (h(b := None)) (blk_next blk)))"

definition cb_arena_create :: "malloc \<Rightarrow> heap \<Rightarrow> size_t \<Rightarrow> cb_arena_strategy_t \<Rightarrow> cb_arena_t \<times> heap" where
  "cb_arena_create malloc h sz strategy =
     (case cb__arena_block_create malloc h sz of
        (None, h) \<Rightarrow>
          (\<lparr>arena_info = CB_INFO_ALLOC_FAILED, arena_strategy = strategy, arena_initial_size = sz,
             arena_head = None, arena_current = None\<rparr>, h)
      | (Some block, h) \<Rightarrow>
          (\<lparr>arena_info = CB_INFO_OK, arena_strategy = strategy, arena_initial_size = sz,
             arena_head = Some block, arena_current = Some block\<rparr>, h))"

definition cb_arena_destroy :: "heap \<Rightarrow> cb_arena_t \<Rightarrow> (cb_arena_t \<times> heap) option" where
  "cb_arena_destroy h arena =
     (case cb__arena_block_destroy h (arena_head arena) of
        None \<Rightarrow> None
      | Some h \<Rightarrow> Some (arena\<lparr>arena_head := None, arena_current := None\<rparr>, h))"

definition cb__align_forward :: "size_t \<Rightarrow> size_t \<Rightarrow> size_t" where
  "cb__align_forward offset align =
     (let mask = align - 1
      in (offset + mask) AND NOT mask)"

text \<open>The allocation itself, once the block and the offset are chosen.\<close>

definition take_from :: "heap \<Rightarrow> cb_arena_t \<Rightarrow> nat \<Rightarrow> cb__arena_block_t \<Rightarrow> size_t \<Rightarrow> size_t
    \<Rightarrow> cb_arena_alloc_result_t \<times> cb_arena_t \<times> heap" where
  "take_from h arena b block aligned_offset sz =
     (\<lparr>result_info = CB_INFO_OK, result_ptr = Some (b, blk_data block + aligned_offset)\<rparr>, arena,
      h(b \<mapsto> block\<lparr>blk_used := aligned_offset + sz\<rparr>))"

text \<open>The last part of \<open>cb_arena_alloc\<close>: \<open>cur\<close> is the current block and \<open>block\<close> the one tried last.\<close>

definition new_block_alloc :: "malloc \<Rightarrow> heap \<Rightarrow> cb_arena_t \<Rightarrow> nat \<Rightarrow> cb__arena_block_t \<Rightarrow> size_t \<Rightarrow> size_t
    \<Rightarrow> (cb_arena_alloc_result_t \<times> cb_arena_t \<times> heap) option" where
  "new_block_alloc malloc h arena cur block sz align =
     (case arena_strategy arena of
        CB_ARENA_FIXED \<Rightarrow> Some (\<lparr>result_info = CB_INFO_ARENA_OUT_OF_MEMORY, result_ptr = None\<rparr>, arena, h)
      | CB_ARENA_OTHER _ \<Rightarrow> Some (\<lparr>result_info = CB_INFO_GENERIC_ERROR, result_ptr = None\<rparr>, arena, h)
      | _ \<Rightarrow>
          let new_block_size =
                (if arena_strategy arena = CB_ARENA_LINEAR then arena_initial_size arena else blk_size block * 2);
              new_block_size = (if new_block_size < sz + align then sz + align else new_block_size)
          in case cb__arena_block_create malloc h new_block_size of
               (None, h) \<Rightarrow> Some (\<lparr>result_info = CB_INFO_ALLOC_FAILED, result_ptr = None\<rparr>, arena, h)
             | (Some new_block, h) \<Rightarrow>
                 (case (h cur, h new_block) of
                    (Some c, Some n) \<Rightarrow>
                      let h = h(cur \<mapsto> c\<lparr>blk_next := Some new_block\<rparr>);
                          arena = arena\<lparr>arena_current := Some new_block\<rparr>;
                          aligned_offset = cb__align_forward 0 align
                      in Some (take_from h arena new_block n aligned_offset sz)
                  | _ \<Rightarrow> None))"

definition cb_arena_alloc :: "malloc \<Rightarrow> heap \<Rightarrow> cb_arena_t \<Rightarrow> size_t \<Rightarrow> size_t
    \<Rightarrow> (cb_arena_alloc_result_t \<times> cb_arena_t \<times> heap) option" where
  "cb_arena_alloc malloc h arena sz align =
     (let align = (if align = 0 then 8 else align)
      in case arena_current arena of
           None \<Rightarrow> None
         | Some cur \<Rightarrow>
             (case h cur of
                None \<Rightarrow> None
              | Some block \<Rightarrow>
                  let aligned_offset = cb__align_forward (blk_used block) align
                  in if aligned_offset + sz \<le> blk_size block
                     then Some (take_from h arena cur block aligned_offset sz)
                     else
                       (case blk_next block of
                          None \<Rightarrow> new_block_alloc malloc h arena cur block sz align
                        | Some nb \<Rightarrow>
                            (case h nb of
                               None \<Rightarrow> None
                             | Some next \<Rightarrow>
                                 let aligned_offset = cb__align_forward 0 align
                                 in if aligned_offset + sz \<le> blk_size next
                                    then Some (take_from h (arena\<lparr>arena_current := Some nb\<rparr>) nb next aligned_offset sz)
                                    else new_block_alloc malloc h arena cur next sz align))))"

partial_function (option) reset_loop :: "heap \<Rightarrow> nat option \<Rightarrow> heap option" where
  "reset_loop h block =
     (case block of
        None \<Rightarrow> Some h
      | Some b \<Rightarrow>
          (case h b of
             None \<Rightarrow> None
           | Some blk \<Rightarrow> reset_loop (h(b \<mapsto> blk\<lparr>blk_used := 0\<rparr>)) (blk_next blk)))"

definition cb_arena_reset :: "heap \<Rightarrow> cb_arena_t \<Rightarrow> (cb_arena_t \<times> heap) option" where
  "cb_arena_reset h arena =
     (case reset_loop h (arena_head arena) of
        None \<Rightarrow> None
      | Some h \<Rightarrow> Some (arena\<lparr>arena_current := arena_head arena\<rparr>, h))"

partial_function (option) health_loop :: "heap \<Rightarrow> nat option \<Rightarrow> bool option" where
  "health_loop h block =
     (case block of
        None \<Rightarrow> Some True
      | Some b \<Rightarrow>
          (case h b of
             None \<Rightarrow> None
           | Some blk \<Rightarrow>
               if \<not> cb__arena_block_check_guards blk then Some False else health_loop h (blk_next blk)))"

definition cb_arena_check_health :: "heap \<Rightarrow> cb_arena_t \<Rightarrow> bool option" where
  "cb_arena_check_health h arena = health_loop h (arena_head arena)"

section \<open>What the code relies on\<close>

text \<open>\<open>malloc\<close> yields fresh memory of the requested length; no object exceeds \<open>PTRDIFF_MAX\<close>.\<close>

definition malloc_spec :: "malloc \<Rightarrow> bool" where
  "malloc_spec malloc \<longleftrightarrow>
     (\<forall>h n b raw. malloc h n = Some (b, raw) \<longrightarrow> h b = None \<and> length raw = unat n \<and> unat n < 2 ^ 63)"

section \<open>Alignment\<close>

lemma and_not_mask: "x AND NOT (mask k) = push_bit k (drop_bit k (x :: 'a::len word))"
  by (rule bit_eqI) (auto simp: bit_simps)

lemma unat_clear_low: "unat (x AND NOT (mask k) :: size_t) = unat x div 2 ^ k * 2 ^ k"
proof -
  have x: "unat x < 2 ^ 64" using unsigned_less [where 'a = nat, of x] by simp
  have "unat x div 2 ^ k * 2 ^ k \<le> unat x" by simp
  then have "unat x div 2 ^ k * 2 ^ k < 2 ^ 64" using x by linarith
  then show ?thesis
    using x by (simp only: and_not_mask unsigned_push_bit_eq unsigned_drop_bit_eq)
      (simp add: take_bit_eq_mod push_bit_eq_mult drop_bit_eq_div)
qed

lemma unat_align_forward:
  assumes "unat align = 2 ^ k" "unat offset + 2 ^ k \<le> 2 ^ 64"
  shows "unat (cb__align_forward offset align) = (unat offset + (2 ^ k - 1)) div 2 ^ k * 2 ^ k"
proof -
  have nz: "align \<noteq> 0" using assms(1) by (metis power_not_zero unat_0 zero_neq_numeral)
  have "word_of_nat (unat align) = (2 ^ k :: size_t)" unfolding assms(1) by simp
  then have a: "align = 2 ^ k" by simp
  have m: "align - 1 = mask k" by (simp add: a mask_eq_exp_minus_1)
  have "unat (align - 1) = 2 ^ k - 1" using nz assms(1) by (simp add: unat_minus_one)
  moreover have "(1 :: nat) \<le> 2 ^ k" by simp
  ultimately have "unat (offset + (align - 1)) = unat offset + (2 ^ k - 1)"
    using assms(2) by (simp only: unat_word_ariths) (simp add: mod_less)
  then show ?thesis by (simp only: cb__align_forward_def Let_def m [symmetric])
      (simp only: m unat_clear_low)
qed

lemma align_up:
  assumes "0 < (a :: nat)"
  shows "x \<le> (x + (a - 1)) div a * a" "(x + (a - 1)) div a * a \<le> x + (a - 1)"
proof -
  have "(x + (a - 1)) div a * a + (x + (a - 1)) mod a = x + (a - 1)" by simp
  moreover have "(x + (a - 1)) mod a < a" using assms by simp
  ultimately show "x \<le> (x + (a - 1)) div a * a" "(x + (a - 1)) div a * a \<le> x + (a - 1)"
    by linarith+
qed

lemma align_forward_0 [simp]: "cb__align_forward 0 align = 0"
  by (simp add: cb__align_forward_def)

section \<open>The chain of blocks\<close>

fun chain :: "heap \<Rightarrow> nat option \<Rightarrow> nat list \<Rightarrow> bool" where
  "chain h p [] = (p = None)"
| "chain h p (b # bs) = (p = Some b \<and> (case h b of None \<Rightarrow> False | Some blk \<Rightarrow> chain h (blk_next blk) bs))"

lemma chain_other: "x \<notin> set bs \<Longrightarrow> chain (h(x := y)) p bs = chain h p bs"
  by (induction bs arbitrary: p) (auto split: option.splits)

lemma chain_same_next:
  "h x = Some blk \<Longrightarrow> blk_next blk' = blk_next blk \<Longrightarrow> chain (h(x \<mapsto> blk')) p bs = chain h p bs"
  by (induction bs arbitrary: p) (auto split: option.splits)

lemma chain_extend:
  assumes "chain h p (pre @ cur # post)" "distinct (pre @ [cur, new])" "h cur = Some c" "blk_next n = None"
  shows "chain (h(new \<mapsto> n, cur \<mapsto> c\<lparr>blk_next := Some new\<rparr>)) p (pre @ [cur, new])"
  using assms
proof (induction pre arbitrary: p)
  case (Cons b pre)
  then show ?case by (auto split: option.splits)
qed auto

lemma chain_in: "chain h p bs \<Longrightarrow> b \<in> set bs \<Longrightarrow> h b \<noteq> None"
  by (induction bs arbitrary: p) (auto split: option.splits)

lemma chain_at: "chain h p (pre @ b # post) \<Longrightarrow> h b = Some blk \<Longrightarrow>
    blk_next blk = (case post of [] \<Rightarrow> None | c # _ \<Rightarrow> Some c)"
  by (induction pre arbitrary: p) (auto split: option.splits list.splits)

lemma destroy_chain:
  "chain h p bs \<Longrightarrow> distinct bs \<Longrightarrow> cb__arena_block_destroy h p = Some (h |` (- set bs))"
proof (induction bs arbitrary: h p)
  case Nil
  then show ?case by (simp add: cb__arena_block_destroy.simps)
next
  case (Cons b bs)
  then obtain blk where b: "p = Some b" "h b = Some blk" "chain h (blk_next blk) bs"
    by (auto split: option.splits)
  have "cb__arena_block_destroy (h(b := None)) (blk_next blk) = Some ((h(b := None)) |` (- set bs))"
    using Cons.prems(2) b(3) by (intro Cons.IH) (subst chain_other, simp_all)
  moreover have "(h(b := None)) |` (- set bs) = h |` (- set (b # bs))"
    by (auto simp: restrict_map_def)
  ultimately show ?case using b by (subst cb__arena_block_destroy.simps) simp
qed

definition rewind :: "nat list \<Rightarrow> heap \<Rightarrow> heap" where
  "rewind bs h = (\<lambda>b. if b \<in> set bs then map_option (blk_used_update (\<lambda>_. 0)) (h b) else h b)"

lemma reset_chain: "chain h p bs \<Longrightarrow> distinct bs \<Longrightarrow> reset_loop h p = Some (rewind bs h)"
proof (induction bs arbitrary: h p)
  case Nil
  then show ?case by (simp add: reset_loop.simps rewind_def)
next
  case (Cons b bs)
  then obtain blk where b: "p = Some b" "h b = Some blk" "chain h (blk_next blk) bs"
    by (auto split: option.splits)
  have "reset_loop (h(b \<mapsto> blk\<lparr>blk_used := 0\<rparr>)) (blk_next blk) = Some (rewind bs (h(b \<mapsto> blk\<lparr>blk_used := 0\<rparr>)))"
    using Cons.prems(2) b(3) by (intro Cons.IH) (subst chain_other, simp_all)
  moreover have "rewind bs (h(b \<mapsto> blk\<lparr>blk_used := 0\<rparr>)) = rewind (b # bs) h"
    using b Cons.prems(2) by (auto simp: rewind_def)
  ultimately show ?case using b by (subst reset_loop.simps) simp
qed

lemma chain_rewind: "chain (rewind bs h) p cs = chain h p cs"
  by (induction cs arbitrary: p) (auto simp: rewind_def split: option.splits)

lemma health_chain:
  "chain h p bs \<Longrightarrow> health_loop h p = Some (\<forall>b \<in> set bs. cb__arena_block_check_guards (the (h b)))"
proof (induction bs arbitrary: p)
  case Nil
  then show ?case by (simp add: health_loop.simps)
next
  case (Cons b bs)
  then show ?case by (subst health_loop.simps) (auto split: option.splits)
qed

section \<open>Well-formed blocks\<close>

definition wf_block :: "cb__arena_block_t \<Rightarrow> bool" where
  "wf_block blk \<longleftrightarrow>
     blk_data blk = 48 \<and> unat (blk_size blk) + 64 < 2 ^ 63 \<and> length (blk_raw blk) = unat (blk_size blk) + 64
     \<and> blk_used blk \<le> blk_size blk"

lemma guards_fields [simp]:
  "cb__arena_block_check_guards (blk\<lparr>blk_used := u\<rparr>) = cb__arena_block_check_guards blk"
  "cb__arena_block_check_guards (blk\<lparr>blk_next := p\<rparr>) = cb__arena_block_check_guards blk"
  by (simp_all add: cb__arena_block_check_guards_def)

lemma wf_block_fields [simp]:
  "wf_block (blk\<lparr>blk_next := p\<rparr>) = wf_block blk"
  "wf_block blk \<Longrightarrow> wf_block (blk\<lparr>blk_used := u\<rparr>) \<longleftrightarrow> u \<le> blk_size blk"
  by (auto simp: wf_block_def)

lemma unat_tail: "unat (s :: size_t) + 64 < 2 ^ 63 \<Longrightarrow> unat (48 + s) = 48 + unat s"
  by (simp add: unat_word_ariths)

lemma run_of_byte:
  "p + n \<le> length raw \<Longrightarrow> get_bytes p n raw = replicate n g \<longleftrightarrow> (\<forall>i < n. raw ! (p + i) = g)"
  by (auto simp: list_eq_iff_nth_eq nth_get_bytes length_get_bytes)

lemma guards_iff:
  assumes "wf_block blk"
  shows "cb__arena_block_check_guards blk \<longleftrightarrow>
    get_bytes 32 16 (blk_raw blk) = replicate 16 CB__GUARD_BYTE
    \<and> get_bytes (48 + unat (blk_size blk)) 16 (blk_raw blk) = replicate 16 CB__GUARD_BYTE"
proof -
  have d: "blk_data blk = 48" "length (blk_raw blk) = unat (blk_size blk) + 64"
    and t: "unat (48 + blk_size blk) = 48 + unat (blk_size blk)"
    using assms unat_tail by (auto simp: wf_block_def)
  have h: "unat ((48 :: size_t) - 16) = 32" "unat (16 :: size_t) = 16" by simp_all
  have i: "(\<forall>i \<in> set [0 ..< 16]. P i) = (\<forall>i < 16. P i)" for P :: "nat \<Rightarrow> bool" by auto
  have l: "32 + 16 \<le> length (blk_raw blk)" "48 + unat (blk_size blk) + 16 \<le> length (blk_raw blk)"
    by (simp_all add: d(2))
  show ?thesis
    unfolding cb__arena_block_check_guards_def Let_def d(1) CB__GUARD_SIZE_def h t list_all_iff i
      run_of_byte [OF l(1)] run_of_byte [OF l(2)] by blast
qed

lemma block_create:
  assumes "malloc_spec malloc" "cb__arena_block_create malloc h sz = (p, h')" "unat sz + 64 < 2 ^ 64"
  shows "p = None \<and> h' = h
    \<or> (\<exists>b blk. p = Some b \<and> h b = None \<and> h' = h(b \<mapsto> blk) \<and> wf_block blk
        \<and> cb__arena_block_check_guards blk \<and> blk_used blk = 0 \<and> blk_size blk = sz \<and> blk_next blk = None)"
proof (cases "malloc h (sizeof_block + CB__GUARD_SIZE + sz + CB__GUARD_SIZE)")
  case None
  then show ?thesis using assms(2) by (simp add: cb__arena_block_create_def Let_def)
next
  case (Some a)
  obtain b raw where a: "a = (b, raw)" by fastforce
  have n: "unat (sizeof_block + CB__GUARD_SIZE + sz + CB__GUARD_SIZE) = unat sz + 64"
    using assms(3) by (simp add: sizeof_block_def CB__GUARD_SIZE_def unat_word_ariths)
  have m: "h b = None" "length raw = unat sz + 64" "unat sz + 64 < 2 ^ 63"
    using assms(1) Some n unfolding malloc_spec_def a by metis+
  let ?g = "replicate 16 CB__GUARD_BYTE"
  define blk where "blk = \<lparr>blk_size = sz, blk_used = 0, blk_data = 48, blk_next = None,
    blk_raw = put_bytes (48 + unat sz) ?g (put_bytes 32 ?g raw)\<rparr>"
  have wf: "wf_block blk" using m by (simp add: wf_block_def blk_def length_put_bytes)
  have "cb__arena_block_check_guards blk"
    unfolding guards_iff [OF wf] using m by (simp add: blk_def get_put_same get_put_other length_put_bytes)
  moreover have "p = Some b" "h' = h(b \<mapsto> blk)"
    using assms(2) Some unat_tail [OF m(3)]
    by (simp_all add: cb__arena_block_create_def Let_def sizeof_block_def CB__GUARD_SIZE_def blk_def a)
  ultimately show ?thesis using m(1) wf by (intro disjI2 exI [of _ b] exI [of _ blk]) (simp add: blk_def)
qed

section \<open>The outcomes of an allocation\<close>

text \<open>The chain of an arena, split at the current block; the blocks behind it are unused.\<close>

definition arena_ok :: "heap \<Rightarrow> cb_arena_t \<Rightarrow> nat list \<Rightarrow> nat \<Rightarrow> nat list \<Rightarrow> bool" where
  "arena_ok h a pre cur post \<longleftrightarrow>
     chain h (arena_head a) (pre @ cur # post) \<and> distinct (pre @ cur # post) \<and> arena_current a = Some cur
     \<and> (\<forall>b \<in> set (pre @ cur # post). wf_block (the (h b)) \<and> cb__arena_block_check_guards (the (h b)))
     \<and> (\<forall>b \<in> set post. blk_used (the (h b)) = 0) \<and> unat (arena_initial_size a) + 64 < 2 ^ 64"

definition request_ok :: "size_t \<Rightarrow> size_t \<Rightarrow> bool" where
  "request_ok sz align \<longleftrightarrow> unat sz \<le> 2 ^ 60 \<and> (align = 0 \<or> (\<exists>k \<le> 60. unat align = 2 ^ k))"

definition asked_align :: "size_t \<Rightarrow> nat" where
  "asked_align align = (if align = 0 then 8 else unat align)"

lemma request_align:
  "request_ok sz align \<Longrightarrow> \<exists>k. k \<le> 60 \<and> unat (if align = 0 then 8 else align) = 2 ^ k"
  by (cases "align = 0") (auto simp: request_ok_def intro!: exI [of _ 3])

text \<open>Bumping within a block: the offset is aligned, not below what is used, and nothing wraps.\<close>

lemma bump:
  assumes "wf_block blk" "request_ok sz align"
  defines "off \<equiv> cb__align_forward (blk_used blk) (if align = 0 then 8 else align)"
  shows "unat (blk_used blk) \<le> unat off" "asked_align align dvd unat off" "unat (off + sz) = unat off + unat sz"
proof -
  obtain k where k: "k \<le> 60" "unat (if align = 0 then 8 else align) = 2 ^ k"
    using request_align [OF assms(2)] by blast
  have k60: "(2 :: nat) ^ k \<le> 2 ^ 60" using k(1) by (rule power_increasing) simp
  have u: "unat (blk_used blk) < 2 ^ 63" using assms(1) by (simp add: wf_block_def word_le_nat_alt)
  then have "unat (blk_used blk) + 2 ^ k \<le> 2 ^ 64" using k60 by simp
  note o = unat_align_forward [OF k(2) this, folded off_def]
  have pos: "0 < (2 :: nat) ^ k" by simp
  show "unat (blk_used blk) \<le> unat off" unfolding o by (rule align_up(1) [OF pos])
  have "unat off \<le> unat (blk_used blk) + (2 ^ k - 1)" unfolding o by (rule align_up(2) [OF pos])
  then have "unat off \<le> unat (blk_used blk) + 2 ^ k" by linarith
  moreover have "unat sz \<le> 2 ^ 60" using assms(2) by (simp add: request_ok_def)
  ultimately have "unat off + unat sz < 2 ^ 64" using u k60 by simp
  then show "unat (off + sz) = unat off + unat sz" by (simp add: unat_word_ariths)
  have "asked_align align = 2 ^ k" using k(2) by (auto simp: asked_align_def split: if_splits)
  then show "asked_align align dvd unat off" unfolding o by simp
qed

lemma new_block_cases:
  assumes "malloc_spec malloc" "h cur = Some c" "wf_block blk" "unat (arena_initial_size a) + 64 < 2 ^ 64"
    and "request_ok sz align" "al = (if align = 0 then 8 else align)"
  obtains (refused) info where
    "new_block_alloc malloc h a cur blk sz al = Some (\<lparr>result_info = info, result_ptr = None\<rparr>, a, h)"
    "info \<noteq> CB_INFO_OK" "arena_strategy a = CB_ARENA_FIXED \<longrightarrow> info = CB_INFO_ARENA_OUT_OF_MEMORY"
  | (fresh) nb n where
    "new_block_alloc malloc h a cur blk sz al
      = Some (\<lparr>result_info = CB_INFO_OK, result_ptr = Some (nb, 48)\<rparr>, a\<lparr>arena_current := Some nb\<rparr>,
          h(cur \<mapsto> c\<lparr>blk_next := Some nb\<rparr>, nb \<mapsto> n\<lparr>blk_used := sz\<rparr>))"
    "h nb = None" "wf_block n" "cb__arena_block_check_guards n" "blk_used n = 0" "blk_next n = None" "sz \<le> blk_size n"
    "arena_strategy a = CB_ARENA_LINEAR \<or> arena_strategy a = CB_ARENA_EXPONENTIAL"
proof (cases "arena_strategy a = CB_ARENA_LINEAR \<or> arena_strategy a = CB_ARENA_EXPONENTIAL")
  case False
  then show thesis
    by (cases "arena_strategy a")
      (auto simp: new_block_alloc_def intro: refused [of CB_INFO_ARENA_OUT_OF_MEMORY] refused [of CB_INFO_GENERIC_ERROR])
next
  case True
  define s0 where "s0 = (if arena_strategy a = CB_ARENA_LINEAR then arena_initial_size a else blk_size blk * 2)"
  define s where "s = (if s0 < sz + al then sz + al else s0)"
  obtain k where k: "k \<le> 60" "unat al = 2 ^ k" using request_align [OF assms(5)] assms(6) by blast
  have "(2 :: nat) ^ k \<le> 2 ^ 60" using k(1) by (rule power_increasing) simp
  then have al: "unat (sz + al) = unat sz + unat al" "unat sz + unat al \<le> 2 ^ 61"
    using assms(5) k(2) by (simp_all add: request_ok_def unat_word_ariths)
  have "unat s0 + 64 < 2 ^ 64"
    using assms(3,4) by (simp add: s0_def wf_block_def unat_word_ariths)
  then have s: "unat s + 64 < 2 ^ 64" "sz \<le> s"
    using al by (auto simp: s_def word_less_nat_alt word_le_nat_alt)
  have eq: "new_block_alloc malloc h a cur blk sz al =
      (case cb__arena_block_create malloc h s of
         (None, h) \<Rightarrow> Some (\<lparr>result_info = CB_INFO_ALLOC_FAILED, result_ptr = None\<rparr>, a, h)
       | (Some new_block, h) \<Rightarrow>
           (case (h cur, h new_block) of
              (Some c, Some n) \<Rightarrow>
                Some (take_from (h(cur \<mapsto> c\<lparr>blk_next := Some new_block\<rparr>)) (a\<lparr>arena_current := Some new_block\<rparr>)
                  new_block n 0 sz)
            | _ \<Rightarrow> None))"
    using True by (auto simp: new_block_alloc_def s0_def s_def Let_def split: cb_arena_strategy_t.splits
        intro!: option.case_cong prod.case_cong)
  obtain p h' where c: "cb__arena_block_create malloc h s = (p, h')" by fastforce
  from block_create [OF assms(1) c s(1)] show thesis
  proof (elim disjE exE conjE)
    assume "p = None" "h' = h"
    then show thesis using True by (intro refused [of CB_INFO_ALLOC_FAILED]) (auto simp: eq c)
  next
    fix nb n
    assume n: "p = Some nb" "h nb = None" "h' = h(nb \<mapsto> n)" "wf_block n" "cb__arena_block_check_guards n"
      "blk_used n = 0" "blk_size n = s" "blk_next n = None"
    have ne: "nb \<noteq> cur" using n(2) assms(2) by auto
    have d: "blk_data n = 48" using n(4) by (simp add: wf_block_def)
    show thesis
      by (rule fresh [of nb n]) (use n ne s d True assms(2) in \<open>auto simp: eq c take_from_def fun_upd_twist\<close>)
  qed
qed

lemma alloc_cases:
  assumes ok: "arena_ok h a pre cur post" and m: "malloc_spec malloc" and r: "request_ok sz align"
  obtains (refused) info where
    "cb_arena_alloc malloc h a sz align = Some (\<lparr>result_info = info, result_ptr = None\<rparr>, a, h)"
    "info \<noteq> CB_INFO_OK" "arena_strategy a = CB_ARENA_FIXED \<longrightarrow> info = CB_INFO_ARENA_OUT_OF_MEMORY"
  | (current) blk off where
    "cb_arena_alloc malloc h a sz align = Some (\<lparr>result_info = CB_INFO_OK, result_ptr = Some (cur, 48 + off)\<rparr>, a,
        h(cur \<mapsto> blk\<lparr>blk_used := off + sz\<rparr>))"
    "h cur = Some blk" "unat (blk_used blk) \<le> unat off" "asked_align align dvd unat off"
    "unat (off + sz) = unat off + unat sz" "off + sz \<le> blk_size blk"
  | (following) nb blk post' where
    "cb_arena_alloc malloc h a sz align = Some (\<lparr>result_info = CB_INFO_OK, result_ptr = Some (nb, 48)\<rparr>,
        a\<lparr>arena_current := Some nb\<rparr>, h(nb \<mapsto> blk\<lparr>blk_used := sz\<rparr>))"
    "post = nb # post'" "h nb = Some blk" "sz \<le> blk_size blk"
  | (fresh) nb n c where
    "cb_arena_alloc malloc h a sz align = Some (\<lparr>result_info = CB_INFO_OK, result_ptr = Some (nb, 48)\<rparr>,
        a\<lparr>arena_current := Some nb\<rparr>, h(cur \<mapsto> c\<lparr>blk_next := Some nb\<rparr>, nb \<mapsto> n\<lparr>blk_used := sz\<rparr>))"
    "h cur = Some c" "h nb = None" "wf_block n" "cb__arena_block_check_guards n" "blk_used n = 0"
    "blk_next n = None" "sz \<le> blk_size n"
    "arena_strategy a = CB_ARENA_LINEAR \<or> arena_strategy a = CB_ARENA_EXPONENTIAL"
proof -
  define al where "al = (if align = 0 then 8 else align)"
  obtain blk where blk: "h cur = Some blk"
    using ok chain_in [of h "arena_head a" "pre @ cur # post" cur] by (auto simp: arena_ok_def)
  have wf: "wf_block blk" "arena_current a = Some cur" "chain h (arena_head a) (pre @ cur # post)"
    and size: "unat (arena_initial_size a) + 64 < 2 ^ 64"
    using ok blk by (auto simp: arena_ok_def)
  have next': "blk_next blk = (case post of [] \<Rightarrow> None | c # _ \<Rightarrow> Some c)"
    by (rule chain_at [OF wf(3) blk])
  define off where "off = cb__align_forward (blk_used blk) al"
  note b = bump [OF wf(1) r, folded al_def, folded off_def]
  have alloc: "cb_arena_alloc malloc h a sz align =
      (if off + sz \<le> blk_size blk then Some (take_from h a cur blk off sz)
       else (case blk_next blk of
          None \<Rightarrow> new_block_alloc malloc h a cur blk sz al
        | Some nb \<Rightarrow> (case h nb of None \<Rightarrow> None
            | Some nxt \<Rightarrow> if sz \<le> blk_size nxt then Some (take_from h (a\<lparr>arena_current := Some nb\<rparr>) nb nxt 0 sz)
                else new_block_alloc malloc h a cur nxt sz al)))"
    unfolding cb_arena_alloc_def Let_def al_def [symmetric] off_def
    by (simp add: wf(2) blk split: option.splits)
  have grow: thesis if "cb_arena_alloc malloc h a sz align = new_block_alloc malloc h a cur bl sz al" "wf_block bl" for bl
    by (rule new_block_cases [where al = al, OF m, of h cur, OF blk that(2) size r al_def])
      (erule (1) refused [OF trans [OF that(1)]], assumption, erule (7) fresh [OF trans [OF that(1)] blk])
  show thesis
  proof (cases "off + sz \<le> blk_size blk")
    case True
    then show thesis
      using wf(1) blk b by (intro current [of off blk]) (simp_all add: alloc take_from_def wf_block_def)
  next
    case False
    show thesis
    proof (cases post)
      case Nil
      then show thesis by (intro grow [of blk]) (simp_all add: alloc False next' wf(1))
    next
      case (Cons nb post')
      then obtain nxt where n: "h nb = Some nxt" "wf_block nxt"
        using ok chain_in [of h "arena_head a" "pre @ cur # post" nb] by (auto simp: arena_ok_def)
      then show thesis
        using Cons False next' wf(1)
        by (cases "sz \<le> blk_size nxt")
          (auto simp: alloc take_from_def wf_block_def intro: following [of nb nxt] grow [of nxt])
    qed
  qed
qed

section \<open>A client of the arena\<close>

text \<open>A client allocates, writes into what it was granted, and resets the arena, which ends every
  grant.  A grant is a block, the offset of its first byte in the allocation, and a length.\<close>

type_synonym grant = "nat \<times> nat \<times> nat"

datatype request = Alloc size_t size_t | Fill nat "u8 list" | Reset

fun serve :: "malloc \<Rightarrow> request list \<Rightarrow> grant list \<times> cb_arena_t \<times> heap \<Rightarrow> (grant list \<times> cb_arena_t \<times> heap) option" where
  "serve malloc [] s = Some s"
| "serve malloc (Alloc sz align # rs) (gs, a, h) =
     (case cb_arena_alloc malloc h a sz align of
        None \<Rightarrow> None
      | Some (r, a, h) \<Rightarrow>
          serve malloc rs ((case result_ptr r of None \<Rightarrow> gs | Some (b, p) \<Rightarrow> (b, unat p, unat sz) # gs), a, h))"
| "serve malloc (Fill k bs # rs) (gs, a, h) =
     serve malloc rs (gs, a,
       (if k < length gs
        then (case gs ! k of (b, p, n) \<Rightarrow>
          h(b := map_option (\<lambda>blk. blk\<lparr>blk_raw := put_bytes p (take n bs) (blk_raw blk)\<rparr>) (h b)))
        else h))"
| "serve malloc (Reset # rs) (gs, a, h) =
     (case cb_arena_reset h a of None \<Rightarrow> None | Some (a, h) \<Rightarrow> serve malloc rs ([], a, h))"

definition valid :: "request \<Rightarrow> bool" where
  "valid r = (case r of Alloc sz align \<Rightarrow> request_ok sz align | _ \<Rightarrow> True)"

fun apart :: "grant \<Rightarrow> grant \<Rightarrow> bool" where
  "apart (b, p, n) (b', p', n') \<longleftrightarrow> b \<noteq> b' \<or> p + n \<le> p' \<or> p' + n' \<le> p"

fun inside :: "heap \<Rightarrow> grant \<Rightarrow> bool" where
  "inside h (b, p, n) \<longleftrightarrow> (\<exists>blk. h b = Some blk \<and> 48 \<le> p \<and> p + n \<le> 48 + unat (blk_used blk))"

definition serving :: "heap \<Rightarrow> cb_arena_t \<Rightarrow> grant list \<Rightarrow> nat list \<Rightarrow> nat \<Rightarrow> nat list \<Rightarrow> bool" where
  "serving h a gs pre cur post \<longleftrightarrow>
     arena_ok h a pre cur post \<and> sorted_wrt apart gs
     \<and> (\<forall>g \<in> set gs. fst g \<in> set (pre @ [cur]) \<and> inside h g)"

lemma apart_above:
  assumes "\<forall>g \<in> set gs. inside h g" "\<And>blk. h b = Some blk \<Longrightarrow> 48 + unat (blk_used blk) \<le> p"
  shows "\<forall>g \<in> set gs. apart (b, p, n) g"
proof (intro ballI)
  fix g assume "g \<in> set gs"
  then have "inside h g" using assms(1) by blast
  then show "apart (b, p, n) g" using assms(2) by (cases g) fastforce
qed

lemma inside_bump:
  assumes "inside h g" "h b = Some blk" "unat (blk_used blk) \<le> unat u"
  shows "inside (h(b \<mapsto> blk\<lparr>blk_used := u\<rparr>)) g"
  using assms by (cases g) auto

lemma inside_other: "inside h g \<Longrightarrow> h b = None \<Longrightarrow> inside (h(b := x)) g"
  by (cases g) auto

lemma inside_link: "inside h g \<Longrightarrow> h b = Some blk \<Longrightarrow> inside (h(b \<mapsto> blk\<lparr>blk_next := p\<rparr>)) g"
  by (cases g) auto

lemma arena_ok_block: "arena_ok h a pre cur post \<Longrightarrow> b \<in> set (pre @ cur # post) \<Longrightarrow>
    \<exists>blk. h b = Some blk \<and> wf_block blk \<and> cb__arena_block_check_guards blk"
  using chain_in [of h "arena_head a" "pre @ cur # post" b] unfolding arena_ok_def by (metis option.exhaust_sel)

lemma serving_grant:
  assumes "serving h a gs pre cur post" "h b = Some blk" "unat (blk_used blk) \<le> off"
    and "unat u = off + n" "u \<le> blk_size blk"
    and "b = cur \<and> pre' = pre \<and> post' = post \<or> post = b # post' \<and> pre' = pre @ [cur]"
  shows "serving (h(b \<mapsto> blk\<lparr>blk_used := u\<rparr>)) (a\<lparr>arena_current := Some b\<rparr>) ((b, 48 + off, n) # gs) pre' b post'"
proof -
  have split': "pre @ cur # post = pre' @ b # post'" using assms(6) by auto
  have d: "b \<notin> set post'" using assms(1) split' by (auto simp: serving_def arena_ok_def)
  have ok: "arena_ok (h(b \<mapsto> blk\<lparr>blk_used := u\<rparr>)) (a\<lparr>arena_current := Some b\<rparr>) pre' b post'"
    using assms(1,2,5,6) d split' by (auto simp: serving_def arena_ok_def chain_same_next [where h = h and x = b and blk = blk])
  have "\<forall>g \<in> set gs. apart (b, 48 + off, n) g"
    by (rule apart_above) (use assms(1-3) in \<open>auto simp: serving_def\<close>)
  moreover have "\<forall>g \<in> set gs. inside (h(b \<mapsto> blk\<lparr>blk_used := u\<rparr>)) g"
    using assms(1-4) inside_bump [where h = h and b = b and blk = blk and u = u] by (simp add: serving_def)
  moreover have "\<forall>g \<in> set gs. fst g \<in> set (pre' @ [b])"
    using assms(1,6) by (auto simp: serving_def)
  ultimately show ?thesis using ok assms(1,4) by (auto simp: serving_def)
qed

lemma serving_fresh:
  assumes "serving h a gs pre cur post" "h cur = Some c" "h nb = None" "wf_block n"
    and "cb__arena_block_check_guards n" "blk_next n = None" "sz \<le> blk_size n"
  shows "serving (h(cur \<mapsto> c\<lparr>blk_next := Some nb\<rparr>, nb \<mapsto> n\<lparr>blk_used := sz\<rparr>)) (a\<lparr>arena_current := Some nb\<rparr>)
    ((nb, 48, unat sz) # gs) (pre @ [cur]) nb []"
proof -
  let ?h = "h(cur \<mapsto> c\<lparr>blk_next := Some nb\<rparr>, nb \<mapsto> n\<lparr>blk_used := sz\<rparr>)"
  have ok: "arena_ok h a pre cur post" using assms(1) by (simp add: serving_def)
  have ne: "nb \<notin> set (pre @ cur # post)" "nb \<noteq> cur"
    using arena_ok_block [OF ok, of nb] assms(2,3) by auto
  have "chain (h(nb \<mapsto> n\<lparr>blk_used := sz\<rparr>, cur \<mapsto> c\<lparr>blk_next := Some nb\<rparr>)) (arena_head a) (pre @ [cur, nb])"
    using ok ne assms(2,6) by (intro chain_extend [where post = post]) (auto simp: arena_ok_def)
  then have "chain ?h (arena_head a) (pre @ [cur, nb])" using ne by (simp add: fun_upd_twist)
  then have "arena_ok ?h (a\<lparr>arena_current := Some nb\<rparr>) (pre @ [cur]) nb []"
    using ok ne assms(2,4,5,7) by (auto simp: arena_ok_def)
  moreover have "\<forall>g \<in> set gs. inside ?h g"
    using assms(1-3) ne by (auto simp: serving_def intro!: inside_other inside_link)
  moreover have "\<forall>g \<in> set gs. apart (nb, 48, unat sz) g"
    by (rule apart_above) (use assms(1,3) in \<open>auto simp: serving_def\<close>)
  ultimately show ?thesis using assms(1) by (auto simp: serving_def)
qed

lemma wf_write:
  assumes "wf_block blk" "cb__arena_block_check_guards blk" "48 \<le> p" "p + length bs \<le> 48 + unat (blk_size blk)"
  shows "wf_block (blk\<lparr>blk_raw := put_bytes p bs (blk_raw blk)\<rparr>)"
    "cb__arena_block_check_guards (blk\<lparr>blk_raw := put_bytes p bs (blk_raw blk)\<rparr>)"
proof -
  have l: "p + length bs \<le> length (blk_raw blk)" using assms(1,4) by (simp add: wf_block_def)
  show wf: "wf_block (blk\<lparr>blk_raw := put_bytes p bs (blk_raw blk)\<rparr>)"
    using assms(1) by (simp add: wf_block_def length_put_bytes [OF l])
  show "cb__arena_block_check_guards (blk\<lparr>blk_raw := put_bytes p bs (blk_raw blk)\<rparr>)"
    using assms(2) unfolding guards_iff [OF wf] guards_iff [OF assms(1)]
    using assms(3,4) l by (simp add: get_put_other)
qed

lemma serving_fill:
  assumes "serving h a gs pre cur post" "(b, p, n) \<in> set gs"
  shows "serving (h(b := map_option (\<lambda>blk. blk\<lparr>blk_raw := put_bytes p (take n bs) (blk_raw blk)\<rparr>) (h b))) a gs pre cur post"
proof -
  have ok: "arena_ok h a pre cur post" and g: "b \<in> set (pre @ cur # post)" "inside h (b, p, n)"
    using assms by (auto simp: serving_def)
  obtain blk where blk: "h b = Some blk" "wf_block blk" "cb__arena_block_check_guards blk"
    using arena_ok_block [OF ok g(1)] by blast
  define blk' where "blk' = blk\<lparr>blk_raw := put_bytes p (take n bs) (blk_raw blk)\<rparr>"
  have "p + n \<le> 48 + unat (blk_size blk)" "48 \<le> p"
    using g(2) blk(1,2) by (auto simp: wf_block_def word_le_nat_alt)
  then have w: "wf_block blk'" "cb__arena_block_check_guards blk'"
    unfolding blk'_def by (intro wf_write [OF blk(2,3)]; simp)+
  have f: "blk_next blk' = blk_next blk" "blk_used blk' = blk_used blk" by (simp_all add: blk'_def)
  have "arena_ok (h(b \<mapsto> blk')) a pre cur post"
    using ok w f blk(1) by (auto simp: arena_ok_def chain_same_next [where h = h and x = b and blk = blk])
  moreover have "inside (h(b \<mapsto> blk')) g" if "inside h g" for g
    using that f blk(1) by (cases g) auto
  ultimately show ?thesis using assms(1) blk(1) by (simp add: serving_def blk'_def)
qed

lemma serving_reset:
  assumes "arena_ok h a pre cur post"
  obtains bs where "cb_arena_reset h a = Some (a\<lparr>arena_current := arena_head a\<rparr>, rewind (pre @ cur # post) h)"
    "pre @ cur # post = hd (pre @ cur # post) # bs"
    "serving (rewind (pre @ cur # post) h) (a\<lparr>arena_current := arena_head a\<rparr>) [] [] (hd (pre @ cur # post)) bs"
proof -
  obtain b bs where bs: "pre @ cur # post = b # bs" by (cases pre) auto
  have c: "chain h (arena_head a) (b # bs)" "distinct (b # bs)"
    using assms bs by (simp_all add: arena_ok_def)
  have r: "cb_arena_reset h a = Some (a\<lparr>arena_current := arena_head a\<rparr>, rewind (b # bs) h)"
    using reset_chain [OF c] by (simp add: cb_arena_reset_def)
  have w: "\<forall>x \<in> set (b # bs). wf_block (the (h x)) \<and> cb__arena_block_check_guards (the (h x))"
    using assms bs by (simp add: arena_ok_def)
  have x: "x \<in> set (b # bs) \<Longrightarrow> \<exists>blk. h x = Some blk" for x using chain_in [OF c(1)] by auto
  have "wf_block (the (rewind (b # bs) h x)) \<and> cb__arena_block_check_guards (the (rewind (b # bs) h x))
      \<and> blk_used (the (rewind (b # bs) h x)) = 0" if "x \<in> set (b # bs)" for x
    using x [OF that] w that by (auto simp: rewind_def)
  moreover have "chain (rewind (b # bs) h) (arena_head a) (b # bs)" using c(1) by (simp only: chain_rewind)
  moreover have "arena_head a = Some b" using c(1) by simp
  ultimately have "serving (rewind (b # bs) h) (a\<lparr>arena_current := arena_head a\<rparr>) [] [] b bs"
    using assms c(2) by (simp add: serving_def arena_ok_def)
  then show thesis using r by (intro that [of bs]) (simp_all add: bs)
qed

text \<open>Without a reset every block of the arena stays in its chain: \<open>h0\<close> is the rest of the heap.\<close>

definition tight :: "heap \<Rightarrow> heap \<Rightarrow> nat list \<Rightarrow> nat \<Rightarrow> nat list \<Rightarrow> bool" where
  "tight h0 h pre cur post \<longleftrightarrow> post = [] \<and> h |` (- set (pre @ [cur])) = h0"

lemma tight_update: "b \<in> set (pre @ [cur]) \<Longrightarrow> tight h0 h pre cur post \<Longrightarrow> tight h0 (h(b \<mapsto> x)) pre cur post"
  by (auto simp: tight_def restrict_map_def)

lemma tight_fresh: "h nb = None \<Longrightarrow> tight h0 h pre cur post \<Longrightarrow>
    tight h0 (h(cur \<mapsto> c, nb \<mapsto> n)) (pre @ [cur]) nb []"
  by (auto simp: tight_def restrict_map_def)

definition kept :: "malloc \<Rightarrow> request list \<Rightarrow> heap \<Rightarrow> grant list \<times> cb_arena_t \<times> heap \<Rightarrow> nat list \<Rightarrow> nat \<Rightarrow> nat list \<Rightarrow> bool" where
  "kept malloc rs h0 s pre cur post \<longleftrightarrow>
     (\<exists>gs' a' h' pre' cur' post'. serve malloc rs s = Some (gs', a', h') \<and> serving h' a' gs' pre' cur' post'
       \<and> (Reset \<notin> set rs \<longrightarrow> tight h0 (snd (snd s)) pre cur post \<longrightarrow> tight h0 h' pre' cur' post'))"

lemma keptI:
  "serve malloc rs s = Some (gs', a', h') \<Longrightarrow> serving h' a' gs' pre' cur' post' \<Longrightarrow>
   (Reset \<notin> set rs \<Longrightarrow> tight h0 (snd (snd s)) pre cur post \<Longrightarrow> tight h0 h' pre' cur' post') \<Longrightarrow>
   kept malloc rs h0 s pre cur post"
  unfolding kept_def by blast

lemma request_kept:
  assumes "malloc_spec malloc" "serving h a gs pre cur post" "valid r"
  shows "kept malloc [r] h0 (gs, a, h) pre cur post"
proof -
  note s = assms(2)
  then have ok: "arena_ok h a pre cur post" by (simp add: serving_def)
  show ?thesis
  proof (cases r)
    case (Alloc sz align)
    then have req: "request_ok sz align" using assms(3) by (simp add: valid_def)
    show ?thesis
    proof (cases rule: alloc_cases [OF ok assms(1) req])
      case (1 info)
      then show ?thesis by (intro keptI [OF _ s]) (simp_all add: Alloc)
    next
      case (2 blk off)
      have wf: "wf_block blk" using arena_ok_block [OF ok, of cur] 2(2) by auto
      have "unat off \<le> unat (blk_size blk)" using 2(5,6) by (simp add: word_le_nat_alt)
      then have p: "unat (48 + off) = 48 + unat off" using wf by (intro unat_tail) (auto simp: wf_block_def)
      have "a\<lparr>arena_current := Some cur\<rparr> = a" using ok by (simp add: arena_ok_def)
      then have "serving (h(cur \<mapsto> blk\<lparr>blk_used := off + sz\<rparr>)) a ((cur, 48 + unat off, unat sz) # gs) pre cur post"
        using serving_grant [OF s 2(2,3,5,6), of pre post] by simp
      then show ?thesis
        by (intro keptI, (simp add: Alloc p 2(1); fail)) (assumption, auto intro: tight_update)
    next
      case (3 nb blk post')
      have "blk_used blk = 0" using ok 3(2,3) by (simp add: arena_ok_def)
      then have "serving (h(nb \<mapsto> blk\<lparr>blk_used := sz\<rparr>)) (a\<lparr>arena_current := Some nb\<rparr>)
          ((nb, 48 + 0, unat sz) # gs) (pre @ [cur]) nb post'"
        by (intro serving_grant [OF s 3(3)]) (simp_all add: 3)
      then show ?thesis
        by (intro keptI, (simp add: Alloc 3(1); fail)) (simp, simp add: tight_def 3(2))
    next
      case (4 nb n c)
      show ?thesis
        by (rule keptI [OF _ serving_fresh [OF s 4(2-5,7,8)] tight_fresh])
          (simp_all add: Alloc 4(1,3))
    qed
  next
    case (Fill k bs)
    show ?thesis
    proof (cases "k < length gs")
      case True
      obtain b p n where g: "gs ! k = (b, p, n)" by (metis prod_cases3)
      then have m: "(b, p, n) \<in> set gs" using True by (metis nth_mem)
      then have "b \<in> set (pre @ [cur]) \<and> inside h (b, p, n)" using s by (fastforce simp: serving_def)
      then obtain y where b: "b = cur \<or> b \<in> set pre" "h b = Some y" by auto
      show ?thesis
        by (rule keptI [OF _ serving_fill [OF s m, of bs]]) (use True g b in \<open>simp_all add: Fill tight_update\<close>)
    qed (use s in \<open>auto simp: Fill intro: keptI\<close>)
  next
    case Reset
    obtain a1 h1 cur1 bs where "cb_arena_reset h a = Some (a1, h1)" "serving h1 a1 [] [] cur1 bs"
      using serving_reset [OF ok] by metis
    then show ?thesis by (intro keptI) (simp_all add: Reset)
  qed
qed

lemma serve_Cons:
  "serve malloc (r # rs) s = (case serve malloc [r] s of None \<Rightarrow> None | Some s \<Rightarrow> serve malloc rs s)"
  by (cases r; cases s) (auto split: option.splits)

lemma serve_kept:
  assumes "malloc_spec malloc" "serving h a gs pre cur post" "\<forall>r \<in> set rs. valid r"
  shows "kept malloc rs h0 (gs, a, h) pre cur post"
  using assms(2,3)
proof (induction rs arbitrary: gs a h pre cur post)
  case Nil
  then show ?case by (intro keptI) simp_all
next
  case (Cons r rs)
  have "kept malloc [r] h0 (gs, a, h) pre cur post"
    using Cons.prems by (intro request_kept [OF assms(1)]) simp_all
  then obtain gs1 a1 h1 pre1 cur1 post1 where 1: "serve malloc [r] (gs, a, h) = Some (gs1, a1, h1)"
    "serving h1 a1 gs1 pre1 cur1 post1" "Reset \<notin> set [r] \<longrightarrow> tight h0 h pre cur post \<longrightarrow> tight h0 h1 pre1 cur1 post1"
    unfolding kept_def snd_conv by blast
  have "kept malloc rs h0 (gs1, a1, h1) pre1 cur1 post1"
    using Cons.prems(2) by (intro Cons.IH [OF 1(2)]) simp
  then obtain gs' a' h' pre' cur' post' where 2: "serve malloc rs (gs1, a1, h1) = Some (gs', a', h')"
    "serving h' a' gs' pre' cur' post'" "Reset \<notin> set rs \<longrightarrow> tight h0 h1 pre1 cur1 post1 \<longrightarrow> tight h0 h' pre' cur' post'"
    unfolding kept_def snd_conv by blast
  have "serve malloc (r # rs) (gs, a, h) = Some (gs', a', h')"
    using 1(1) 2(1) by (subst serve_Cons) simp
  then show ?case by (rule keptI [OF _ 2(2)]) (use 1(3) 2(3) in simp)
qed

lemma create_serving:
  assumes "malloc_spec malloc" "cb_arena_create malloc h0 sz strategy = (a, h)" "unat sz + 64 < 2 ^ 64"
    and "arena_info a = CB_INFO_OK"
  obtains b where "serving h a [] [] b []" "tight h0 h [] b []" "arena_head a = Some b"
proof -
  obtain p h' where c: "cb__arena_block_create malloc h0 sz = (p, h')" by fastforce
  from block_create [OF assms(1) c assms(3)] show thesis
  proof (elim disjE exE conjE)
    assume "p = None"
    then show thesis using assms(2,4) c by (auto simp: cb_arena_create_def)
  next
    fix b blk
    assume b: "p = Some b" "h0 b = None" "h' = h0(b \<mapsto> blk)" "wf_block blk" "cb__arena_block_check_guards blk"
      "blk_used blk = 0" "blk_size blk = sz" "blk_next blk = None"
    then show thesis
      using assms(2,3) c
      by (intro that [of b]) (auto simp: cb_arena_create_def serving_def arena_ok_def tight_def restrict_map_def)
  qed
qed

section \<open>Properties\<close>

text \<open>C1. An arena is safe to use.  Whatever a client requests, within sizes and power-of-two
  alignments up to \<open>2^60\<close>, and with any resets and writes into its grants in between, no step
  follows a dangling pointer, the memory granted since the last reset consists of pairwise
  disjoint runs inside the user data of the arena's blocks, and all guard bytes stay intact.\<close>

theorem arena_grants_disjoint:
  assumes "malloc_spec malloc" "unat sz + 64 < 2 ^ 64" "\<forall>r \<in> set rs. valid r"
    and "cb_arena_create malloc h0 sz strategy = (a0, h1)" "arena_info a0 = CB_INFO_OK"
  shows "\<exists>gs a h. serve malloc rs ([], a0, h1) = Some (gs, a, h)
    \<and> sorted_wrt apart gs
    \<and> (\<forall>(b, p, n) \<in> set gs. \<exists>blk. h b = Some blk \<and> 48 \<le> p \<and> p + n \<le> 48 + unat (blk_size blk))
    \<and> cb_arena_check_health h a = Some True"
proof -
  obtain b where "serving h1 a0 [] [] b []" using create_serving [OF assms(1,4,2,5)] .
  then have "kept malloc rs h0 ([], a0, h1) [] b []" by (rule serve_kept [OF assms(1) _ assms(3)])
  then obtain gs a h pre cur post where r: "serve malloc rs ([], a0, h1) = Some (gs, a, h)"
    "serving h a gs pre cur post" unfolding kept_def by blast
  then have ok: "arena_ok h a pre cur post" and gs: "sorted_wrt apart gs"
    "\<forall>g \<in> set gs. fst g \<in> set (pre @ [cur]) \<and> inside h g" by (simp_all add: serving_def)
  have "\<exists>blk. h b = Some blk \<and> 48 \<le> p \<and> p + n \<le> 48 + unat (blk_size blk)" if "(b, p, n) \<in> set gs" for b p n
  proof -
    have g: "b \<in> set (pre @ cur # post)" "inside h (b, p, n)" using gs(2) that by fastforce+
    obtain blk where "h b = Some blk" "wf_block blk" using arena_ok_block [OF ok g(1)] by blast
    then show ?thesis using g(2) by (auto simp: wf_block_def word_le_nat_alt)
  qed
  moreover have "cb_arena_check_health h a = Some True"
    using ok health_chain [of h "arena_head a" "pre @ cur # post"]
    by (simp add: cb_arena_check_health_def arena_ok_def)
  ultimately show ?thesis using r(1) gs(1) by blast
qed

text \<open>A \<open>malloc\<close> for the examples: eight objects, identified in order.\<close>

definition small_malloc :: malloc where
  "small_malloc h n = (if unat n \<le> 1024
     then map_option (\<lambda>b. (b, replicate (unat n) 0)) (List.find (\<lambda>b. h b = None) [0 ..< 8]) else None)"

lemma small_malloc_spec: "malloc_spec small_malloc"
  by (auto simp: malloc_spec_def small_malloc_def find_Some_iff split: if_splits)

lemma small_create:
  "cb_arena_create small_malloc Map.empty 32 CB_ARENA_LINEAR
    = (\<lparr>arena_info = CB_INFO_OK, arena_strategy = CB_ARENA_LINEAR, arena_initial_size = 32,
        arena_head = Some 0, arena_current = Some 0\<rparr>, snd (cb_arena_create small_malloc Map.empty 32 CB_ARENA_LINEAR))"
  by (simp add: cb_arena_create_def cb__arena_block_create_def small_malloc_def upt_rec Let_def
      sizeof_block_def CB__GUARD_SIZE_def)

lemma small_request: "unat sz \<le> 1024 \<Longrightarrow> align \<in> {0, 1, 2, 4, 8, 16} \<Longrightarrow> valid (Alloc sz align)"
  by (auto simp: valid_def request_ok_def intro: exI [of _ 0] exI [of _ 1] exI [of _ 2] exI [of _ 3] exI [of _ 4])

lemma arena_grants_disjoint_witness:
  "let (a, h) = cb_arena_create small_malloc Map.empty 32 CB_ARENA_LINEAR
   in \<exists>gs a' h'. serve small_malloc [Alloc 10 4, Alloc 8 8, Fill 0 [1, 2, 3], Alloc 40 16] ([], a, h) = Some (gs, a', h')
    \<and> sorted_wrt apart gs \<and> cb_arena_check_health h' a' = Some True"
proof -
  have "\<forall>r \<in> set [Alloc 10 4, Alloc 8 8, Fill 0 [1, 2, 3], Alloc 40 16]. valid r"
    by (simp add: small_request valid_def [of "Fill _ _"])
  from arena_grants_disjoint [OF small_malloc_spec _ this small_create] show ?thesis
    by (subst small_create) (simp del: serve.simps, blast)
qed

text \<open>C36. What one allocation does.  A refusal changes nothing and is never OK, and a fixed arena always
  refuses with out-of-memory.  Otherwise the pointer is the requested bytes at an aligned offset of
  a block, above all that was used there, and the block keeps its size; only a fixed arena never
  takes a new block.\<close>

theorem arena_alloc_outcome:
  assumes "arena_ok h a pre cur post" "malloc_spec malloc" "request_ok sz align"
  shows "\<exists>r a' h'. cb_arena_alloc malloc h a sz align = Some (r, a', h')
    \<and> (case result_ptr r of
         None \<Rightarrow> result_info r \<noteq> CB_INFO_OK \<and> a' = a \<and> h' = h
           \<and> (arena_strategy a = CB_ARENA_FIXED \<longrightarrow> result_info r = CB_INFO_ARENA_OUT_OF_MEMORY)
       | Some (b, p) \<Rightarrow> result_info r = CB_INFO_OK \<and> 48 \<le> unat p \<and> asked_align align dvd (unat p - 48)
           \<and> arena_current a' = Some b
           \<and> (\<exists>blk. h' b = Some blk \<and> unat p + unat sz = 48 + unat (blk_used blk) \<and> blk_used blk \<le> blk_size blk
               \<and> (case h b of
                    None \<Rightarrow> arena_strategy a \<noteq> CB_ARENA_FIXED
                  | Some old \<Rightarrow> 48 + unat (blk_used old) \<le> unat p \<and> blk_size blk = blk_size old)))"
proof (cases rule: alloc_cases [OF assms(1,2,3)])
  case (1 info)
  then show ?thesis by auto
next
  case (2 blk off)
  have "wf_block blk" using arena_ok_block [OF assms(1), of cur] 2(2) by auto
  moreover have "unat off \<le> unat (blk_size blk)" using 2(5,6) by (simp add: word_le_nat_alt)
  ultimately have "unat (48 + off) = 48 + unat off" by (intro unat_tail) (auto simp: wf_block_def)
  then show ?thesis using 2 assms(1) by (auto simp: arena_ok_def)
next
  case (3 nb blk post')
  then have "blk_used blk = 0" using assms(1) by (simp add: arena_ok_def)
  then show ?thesis using 3 by auto
next
  case (4 nb n c)
  then show ?thesis by auto
qed

lemma arena_alloc_outcome_witness:
  "let (a, h) = cb_arena_create small_malloc Map.empty 32 CB_ARENA_LINEAR
   in \<exists>r a' h'. cb_arena_alloc small_malloc h a 10 4 = Some (r, a', h')"
proof -
  obtain b where "serving (snd (cb_arena_create small_malloc Map.empty 32 CB_ARENA_LINEAR))
      \<lparr>arena_info = CB_INFO_OK, arena_strategy = CB_ARENA_LINEAR, arena_initial_size = 32,
        arena_head = Some 0, arena_current = Some 0\<rparr> [] [] b []"
    using create_serving [OF small_malloc_spec small_create] by auto
  then show ?thesis
    using arena_alloc_outcome [OF _ small_malloc_spec, of _ _ "[]" b "[]" 10 4] small_request [of 10 4]
    by (subst small_create) (simp add: serving_def valid_def; blast)
qed

text \<open>C35. Destroying an arena gives back everything it took: after any requests without a reset, the
  heap is again the one before the arena was created, and the arena holds no pointer.\<close>

theorem arena_destroy_frees_all:
  assumes "malloc_spec malloc" "unat sz + 64 < 2 ^ 64" "\<forall>r \<in> set rs. valid r" "Reset \<notin> set rs"
    and "cb_arena_create malloc h0 sz strategy = (a0, h1)" "arena_info a0 = CB_INFO_OK"
    and "serve malloc rs ([], a0, h1) = Some (gs, a, h)"
  shows "cb_arena_destroy h a = Some (a\<lparr>arena_head := None, arena_current := None\<rparr>, h0)"
proof -
  obtain b where "serving h1 a0 [] [] b []" "tight h0 h1 [] b []" using create_serving [OF assms(1,5,2,6)] .
  moreover from this(1) have "kept malloc rs h0 ([], a0, h1) [] b []" by (rule serve_kept [OF assms(1) _ assms(3)])
  ultimately obtain pre cur post where r: "serving h a gs pre cur post" "tight h0 h pre cur post"
    using assms(4,7) unfolding kept_def by auto
  then have "chain h (arena_head a) (pre @ [cur])" "distinct (pre @ [cur])"
    by (simp_all add: serving_def arena_ok_def tight_def)
  from destroy_chain [OF this] show ?thesis using r(2) by (simp add: cb_arena_destroy_def tight_def)
qed

lemma arena_destroy_frees_all_witness:
  "let (a, h) = cb_arena_create small_malloc Map.empty 32 CB_ARENA_LINEAR
   in \<exists>gs a' h' a''. serve small_malloc [Alloc 10 4, Alloc 40 16] ([], a, h) = Some (gs, a', h')
    \<and> cb_arena_destroy h' a' = Some (a'', Map.empty)"
proof -
  have v: "\<forall>r \<in> set [Alloc 10 4, Alloc 40 16]. valid r" by (simp add: small_request)
  obtain b where "serving (snd (cb_arena_create small_malloc Map.empty 32 CB_ARENA_LINEAR))
      \<lparr>arena_info = CB_INFO_OK, arena_strategy = CB_ARENA_LINEAR, arena_initial_size = 32,
        arena_head = Some 0, arena_current = Some 0\<rparr> [] [] b []"
    using create_serving [OF small_malloc_spec small_create] by auto
  from serve_kept [OF small_malloc_spec this v] obtain gs a h where s: "serve small_malloc [Alloc 10 4, Alloc 40 16] ([], \<lparr>arena_info = CB_INFO_OK, arena_strategy = CB_ARENA_LINEAR,
        arena_initial_size = 32, arena_head = Some 0, arena_current = Some 0\<rparr>,
        snd (cb_arena_create small_malloc Map.empty 32 CB_ARENA_LINEAR)) = Some (gs, a, h)"
    unfolding kept_def by blast
  have "cb_arena_destroy h a = Some (a\<lparr>arena_head := None, arena_current := None\<rparr>, Map.empty)"
    by (rule arena_destroy_frees_all [OF small_malloc_spec _ v _ small_create _ s]) simp_all
  then show ?thesis using s by (subst small_create) (unfold Let_def prod.case, blast)
qed

text \<open>C40. A reset arena can lose blocks: when an allocation fits neither the current block nor the one
  behind it and a new block is taken, every block that was behind the current one leaves the
  chain, so that destroying the arena leaves it allocated.\<close>

theorem arena_growth_after_reset_leaks:
  assumes "arena_ok h a pre cur post" "malloc_spec malloc" "request_ok sz align"
    and "cb_arena_alloc malloc h a sz align = Some (r, a', h')" "arena_current a' = Some nb" "h nb = None"
  shows "\<exists>a'' h''. cb_arena_destroy h' a' = Some (a'', h'') \<and> (\<forall>b \<in> set post. h'' b = h b \<and> h b \<noteq> None)"
proof (cases rule: alloc_cases [OF assms(1,2,3)])
  case (4 nb' n c)
  let ?h = "h(cur \<mapsto> c\<lparr>blk_next := Some nb'\<rparr>, nb' \<mapsto> n\<lparr>blk_used := sz\<rparr>)"
  have a: "a' = a\<lparr>arena_current := Some nb'\<rparr>" "h' = ?h" using assms(4) 4(1) by simp_all
  have s: "serving h a [] pre cur post" using assms(1) by (simp add: serving_def)
  have "arena_ok ?h a' (pre @ [cur]) nb' []"
    using serving_fresh [OF s 4(2-5,7,8)] by (simp add: serving_def a)
  then have "cb__arena_block_destroy ?h (arena_head a') = Some (?h |` (- set (pre @ [cur, nb'])))"
    by (intro destroy_chain) (simp_all add: arena_ok_def)
  moreover have "?h |` (- set (pre @ [cur, nb'])) = h |` (- set (pre @ [cur, nb']))"
    by (auto simp: restrict_map_def)
  ultimately have d: "cb__arena_block_destroy h' (arena_head a') = Some (h |` (- set (pre @ [cur, nb'])))"
    by (simp add: a)
  have p: "h b \<noteq> None" "b \<notin> set (pre @ [cur])" if "b \<in> set post" for b
    using arena_ok_block [OF assms(1), of b] assms(1) that by (auto simp: arena_ok_def)
  then have "(h |` (- set (pre @ [cur, nb']))) b = h b" if "b \<in> set post" for b
    using that 4(3) by (auto simp: restrict_map_def)
  then show ?thesis using d p by (auto simp: cb_arena_destroy_def)
next
  case (2 blk off)
  then show ?thesis using assms(1,4-6) by (simp add: arena_ok_def)
next
  case 1
  then show ?thesis using assms(1,4-6) arena_ok_block [OF assms(1), of cur] by (auto simp: arena_ok_def)
next
  case (3 nb' blk post')
  then show ?thesis using assms(4-6) by simp
qed

text \<open>Two empty blocks, as after a reset.\<close>

definition empty_block :: "nat option \<Rightarrow> cb__arena_block_t" where
  "empty_block p = \<lparr>blk_size = 0, blk_used = 0, blk_data = 48, blk_next = p, blk_raw = replicate 64 CB__GUARD_BYTE\<rparr>"

definition two_blocks :: heap where
  "two_blocks = [0 \<mapsto> empty_block (Some 1), 1 \<mapsto> empty_block None]"

definition two_arena :: cb_arena_t where
  "two_arena = \<lparr>arena_info = CB_INFO_OK, arena_strategy = CB_ARENA_LINEAR, arena_initial_size = 0,
     arena_head = Some 0, arena_current = Some 0\<rparr>"

lemma two_blocks_ok: "arena_ok two_blocks two_arena [] 0 [1]"
  by (simp add: arena_ok_def two_blocks_def two_arena_def empty_block_def wf_block_def
      cb__arena_block_check_guards_def CB__GUARD_SIZE_def Let_def list_all_iff)

lemma arena_growth_after_reset_leaks_witness:
  "\<exists>r a' h' a'' h''. cb_arena_alloc small_malloc two_blocks two_arena 8 1 = Some (r, a', h')
    \<and> cb_arena_destroy h' a' = Some (a'', h'') \<and> h'' 1 \<noteq> None"
proof -
  have "List.find (\<lambda>b. two_blocks b = None) [0 ..< 8] = Some 2"
    by (simp add: two_blocks_def upt_rec)
  then obtain h2 n where m: "cb__arena_block_create small_malloc two_blocks 9 = (Some 2, h2)"
    "h2 2 = Some n" "h2 0 = two_blocks 0"
    by (simp add: cb__arena_block_create_def small_malloc_def sizeof_block_def CB__GUARD_SIZE_def Let_def)
  have b: "two_blocks 0 = Some (empty_block (Some 1))" "two_blocks 1 = Some (empty_block None)"
    by (simp_all add: two_blocks_def)
  have e: "blk_size (empty_block p) = 0" "blk_used (empty_block p) = 0" "blk_next (empty_block p) = p" for p
    by (simp_all add: empty_block_def)
  have "cb_arena_alloc small_malloc two_blocks two_arena 8 1
      = new_block_alloc small_malloc two_blocks two_arena 0 (empty_block None) 8 1"
    unfolding cb_arena_alloc_def by (simp add: two_arena_def b b [simplified] e Let_def)
  moreover obtain r a' h' where
    "new_block_alloc small_malloc two_blocks two_arena 0 (empty_block None) 8 1 = Some (r, a', h')" "arena_current a' = Some 2"
    unfolding new_block_alloc_def by (simp add: two_arena_def e m b take_from_def)
  ultimately have r: "cb_arena_alloc small_malloc two_blocks two_arena 8 1 = Some (r, a', h')"
    "arena_current a' = Some 2" by simp_all
  have "request_ok 8 1" using small_request [of 8 1] by (simp add: valid_def)
  from arena_growth_after_reset_leaks [OF two_blocks_ok small_malloc_spec this r] r(1) show ?thesis
    by (simp add: two_blocks_def) blast
qed

text \<open>The check that an allocation fits wraps: in a block that has been used, a request for the
  \<open>2^64\<close> complement of the bytes used is answered OK and marks the block unused, so that what was
  granted before is granted again.\<close>

theorem arena_alloc_size_wraps:
  assumes "arena_ok h a pre cur post" "h cur = Some blk" "0 < blk_used blk"
  shows "cb_arena_alloc malloc h a (- blk_used blk) 1
    = Some (\<lparr>result_info = CB_INFO_OK, result_ptr = Some (cur, 48 + blk_used blk)\<rparr>, a, h(cur \<mapsto> blk\<lparr>blk_used := 0\<rparr>))"
proof -
  have "wf_block blk" using arena_ok_block [OF assms(1), of cur] assms(2) by auto
  then show ?thesis
    using assms by (simp add: cb_arena_alloc_def arena_ok_def Let_def cb__align_forward_def take_from_def wf_block_def)
qed

lemma arena_alloc_size_wraps_witness:
  "\<exists>h a. cb_arena_alloc small_malloc h a (- 8) 1 = Some (\<lparr>result_info = CB_INFO_OK, result_ptr = Some (0, 56)\<rparr>, a,
    h(0 \<mapsto> (the (h 0))\<lparr>blk_used := 0\<rparr>))"
proof -
  let ?blk = "\<lparr>blk_size = 8, blk_used = 8, blk_data = 48, blk_next = None, blk_raw = replicate 72 CB__GUARD_BYTE\<rparr>"
  let ?a = "two_arena"
  have "arena_ok [0 \<mapsto> ?blk] ?a [] 0 []"
    by (simp add: arena_ok_def two_arena_def wf_block_def
        cb__arena_block_check_guards_def CB__GUARD_SIZE_def Let_def list_all_iff)
  from arena_alloc_size_wraps [OF this, of ?blk small_malloc] show ?thesis
    by (intro exI [of _ "[0 \<mapsto> ?blk]"] exI [of _ ?a]) simp
qed

end
