(* ===== verification/Alloc.thy ===== *)
theory Alloc
  imports Arena "HOL-Library.Multiset"
begin

text \<open>
  The allocation helpers \<open>cb__alloc\<close> and \<open>cb__free\<close> at the end of \<open>src/cbase_arena.c\<close>, which every
  allocating module goes through: an arena if there is one, otherwise \<open>malloc\<close> and \<open>free\<close>.  Plain
  allocations are numbered in order; whether one succeeds, and what bytes it holds, is a parameter.
  Freeing what is not allocated, which is undefined in C, sets \<open>mem_fault\<close>.
  The locale \<open>allocator\<close> is the contract that the clients rely on.
\<close>

section \<open>Definitions\<close>

record memory =
  mem_next :: nat
  mem_plain :: "nat \<Rightarrow> u8 list option"
  mem_blocks :: heap
  mem_fault :: bool

datatype pointer = Plain nat | In_block nat size_t

type_synonym plain_malloc = "memory \<Rightarrow> size_t \<Rightarrow> u8 list option"

definition malloc_plain :: "plain_malloc \<Rightarrow> size_t \<Rightarrow> memory \<Rightarrow> pointer option \<times> memory" where
  "malloc_plain avail sz m =
     (case avail m sz of
        None \<Rightarrow> (None, m)
      | Some raw \<Rightarrow>
          (Some (Plain (mem_next m)),
           m\<lparr>mem_next := Suc (mem_next m), mem_plain := (mem_plain m)(mem_next m \<mapsto> raw)\<rparr>))"

definition cb__alloc :: "plain_malloc \<Rightarrow> malloc \<Rightarrow> cb_arena_t option \<Rightarrow> size_t \<Rightarrow> size_t \<Rightarrow> memory
    \<Rightarrow> (pointer option \<times> cb_arena_t option \<times> memory) option" where
  "cb__alloc avail malloc arena sz align m =
     (case arena of
        None \<Rightarrow> (let (p, m) = malloc_plain avail sz m in Some (p, None, m))
      | Some a \<Rightarrow>
          (case cb_arena_alloc malloc (mem_blocks m) a sz align of
             None \<Rightarrow> None
           | Some (r, a, h) \<Rightarrow>
               let m = m\<lparr>mem_blocks := h\<rparr>
               in if result_info r \<noteq> CB_INFO_OK then Some (None, Some a, m)
                  else Some (map_option (\<lambda>(b, off). In_block b off) (result_ptr r), Some a, m)))"

definition cb__free :: "cb_arena_t option \<Rightarrow> pointer \<Rightarrow> memory \<Rightarrow> memory" where
  "cb__free arena ptr m =
     (case arena of
        None \<Rightarrow>
          (case ptr of
             Plain p \<Rightarrow>
               if mem_plain m p = None then m\<lparr>mem_fault := True\<rparr> else m\<lparr>mem_plain := (mem_plain m)(p := None)\<rparr>
           | In_block _ _ \<Rightarrow> m\<lparr>mem_fault := True\<rparr>)
      | Some _ \<Rightarrow> m)"

section \<open>The contract\<close>

text \<open>\<open>live\<close> is what is allocated; \<open>free\<close> is specified for live pointers only, so that a client whose
  live set is known has freed each pointer at most once.\<close>

locale allocator =
  fixes alloc :: "size_t \<Rightarrow> size_t \<Rightarrow> 's \<Rightarrow> 'p option \<times> 's"
    and free :: "'p \<Rightarrow> 's \<Rightarrow> 's"
    and live :: "'s \<Rightarrow> 'p set"
    and ok :: "'s \<Rightarrow> bool"
  assumes alloc_fails: "ok s \<Longrightarrow> alloc n align s = (None, s') \<Longrightarrow> ok s' \<and> live s' = live s"
    and alloc_gives: "ok s \<Longrightarrow> alloc n align s = (Some p, s') \<Longrightarrow> ok s' \<and> p \<notin> live s \<and> live s' = insert p (live s)"
    and free_live: "ok s \<Longrightarrow> p \<in> live s \<Longrightarrow> ok (free p s) \<and> live (free p s) = live s - {p}"
begin

lemma alloc_free: "ok s \<Longrightarrow> alloc n align s = (Some p, s') \<Longrightarrow> ok (free p s') \<and> live (free p s') = live s"
  using alloc_gives [of s n align p s'] free_live [of s' p] by auto

text \<open>Beside what was live at \<open>base\<close>, exactly the pointers \<open>ps\<close> are live, each listed once.\<close>

definition holds :: "'p set \<Rightarrow> 'p list \<Rightarrow> 's \<Rightarrow> bool" where
  "holds base ps s \<longleftrightarrow> ok s \<and> distinct ps \<and> set ps \<inter> base = {} \<and> live s = base \<union> set ps"

lemma holds_alloc: "holds base ps s \<Longrightarrow> alloc n align s = (Some p, s') \<Longrightarrow> holds base (p # ps) s'"
  using alloc_gives [of s n align p s'] by (auto simp: holds_def)

lemma holds_alloc_fails: "holds base ps s \<Longrightarrow> alloc n align s = (None, s') \<Longrightarrow> holds base ps s'"
  using alloc_fails [of s n align s'] by (auto simp: holds_def)

lemma holds_free: "holds base (p # ps) s \<Longrightarrow> holds base ps (free p s)"
  using free_live [of s p] by (auto simp: holds_def)

lemma holds_perm: "holds base ps s \<Longrightarrow> mset ps = mset qs \<Longrightarrow> holds base qs s"
  by (metis holds_def mset_eq_imp_distinct_iff mset_eq_setD)

lemma holds_free_in: "holds base ps s \<Longrightarrow> mset ps = add_mset p (mset qs) \<Longrightarrow> holds base qs (free p s)"
  by (rule holds_free, erule holds_perm) simp

end

text \<open>Without an arena the helpers are such an allocator.\<close>

definition heap_alloc :: "plain_malloc \<Rightarrow> size_t \<Rightarrow> size_t \<Rightarrow> memory \<Rightarrow> pointer option \<times> memory" where
  "heap_alloc avail sz align m =
     (case cb__alloc avail (\<lambda>_ _. None) None sz align m of None \<Rightarrow> (None, m) | Some (p, _, m) \<Rightarrow> (p, m))"

definition heap_live :: "memory \<Rightarrow> pointer set" where
  "heap_live m = Plain ` dom (mem_plain m)"

definition heap_ok :: "memory \<Rightarrow> bool" where
  "heap_ok m \<longleftrightarrow> \<not> mem_fault m \<and> (\<forall>p \<in> dom (mem_plain m). p < mem_next m)"

lemma heap_alloc_malloc: "heap_alloc avail sz align m = malloc_plain avail sz m"
  by (simp add: heap_alloc_def cb__alloc_def split_def Let_def)

interpretation heap_allocator: allocator "heap_alloc avail" "cb__free None" heap_live heap_ok
proof
  fix n align :: size_t and s s' :: memory and p :: pointer
  show "heap_ok s' \<and> heap_live s' = heap_live s" if "heap_ok s" "heap_alloc avail n align s = (None, s')"
    using that by (auto simp: heap_alloc_malloc malloc_plain_def split: option.splits)
  show "heap_ok s' \<and> p \<notin> heap_live s \<and> heap_live s' = insert p (heap_live s)"
    if "heap_ok s" "heap_alloc avail n align s = (Some p, s')"
    using that
    by (auto simp: heap_alloc_malloc malloc_plain_def heap_ok_def heap_live_def less_Suc_eq split: option.splits)
  show "heap_ok (cb__free None p s) \<and> heap_live (cb__free None p s) = heap_live s - {p}"
    if "heap_ok s" "p \<in> heap_live s"
    using that by (auto simp: cb__free_def heap_ok_def heap_live_def split: pointer.splits)
qed

text \<open>An allocator that does not fail.\<close>

definition never_fails :: "(size_t \<Rightarrow> size_t \<Rightarrow> 's \<Rightarrow> 'p option \<times> 's) \<Rightarrow> bool" where
  "never_fails alloc \<longleftrightarrow> (\<forall>n align s. fst (alloc n align s) \<noteq> None)"

lemma never_fails_gives: "never_fails alloc \<Longrightarrow> \<exists>p s'. alloc n align s = (Some p, s')"
  unfolding never_fails_def by (metis not_None_eq prod.collapse)

text \<open>In an arena, nothing is freed one by one.\<close>

lemma free_in_arena: "cb__free (Some a) p m = m"
  by (simp add: cb__free_def)

end
