(* ===== verification/Config.thy ===== *)
theory Config
  imports Info Alloc "HOL-Library.Char_ord"
begin

text \<open>
  The configuration parser of \<open>src/cbase_config.c\<close>.  Text is a list of characters, a C string the
  list of its bytes up to and including the terminating NUL.  The entries are the linked list from
  \<open>head\<close> to \<open>tail\<close>; every buffer an entry owns is kept with the pointer it was allocated at.  The
  operations take the allocator of the arena or of \<open>malloc\<close>, whichever the configuration uses, as
  the functions \<open>alloc\<close> and \<open>free\<close>.
\<close>

section \<open>Definitions\<close>

definition CB__CONFIG_LINE_MAX :: nat where "CB__CONFIG_LINE_MAX = 4096"
definition CB__CONFIG_FILE_MAX :: u64 where "CB__CONFIG_FILE_MAX = 16 * 1024 * 1024"

definition NUL :: char where "NUL = CHR 0x00"

record 'p cb__config_entry_t =
  entry_key :: string
  entry_value :: string
  entry_key_ptr :: 'p
  entry_value_ptr :: 'p
  entry_ptr :: 'p

record 'p cb_config_t =
  cfg_info :: cb_info_t
  cfg_error_line :: u32
  cfg_count :: u32
  cfg_entries :: "'p cb__config_entry_t list"

type_synonym ('p, 's) alloc = "size_t \<Rightarrow> size_t \<Rightarrow> 's \<Rightarrow> 'p option \<times> 's"
type_synonym ('p, 's) free = "'p \<Rightarrow> 's \<Rightarrow> 's"

subsection \<open>Small helpers\<close>

definition cb__config_is_space :: "char \<Rightarrow> bool" where
  "cb__config_is_space c \<longleftrightarrow> c = CHR '' '' \<or> c = CHR 0x09 \<or> c = CHR 0x0B \<or> c = CHR 0x0C"

definition cb__config_key_head_ok :: "char \<Rightarrow> bool" where
  "cb__config_key_head_ok c \<longleftrightarrow>
     CHR ''A'' \<le> c \<and> c \<le> CHR ''Z'' \<or> CHR ''a'' \<le> c \<and> c \<le> CHR ''z'' \<or> c = CHR ''_''"

definition cb__config_key_tail_ok :: "char \<Rightarrow> bool" where
  "cb__config_key_tail_ok c \<longleftrightarrow>
     (if cb__config_key_head_ok c then True
      else if CHR ''0'' \<le> c \<and> c \<le> CHR ''9'' then True
      else if c = CHR ''.'' \<or> c = CHR ''-'' then True
      else False)"

definition cb__config_key_valid :: "string \<Rightarrow> bool" where
  "cb__config_key_valid s =
     (if length s = 0 then False
      else if \<not> cb__config_key_head_ok (s ! 0) then False
      else list_all (\<lambda>i. cb__config_key_tail_ok (s ! i)) [1 ..< length s])"

definition cb__config_lower :: "char \<Rightarrow> char" where
  "cb__config_lower c =
     (if CHR ''A'' \<le> c \<and> c \<le> CHR ''Z''
      then char_of ((of_char c :: nat) - of_char CHR ''A'' + of_char CHR ''a'')
      else c)"

fun cb__config_ieq :: "string \<Rightarrow> string \<Rightarrow> bool" where
  "cb__config_ieq (a # as) (b # bs) =
     (if a \<noteq> NUL \<and> b \<noteq> NUL
      then (if cb__config_lower a \<noteq> b then False else cb__config_ieq as bs)
      else a = NUL \<and> b = NUL)"
| "cb__config_ieq _ _ = False"

definition cb__config_strndup :: "('p, 's) alloc \<Rightarrow> string \<Rightarrow> 's \<Rightarrow> ('p \<times> string) option \<times> 's" where
  "cb__config_strndup alloc s st =
     (case alloc (word_of_nat (length s) + 1) 1 st of
        (None, st) \<Rightarrow> (None, st)
      | (Some p, st) \<Rightarrow> (Some (p, s @ [NUL]), st))"

text \<open>\<open>strlen\<close> and \<open>strcmp\<close> see a buffer up to its first NUL.\<close>

definition c_str :: "string \<Rightarrow> string" where
  "c_str buf = takeWhile (\<lambda>c. c \<noteq> NUL) buf"

subsection \<open>Entries\<close>

fun cb__config_find_entry :: "'p cb__config_entry_t list \<Rightarrow> string \<Rightarrow> 'p cb__config_entry_t option" where
  "cb__config_find_entry [] key = None"
| "cb__config_find_entry (e # es) key =
     (if c_str (entry_key e) = key then Some e else cb__config_find_entry es key)"

text \<open>The search of \<open>cb__config_set\<close>, by length and \<open>memcmp\<close>: the position of the entry.\<close>

fun existing_at :: "'p cb__config_entry_t list \<Rightarrow> string \<Rightarrow> nat option" where
  "existing_at [] key = None"
| "existing_at (e # es) key =
     (let ek = length (c_str (entry_key e))
      in if ek = length key \<and> take (length key) (entry_key e) = key then Some 0
         else map_option Suc (existing_at es key))"

definition sizeof_entry :: size_t where "sizeof_entry = 24"

definition cb__config_set :: "('p, 's) alloc \<Rightarrow> ('p, 's) free \<Rightarrow> 'p cb_config_t \<Rightarrow> string \<Rightarrow> string \<Rightarrow> 's
    \<Rightarrow> cb_info_t \<times> 'p cb_config_t \<times> 's" where
  "cb__config_set alloc free cfg key val st =
     (let existing = existing_at (cfg_entries cfg) key
      in case cb__config_strndup alloc val st of
           (None, st) \<Rightarrow> (CB_INFO_CONFIG_ALLOC_FAILED, cfg, st)
         | (Some (vp, new_value), st) \<Rightarrow>
             (case existing of
                Some i \<Rightarrow>
                  let e = cfg_entries cfg ! i;
                      st = free (entry_value_ptr e) st
                  in (CB_INFO_OK,
                      cfg\<lparr>cfg_entries := (cfg_entries cfg)[i := e\<lparr>entry_value := new_value, entry_value_ptr := vp\<rparr>]\<rparr>, st)
              | None \<Rightarrow>
                  (case cb__config_strndup alloc key st of
                     (None, st) \<Rightarrow> (CB_INFO_CONFIG_ALLOC_FAILED, cfg, free vp st)
                   | (Some (kp, new_key), st) \<Rightarrow>
                       (case alloc sizeof_entry 8 st of
                          (None, st) \<Rightarrow> (CB_INFO_CONFIG_ALLOC_FAILED, cfg, free vp (free kp st))
                        | (Some ep, st) \<Rightarrow>
                            let e = \<lparr>entry_key = new_key, entry_value = new_value, entry_key_ptr = kp,
                                  entry_value_ptr = vp, entry_ptr = ep\<rparr>
                            in (CB_INFO_OK,
                                cfg\<lparr>cfg_entries := cfg_entries cfg @ [e], cfg_count := cfg_count cfg + 1\<rparr>, st)))))"

subsection \<open>Lines\<close>

definition strip_right :: "string \<Rightarrow> string" where
  "strip_right s = rev (dropWhile cb__config_is_space (rev s))"

text \<open>The switch on the character behind a backslash.\<close>

definition decode_escape :: "char \<Rightarrow> char option" where
  "decode_escape esc =
     (if esc = CHR 0x22 then Some (CHR 0x22)
      else if esc = CHR 0x5C then Some (CHR 0x5C)
      else if esc = CHR ''n'' then Some (CHR 0x0A)
      else if esc = CHR ''t'' then Some (CHR 0x09)
      else if esc = CHR ''r'' then Some (CHR 0x0D)
      else None)"

definition put_char :: "nat \<Rightarrow> string \<Rightarrow> char \<Rightarrow> string" where
  "put_char cap out c = (if length out < cap then out @ [c] else out)"

text \<open>The walk to the closing quote: what is left of the text, and what was decoded.\<close>

fun decode_quoted :: "nat \<Rightarrow> string \<Rightarrow> string \<Rightarrow> cb_info_t \<times> string" where
  "decode_quoted cap [] out = (CB_INFO_CONFIG_UNTERMINATED_STRING, out)"
| "decode_quoted cap (c # s) out =
     (if c = CHR 0x22
      then (case dropWhile cb__config_is_space s of
              [] \<Rightarrow> (CB_INFO_OK, out)
            | k # _ \<Rightarrow> if k \<noteq> CHR ''#'' \<and> k \<noteq> CHR '';'' then (CB_INFO_CONFIG_PARSE_ERROR, out) else (CB_INFO_OK, out))
      else if c = CHR 0x5C
      then (case s of
              [] \<Rightarrow> (CB_INFO_CONFIG_UNTERMINATED_STRING, out)
            | esc # s' \<Rightarrow>
                (case decode_escape esc of
                   None \<Rightarrow> (CB_INFO_CONFIG_BAD_ESCAPE, out)
                 | Some decoded \<Rightarrow> decode_quoted cap s' (put_char cap out decoded)))
      else decode_quoted cap s (put_char cap out c))"

definition cb__config_decode_value :: "string \<Rightarrow> nat \<Rightarrow> cb_info_t \<times> string" where
  "cb__config_decode_value s cap =
     (case dropWhile cb__config_is_space s of
        [] \<Rightarrow> (CB_INFO_OK, [])
      | c # s' \<Rightarrow>
          if c \<noteq> CHR 0x22
          then (CB_INFO_OK, take cap (strip_right (takeWhile (\<lambda>c. c \<noteq> CHR ''#'' \<and> c \<noteq> CHR '';'') (c # s'))))
          else decode_quoted cap s' [])"

definition cb__config_parse_line :: "('p, 's) alloc \<Rightarrow> ('p, 's) free \<Rightarrow> 'p cb_config_t \<Rightarrow> string \<Rightarrow> 's
    \<Rightarrow> cb_info_t \<times> 'p cb_config_t \<times> 's" where
  "cb__config_parse_line alloc free cfg line st =
     (case dropWhile cb__config_is_space line of
        [] \<Rightarrow> (CB_INFO_OK, cfg, st)
      | c # _ \<Rightarrow>
          let body = dropWhile cb__config_is_space line
          in if c = CHR ''#'' \<or> c = CHR '';'' then (CB_INFO_OK, cfg, st)
             else
               (case dropWhile (\<lambda>c. c \<noteq> CHR ''='') body of
                  [] \<Rightarrow> (CB_INFO_CONFIG_PARSE_ERROR, cfg, st)
                | _ # rhs \<Rightarrow>
                    let key = strip_right (takeWhile (\<lambda>c. c \<noteq> CHR ''='') body)
                    in if \<not> cb__config_key_valid key then (CB_INFO_CONFIG_BAD_KEY, cfg, st)
                       else
                         (case alloc (word_of_nat (length rhs) + 1) 1 st of
                            (None, st) \<Rightarrow> (CB_INFO_CONFIG_ALLOC_FAILED, cfg, st)
                          | (Some decoded, st) \<Rightarrow>
                              let (dinfo, val) = cb__config_decode_value rhs (length rhs)
                              in if dinfo \<noteq> CB_INFO_OK then (dinfo, cfg, free decoded st)
                                 else
                                   let (sinfo, cfg, st) = cb__config_set alloc free cfg key val st
                                   in (sinfo, cfg, free decoded st))))"

subsection \<open>Parse and destroy\<close>

fun free_loop :: "('p, 's) free \<Rightarrow> 'p cb__config_entry_t list \<Rightarrow> 's \<Rightarrow> 's" where
  "free_loop free [] st = st"
| "free_loop free (e # es) st =
     free_loop free es (free (entry_ptr e) (free (entry_value_ptr e) (free (entry_key_ptr e) st)))"

definition cb__config_free_entries :: "('p, 's) free \<Rightarrow> 'p cb_config_t \<Rightarrow> 's \<Rightarrow> 'p cb_config_t \<times> 's" where
  "cb__config_free_entries free cfg st =
     (cfg\<lparr>cfg_entries := [], cfg_count := 0\<rparr>, free_loop free (cfg_entries cfg) st)"

text \<open>A line without the one carriage return that may end it.\<close>

definition strip_cr :: "string \<Rightarrow> string" where
  "strip_cr line = (if line \<noteq> [] \<and> last line = CHR 0x0D then butlast line else line)"

definition fail_parse :: "('p, 's) free \<Rightarrow> 'p cb_config_t \<Rightarrow> cb_info_t \<Rightarrow> u32 \<Rightarrow> 's \<Rightarrow> 'p cb_config_t \<times> 's" where
  "fail_parse free cfg info line_no st =
     cb__config_free_entries free (cfg\<lparr>cfg_info := info, cfg_error_line := line_no\<rparr>) st"

text \<open>The loop over the lines: \<open>text\<close> is what is left of the input.\<close>

function parse_loop :: "('p, 's) alloc \<Rightarrow> ('p, 's) free \<Rightarrow> 'p cb_config_t \<Rightarrow> u32 \<Rightarrow> string \<Rightarrow> 's
    \<Rightarrow> 'p cb_config_t \<times> 's" where
  "parse_loop alloc free cfg line_no inp st =
     (let line = strip_cr (takeWhile (\<lambda>c. c \<noteq> CHR 0x0A) inp);
          line_no = line_no + 1
      in if inp = [] then (cfg, st)
         else if CB__CONFIG_LINE_MAX < length line
         then fail_parse free cfg CB_INFO_CONFIG_LINE_TOO_LONG line_no st
         else
           let (info, cfg, st) = cb__config_parse_line alloc free cfg line st
           in if info \<noteq> CB_INFO_OK then fail_parse free cfg info line_no st
              else
                (case dropWhile (\<lambda>c. c \<noteq> CHR 0x0A) inp of
                   [] \<Rightarrow> (cfg, st)
                 | _ # inp' \<Rightarrow> parse_loop alloc free cfg line_no inp' st))"
  by pat_completeness auto

termination
proof (relation "measure (\<lambda>(_, _, _, _, inp, _). length inp)", goal_cases)
  case (2 _ _ _ _ inp _ _ _ _ _ _ _ _ _ inp')
  then show ?case using length_dropWhile_le [of "\<lambda>c. c \<noteq> CHR 0x0A" inp] by simp
qed simp

declare parse_loop.simps [simp del]

definition empty_config :: "'p cb_config_t" where
  "empty_config = \<lparr>cfg_info = CB_INFO_OK, cfg_error_line = 0, cfg_count = 0, cfg_entries = []\<rparr>"

text \<open>The input is a null pointer or the characters behind one, of which \<open>len\<close> count.\<close>

definition cb_config_parse :: "('p, 's) alloc \<Rightarrow> ('p, 's) free \<Rightarrow> string option \<Rightarrow> nat \<Rightarrow> 's \<Rightarrow> 'p cb_config_t \<times> 's" where
  "cb_config_parse alloc free inp len st =
     (case inp of
        None \<Rightarrow>
          if 0 < len
          then (empty_config\<lparr>cfg_info := CB_INFO_CONFIG_PARSE_ERROR, cfg_error_line := 0\<rparr>, st)
          else (empty_config, st)
      | Some inp \<Rightarrow> parse_loop alloc free empty_config 0 (take len inp) st)"

text \<open>What the calls of \<open>stdio\<close> return for a file: whether it opens, whether the two seeks succeed, its
  size as told, and the bytes read.\<close>

record stdio_file =
  f_opens :: bool
  f_seek_end :: bool
  f_tell :: i64
  f_seek_set :: bool
  f_read :: string

text \<open>The streams of the process: how many were ever opened, those that are open, and whether a call was
  made on one that is not.  A stream is known by its number.\<close>

record stdio =
  io_opened :: nat
  io_open :: "nat set"
  io_fault :: bool

definition use_stream :: "nat \<Rightarrow> stdio \<Rightarrow> stdio" where
  "use_stream h io = (if h \<in> io_open io then io else io\<lparr>io_fault := True\<rparr>)"

definition fopen :: "stdio_file \<Rightarrow> stdio \<Rightarrow> nat option \<times> stdio" where
  "fopen f io =
     (if f_opens f
      then (Some (io_opened io), io\<lparr>io_opened := io_opened io + 1, io_open := insert (io_opened io) (io_open io)\<rparr>)
      else (None, io))"

definition fseek_end :: "stdio_file \<Rightarrow> nat \<Rightarrow> stdio \<Rightarrow> bool \<times> stdio" where
  "fseek_end f h io = (f_seek_end f, use_stream h io)"

definition ftell :: "stdio_file \<Rightarrow> nat \<Rightarrow> stdio \<Rightarrow> i64 \<times> stdio" where
  "ftell f h io = (f_tell f, use_stream h io)"

definition fseek_set :: "stdio_file \<Rightarrow> nat \<Rightarrow> stdio \<Rightarrow> bool \<times> stdio" where
  "fseek_set f h io = (f_seek_set f, use_stream h io)"

definition fread :: "stdio_file \<Rightarrow> nat \<Rightarrow> nat \<Rightarrow> stdio \<Rightarrow> string \<times> stdio" where
  "fread f h n io = (take n (f_read f), use_stream h io)"

definition fclose :: "nat \<Rightarrow> stdio \<Rightarrow> stdio" where
  "fclose h io = (use_stream h io)\<lparr>io_open := io_open io - {h}\<rparr>"

definition cb_config_parse_file :: "('p, 's) alloc \<Rightarrow> ('p, 's) free \<Rightarrow> stdio_file \<Rightarrow> stdio \<Rightarrow> 's
    \<Rightarrow> 'p cb_config_t \<times> stdio \<times> 's" where
  "cb_config_parse_file alloc free f io st =
     (case fopen f io of
        (None, io) \<Rightarrow> (empty_config\<lparr>cfg_info := CB_INFO_CONFIG_FILE_OPEN_FAILED\<rparr>, io, st)
      | (Some h, io) \<Rightarrow>
          let (sought, io) = fseek_end f h io
          in if \<not> sought then (empty_config\<lparr>cfg_info := CB_INFO_CONFIG_FILE_OPEN_FAILED\<rparr>, fclose h io, st)
          else let (raw_sz, io) = ftell f h io
          in if raw_sz <s 0 then (empty_config\<lparr>cfg_info := CB_INFO_CONFIG_FILE_OPEN_FAILED\<rparr>, fclose h io, st)
          else if CB__CONFIG_FILE_MAX < raw_sz
          then (empty_config\<lparr>cfg_info := CB_INFO_CONFIG_FILE_TOO_LARGE\<rparr>, fclose h io, st)
          else let (sought, io) = fseek_set f h io
          in if \<not> sought then (empty_config\<lparr>cfg_info := CB_INFO_CONFIG_FILE_OPEN_FAILED\<rparr>, fclose h io, st)
          else let sz = raw_sz
          in (case alloc (if 0 < sz then sz else 1) 1 st of
               (None, st) \<Rightarrow> (empty_config\<lparr>cfg_info := CB_INFO_CONFIG_ALLOC_FAILED\<rparr>, fclose h io, st)
             | (Some buf, st) \<Rightarrow>
                 let (got, io) = (if 0 < sz then fread f h (unat sz) io else ([], io));
                     io = fclose h io
                 in if length got \<noteq> unat sz
                    then (empty_config\<lparr>cfg_info := CB_INFO_CONFIG_FILE_OPEN_FAILED\<rparr>, io, free buf st)
                    else let (cfg, st) = cb_config_parse alloc free (Some got) (unat sz) st
                    in (cfg, io, free buf st)))"

definition cb_config_destroy :: "('p, 's) free \<Rightarrow> 'p cb_config_t \<Rightarrow> 's \<Rightarrow> 'p cb_config_t \<times> 's" where
  "cb_config_destroy free cfg st =
     (let (cfg, st) = cb__config_free_entries free cfg st
      in (cfg\<lparr>cfg_info := CB_INFO_OK, cfg_error_line := 0\<rparr>, st))"

subsection \<open>Lookup\<close>

text \<open>The buffer of the value, or a null pointer; null arguments are \<open>None\<close>.\<close>

definition cb_config_get :: "'p cb_config_t option \<Rightarrow> string option \<Rightarrow> string option" where
  "cb_config_get cfg key =
     (case (cfg, key) of
        (Some cfg, Some key) \<Rightarrow> map_option entry_value (cb__config_find_entry (cfg_entries cfg) key)
      | _ \<Rightarrow> None)"

definition is_digit :: "char \<Rightarrow> bool" where
  "is_digit c \<longleftrightarrow> CHR ''0'' \<le> c \<and> c \<le> CHR ''9''"

text \<open>The loop over the digits up to the NUL, with the guard against overflow.\<close>

fun digits_loop :: "u64 \<Rightarrow> u64 \<Rightarrow> string \<Rightarrow> u64 option" where
  "digits_loop limit acc [] = None"
| "digits_loop limit acc (c # s) =
     (if c = NUL then Some acc
      else if \<not> is_digit c then None
      else
        let d = (of_char c :: u64) - of_char CHR ''0''
        in if (limit - d) div 10 < acc then None
           else digits_loop limit (acc * 10 + d) s)"

definition cb__config_parse_i64 :: "string \<Rightarrow> i64 option" where
  "cb__config_parse_i64 s =
     (if s ! 0 = NUL then None
      else
        let neg = (s ! 0 = CHR ''-'');
            s = (if neg then tl s else s)
        in if neg \<and> s ! 0 = NUL then None
           else if \<not> is_digit (s ! 0) then None
           else
             let limit = (if neg then 0x7FFFFFFFFFFFFFFF + 1 else 0x7FFFFFFFFFFFFFFF)
             in case digits_loop limit 0 s of
                  None \<Rightarrow> None
                | Some acc \<Rightarrow>
                    Some (if neg
                          then (if acc = 0x7FFFFFFFFFFFFFFF + 1 then 0x8000000000000000 else - acc)
                          else acc))"

definition cb__config_parse_u64 :: "string \<Rightarrow> u64 option" where
  "cb__config_parse_u64 s =
     (if s ! 0 = NUL then None
      else if \<not> is_digit (s ! 0) then None
      else digits_loop (- 1) 0 s)"

definition cb__config_parse_bool :: "string \<Rightarrow> bool option" where
  "cb__config_parse_bool s =
     (if cb__config_ieq s (''true'' @ [NUL]) \<or> cb__config_ieq s (''yes'' @ [NUL])
       \<or> cb__config_ieq s (''on'' @ [NUL]) \<or> cb__config_ieq s (''1'' @ [NUL])
      then Some True
      else if cb__config_ieq s (''false'' @ [NUL]) \<or> cb__config_ieq s (''no'' @ [NUL])
       \<or> cb__config_ieq s (''off'' @ [NUL]) \<or> cb__config_ieq s (''0'' @ [NUL])
      then Some False
      else None)"

definition cb_config_get_i64 :: "'p cb_config_t option \<Rightarrow> string option \<Rightarrow> i64 \<Rightarrow> cb_info_t \<times> i64" where
  "cb_config_get_i64 cfg key fallback =
     (case cb_config_get cfg key of
        None \<Rightarrow> (CB_INFO_CONFIG_KEY_NOT_FOUND, fallback)
      | Some s \<Rightarrow>
          (case cb__config_parse_i64 s of
             None \<Rightarrow> (CB_INFO_CONFIG_BAD_INT, fallback)
           | Some v \<Rightarrow> (CB_INFO_OK, v)))"

definition cb_config_get_u64 :: "'p cb_config_t option \<Rightarrow> string option \<Rightarrow> u64 \<Rightarrow> cb_info_t \<times> u64" where
  "cb_config_get_u64 cfg key fallback =
     (case cb_config_get cfg key of
        None \<Rightarrow> (CB_INFO_CONFIG_KEY_NOT_FOUND, fallback)
      | Some s \<Rightarrow>
          (case cb__config_parse_u64 s of
             None \<Rightarrow> (CB_INFO_CONFIG_BAD_INT, fallback)
           | Some v \<Rightarrow> (CB_INFO_OK, v)))"

definition cb_config_get_bool :: "'p cb_config_t option \<Rightarrow> string option \<Rightarrow> bool \<Rightarrow> cb_info_t \<times> bool" where
  "cb_config_get_bool cfg key fallback =
     (case cb_config_get cfg key of
        None \<Rightarrow> (CB_INFO_CONFIG_KEY_NOT_FOUND, fallback)
      | Some s \<Rightarrow>
          (case cb__config_parse_bool s of
             None \<Rightarrow> (CB_INFO_CONFIG_BAD_BOOL, fallback)
           | Some v \<Rightarrow> (CB_INFO_OK, v)))"

end
