(* ===== verification/Config_Numbers.thy ===== *)
theory Config_Numbers
  imports Config
begin

text \<open>
  The typed getters of \<open>src/cbase_config.c\<close>: the digit loop with its guard against overflow computes
  the decimal value, if it is within the limit, and the signed, unsigned and boolean getters accept
  exactly the texts that the header describes.
\<close>

section \<open>Decimal numbers\<close>

fun dec :: "nat \<Rightarrow> string \<Rightarrow> nat" where
  "dec acc [] = acc"
| "dec acc (c # s) = dec (acc * 10 + (of_char c - 48)) s"

lemma dec_ge: "acc \<le> dec acc s"
proof (induction s arbitrary: acc)
  case (Cons c s)
  have "acc \<le> acc * 10 + (of_char c - 48)" by simp
  then show ?case using Cons [of "acc * 10 + (of_char c - 48)"] by (simp del: of_nat_of_char)
qed simp

lemma is_digit_iff: "is_digit c \<longleftrightarrow> 48 \<le> (of_char c :: nat) \<and> (of_char c :: nat) \<le> 57"
  by (simp add: is_digit_def less_eq_char_def)

lemma NUL_char: "of_char NUL = (0 :: nat)"
  by (simp add: NUL_def)

lemma digit_not_NUL: "is_digit c \<Longrightarrow> c \<noteq> NUL"
  by (auto simp: is_digit_iff NUL_char)

lemma of_char_word: "unat (of_char c :: u64) = of_char c"
proof -
  have "(of_char c :: nat) < 2 ^ 64" by (rule less_trans [OF nat_of_char_less_256]) simp
  then have "unat (word_of_nat (of_char c) :: u64) = of_char c" by (simp add: unat_of_nat mod_less)
  then show ?thesis by (simp add: of_nat_of_char)
qed

lemma digit_value:
  assumes "is_digit c"
  shows "unat ((of_char c :: u64) - of_char CHR ''0'') = of_char c - 48" "of_char c - 48 \<le> (9 :: nat)"
proof -
  have c: "48 \<le> (of_char c :: nat)" "(of_char c :: nat) \<le> 57" using assms by (simp_all add: is_digit_iff)
  have z: "unat (of_char CHR ''0'' :: u64) = 48" unfolding of_char_word by simp
  have "(of_char CHR ''0'' :: u64) \<le> of_char c" using c(1) by (simp only: word_le_nat_alt of_char_word) simp
  then show "unat ((of_char c :: u64) - of_char CHR ''0'') = of_char c - 48"
    by (simp only: unat_sub of_char_word) simp
  show "of_char c - 48 \<le> (9 :: nat)" using c by simp
qed

text \<open>The guard \<open>acc > (limit - d) / 10\<close> is exactly the overflow of the limit.\<close>

lemma overflow_guard:
  fixes limit acc d :: u64
  assumes "unat d \<le> 9" "9 \<le> unat limit"
  shows "(limit - d) div 10 < acc \<longleftrightarrow> unat limit < unat acc * 10 + unat d"
    "\<not> (limit - d) div 10 < acc \<Longrightarrow> unat (acc * 10 + d) = unat acc * 10 + unat d"
proof -
  have "d \<le> limit" using assms by (simp add: word_le_nat_alt)
  then have "unat ((limit - d) div 10) = (unat limit - unat d) div 10" by (simp add: unat_div unat_sub)
  then have "(limit - d) div 10 < acc \<longleftrightarrow> (unat limit - unat d) div 10 < unat acc" by (simp add: word_less_nat_alt)
  also have "\<dots> \<longleftrightarrow> unat limit - unat d < unat acc * 10" by (rule div_less_iff_less_mult) simp
  also have "\<dots> \<longleftrightarrow> unat limit < unat acc * 10 + unat d" using assms by linarith
  finally show g: "(limit - d) div 10 < acc \<longleftrightarrow> unat limit < unat acc * 10 + unat d" .
  show "unat (acc * 10 + d) = unat acc * 10 + unat d" if "\<not> (limit - d) div 10 < acc"
    using that unsigned_less [where 'a = nat, of limit] unfolding g by (simp add: unat_word_ariths)
qed

lemma digits_loop_dec:
  assumes "NUL \<notin> set s" "9 \<le> unat limit" "unat acc \<le> unat limit"
  shows "digits_loop limit acc (s @ NUL # rest)
    = (if list_all is_digit s \<and> dec (unat acc) s \<le> unat limit then Some (word_of_nat (dec (unat acc) s)) else None)"
  using assms(1,3)
proof (induction s arbitrary: acc)
  case (Cons c s)
  show ?case
  proof (cases "is_digit c")
    case True
    define d where "d = (of_char c :: u64) - of_char CHR ''0''"
    have d: "unat d = of_char c - 48" "unat d \<le> 9" using digit_value [OF True] by (simp_all add: d_def)
    note g = overflow_guard [OF d(2) assms(2), of acc]
    show ?thesis
    proof (cases "(limit - d) div 10 < acc")
      case True
      have "unat acc * 10 + (of_char c - 48) \<le> dec (unat acc * 10 + (of_char c - 48)) s" by (rule dec_ge)
      then have "\<not> dec (unat acc) (c # s) \<le> unat limit" using True g(1) d(1) by simp
      moreover have "c \<noteq> NUL" using Cons.prems(1) by auto
      moreover from this have "digits_loop limit acc ((c # s) @ NUL # rest) = None"
        using True by (simp add: d_def)
      ultimately show ?thesis by (simp del: digits_loop.simps)
    next
      case False
      have u: "unat (acc * 10 + d) = unat acc * 10 + (of_char c - 48)" "unat (acc * 10 + d) \<le> unat limit"
        using g(1) False g(2) [OF False] d(1) by simp_all
      have "digits_loop limit acc ((c # s) @ NUL # rest) = digits_loop limit (acc * 10 + d) (s @ NUL # rest)"
        using \<open>is_digit c\<close> digit_not_NUL False by (auto simp: d_def Let_def)
      then show ?thesis using Cons.IH [OF _ u(2)] Cons.prems(1) \<open>is_digit c\<close> by (simp add: u(1))
    qed
  next
    case False
    then show ?thesis using Cons.prems(1) by auto
  qed
qed simp

section \<open>What the getters accept\<close>

text \<open>An optional minus sign and at least one digit.\<close>

definition decimal :: "string \<Rightarrow> int option" where
  "decimal s =
     (let neg = (s \<noteq> [] \<and> hd s = CHR ''-''); ds = (if neg then tl s else s)
      in if ds \<noteq> [] \<and> list_all is_digit ds then Some (if neg then - int (dec 0 ds) else int (dec 0 ds)) else None)"

lemma parse_i64_decimal:
  assumes "NUL \<notin> set s"
  shows "cb__config_parse_i64 (s @ [NUL])
    = (case decimal s of Some n \<Rightarrow> if - (2 ^ 63) \<le> n \<and> n < 2 ^ 63 then Some (word_of_int n) else None | None \<Rightarrow> None)"
proof -
  define neg where "neg \<longleftrightarrow> s \<noteq> [] \<and> hd s = CHR ''-''"
  define ds where "ds = (if neg then tl s else s)"
  define limit where "limit = (if neg then 0x7FFFFFFFFFFFFFFF + 1 else 0x7FFFFFFFFFFFFFFF :: u64)"
  have ul: "unat limit = (if neg then 2 ^ 63 else 2 ^ 63 - 1)" by (simp add: limit_def)
  have nul: "NUL \<notin> set ds" using assms by (cases s) (auto simp: ds_def)
  have tail: "(if neg then tl (s @ [NUL]) else s @ [NUL]) = ds @ [NUL]"
    by (auto simp: ds_def neg_def)
  have minus: "CHR ''-'' \<noteq> NUL" by (simp add: NUL_def)
  have d: "decimal s = (if ds \<noteq> [] \<and> list_all is_digit ds then Some (if neg then - int (dec 0 ds) else int (dec 0 ds)) else None)"
    by (simp add: decimal_def Let_def neg_def [symmetric] ds_def)
  have h: "((s @ [NUL]) ! 0 = CHR ''-'') = neg" using minus by (cases s) (auto simp: neg_def)
  have e: "((s @ [NUL]) ! 0 = NUL) = (s = [])" using assms by (cases s) auto
  have e2: "((ds @ [NUL]) ! 0 = NUL) = (ds = [])" using nul by (cases ds) auto
  have dl: "digits_loop limit 0 (ds @ [NUL])
      = (if list_all is_digit ds \<and> dec 0 ds \<le> unat limit then Some (word_of_nat (dec 0 ds)) else None)"
    using digits_loop_dec [OF nul, of limit 0 "[]"] ul by simp
  have p: "cb__config_parse_i64 (s @ [NUL]) =
      (if s = [] \<or> ds = [] \<or> \<not> is_digit ((ds @ [NUL]) ! 0) then None
       else case digits_loop limit 0 (ds @ [NUL]) of None \<Rightarrow> None
        | Some acc \<Rightarrow> Some (if neg then (if acc = 0x7FFFFFFFFFFFFFFF + 1 then 0x8000000000000000 else - acc) else acc))"
    unfolding cb__config_parse_i64_def e h Let_def tail e2 limit_def [symmetric] by (auto simp: ds_def)
  have m: "(if w = 0x7FFFFFFFFFFFFFFF + 1 then 0x8000000000000000 else - w) = - (w :: i64)" for w
    by auto
  show ?thesis
  proof (cases "ds \<noteq> [] \<and> list_all is_digit ds")
    case True
    then have "s \<noteq> []" by (auto simp: ds_def split: if_splits)
    moreover have "is_digit ((ds @ [NUL]) ! 0)" using True by (cases ds) simp_all
    ultimately have "cb__config_parse_i64 (s @ [NUL]) =
        (if dec 0 ds \<le> unat limit
         then Some (if neg then - word_of_nat (dec 0 ds) else word_of_nat (dec 0 ds)) else None)"
      unfolding p dl m using True by auto
    then show ?thesis unfolding d using True ul by (simp add: of_nat_less_iff [symmetric]) 
  next
    case False
    then show ?thesis unfolding d p dl by auto
  qed
qed

lemma parse_u64_decimal:
  assumes "NUL \<notin> set s"
  shows "cb__config_parse_u64 (s @ [NUL])
    = (if s \<noteq> [] \<and> list_all is_digit s \<and> dec 0 s < 2 ^ 64 then Some (word_of_nat (dec 0 s)) else None)"
proof (cases s)
  case (Cons c s')
  have l: "unat (- 1 :: u64) = 2 ^ 64 - 1" by (simp add: unsigned_minus_1_eq_mask mask_eq_exp_minus_1)
  have "digits_loop (- 1) 0 (s @ [NUL])
      = (if list_all is_digit s \<and> dec 0 s \<le> 2 ^ 64 - 1 then Some (word_of_nat (dec 0 s)) else None)"
    using digits_loop_dec [OF assms, of "- 1" 0 "[]"] unfolding l by simp
  moreover have "c \<noteq> NUL" using assms Cons by auto
  ultimately show ?thesis using Cons by (auto simp: cb__config_parse_u64_def)
qed (simp add: cb__config_parse_u64_def)

lemma ieq_lower: "NUL \<notin> set s \<Longrightarrow> NUL \<notin> set lit \<Longrightarrow>
    cb__config_ieq (s @ [NUL]) (lit @ [NUL]) \<longleftrightarrow> map cb__config_lower s = lit"
proof (induction s arbitrary: lit)
  case Nil
  then show ?case by (cases lit) auto
next
  case (Cons c s)
  then show ?case by (cases lit) auto
qed

text \<open>Printing a number, for the round trip.\<close>

fun show_nat :: "nat \<Rightarrow> string" where
  "show_nat n = (if n < 10 then [char_of (48 + n)] else show_nat (n div 10) @ [char_of (48 + n mod 10)])"

declare show_nat.simps [simp del]

definition show_int :: "int \<Rightarrow> string" where
  "show_int n = (if n < 0 then CHR ''-'' # show_nat (nat (- n)) else show_nat (nat n))"

lemma dec_snoc: "dec acc (s @ [c]) = dec acc s * 10 + (of_char c - 48)"
  by (induction s arbitrary: acc) simp_all

lemma show_nat_dec: "dec 0 (show_nat n) = n \<and> list_all is_digit (show_nat n) \<and> show_nat n \<noteq> []"
proof (induction n rule: show_nat.induct)
  case (1 n)
  have d: "of_char (char_of (48 + k)) = 48 + k" if "k < 10" for k :: nat using that by simp
  show ?case
  proof (cases "n < 10")
    case True
    then show ?thesis using d [OF True] by (simp add: show_nat.simps [of n] is_digit_iff del: of_char_of)
  next
    case False
    have m: "n mod 10 < 10" by simp
    from d [OF this] have "is_digit (char_of (48 + n mod 10))" using m by (simp add: is_digit_iff del: of_char_of)
    then show ?thesis
      using d [OF m] False 1 by (subst (1 2 3) show_nat.simps) (simp add: dec_snoc del: of_char_of)
  qed
qed

lemma decimal_show: "decimal (show_int n) = Some n"
proof (cases "n < 0")
  case True
  then show ?thesis using show_nat_dec [of "nat (- n)"] by (simp add: decimal_def show_int_def Let_def)
next
  case False
  obtain c s where c: "show_nat (nat n) = c # s" using show_nat_dec [of "nat n"] by (cases "show_nat (nat n)") auto
  then have "is_digit c" using show_nat_dec [of "nat n"] by simp
  then have "c \<noteq> CHR ''-''" by (auto simp: is_digit_def)
  then show ?thesis using False show_nat_dec [of "nat n"] c by (simp add: decimal_def show_int_def Let_def)
qed

lemma show_no_NUL: "NUL \<notin> set (show_int n)"
proof -
  have "NUL \<notin> set s" if "list_all is_digit s" for s
    using that digit_not_NUL by (auto simp: list_all_iff)
  moreover have "CHR ''-'' \<noteq> NUL" by (simp add: NUL_def)
  ultimately show ?thesis using show_nat_dec by (auto simp: show_int_def)
qed

section \<open>Properties\<close>

text \<open>The integer getters are exact.  On a text without NUL, the signed parser accepts an optional
  minus sign and digits, and answers the decimal value if and only if it fits 64 bits; the unsigned
  one accepts digits and answers the value if and only if it is below \<open>2^64\<close>; and every number
  printed in decimal is read back.\<close>

theorem config_integers_exact:
  assumes "NUL \<notin> set s"
  shows "cb__config_parse_i64 (s @ [NUL])
      = (case decimal s of Some n \<Rightarrow> if - (2 ^ 63) \<le> n \<and> n < 2 ^ 63 then Some (word_of_int n) else None | None \<Rightarrow> None)
    \<and> cb__config_parse_u64 (s @ [NUL])
      = (if s \<noteq> [] \<and> list_all is_digit s \<and> dec 0 s < 2 ^ 64 then Some (word_of_nat (dec 0 s)) else None)
    \<and> cb__config_parse_i64 (show_int (sint v) @ [NUL]) = Some v
    \<and> cb__config_parse_u64 (show_nat (unat w) @ [NUL]) = Some w"
proof -
  have "- (2 ^ 63) \<le> sint v \<and> sint v < 2 ^ 63" using sint64_range [of v] by simp
  then have i: "cb__config_parse_i64 (show_int (sint v) @ [NUL]) = Some v"
    unfolding parse_i64_decimal [OF show_no_NUL] decimal_show by simp
  have "NUL \<notin> set (show_nat (unat w))"
    using show_nat_dec [of "unat w"] digit_not_NUL by (auto simp: list_all_iff)
  moreover have "unat w < 2 ^ 64" using unsigned_less [where 'a = nat, of w] by simp
  ultimately have "cb__config_parse_u64 (show_nat (unat w) @ [NUL]) = Some w"
    using show_nat_dec [of "unat w"] by (simp add: parse_u64_decimal)
  then show ?thesis using parse_i64_decimal [OF assms] parse_u64_decimal [OF assms] i by blast
qed

lemma config_integers_exact_witness:
  "cb__config_parse_i64 (''-9223372036854775808'' @ [NUL]) = Some 0x8000000000000000
    \<and> cb__config_parse_u64 (''18446744073709551616'' @ [NUL]) = None"
proof -
  have n: "NUL \<notin> set ''-9223372036854775808''" "NUL \<notin> set ''18446744073709551616''"
    by (simp_all add: NUL_def)
  have d: "decimal ''-9223372036854775808'' = Some (- 9223372036854775808)"
    "dec 0 ''18446744073709551616'' = 18446744073709551616"
    by (simp_all add: decimal_def is_digit_def)
  show ?thesis
    using config_integers_exact [OF n(1), of 0 0] config_integers_exact [OF n(2), of 0 0] unfolding d by simp
qed

text \<open>The boolean getter accepts, in any case of letters, exactly \<open>true\<close>, \<open>yes\<close>, \<open>on\<close> and \<open>1\<close>
  for true and \<open>false\<close>, \<open>no\<close>, \<open>off\<close> and \<open>0\<close> for false.\<close>

theorem config_booleans_exact:
  assumes "NUL \<notin> set s"
  shows "cb__config_parse_bool (s @ [NUL])
    = (if map cb__config_lower s \<in> {''true'', ''yes'', ''on'', ''1''} then Some True
       else if map cb__config_lower s \<in> {''false'', ''no'', ''off'', ''0''} then Some False else None)"
proof -
  have n: "NUL \<notin> set ''true''" "NUL \<notin> set ''yes''" "NUL \<notin> set ''on''" "NUL \<notin> set ''1''"
    "NUL \<notin> set ''false''" "NUL \<notin> set ''no''" "NUL \<notin> set ''off''" "NUL \<notin> set ''0''"
    by (simp_all add: NUL_def)
  show ?thesis
    unfolding cb__config_parse_bool_def n [THEN ieq_lower [OF assms]] by simp
qed

lemma config_booleans_exact_witness:
  "cb__config_parse_bool (''Yes'' @ [NUL]) = Some True \<and> cb__config_parse_bool (''2'' @ [NUL]) = None"
  using config_booleans_exact [of "''Yes''"] config_booleans_exact [of "''2''"]
  by (simp add: NUL_def cb__config_lower_def char_of_eq_iff take_bit_eq_mod)

end
