(* ===== verification/Config_Store.thy ===== *)
theory Config_Store
  imports Config "HOL-Library.Multiset"
begin

text \<open>
  The entries of a configuration as a map from keys to values, and the memory they own.  The locale
  \<open>kv_store\<close> is the contract between the line parser and \<open>cb__config_set\<close>; within the locale
  \<open>allocator\<close>, every operation of the parser is shown to free what it no longer owns.
\<close>

section \<open>The contract of the store\<close>

locale kv_store =
  fixes put :: "'m \<Rightarrow> 'k \<Rightarrow> 'v \<Rightarrow> 's \<Rightarrow> cb_info_t \<times> 'm \<times> 's"
    and lookup :: "'m \<Rightarrow> 'k \<Rightarrow> 'v option"
    and invar :: "'m \<Rightarrow> bool"
    and key_ok :: "'k \<Rightarrow> bool"
  assumes put_ok: "invar m \<Longrightarrow> key_ok k \<Longrightarrow> put m k v s = (CB_INFO_OK, m', s') \<Longrightarrow>
      invar m' \<and> lookup m' = (lookup m)(k \<mapsto> v)"
    and put_fails: "put m k v s = (info, m', s') \<Longrightarrow> info \<noteq> CB_INFO_OK \<Longrightarrow> m' = m"
begin

text \<open>A client that makes a sequence of updates, with whatever else in between.\<close>

inductive updates :: "'m \<Rightarrow> ('k \<times> 'v) list \<Rightarrow> 'm \<Rightarrow> bool" where
  none: "updates m [] m"
| more: "put m k v s = (CB_INFO_OK, m1, s1) \<Longrightarrow> updates m1 kvs m' \<Longrightarrow> updates m ((k, v) # kvs) m'"

text \<open>The later value wins.\<close>

lemma updates_lookup:
  assumes "updates m kvs m'" "invar m" "list_all (\<lambda>(k, v). key_ok k) kvs"
  shows "invar m' \<and> lookup m' = lookup m ++ map_of (rev kvs)"
  using assms
proof (induction rule: updates.induct)
  case (more m k v s m1 s1 kvs m')
  then have m1: "invar m1" "lookup m1 = (lookup m)(k \<mapsto> v)" using put_ok [OF _ _ more.hyps(1)] by simp_all
  have m': "invar m' \<and> lookup m' = lookup m1 ++ map_of (rev kvs)"
    by (rule more.IH) (use more.prems m1(1) in simp_all)
  have "lookup m1 ++ map_of (rev kvs) = lookup m ++ map_of (rev ((k, v) # kvs))"
    unfolding m1(2) by (simp add: map_add_assoc [symmetric])
  then show ?case using m' by simp
qed simp

end

section \<open>The entries\<close>

definition wf_entry :: "'p cb__config_entry_t \<Rightarrow> bool" where
  "wf_entry e \<longleftrightarrow> entry_key e = c_str (entry_key e) @ [NUL] \<and> (\<exists>v. entry_value e = v @ [NUL])"

definition key_of :: "'p cb__config_entry_t \<Rightarrow> string" where
  "key_of e = c_str (entry_key e)"

definition value_of :: "'p cb__config_entry_t \<Rightarrow> string" where
  "value_of e = butlast (entry_value e)"

definition config_map :: "'p cb_config_t \<Rightarrow> string \<Rightarrow> string option" where
  "config_map cfg = map_of (map (\<lambda>e. (key_of e, value_of e)) (cfg_entries cfg))"

definition wf_config :: "'p cb_config_t \<Rightarrow> bool" where
  "wf_config cfg \<longleftrightarrow> list_all wf_entry (cfg_entries cfg) \<and> distinct (map key_of (cfg_entries cfg))
     \<and> cfg_count cfg = word_of_nat (length (cfg_entries cfg))"

lemma c_str_NUL [simp]: "NUL \<notin> set s \<Longrightarrow> c_str (s @ NUL # rest) = s"
  by (induction s) (auto simp: c_str_def)

lemma existing_at_key:
  assumes "list_all wf_entry es" "NUL \<notin> set key"
  shows "(existing_at es key = None \<longleftrightarrow> key \<notin> key_of ` set es)
    \<and> (\<forall>i. existing_at es key = Some i \<longrightarrow> i < length es \<and> key_of (es ! i) = key)"
  using assms(1)
proof (induction es)
  case (Cons e es)
  have "entry_key e = key_of e @ [NUL]" using Cons.prems by (simp add: wf_entry_def key_of_def)
  then have "length (key_of e) = length key \<and> take (length key) (entry_key e) = key \<longleftrightarrow> key_of e = key" by auto
  then show ?case using Cons by (auto simp: key_of_def [symmetric] Let_def)
qed simp

lemma find_entry_map:
  "map_option value_of (cb__config_find_entry es key) = map_of (map (\<lambda>e. (key_of e, value_of e)) es) key"
  by (induction es) (simp_all add: key_of_def)

lemma find_entry_in: "cb__config_find_entry es key = Some e \<Longrightarrow> e \<in> set es"
  by (induction es) (auto split: if_splits)

text \<open>What \<open>cb_config_get\<close> returns is the buffer of the value.\<close>

lemma get_map:
  assumes "wf_config cfg"
  shows "cb_config_get (Some cfg) (Some key) = map_option (\<lambda>v. v @ [NUL]) (config_map cfg key)"
proof -
  have "value_of e @ [NUL] = entry_value e" if "e \<in> set (cfg_entries cfg)" for e
    using assms that by (auto simp: wf_config_def wf_entry_def value_of_def list_all_iff)
  then show ?thesis
    using find_entry_in [of "cfg_entries cfg" key]
    by (auto simp: cb_config_get_def config_map_def find_entry_map [symmetric] option.map_comp o_def
        intro!: option.map_cong)
qed

lemma map_of_update:
  assumes "distinct (map f es)" "i < length es" "f e = f (es ! i)"
  shows "map_of (map (\<lambda>e. (f e, g e)) (es[i := e])) = (map_of (map (\<lambda>e. (f e, g e)) es))(f e \<mapsto> g e)"
  using assms
proof (induction es arbitrary: i)
  case (Cons x es)
  show ?case
  proof (cases i)
    case (Suc j)
    then have "es ! j \<in> set es" "f e = f (es ! j)" using Cons.prems by simp_all
    then have "f e \<noteq> f x" using Cons.prems(1) by (metis distinct.simps(2) imageI list.set_map list.simps(9))
    then show ?thesis using Cons Suc by (auto simp: fun_eq_iff)
  qed (use Cons.prems in \<open>auto simp: fun_eq_iff\<close>)
qed simp

lemma map_of_append_new:
  "f e \<notin> f ` set es \<Longrightarrow> map_of (map (\<lambda>e. (f e, g e)) (es @ [e])) = (map_of (map (\<lambda>e. (f e, g e)) es))(f e \<mapsto> g e)"
  by (induction es) (auto simp: fun_upd_twist)

lemma strndup_buffer: "cb__config_strndup alloc s st = (Some (p, buf), st') \<Longrightarrow> buf = s @ [NUL]"
  by (auto simp: cb__config_strndup_def split: prod.splits option.splits)

text \<open>The ways out of \<open>cb__config_set\<close>.\<close>

lemma set_cases:
  assumes "cb__config_set alloc free cfg key val st = (info, cfg', st')"
  obtains (failed) "info = CB_INFO_CONFIG_ALLOC_FAILED" "cfg' = cfg"
  | (replaced) i vp where "info = CB_INFO_OK" "existing_at (cfg_entries cfg) key = Some i"
      "cfg' = cfg\<lparr>cfg_entries := (cfg_entries cfg)[i := (cfg_entries cfg ! i)\<lparr>entry_value := val @ [NUL], entry_value_ptr := vp\<rparr>]\<rparr>"
  | (appended) kp vp ep where "info = CB_INFO_OK" "existing_at (cfg_entries cfg) key = None"
      "cfg' = cfg\<lparr>cfg_entries := cfg_entries cfg @ [\<lparr>entry_key = key @ [NUL], entry_value = val @ [NUL],
         entry_key_ptr = kp, entry_value_ptr = vp, entry_ptr = ep\<rparr>], cfg_count := cfg_count cfg + 1\<rparr>"
proof (cases "cb__config_strndup alloc val st")
  case (Pair r st1)
  show thesis
  proof (cases r)
    case None
    then show thesis using assms Pair by (intro failed) (simp_all add: cb__config_set_def)
  next
    case (Some vb)
    then obtain vp where v: "cb__config_strndup alloc val st = (Some (vp, val @ [NUL]), st1)"
      using Pair strndup_buffer by (cases vb) fastforce
    show thesis
    proof (cases "existing_at (cfg_entries cfg) key")
      case (Some i)
      then show thesis using assms v by (intro replaced [of i vp]) (simp_all add: cb__config_set_def Let_def)
    next
      case none: None
      show thesis
      proof (cases "cb__config_strndup alloc key st1")
        case (Pair r2 st2)
        show thesis
        proof (cases r2)
          case None
          then show thesis using assms v none Pair by (intro failed) (simp_all add: cb__config_set_def)
        next
          case (Some kb)
          then obtain kp where k: "cb__config_strndup alloc key st1 = (Some (kp, key @ [NUL]), st2)"
            using Pair strndup_buffer by (cases kb) fastforce
          obtain e st3 where a: "alloc sizeof_entry 8 st2 = (e, st3)" by fastforce
          show thesis
          proof (cases e)
            case None
            then show thesis using assms v none k a by (intro failed) (simp_all add: cb__config_set_def)
          next
            case (Some ep)
            then show thesis
              using assms v none k a by (intro appended [of kp vp ep]) (simp_all add: cb__config_set_def Let_def)
          qed
        qed
      qed
    qed
  qed
qed

interpretation config_store: kv_store "cb__config_set alloc free" config_map wf_config "\<lambda>key. NUL \<notin> set key"
proof
  fix m m' :: "'b cb_config_t" and k v and s s' :: 'a
  assume wf: "wf_config m" and k: "NUL \<notin> set k" and set: "cb__config_set alloc free m k v s = (CB_INFO_OK, m', s')"
  let ?es = "cfg_entries m"
  have es: "list_all wf_entry ?es" "distinct (map key_of ?es)" using wf by (simp_all add: wf_config_def)
  note ex = existing_at_key [OF es(1) k]
  from set show "wf_config m' \<and> config_map m' = (config_map m)(k \<mapsto> v)"
  proof (cases rule: set_cases)
    case (replaced i vp)
    let ?e = "(?es ! i)\<lparr>entry_value := v @ [NUL], entry_value_ptr := vp\<rparr>"
    have i: "i < length ?es" "key_of (?es ! i) = k" using ex replaced(2) by simp_all
    have "wf_entry (?es ! i)" using es(1) i(1) by (simp add: list_all_length)
    then have e: "key_of ?e = k" "value_of ?e = v" "wf_entry ?e"
      using i(2) by (simp_all add: key_of_def value_of_def wf_entry_def)
    have "map key_of (?es[i := ?e]) = map key_of ?es"
      using i e(1) by (metis list_update_id map_update nth_map)
    moreover have "list_all wf_entry (?es[i := ?e])"
      using es(1) e(3) by (auto simp: list_all_iff dest!: set_update_subset_insert [THEN subsetD])
    ultimately have "wf_config m'" using wf by (simp add: wf_config_def replaced(3))
    moreover have "config_map m' = (config_map m)(k \<mapsto> v)"
      using map_of_update [OF es(2) i(1), of ?e value_of] e i(2) by (simp add: config_map_def replaced(3))
    ultimately show ?thesis by blast
  next
    case (appended kp vp ep)
    let ?e = "\<lparr>entry_key = k @ [NUL], entry_value = v @ [NUL], entry_key_ptr = kp, entry_value_ptr = vp, entry_ptr = ep\<rparr>"
    have e: "key_of ?e = k" "value_of ?e = v" "wf_entry ?e"
      using k by (simp_all add: key_of_def value_of_def wf_entry_def)
    have new: "key_of ?e \<notin> key_of ` set ?es" using ex appended(2) e(1) by simp
    then have "wf_config m'" using wf e(3) by (auto simp: wf_config_def appended(3))
    moreover have "config_map m' = (config_map m)(k \<mapsto> v)"
      using map_of_append_new [OF new, of value_of] e by (simp add: config_map_def appended(3))
    ultimately show ?thesis by blast
  qed simp
next
  fix m m' :: "'b cb_config_t" and k v info and s s' :: 'a
  assume "cb__config_set alloc free m k v s = (info, m', s')" "info \<noteq> CB_INFO_OK"
  then show "m' = m" by (cases rule: set_cases) simp_all
qed

section \<open>Memory\<close>

text \<open>What a configuration owns: three allocations per entry.\<close>

definition owned :: "'p cb__config_entry_t list \<Rightarrow> 'p list" where
  "owned es = concat (map (\<lambda>e. [entry_key_ptr e, entry_value_ptr e, entry_ptr e]) es)"

lemma owned_simps [simp]:
  "owned [] = []"
  "owned (e # es) = entry_key_ptr e # entry_value_ptr e # entry_ptr e # owned es"
  "owned (es @ es') = owned es @ owned es'"
  by (simp_all add: owned_def)

lemma owned_in: "e \<in> set es \<Longrightarrow> {entry_key_ptr e, entry_value_ptr e, entry_ptr e} \<subseteq> set (owned es)"
  by (auto simp: owned_def)

context allocator
begin

lemma holds_strndup:
  assumes "holds base ps s"
  shows "cb__config_strndup alloc str s = (Some (p, buf), s') \<Longrightarrow> holds base (p # ps) s'"
    "cb__config_strndup alloc str s = (None, s') \<Longrightarrow> holds base ps s'"
  using holds_alloc [OF assms] holds_alloc_fails [OF assms]
  by (auto simp: cb__config_strndup_def split: prod.splits option.splits)

lemma holds_free_loop:
  "holds base (owned es @ ps) s \<Longrightarrow> holds base ps (free_loop free es s)"
proof (induction es arbitrary: s)
  case (Cons e es)
  have "holds base (owned es @ ps) (free (entry_ptr e) (free (entry_value_ptr e) (free (entry_key_ptr e) s)))"
    using Cons.prems by (intro holds_free) simp
  then show ?case by (simp add: Cons.IH)
qed simp

lemma owned_replace:
  assumes "i < length es"
  shows "mset (owned (es[i := (es ! i)\<lparr>entry_value := v, entry_value_ptr := vp\<rparr>])) + {#entry_value_ptr (es ! i)#}
    = add_mset vp (mset (owned es))"
  using assms
proof (induction es arbitrary: i)
  case (Cons e es)
  show ?case
  proof (cases i)
    case (Suc j)
    then show ?thesis using Cons.IH [of j] Cons.prems by (simp add: add_mset_commute)
  qed (simp add: add_mset_commute)
qed simp

text \<open>Setting an entry, and a line, keep the books, whatever they return.\<close>

lemma holds_set:
  assumes "holds base (owned (cfg_entries cfg) @ ps) s" "cb__config_set alloc free cfg key val s = (info, cfg', s')"
    and "list_all wf_entry (cfg_entries cfg)" "NUL \<notin> set key"
  shows "holds base (owned (cfg_entries cfg') @ ps) s'"
proof (cases "cb__config_strndup alloc val s")
  case v: (Pair r s1)
  show ?thesis
  proof (cases r)
    case None
    then show ?thesis using assms(1,2) v holds_strndup(2) by (auto simp: cb__config_set_def)
  next
    case (Some vb)
    then obtain vp where vp: "cb__config_strndup alloc val s = (Some (vp, val @ [NUL]), s1)"
      using v strndup_buffer by (cases vb) fastforce
    note h1 = holds_strndup(1) [OF assms(1) vp]
    show ?thesis
    proof (cases "existing_at (cfg_entries cfg) key")
      case (Some i)
      let ?es = "cfg_entries cfg"
      let ?es' = "?es[i := (?es ! i)\<lparr>entry_value := val @ [NUL], entry_value_ptr := vp\<rparr>]"
      have r: "cfg' = cfg\<lparr>cfg_entries := ?es'\<rparr>" "s' = free (entry_value_ptr (?es ! i)) s1"
        using assms(2) vp Some by (simp_all add: cb__config_set_def Let_def)
      have "i < length ?es" using existing_at_key [OF assms(3,4)] Some by simp
      from owned_replace [OF this, where v = "val @ [NUL]" and vp = vp]
      have "mset (vp # owned ?es @ ps) = add_mset (entry_value_ptr (?es ! i)) (mset (owned ?es' @ ps))"
        by simp
      then show ?thesis using holds_free_in [OF h1] by (simp add: r)
    next
      case none: None
      obtain r2 s2 where k: "cb__config_strndup alloc key s1 = (r2, s2)" by fastforce
      show ?thesis
      proof (cases r2)
        case None
        then have "cfg' = cfg" "s' = free vp s2" using assms(2) vp none k by (simp_all add: cb__config_set_def)
        then show ?thesis using holds_free [OF holds_strndup(2) [OF h1 k [unfolded None]]] by simp
      next
        case (Some kb)
        then obtain kp where kp: "cb__config_strndup alloc key s1 = (Some (kp, key @ [NUL]), s2)"
          using k strndup_buffer by (cases kb) fastforce
        note h2 = holds_strndup(1) [OF h1 kp]
        obtain e s3 where a: "alloc sizeof_entry 8 s2 = (e, s3)" by fastforce
        show ?thesis
        proof (cases e)
          case None
          then have "cfg' = cfg" "s' = free vp (free kp s3)"
            using assms(2) vp none kp a by (simp_all add: cb__config_set_def)
          then show ?thesis using holds_alloc_fails [OF h2 a [unfolded None]] by (simp add: holds_free)
        next
          case (Some ep)
          then have "owned (cfg_entries cfg') = owned (cfg_entries cfg) @ [kp, vp, ep]" "s' = s3"
            using assms(2) vp none kp a by (auto simp: cb__config_set_def Let_def)
          then show ?thesis using holds_perm [OF holds_alloc [OF h2 a [unfolded Some]]] by simp
        qed
      qed
    qed
  qed
qed

end

end
