(* ===== verification/Config_Format.thy ===== *)
theory Config_Format
  imports Info
begin

text \<open>
  The format of a configuration text, as \<open>cbase.h\<close> documents it (lines 462-482): a grammar over
  concatenations, with what each text denotes.  Nothing here uses the definitions of the parser, which
  \<open>Config_Meaning\<close> shows to compute what the grammar denotes.  Where the header names no status,
  or another one than the code returns, the status is that of the code.
\<close>

section \<open>Characters\<close>

abbreviation QUOTE :: char where "QUOTE \<equiv> CHR 0x22"
abbreviation BACKSLASH :: char where "BACKSLASH \<equiv> CHR 0x5C"

text \<open>Space, tab, vertical tab and form feed are blank; carriage return and newline are not.\<close>

definition blanks :: "string \<Rightarrow> bool" where
  "blanks s \<longleftrightarrow> set s \<subseteq> {CHR '' '', CHR 0x09, CHR 0x0B, CHR 0x0C}"

definition comment_signs :: "char set" where
  "comment_signs = {CHR ''#'', CHR '';''}"

text \<open>Keys are the words of \<open>[A-Za-z_][A-Za-z0-9_.-]*\<close>.\<close>

definition key_heads :: string where
  "key_heads = ''ABCDEFGHIJKLMNOPQRSTUVWXYZabcdefghijklmnopqrstuvwxyz_''"

definition key_tails :: string where
  "key_tails = key_heads @ ''0123456789.-''"

fun is_key :: "string \<Rightarrow> bool" where
  "is_key [] \<longleftrightarrow> False"
| "is_key (c # cs) \<longleftrightarrow> c \<in> set key_heads \<and> set cs \<subseteq> set key_tails"

text \<open>The escapes of a quoted value: the character behind the backslash and the one it stands for.\<close>

definition escapes :: "char \<rightharpoonup> char" where
  "escapes = [QUOTE \<mapsto> QUOTE, BACKSLASH \<mapsto> BACKSLASH, CHR ''n'' \<mapsto> CHR 0x0A, CHR ''t'' \<mapsto> CHR 0x09, CHR ''r'' \<mapsto> CHR 0x0D]"

section \<open>Values\<close>

text \<open>\<open>unquotes s v\<close>: the text \<open>s\<close> between two quotes stands for \<open>v\<close>.\<close>

inductive unquotes :: "string \<Rightarrow> string \<Rightarrow> bool" where
  nothing: "unquotes [] []"
| plain: "c \<noteq> QUOTE \<Longrightarrow> c \<noteq> BACKSLASH \<Longrightarrow> unquotes s v \<Longrightarrow> unquotes (c # s) (c # v)"
| escaped: "escapes e = Some c \<Longrightarrow> unquotes s v \<Longrightarrow> unquotes (BACKSLASH # e # s) (c # v)"

text \<open>What may follow a value: nothing, or a comment.\<close>

definition comment_or_end :: "string \<Rightarrow> bool" where
  "comment_or_end s \<longleftrightarrow> s = [] \<or> hd s \<in> comment_signs"

text \<open>An unquoted value: no blank at either end, no quote at its start, no comment sign in it.\<close>

definition bare :: "string \<Rightarrow> bool" where
  "bare v \<longleftrightarrow> v = [] \<or> hd v \<noteq> QUOTE \<and> \<not> blanks [hd v] \<and> \<not> blanks [last v] \<and> set v \<inter> comment_signs = {}"

text \<open>The right-hand side of an assignment denotes a value or is in error.\<close>

inductive value_means :: "string \<Rightarrow> cb_info_t + string \<Rightarrow> bool" where
  bare: "blanks pre \<Longrightarrow> bare v \<Longrightarrow> blanks post \<Longrightarrow> comment_or_end rest \<Longrightarrow>
    value_means (pre @ v @ post @ rest) (Inr v)"
| quoted: "blanks pre \<Longrightarrow> unquotes s v \<Longrightarrow> blanks post \<Longrightarrow> comment_or_end rest \<Longrightarrow>
    value_means (pre @ QUOTE # s @ QUOTE # post @ rest) (Inr v)"
| not_closed: "blanks pre \<Longrightarrow> unquotes s v \<Longrightarrow>
    value_means (pre @ QUOTE # s) (Inl CB_INFO_CONFIG_UNTERMINATED_STRING)"
| lone_backslash: "blanks pre \<Longrightarrow> unquotes s v \<Longrightarrow>
    value_means (pre @ QUOTE # s @ [BACKSLASH]) (Inl CB_INFO_CONFIG_UNTERMINATED_STRING)"
| bad_escape: "blanks pre \<Longrightarrow> unquotes s v \<Longrightarrow> escapes e = None \<Longrightarrow>
    value_means (pre @ QUOTE # s @ BACKSLASH # e # rest) (Inl CB_INFO_CONFIG_BAD_ESCAPE)"
| garbage: "blanks pre \<Longrightarrow> unquotes s v \<Longrightarrow> blanks post \<Longrightarrow> \<not> blanks [c] \<Longrightarrow> c \<notin> comment_signs \<Longrightarrow>
    value_means (pre @ QUOTE # s @ QUOTE # post @ c # rest) (Inl CB_INFO_CONFIG_PARSE_ERROR)"

section \<open>Lines\<close>

text \<open>A line of blanks only, or a comment.\<close>

definition ignored :: "string \<Rightarrow> bool" where
  "ignored line \<longleftrightarrow> (\<exists>pre rest. line = pre @ rest \<and> blanks pre \<and> comment_or_end rest)"

text \<open>A line is in error, says nothing, or assigns a value to a key.\<close>

inductive line_means :: "string \<Rightarrow> cb_info_t + (string \<times> string) option \<Rightarrow> bool" where
  too_long: "4096 < length line \<Longrightarrow> line_means line (Inl CB_INFO_CONFIG_LINE_TOO_LONG)"
| ignored: "length line \<le> 4096 \<Longrightarrow> ignored line \<Longrightarrow> line_means line (Inr None)"
| no_equals: "length line \<le> 4096 \<Longrightarrow> \<not> ignored line \<Longrightarrow> CHR ''='' \<notin> set line \<Longrightarrow>
    line_means line (Inl CB_INFO_CONFIG_PARSE_ERROR)"
| bad_key: "length line \<le> 4096 \<Longrightarrow> \<not> ignored line \<Longrightarrow> line = left @ CHR ''='' # right \<Longrightarrow> CHR ''='' \<notin> set left \<Longrightarrow>
    \<nexists>pre key post. left = pre @ key @ post \<and> blanks pre \<and> is_key key \<and> blanks post \<Longrightarrow>
    line_means line (Inl CB_INFO_CONFIG_BAD_KEY)"
| bad_value: "length line \<le> 4096 \<Longrightarrow> line = pre @ key @ post @ CHR ''='' # right \<Longrightarrow> blanks pre \<Longrightarrow> is_key key \<Longrightarrow>
    blanks post \<Longrightarrow> value_means right (Inl info) \<Longrightarrow> line_means line (Inl info)"
| assigns: "length line \<le> 4096 \<Longrightarrow> line = pre @ key @ post @ CHR ''='' # right \<Longrightarrow> blanks pre \<Longrightarrow> is_key key \<Longrightarrow>
    blanks post \<Longrightarrow> value_means right (Inr v) \<Longrightarrow> line_means line (Inr (Some (key, v)))"

section \<open>Texts\<close>

text \<open>A line ends at a newline, with an optional carriage return before it, or with the text.\<close>

inductive without_cr :: "string \<Rightarrow> string \<Rightarrow> bool" where
  cr: "without_cr (s @ [CHR 0x0D]) s"
| no_cr: "s = [] \<or> last s \<noteq> CHR 0x0D \<Longrightarrow> without_cr s s"

inductive lines_of :: "string \<Rightarrow> string list \<Rightarrow> bool" where
  finished: "lines_of [] []"
| last_line: "s \<noteq> [] \<Longrightarrow> CHR 0x0A \<notin> set s \<Longrightarrow> without_cr s line \<Longrightarrow> lines_of s [line]"
| next_line: "CHR 0x0A \<notin> set s \<Longrightarrow> without_cr s line \<Longrightarrow> lines_of rest ls \<Longrightarrow> lines_of (s @ CHR 0x0A # rest) (line # ls)"

text \<open>The assignments up to the first error, and that error with the number of its line.\<close>

inductive lines_mean :: "nat \<Rightarrow> string list \<Rightarrow> (string \<times> string) list \<times> (cb_info_t \<times> nat) option \<Rightarrow> bool" where
  no_more: "lines_mean n [] ([], None)"
| in_error: "line_means line (Inl info) \<Longrightarrow> lines_mean n (line # ls) ([], Some (info, n))"
| says_nothing: "line_means line (Inr None) \<Longrightarrow> lines_mean (Suc n) ls m \<Longrightarrow> lines_mean n (line # ls) m"
| assignment: "line_means line (Inr (Some kv)) \<Longrightarrow> lines_mean (Suc n) ls (kvs, err) \<Longrightarrow>
    lines_mean n (line # ls) (kv # kvs, err)"

definition text_means :: "string \<Rightarrow> (string \<times> string) list \<times> (cb_info_t \<times> nat) option \<Rightarrow> bool" where
  "text_means inp m \<longleftrightarrow> (\<exists>ls. lines_of inp ls \<and> lines_mean 1 ls m)"

section \<open>The grammar covers every text\<close>

lemma blanks_simps [simp]:
  "blanks []" "blanks (s @ t) \<longleftrightarrow> blanks s \<and> blanks t" "blanks (c # c' # s) \<longleftrightarrow> blanks [c] \<and> blanks (c' # s)"
  by (auto simp: blanks_def)

lemma blanks_Cons: "blanks (c # s) \<longleftrightarrow> blanks [c] \<and> blanks s"
  by (cases s) simp_all

text \<open>A scan of a text behind a quote stops at its end, at a quote or at a backslash that begins no escape.\<close>

lemma scan:
  "\<exists>s v r. t = s @ r \<and> unquotes s v \<and>
    (r = [] \<or> (\<exists>b. r = QUOTE # b) \<or> r = [BACKSLASH] \<or> (\<exists>e b. r = BACKSLASH # e # b \<and> escapes e = None))"
proof (induction t rule: length_induct)
  case (1 t)
  note IH = 1 [rule_format]
  have here: ?case if "t = [] \<or> (\<exists>b. t = QUOTE # b) \<or> t = [BACKSLASH] \<or> (\<exists>e b. t = BACKSLASH # e # b \<and> escapes e = None)"
    using that by (intro exI [of _ "[]"] exI [of _ t]) (simp add: unquotes.nothing)
  consider "t = []" | c t' where "t = c # t'" "c \<noteq> QUOTE" "c \<noteq> BACKSLASH" | b where "t = QUOTE # b"
    | "t = [BACKSLASH]" | e b where "t = BACKSLASH # e # b"
    by (metis list.exhaust)
  then show ?case
  proof cases
    case (2 c t')
    then obtain s v r where "t' = s @ r" "unquotes s v"
      "r = [] \<or> (\<exists>b. r = QUOTE # b) \<or> r = [BACKSLASH] \<or> (\<exists>e b. r = BACKSLASH # e # b \<and> escapes e = None)"
      using IH [of t'] by auto
    then show ?thesis using 2 unquotes.plain [of c s v]
      by (intro exI [of _ "c # s"] exI [of _ "c # v"] exI [of _ r]) simp
  next
    case (5 e b)
    show ?thesis
    proof (cases "escapes e")
      case (Some c)
      obtain s v r where "b = s @ r" "unquotes s v"
        "r = [] \<or> (\<exists>b. r = QUOTE # b) \<or> r = [BACKSLASH] \<or> (\<exists>e b. r = BACKSLASH # e # b \<and> escapes e = None)"
        using IH [of b] 5 by auto
      then show ?thesis using 5 unquotes.escaped [OF Some, of s v]
        by (intro exI [of _ "BACKSLASH # e # s"] exI [of _ "c # v"] exI [of _ r]) simp
    qed (use here 5 in blast)
  qed (use here in blast)+
qed

text \<open>A text is its leading blanks and what begins with something else; likewise at its end.\<close>

lemma lead:
  obtains pre rest where "t = pre @ rest" "blanks pre" "rest = [] \<or> \<not> blanks [hd rest]"
proof -
  have "\<exists>pre rest. t = pre @ rest \<and> blanks pre \<and> (rest = [] \<or> \<not> blanks [hd rest])"
  proof (induction t)
    case (Cons c t)
    then obtain pre rest where t: "t = pre @ rest" "blanks pre" "rest = [] \<or> \<not> blanks [hd rest]" by blast
    show ?case
    proof (cases "blanks [c]")
      case True
      then show ?thesis using t by (intro exI [of _ "c # pre"] exI [of _ rest]) (simp add: blanks_Cons [of c pre])
    next
      case False
      then show ?thesis by (intro exI [of _ "[]"] exI [of _ "c # t"]) simp
    qed
  qed simp
  then show thesis using that by blast
qed

lemma trail:
  obtains front post where "t = front @ post" "blanks post" "front = [] \<or> \<not> blanks [last front]"
proof -
  obtain pre rest where r: "rev t = pre @ rest" "blanks pre" "rest = [] \<or> \<not> blanks [hd rest]" by (rule lead)
  then have "t = rev rest @ rev pre" by (metis rev_append rev_rev_ident)
  moreover have "blanks (rev pre)" "rev rest = [] \<or> \<not> blanks [last (rev rest)]" using r by (auto simp: blanks_def last_rev)
  ultimately show thesis using that by blast
qed

lemma until_comment:
  obtains front rest where "t = front @ rest" "set front \<inter> comment_signs = {}" "comment_or_end rest"
proof -
  have "\<exists>front rest. t = front @ rest \<and> set front \<inter> comment_signs = {} \<and> comment_or_end rest"
  proof (induction t)
    case Nil
    then show ?case by (simp add: comment_or_end_def)
  next
    case (Cons c t)
    then obtain front rest where t: "t = front @ rest" "set front \<inter> comment_signs = {}" "comment_or_end rest" by blast
    show ?case
    proof (cases "c \<in> comment_signs")
      case True
      then show ?thesis by (intro exI [of _ "[]"] exI [of _ "c # t"]) (simp add: comment_or_end_def)
    next
      case False
      then show ?thesis using t by (intro exI [of _ "c # front"] exI [of _ rest]) simp
    qed
  qed
  then show thesis using that by blast
qed

lemma value_means_total: "\<exists>m. value_means t m"
proof -
  obtain pre t' where t: "t = pre @ t'" "blanks pre" "t' = [] \<or> \<not> blanks [hd t']" by (rule lead)
  show ?thesis
  proof (cases "t' \<noteq> [] \<and> hd t' = QUOTE")
    case True
    then obtain t2 where t2: "t' = QUOTE # t2" by (metis list.collapse)
    obtain s v r where s: "t2 = s @ r" "unquotes s v" and
      r: "r = [] \<or> (\<exists>b. r = QUOTE # b) \<or> r = [BACKSLASH] \<or> (\<exists>e b. r = BACKSLASH # e # b \<and> escapes e = None)"
      using scan [of t2] by blast
    have tx: "t = pre @ QUOTE # s @ r" by (simp only: t(1) t2 s(1))
    consider b where "r = QUOTE # b" | "r = []" | "r = [BACKSLASH]" | e b where "r = BACKSLASH # e # b" "escapes e = None"
      using r by blast
    then show ?thesis
    proof cases
      case (1 b)
      obtain post rest where p: "b = post @ rest" "blanks post" "rest = [] \<or> \<not> blanks [hd rest]" by (rule lead)
      show ?thesis
      proof (cases "comment_or_end rest")
        case True
        have "t = pre @ QUOTE # s @ QUOTE # post @ rest" by (simp only: tx 1 p(1))
        then show ?thesis using value_means.quoted [OF t(2) s(2) p(2) True] by blast
      next
        case False
        then obtain c rest' where c: "rest = c # rest'" "c \<notin> comment_signs" "\<not> blanks [c]"
          using p(3) by (cases rest) (auto simp: comment_or_end_def)
        have "t = pre @ QUOTE # s @ QUOTE # post @ c # rest'" by (simp only: tx 1 p(1) c(1))
        then show ?thesis using value_means.garbage [OF t(2) s(2) p(2) c(3,2)] by blast
      qed
    next
      case 2
      have "t = pre @ QUOTE # s" by (simp only: tx 2 append_Nil2)
      then show ?thesis using value_means.not_closed [OF t(2) s(2)] by blast
    next
      case 3
      then show ?thesis using value_means.lone_backslash [OF t(2) s(2)] tx by blast
    next
      case (4 e b)
      then show ?thesis using value_means.bad_escape [OF t(2) s(2) 4(2)] tx by blast
    qed
  next
    case False
    obtain front rest where f: "t' = front @ rest" "set front \<inter> comment_signs = {}" "comment_or_end rest"
      by (rule until_comment)
    obtain v post where v: "front = v @ post" "blanks post" "v = [] \<or> \<not> blanks [last v]" by (rule trail)
    have "bare v" using False t(3) f v by (auto simp: bare_def)
    then show ?thesis using value_means.bare [OF t(2) _ v(2) f(3)] t(1) f(1) v(1) by fastforce
  qed
qed

lemma line_means_total: "\<exists>m. line_means line m"
proof (cases "4096 < length line \<or> ignored line \<or> CHR ''='' \<notin> set line")
  case True
  then show ?thesis using line_means.too_long line_means.ignored line_means.no_equals not_le by blast
next
  case False
  then have l: "length line \<le> 4096" "\<not> ignored line" by simp_all
  obtain left right where e: "line = left @ CHR ''='' # right" "CHR ''='' \<notin> set left"
    using False by (metis split_list_first)
  show ?thesis
  proof (cases "\<exists>pre key post. left = pre @ key @ post \<and> blanks pre \<and> is_key key \<and> blanks post")
    case True
    then obtain pre key post where k: "left = pre @ key @ post" "blanks pre" "is_key key" "blanks post" by blast
    then have line: "line = pre @ key @ post @ CHR ''='' # right" using e(1) by simp
    obtain m where "value_means right m" using value_means_total by blast
    then show ?thesis
      using line_means.bad_value [OF l(1) line k(2-4)] line_means.assigns [OF l(1) line k(2-4)] by (cases m) blast+
  qed (use line_means.bad_key [OF l e] in blast)
qed

lemma without_cr_total: "\<exists>line. without_cr s line"
  by (metis append_butlast_last_id without_cr.intros)

lemma lines_of_total: "\<exists>ls. lines_of inp ls"
proof (induction inp rule: length_induct)
  case (1 inp)
  show ?case
  proof (cases "CHR 0x0A \<in> set inp")
    case True
    then obtain s rest where s: "inp = s @ CHR 0x0A # rest" "CHR 0x0A \<notin> set s" by (metis split_list_first)
    then obtain ls where "lines_of rest ls" using 1 [rule_format, of rest] by auto
    then show ?thesis using s lines_of.next_line without_cr_total by blast
  next
    case False
    then show ?thesis using lines_of.finished lines_of.last_line without_cr_total by (cases "inp = []") blast+
  qed
qed

lemma lines_mean_total: "\<exists>m. lines_mean n ls m"
proof (induction ls arbitrary: n)
  case (Cons line ls)
  obtain kvs err where m: "lines_mean (Suc n) ls (kvs, err)" using Cons by fastforce
  obtain lm where "line_means line lm" using line_means_total by blast
  then show ?case using m lines_mean.in_error lines_mean.says_nothing lines_mean.assignment
    by (cases lm; cases "projr lm") (simp, blast)+
qed (blast intro: lines_mean.no_more)

lemma text_means_total: "\<exists>m. text_means inp m"
  unfolding text_means_def using lines_of_total lines_mean_total by blast

end
