(* ===== verification/Config_Meaning.thy ===== *)
theory Config_Meaning
  imports Config_Store Config_Format
begin

text \<open>
  What the parser of \<open>src/cbase_config.c\<close> makes of a line and of a text when memory does not run out, as
  functions composed of the code's own helpers, and that these functions are the grammar of
  \<open>Config_Format\<close>: every text denotes exactly what they compute.
\<close>

section \<open>The parser without its allocations\<close>

text \<open>What the code makes of a line, in its own terms.\<close>

definition line_result :: "string \<Rightarrow> cb_info_t + (string \<times> string) option" where
  "line_result line =
     (let body = dropWhile cb__config_is_space line;
          key = strip_right (takeWhile (\<lambda>c. c \<noteq> CHR ''='') body);
          rhs = tl (dropWhile (\<lambda>c. c \<noteq> CHR ''='') body);
          (info, val) = cb__config_decode_value rhs (length rhs)
      in if CB__CONFIG_LINE_MAX < length line then Inl CB_INFO_CONFIG_LINE_TOO_LONG
         else if body = [] \<or> hd body = CHR ''#'' \<or> hd body = CHR '';'' then Inr None
         else if CHR ''='' \<notin> set body then Inl CB_INFO_CONFIG_PARSE_ERROR
         else if \<not> cb__config_key_valid key then Inl CB_INFO_CONFIG_BAD_KEY
         else if info \<noteq> CB_INFO_OK then Inl info
         else Inr (Some (key, val)))"

function split_lines :: "string \<Rightarrow> string list" where
  "split_lines inp =
     (if inp = [] then []
      else strip_cr (takeWhile (\<lambda>c. c \<noteq> CHR 0x0A) inp) # split_lines (tl (dropWhile (\<lambda>c. c \<noteq> CHR 0x0A) inp)))"
  by pat_completeness auto

termination
proof (relation "measure length", goal_cases)
  case (2 inp)
  then show ?case using length_dropWhile_le [of "\<lambda>c. c \<noteq> CHR 0x0A" inp] by (cases inp) auto
qed simp

declare split_lines.simps [simp del]

lemma split_lines_Nil [simp]: "split_lines [] = []"
  by (simp add: split_lines.simps)

text \<open>The assignments up to the first error, and that error with the number of its line.\<close>

fun results :: "nat \<Rightarrow> string list \<Rightarrow> (string \<times> string) list \<times> (cb_info_t \<times> nat) option" where
  "results n [] = ([], None)"
| "results n (line # ls) =
     (case line_result line of
        Inl info \<Rightarrow> ([], Some (info, n))
      | Inr None \<Rightarrow> results (Suc n) ls
      | Inr (Some kv) \<Rightarrow> (let (kvs, e) = results (Suc n) ls in (kv # kvs, e)))"

section \<open>Keys\<close>

lemma key_valid_iff:
  "cb__config_key_valid s \<longleftrightarrow> s \<noteq> [] \<and> cb__config_key_head_ok (hd s) \<and> list_all cb__config_key_tail_ok (tl s)"
proof (cases s)
  case (Cons c s')
  have "list_all (\<lambda>i. cb__config_key_tail_ok (s ! i)) [1 ..< length s] = list_all cb__config_key_tail_ok s'"
    unfolding Cons length_Cons One_nat_def map_Suc_upt [symmetric] list.pred_map o_def nth_Cons_Suc
    by (simp add: list_all_length list.pred_set all_set_conv_all_nth del: upt_Suc)
  then show ?thesis by (simp add: cb__config_key_valid_def Cons)
qed (simp add: cb__config_key_valid_def)

lemma key_char_not: "cb__config_key_tail_ok c \<Longrightarrow>
    c \<noteq> NUL \<and> c \<noteq> CHR ''='' \<and> c \<noteq> CHR ''#'' \<and> c \<noteq> CHR '';'' \<and> c \<noteq> CHR 0x0A \<and> \<not> cb__config_is_space c"
  by (auto simp: cb__config_key_tail_ok_def cb__config_key_head_ok_def cb__config_is_space_def NUL_def split: if_splits)

lemma head_tail_ok: "cb__config_key_head_ok c \<Longrightarrow> cb__config_key_tail_ok c"
  by (simp add: cb__config_key_tail_ok_def)

lemma key_valid_chars: "cb__config_key_valid s \<Longrightarrow> c \<in> set s \<Longrightarrow> cb__config_key_tail_ok c"
  using head_tail_ok by (cases s) (auto simp: key_valid_iff list_all_iff)

lemma key_valid_no_NUL: "cb__config_key_valid s \<Longrightarrow> NUL \<notin> set s"
  using key_valid_chars key_char_not by blast

lemma line_key: "line_result line = Inr (Some (k, v)) \<Longrightarrow> cb__config_key_valid k"
  by (auto simp: line_result_def Let_def split: prod.splits if_splits)

lemma results_keys: "list_all (\<lambda>(k, v). NUL \<notin> set k) (fst (results n ls))"
  by (induction n ls rule: results.induct)
    (auto simp: Let_def split_def dest: line_key key_valid_no_NUL split: sum.splits option.splits)

section \<open>The helpers and the grammar's words\<close>

lemma is_space_blanks: "cb__config_is_space c \<longleftrightarrow> blanks [c]"
  by (auto simp: cb__config_is_space_def blanks_def)

lemma drop_blanks: "blanks pre \<Longrightarrow> dropWhile cb__config_is_space (pre @ t) = dropWhile cb__config_is_space t"
  by (induction pre) (auto simp: is_space_blanks blanks_def)

lemma drop_no_blank: "t = [] \<or> \<not> blanks [hd t] \<Longrightarrow> dropWhile cb__config_is_space t = t"
  by (cases t) (auto simp: is_space_blanks)

lemma strip_trailing:
  assumes "blanks post" "v = [] \<or> \<not> blanks [last v]"
  shows "strip_right (v @ post) = v"
proof -
  have "blanks (rev post)" using assms(1) by (simp add: blanks_def)
  moreover have "dropWhile cb__config_is_space (rev v) = rev v"
    using assms(2) by (intro drop_no_blank) (simp add: hd_rev)
  ultimately show ?thesis by (simp add: strip_right_def drop_blanks)
qed

lemma char_range: "a \<le> c \<and> c \<le> d \<longleftrightarrow> c \<in> set (map char_of [of_char a ..< Suc (of_char d :: nat)])"
proof
  assume "a \<le> c \<and> c \<le> d"
  then have "of_char c \<in> set [of_char a ..< Suc (of_char d :: nat)]"
    unfolding set_upt atLeastLessThan_iff less_Suc_eq_le less_eq_char_def .
  then show "c \<in> set (map char_of [of_char a ..< Suc (of_char d :: nat)])"
    unfolding set_map by (rule rev_image_eqI) simp
next
  assume "c \<in> set (map char_of [of_char a ..< Suc (of_char d :: nat)])"
  then obtain n :: nat where n: "of_char a \<le> n" "n \<le> of_char d" "c = char_of n" by auto
  have "n < 256" using n(2) nat_of_char_less_256 [of d] by (rule le_less_trans)
  then show "a \<le> c \<and> c \<le> d" using n by (simp add: less_eq_char_def)
qed

lemma key_chars:
  "cb__config_key_head_ok c \<longleftrightarrow> c \<in> set key_heads" "cb__config_key_tail_ok c \<longleftrightarrow> c \<in> set key_tails"
proof -
  show h: "cb__config_key_head_ok c \<longleftrightarrow> c \<in> set key_heads"
    unfolding cb__config_key_head_ok_def char_range key_heads_def by (simp add: upt_rec char_of_def bit_0)
  show "cb__config_key_tail_ok c \<longleftrightarrow> c \<in> set key_tails"
    unfolding cb__config_key_tail_ok_def h char_range key_tails_def by (simp add: upt_rec char_of_def bit_0)
qed

lemma key_valid_is_key: "cb__config_key_valid s \<longleftrightarrow> is_key s"
  by (cases s) (auto simp: key_valid_iff key_chars list_all_iff)

lemma decode_escape_escapes: "decode_escape e = escapes e"
  by (simp add: decode_escape_def escapes_def)

lemma decode_unquotes:
  "unquotes s v \<Longrightarrow> length out + length s \<le> cap \<Longrightarrow> decode_quoted cap (s @ r) out = decode_quoted cap r (out @ v)"
  by (induction arbitrary: out rule: unquotes.induct) (simp_all add: decode_escape_escapes put_char_def)

section \<open>The functions compute the grammar\<close>

definition value_result :: "string \<Rightarrow> cb_info_t + string" where
  "value_result t = (let (info, v) = cb__config_decode_value t (length t) in if info = CB_INFO_OK then Inr v else Inl info)"

lemma decode_at_quote:
  assumes "blanks pre" "unquotes s v" "t = pre @ QUOTE # s @ r"
  shows "cb__config_decode_value t (length t) = decode_quoted (length t) r v"
proof -
  have d: "dropWhile cb__config_is_space t = QUOTE # s @ r"
    unfolding assms(3) using assms(1) by (simp add: drop_blanks is_space_blanks blanks_def)
  show ?thesis using decode_unquotes [OF assms(2), of "[]" "length t" r]
    by (simp add: cb__config_decode_value_def d) (simp add: assms(3))
qed

lemma value_means_result: "value_means t m \<Longrightarrow> m = value_result t"
proof (induction rule: value_means.induct)
  case (bare pre v post rest)
  let ?t = "pre @ v @ post @ rest"
  have r: "rest = [] \<or> hd rest = CHR ''#'' \<or> hd rest = CHR '';''"
    using bare(4) by (auto simp: comment_or_end_def comment_signs_def)
  have no: "x \<noteq> CHR ''#'' \<and> x \<noteq> CHR '';''" if "x \<in> set (v @ post)" for x
    using that bare(2,3) by (auto simp: bare_def comment_signs_def blanks_def)
  have cut: "takeWhile (\<lambda>c. c \<noteq> CHR ''#'' \<and> c \<noteq> CHR '';'') ((v @ post) @ rest) = v @ post"
    using r no by (cases rest) (auto simp: takeWhile_append2)
  show ?case
  proof (cases v)
    case Nil
    have d: "dropWhile cb__config_is_space ?t = rest"
      using bare(1,3) r Nil by (auto simp: drop_blanks drop_no_blank blanks_def)
    show ?thesis unfolding value_result_def cb__config_decode_value_def d using r Nil
      by (cases rest) (auto simp: strip_right_def)
  next
    case (Cons c v')
    have d: "dropWhile cb__config_is_space ?t = c # v' @ post @ rest"
      using bare(1,2) Cons by (simp add: drop_blanks is_space_blanks bare_def)
    have "strip_right (v @ post) = v" using bare(2,3) by (intro strip_trailing) (auto simp: bare_def)
    then show ?thesis unfolding value_result_def cb__config_decode_value_def d list.case
      using bare(2) cut Cons by (simp add: bare_def)
  qed
next
  case (quoted pre s v post rest)
  have "dropWhile cb__config_is_space (post @ rest) = rest"
    using quoted by (auto simp: drop_blanks comment_or_end_def comment_signs_def blanks_def intro!: drop_no_blank)
  then show ?case using decode_at_quote [OF quoted(1,2) refl, of "QUOTE # post @ rest"] quoted(4)
    by (auto simp: value_result_def comment_or_end_def comment_signs_def split: list.splits)
next
  case (not_closed pre s v)
  then show ?case using decode_at_quote [of pre s v "pre @ QUOTE # s" "[]"] by (simp add: value_result_def)
next
  case (lone_backslash pre s v)
  then show ?case using decode_at_quote [OF lone_backslash refl, of "[BACKSLASH]"] by (simp add: value_result_def)
next
  case (bad_escape pre s v e rest)
  then show ?case using decode_at_quote [OF bad_escape(1,2) refl, of "BACKSLASH # e # rest"] bad_escape(3) by (simp add: value_result_def decode_escape_escapes)
next
  case (garbage pre s v post c rest)
  have "dropWhile cb__config_is_space (post @ c # rest) = c # rest"
    using garbage by (simp add: drop_blanks is_space_blanks)
  then show ?case using decode_at_quote [OF garbage(1,2) refl, of "QUOTE # post @ c # rest"] garbage(5)
    by (simp add: value_result_def comment_signs_def)
qed

lemma is_key_chars: "is_key key \<Longrightarrow> c \<in> set key \<Longrightarrow> c \<noteq> CHR ''='' \<and> \<not> blanks [c] \<and> c \<notin> comment_signs"
  using key_char_not [OF key_valid_chars] by (simp add: key_valid_is_key is_space_blanks comment_signs_def)

lemma value_result_error: "value_result t = Inl info \<Longrightarrow> info \<noteq> CB_INFO_OK"
  by (auto simp: value_result_def Let_def split: prod.splits if_splits)

text \<open>The line behind its blanks.\<close>

lemma ignored_body:
  "ignored line \<longleftrightarrow> (let body = dropWhile cb__config_is_space line in body = [] \<or> hd body = CHR ''#'' \<or> hd body = CHR '';'')"
proof -
  obtain pre body where l: "line = pre @ body" "blanks pre" "body = [] \<or> \<not> blanks [hd body]" by (rule lead)
  have d: "dropWhile cb__config_is_space line = body" using l by (simp add: drop_blanks drop_no_blank)
  have "ignored line \<longleftrightarrow> comment_or_end body"
  proof
    assume "ignored line"
    then obtain p r where p: "line = p @ r" "blanks p" "comment_or_end r" by (auto simp: ignored_def)
    then have "dropWhile cb__config_is_space line = r"
      by (auto simp: drop_blanks comment_or_end_def comment_signs_def blanks_def intro!: drop_no_blank)
    then show "comment_or_end body" using p(3) d by simp
  qed (use l in \<open>auto simp: ignored_def\<close>)
  then show ?thesis by (auto simp: d comment_or_end_def comment_signs_def)
qed

lemma line_at_equals:
  assumes "length line \<le> 4096" "\<not> ignored line" "line = left @ CHR ''='' # right" "CHR ''='' \<notin> set left"
  shows "line_result line =
    (let key = strip_right (dropWhile cb__config_is_space left)
     in if \<not> is_key key then Inl CB_INFO_CONFIG_BAD_KEY
        else case value_result right of Inl info \<Rightarrow> Inl info | Inr v \<Rightarrow> Inr (Some (key, v)))"
proof -
  obtain pre l where l: "left = pre @ l" "blanks pre" "l = [] \<or> \<not> blanks [hd l]" by (rule lead)
  have dl: "dropWhile cb__config_is_space left = l" using l by (simp add: drop_blanks drop_no_blank)
  have body: "dropWhile cb__config_is_space line = l @ CHR ''='' # right"
    unfolding assms(3) l(1) append_assoc drop_blanks [OF l(2)]
    by (rule drop_no_blank) (use l(3) in \<open>auto simp: blanks_def hd_append\<close>)
  have no_eq: "\<And>x. x \<in> set l \<Longrightarrow> x \<noteq> CHR ''=''" using assms(4) l(1) by auto
  have cuts: "takeWhile (\<lambda>c. c \<noteq> CHR ''='') (l @ CHR ''='' # right) = l"
    "dropWhile (\<lambda>c. c \<noteq> CHR ''='') (l @ CHR ''='' # right) = CHR ''='' # right"
    using no_eq by (auto simp: takeWhile_append2 dropWhile_append2)
  have ni: "\<not> (l @ CHR ''='' # right = [] \<or> hd (l @ CHR ''='' # right) = CHR ''#'' \<or> hd (l @ CHR ''='' # right) = CHR '';'')"
    using assms(2) by (simp only: ignored_body body Let_def) simp
  obtain info val where dv: "cb__config_decode_value right (length right) = (info, val)" by fastforce
  show ?thesis
    using assms(1) ni unfolding line_result_def Let_def body cuts dl value_result_def key_valid_is_key
    by (simp add: dv CB__CONFIG_LINE_MAX_def)
qed

lemma line_with_key:
  assumes "length line \<le> 4096" "line = pre @ key @ post @ CHR ''='' # right" "blanks pre" "is_key key" "blanks post"
  shows "line_result line = (case value_result right of Inl info \<Rightarrow> Inl info | Inr v \<Rightarrow> Inr (Some (key, v)))"
proof -
  note kc = is_key_chars [OF assms(4)]
  have k: "key \<noteq> []" using assms(4) by (cases key) simp_all
  have hd: "hd key \<in> set key" "last key \<in> set key" using k by simp_all
  have d: "dropWhile cb__config_is_space (pre @ key @ t) = key @ t" for t
    unfolding drop_blanks [OF assms(3)] by (rule drop_no_blank) (use k kc hd in \<open>simp add: hd_append\<close>)
  have ni: "\<not> ignored line"
    using k kc hd(1) by (simp only: ignored_body assms(2) d Let_def) (auto simp: comment_signs_def hd_append)
  have no_eq: "CHR ''='' \<notin> set (pre @ key @ post)" using kc assms(3,5) by (auto simp: blanks_def)
  have "strip_right (key @ post) = key" using assms(5) kc hd(2) by (intro strip_trailing) blast+
  then show ?thesis
    using line_at_equals [OF assms(1) ni _ no_eq, of right] assms(2,4) d [of post] by simp
qed

lemma line_means_result: "line_means line m \<Longrightarrow> m = line_result line"
proof (induction rule: line_means.induct)
  case (too_long line)
  then show ?case by (simp add: line_result_def Let_def split_def CB__CONFIG_LINE_MAX_def)
next
  case (ignored line)
  then show ?case by (simp add: ignored_body line_result_def Let_def split_def CB__CONFIG_LINE_MAX_def)
next
  case (no_equals line)
  then have "CHR ''='' \<notin> set (dropWhile cb__config_is_space line)" by (meson set_dropWhileD)
  then show ?case using no_equals by (simp add: ignored_body line_result_def Let_def split_def CB__CONFIG_LINE_MAX_def)
next
  case (bad_key line left right)
  obtain pre l where l: "left = pre @ l" "blanks pre" "l = [] \<or> \<not> blanks [hd l]" by (rule lead)
  obtain key post where k: "l = key @ post" "blanks post" "key = [] \<or> \<not> blanks [last key]" by (rule trail)
  have "strip_right (dropWhile cb__config_is_space left) = key"
    using l k by (simp add: drop_blanks drop_no_blank strip_trailing)
  moreover have "\<not> is_key key" using bad_key(5) l k by blast
  ultimately show ?case using line_at_equals [OF bad_key(1-4)] by simp
next
  case (bad_value line pre key post right info)
  then show ?case using line_with_key [OF bad_value(1-5)] value_means_result [OF bad_value(6), symmetric] by simp
next
  case (assigns line pre key post right v)
  then show ?case using line_with_key [OF assigns(1-5)] value_means_result [OF assigns(6), symmetric] by simp
qed

lemma line_means_iff: "line_means line m \<longleftrightarrow> m = line_result line"
  using line_means_result line_means_total by metis

lemma without_cr_strip: "without_cr s line \<Longrightarrow> line = strip_cr s"
  by (induction rule: without_cr.induct) (auto simp: strip_cr_def)

lemma lines_of_split: "lines_of inp ls \<Longrightarrow> ls = split_lines inp"
proof (induction rule: lines_of.induct)
  case (last_line s line)
  have cut: "takeWhile (\<lambda>c. c \<noteq> CHR 0x0A) s = s" "dropWhile (\<lambda>c. c \<noteq> CHR 0x0A) s = []"
    using last_line(2) by (auto simp: takeWhile_eq_all_conv)
  have "split_lines s = [strip_cr s]" by (subst split_lines.simps) (simp only: last_line(1) cut list.sel split_lines_Nil if_False)
  then show ?case using without_cr_strip [OF last_line(3)] by simp
next
  case (next_line s line rest ls)
  have "takeWhile (\<lambda>c. c \<noteq> CHR 0x0A) (s @ CHR 0x0A # rest) = s"
    "dropWhile (\<lambda>c. c \<noteq> CHR 0x0A) (s @ CHR 0x0A # rest) = CHR 0x0A # rest"
    using next_line(1) by (simp_all add: takeWhile_append dropWhile_append)
  then show ?case using next_line.IH without_cr_strip [OF next_line(2)] by (subst split_lines.simps) simp
qed simp

lemma lines_mean_results: "lines_mean n ls m \<Longrightarrow> m = results n ls"
  by (induction rule: lines_mean.induct) (auto simp: line_means_iff split: sum.splits prod.splits)

text \<open>Every text denotes one result, the computed one.\<close>

lemma text_means_iff: "text_means inp m \<longleftrightarrow> m = results 1 (split_lines inp)"
  using text_means_total [of inp] lines_of_split lines_mean_results unfolding text_means_def by blast

end
