(* ===== verification/Config_Parse.thy ===== *)
theory Config_Parse
  imports Config_Meaning
begin

text \<open>
  The parser of \<open>src/cbase_config.c\<close> gives a text what the grammar of \<open>Config_Format\<close> says it means; every
  list of keys and values can be written as a text that parses to it; and parsing and destroying leave
  no memory and no open file behind.
\<close>

section \<open>The parser computes the results\<close>

lemma set_succeeds:
  assumes "never_fails alloc"
  obtains cfg' st' where "cb__config_set alloc free cfg key val st = (CB_INFO_OK, cfg', st')"
    "cfg_info cfg' = cfg_info cfg" "cfg_error_line cfg' = cfg_error_line cfg"
proof -
  note g = never_fails_gives [OF assms]
  have dup: "\<exists>p s'. cb__config_strndup alloc x s = (Some (p, x @ [NUL]), s')" for x s
    using g [of "word_of_nat (length x) + 1" 1 s] by (auto simp: cb__config_strndup_def)
  obtain vp st1 where v: "cb__config_strndup alloc val st = (Some (vp, val @ [NUL]), st1)" using dup by blast
  obtain kp st2 where k: "cb__config_strndup alloc key st1 = (Some (kp, key @ [NUL]), st2)" using dup by blast
  obtain ep st3 where e: "alloc sizeof_entry 8 st2 = (Some ep, st3)" using g by blast
  have "\<exists>cfg' st'. cb__config_set alloc free cfg key val st = (CB_INFO_OK, cfg', st')
      \<and> cfg_info cfg' = cfg_info cfg \<and> cfg_error_line cfg' = cfg_error_line cfg"
    by (cases "existing_at (cfg_entries cfg) key") (simp_all add: cb__config_set_def v k e Let_def)
  then show thesis using that by blast
qed

lemma drop_to_eq:
  "CHR ''='' \<in> set s \<Longrightarrow> \<exists>rhs. dropWhile (\<lambda>c. c \<noteq> CHR ''='') s = CHR ''='' # rhs"
  "CHR ''='' \<notin> set s \<Longrightarrow> dropWhile (\<lambda>c. c \<noteq> CHR ''='') s = []"
  by (induction s) auto

lemma parse_line_result:
  assumes "never_fails alloc" "length line \<le> CB__CONFIG_LINE_MAX"
  shows "case line_result line of
      Inl info \<Rightarrow> info \<noteq> CB_INFO_OK \<and> (\<exists>st'. cb__config_parse_line alloc free cfg line st = (info, cfg, st'))
    | Inr None \<Rightarrow> cb__config_parse_line alloc free cfg line st = (CB_INFO_OK, cfg, st)
    | Inr (Some (k, v)) \<Rightarrow> (\<exists>st0 cfg' st1 st'. cb__config_set alloc free cfg k v st0 = (CB_INFO_OK, cfg', st1)
        \<and> cb__config_parse_line alloc free cfg line st = (CB_INFO_OK, cfg', st')
        \<and> cfg_info cfg' = cfg_info cfg \<and> cfg_error_line cfg' = cfg_error_line cfg)"
proof -
  define body where "body = dropWhile cb__config_is_space line"
  define key where "key = strip_right (takeWhile (\<lambda>c. c \<noteq> CHR ''='') body)"
  define rhs where "rhs = tl (dropWhile (\<lambda>c. c \<noteq> CHR ''='') body)"
  obtain info val where d: "cb__config_decode_value rhs (length rhs) = (info, val)" by fastforce
  have m: "line_result line =
      (if body = [] \<or> hd body = CHR ''#'' \<or> hd body = CHR '';'' then Inr None
       else if CHR ''='' \<notin> set body then Inl CB_INFO_CONFIG_PARSE_ERROR
       else if \<not> cb__config_key_valid key then Inl CB_INFO_CONFIG_BAD_KEY
       else if info \<noteq> CB_INFO_OK then Inl info else Inr (Some (key, val)))"
    unfolding line_result_def Let_def body_def [symmetric] key_def [symmetric] rhs_def [symmetric] d prod.case
    using assms(2) by simp
  obtain q st1 where a: "alloc (word_of_nat (length rhs) + 1) 1 st = (Some q, st1)"
    using never_fails_gives [OF assms(1)] by blast
  obtain cfg' st2 where s: "cb__config_set alloc free cfg key val st1 = (CB_INFO_OK, cfg', st2)"
    "cfg_info cfg' = cfg_info cfg" "cfg_error_line cfg' = cfg_error_line cfg"
    using set_succeeds [OF assms(1)] .
  show ?thesis
  proof (cases body)
    case (Cons c body')
    show ?thesis
    proof (cases "CHR ''='' \<in> set body")
      case True
      then obtain rhs' where D: "dropWhile (\<lambda>c. c \<noteq> CHR ''='') body = CHR ''='' # rhs'" using drop_to_eq(1) by blast
      then have R: "rhs = rhs'" by (simp only: rhs_def list.sel)
      have p': "cb__config_parse_line alloc free cfg line st =
          (if c = CHR ''#'' \<or> c = CHR '';'' then (CB_INFO_OK, cfg, st)
           else if \<not> cb__config_key_valid key then (CB_INFO_CONFIG_BAD_KEY, cfg, st)
           else if info \<noteq> CB_INFO_OK then (info, cfg, free q st1)
           else (CB_INFO_OK, cfg', free q st2))"
        unfolding cb__config_parse_line_def body_def [symmetric] Let_def D list.case key_def [symmetric] R [symmetric]
          a prod.case option.case d s(1)
        by (simp only: Cons list.case)
      have m': "line_result line =
          (if c = CHR ''#'' \<or> c = CHR '';'' then Inr None
           else if \<not> cb__config_key_valid key then Inl CB_INFO_CONFIG_BAD_KEY
           else if info \<noteq> CB_INFO_OK then Inl info else Inr (Some (key, val)))"
        unfolding m using True Cons by simp
      show ?thesis unfolding m' p' using s by (simp, blast)
    next
      case False
      have "cb__config_parse_line alloc free cfg line st =
          (if c = CHR ''#'' \<or> c = CHR '';'' then (CB_INFO_OK, cfg, st) else (CB_INFO_CONFIG_PARSE_ERROR, cfg, st))"
        unfolding cb__config_parse_line_def body_def [symmetric] Let_def drop_to_eq(2) [OF False] list.case
        by (simp only: Cons list.case)
      then show ?thesis unfolding m using False Cons by simp
    qed
  next
    case Nil
    have "cb__config_parse_line alloc free cfg line st = (CB_INFO_OK, cfg, st)"
      unfolding cb__config_parse_line_def body_def [symmetric] Nil list.case ..
    then show ?thesis by (simp add: m Nil)
  qed
qed

lemma line_too_long: "CB__CONFIG_LINE_MAX < length line \<Longrightarrow> line_result line = Inl CB_INFO_CONFIG_LINE_TOO_LONG"
  by (simp add: line_result_def Let_def split_def)

lemma fail_parse_fields [simp]:
  "cfg_info (fst (fail_parse free cfg info n st)) = info" "cfg_error_line (fst (fail_parse free cfg info n st)) = n"
  "cfg_entries (fst (fail_parse free cfg info n st)) = []" "cfg_count (fst (fail_parse free cfg info n st)) = 0"
  by (simp_all add: fail_parse_def cb__config_free_entries_def)

lemma parse_loop_Nil [simp]: "parse_loop alloc free cfg n [] st = (cfg, st)"
  by (subst parse_loop.simps) simp

lemma parse_loop_step:
  "inp \<noteq> [] \<Longrightarrow> parse_loop alloc free cfg n inp st =
     (let line = strip_cr (takeWhile (\<lambda>c. c \<noteq> CHR 0x0A) inp)
      in if CB__CONFIG_LINE_MAX < length line then fail_parse free cfg CB_INFO_CONFIG_LINE_TOO_LONG (n + 1) st
         else
           let (info, cfg, st) = cb__config_parse_line alloc free cfg line st
           in if info \<noteq> CB_INFO_OK then fail_parse free cfg info (n + 1) st
              else parse_loop alloc free cfg (n + 1) (tl (dropWhile (\<lambda>c. c \<noteq> CHR 0x0A) inp)) st)"
  by (cases "dropWhile (\<lambda>c. c \<noteq> CHR 0x0A) inp")
    (simp_all add: parse_loop.simps [of alloc free cfg n inp st] Let_def split_def
      cong: if_cong del: dropWhile_eq_Nil_conv)

definition parses_to :: "('p, 's) alloc \<Rightarrow> ('p, 's) free \<Rightarrow> 'p cb_config_t
    \<Rightarrow> (string \<times> string) list \<times> (cb_info_t \<times> nat) option \<Rightarrow> 'p cb_config_t \<Rightarrow> bool" where
  "parses_to alloc free cfg m cfg' =
     (case m of
        (kvs, None) \<Rightarrow> config_store.updates TYPE('s) alloc free cfg kvs cfg'
          \<and> cfg_info cfg' = cfg_info cfg \<and> cfg_error_line cfg' = cfg_error_line cfg
      | (kvs, Some (info, n)) \<Rightarrow> info \<noteq> CB_INFO_OK \<and> cfg_info cfg' = info \<and> cfg_error_line cfg' = word_of_nat n
          \<and> cfg_entries cfg' = [] \<and> cfg_count cfg' = 0)"

lemma parse_loop_results:
  assumes "never_fails alloc"
  shows "parses_to alloc free cfg (results (Suc n) (split_lines inp))
    (fst (parse_loop alloc free cfg (word_of_nat n) inp st))"
proof (induction inp arbitrary: cfg n st rule: split_lines.induct)
  case (1 inp)
  show ?case
  proof (cases "inp = []")
    case True
    then show ?thesis by (simp add: parses_to_def config_store.updates.none)
  next
    case False
    define line where "line = strip_cr (takeWhile (\<lambda>c. c \<noteq> CHR 0x0A) inp)"
    define rest where "rest = tl (dropWhile (\<lambda>c. c \<noteq> CHR 0x0A) inp)"
    have ls: "split_lines inp = line # split_lines rest"
      using False by (subst split_lines.simps) (simp add: line_def rest_def)
    note step = parse_loop_step [OF False, folded line_def rest_def, of alloc free _ "word_of_nat n", unfolded Let_def]
    have n: "word_of_nat n + 1 = (word_of_nat (Suc n) :: u32)" by simp
    note IH = "1.IH" [OF False, folded rest_def]
    show ?thesis
    proof (cases "CB__CONFIG_LINE_MAX < length line")
      case True
      then show ?thesis by (simp add: ls step line_too_long parses_to_def n del: of_nat_Suc)
    next
      case False
      then have l: "length line \<le> CB__CONFIG_LINE_MAX" by simp
      note pl = parse_line_result [OF assms l, of free cfg st]
      show ?thesis
      proof (cases "line_result line")
        case (Inl info)
        then show ?thesis using pl False by (auto simp: ls step parses_to_def n simp del: of_nat_Suc)
      next
        case (Inr kvo)
        show ?thesis
        proof (cases kvo)
          case None
          then show ?thesis using pl False Inr IH by (simp add: ls step n del: of_nat_Suc)
        next
          case (Some kv)
          obtain k v where kv: "kv = (k, v)" by fastforce
          obtain st0 cfg' st1 st' where p: "cb__config_set alloc free cfg k v st0 = (CB_INFO_OK, cfg', st1)"
            "cb__config_parse_line alloc free cfg line st = (CB_INFO_OK, cfg', st')"
            "cfg_info cfg' = cfg_info cfg" "cfg_error_line cfg' = cfg_error_line cfg"
            using pl Inr Some kv by auto
          have "parses_to alloc free cfg' (results (Suc (Suc n)) (split_lines rest))
              (fst (parse_loop alloc free cfg' (word_of_nat (Suc n)) rest st'))" by (rule IH)
          then show ?thesis
            using False Inr Some kv p
            by (auto simp: ls step n parses_to_def split_def Let_def simp del: of_nat_Suc
                split: option.splits intro: config_store.updates.more)
        qed
      qed
    qed
  qed
qed

section \<open>Writing a configuration\<close>

definition escape :: "char \<Rightarrow> string" where
  "escape c =
     (if c = CHR 0x22 then [CHR 0x5C, CHR 0x22]
      else if c = CHR 0x5C then [CHR 0x5C, CHR 0x5C]
      else if c = CHR 0x0A then [CHR 0x5C, CHR ''n'']
      else if c = CHR 0x09 then [CHR 0x5C, CHR ''t'']
      else if c = CHR 0x0D then [CHR 0x5C, CHR ''r'']
      else [c])"

definition render_line :: "string \<times> string \<Rightarrow> string" where
  "render_line kv = fst kv @ '' = '' @ [CHR 0x22] @ concat (map escape (snd kv)) @ [CHR 0x22]"

definition render :: "(string \<times> string) list \<Rightarrow> string" where
  "render kvs = concat (map (\<lambda>kv. render_line kv @ [CHR 0x0A]) kvs)"

definition writable :: "string \<times> string \<Rightarrow> bool" where
  "writable kv \<longleftrightarrow> cb__config_key_valid (fst kv) \<and> length (render_line kv) \<le> CB__CONFIG_LINE_MAX"

lemma decode_escaped:
  "length out + length v \<le> cap \<Longrightarrow>
   decode_quoted cap (concat (map escape v) @ s) out = decode_quoted cap s (out @ v)"
proof (induction v arbitrary: out)
  case (Cons c v)
  have "decode_quoted cap (escape c @ t) out = decode_quoted cap t (out @ [c])" for t
    using Cons.prems by (simp add: escape_def decode_escape_def put_char_def)
  then show ?case using Cons.IH [of "out @ [c]"] Cons.prems by simp
qed simp

lemma escape_line: "CHR 0x0A \<notin> set (escape c)"
  by (simp add: escape_def)

lemma length_escape: "length v \<le> length (concat (map escape v))"
proof (induction v)
  case (Cons c v)
  have "1 \<le> length (escape c)" by (simp add: escape_def)
  then show ?case using Cons by simp
qed simp

lemma takeWhile_stop: "(\<And>x. x \<in> set xs \<Longrightarrow> P x) \<Longrightarrow> \<not> P y \<Longrightarrow> takeWhile P (xs @ y # ys) = xs"
  by (induction xs) simp_all

lemma dropWhile_stop: "(\<And>x. x \<in> set xs \<Longrightarrow> P x) \<Longrightarrow> \<not> P y \<Longrightarrow> dropWhile P (xs @ y # ys) = y # ys"
  by (induction xs) simp_all

lemma render_line_result:
  assumes "writable kv"
  shows "line_result (render_line kv) = Inr (Some kv)"
proof -
  obtain k v where kv: "kv = (k, v)" by fastforce
  have k: "cb__config_key_valid k" and len: "length (render_line kv) \<le> CB__CONFIG_LINE_MAX"
    using assms by (simp_all add: writable_def kv)
  note kc = key_valid_chars [OF k, THEN key_char_not]
  define rhs where "rhs = '' '' @ [CHR 0x22] @ concat (map escape v) @ [CHR 0x22]"
  have line: "render_line kv = (k @ '' '') @ CHR ''='' # rhs" by (simp add: render_line_def kv rhs_def)
  obtain c k' where ck: "k = c # k'" using k by (cases k) (simp_all add: key_valid_iff)
  have c: "\<not> cb__config_is_space c" "c \<noteq> CHR ''#''" "c \<noteq> CHR '';''" using kc [of c] by (simp_all add: ck)
  have body: "dropWhile cb__config_is_space (render_line kv) = render_line kv" using c(1) by (simp add: line ck)
  have hd: "render_line kv \<noteq> []" "hd (render_line kv) = c" by (simp_all add: line ck)
  have no_eq: "x \<noteq> CHR ''=''" if "x \<in> set (k @ '' '')" for x using that kc [of x] by auto
  have "takeWhile (\<lambda>c. c \<noteq> CHR ''='') (render_line kv) = k @ '' ''"
    unfolding line by (rule takeWhile_stop) (use no_eq in auto)
  moreover have "strip_right (k @ '' '') = k"
  proof -
    obtain j x where kx: "k = j @ [x]" using ck by (metis list.distinct(1) rev_exhaust)
    then have "\<not> cb__config_is_space x" using kc [of x] by simp
    then have "dropWhile cb__config_is_space (rev k) = rev k" by (simp add: kx)
    then show ?thesis by (simp add: strip_right_def cb__config_is_space_def)
  qed
  ultimately have key: "strip_right (takeWhile (\<lambda>c. c \<noteq> CHR ''='') (render_line kv)) = k" by simp
  have "dropWhile (\<lambda>c. c \<noteq> CHR ''='') (render_line kv) = CHR ''='' # rhs"
    unfolding line by (rule dropWhile_stop) (use no_eq in auto)
  then have tl: "tl (dropWhile (\<lambda>c. c \<noteq> CHR ''='') (render_line kv)) = rhs" by simp
  have "length v \<le> length rhs" using length_escape [of v] by (simp add: rhs_def)
  then have "cb__config_decode_value rhs (length rhs) = (CB_INFO_OK, v)"
    using decode_escaped [of "[]" v "length rhs" "[CHR 0x22]"]
    by (simp add: rhs_def cb__config_decode_value_def cb__config_is_space_def)
  then show ?thesis
    using len c hd k unfolding line_result_def Let_def body key tl
    by (simp add: kv) (simp add: line [unfolded kv])
qed

lemma render_line_plain: "writable kv \<Longrightarrow> CHR 0x0A \<notin> set (render_line kv) \<and> strip_cr (render_line kv) = render_line kv"
  using key_valid_chars [of "fst kv", THEN key_char_not] escape_line
  by (auto simp: writable_def render_line_def strip_cr_def)

lemma split_render: "list_all writable kvs \<Longrightarrow> split_lines (render kvs) = map render_line kvs"
proof (induction kvs)
  case (Cons kv kvs)
  have p: "CHR 0x0A \<notin> set (render_line kv)" "strip_cr (render_line kv) = render_line kv"
    using render_line_plain Cons.prems by auto
  have r: "render (kv # kvs) = render_line kv @ CHR 0x0A # render kvs" by (simp add: render_def)
  have "takeWhile (\<lambda>c. c \<noteq> CHR 0x0A) (render (kv # kvs)) = render_line kv"
    "dropWhile (\<lambda>c. c \<noteq> CHR 0x0A) (render (kv # kvs)) = CHR 0x0A # render kvs"
    unfolding r using p(1) by (auto intro!: takeWhile_stop dropWhile_stop)
  then show ?case using Cons p(2) by (subst split_lines.simps) (simp add: r)
qed (simp add: render_def)

lemma results_render: "list_all writable kvs \<Longrightarrow> results n (map render_line kvs) = (kvs, None)"
  by (induction kvs arbitrary: n) (simp_all add: render_line_result)

section \<open>Memory\<close>

lemma set_info: "cb__config_set alloc free cfg key val st = (info, cfg', st') \<Longrightarrow> cfg_info cfg' = cfg_info cfg"
  by (erule set_cases) simp_all

lemma line_info: "cb__config_parse_line alloc free cfg line st = (info, cfg', st') \<Longrightarrow> info = CB_INFO_OK \<Longrightarrow>
    cfg_info cfg' = cfg_info cfg"
  by (auto simp: cb__config_parse_line_def Let_def dest: set_info split: list.splits if_splits prod.splits option.splits)

context allocator
begin

abbreviation keeps :: "'p set \<Rightarrow> 'p cb_config_t \<Rightarrow> 's \<Rightarrow> bool" where
  "keeps base cfg s \<equiv> holds base (owned (cfg_entries cfg)) s \<and> wf_config cfg"

lemma wf_set:
  "wf_config cfg \<Longrightarrow> NUL \<notin> set key \<Longrightarrow> cb__config_set alloc free cfg key val s = (info, cfg', s') \<Longrightarrow> wf_config cfg'"
  using config_store.put_ok [of cfg key alloc free val s cfg' s']
    config_store.put_fails [of alloc free cfg key val s info cfg' s'] by (cases "info = CB_INFO_OK") auto

lemma keeps_line:
  assumes "keeps base cfg s" "cb__config_parse_line alloc free cfg line s = (info, cfg', s')"
  shows "keeps base cfg' s'"
proof -
  define body where "body = dropWhile cb__config_is_space line"
  define key where "key = strip_right (takeWhile (\<lambda>c. c \<noteq> CHR ''='') body)"
  note p = assms(2) [unfolded cb__config_parse_line_def body_def [symmetric] Let_def key_def [symmetric]]
  have same: ?thesis if "cfg' = cfg" "s' = s" using assms(1) that by simp
  show ?thesis
  proof (cases body)
    case (Cons c body')
    show ?thesis
    proof (cases "c = CHR ''#'' \<or> c = CHR '';''")
      case comment: False
      show ?thesis
      proof (cases "dropWhile (\<lambda>c. c \<noteq> CHR ''='') body")
        case eq: (Cons d rhs)
        note p1 = p [unfolded eq list.case]
        show ?thesis
        proof (cases "cb__config_key_valid key")
          case valid: True
          obtain q s1 where a: "alloc (word_of_nat (length rhs) + 1) 1 s = (q, s1)" by fastforce
          obtain dinfo val where d: "cb__config_decode_value rhs (length rhs) = (dinfo, val)" by fastforce
          note p2 = p1 [unfolded a d prod.case]
          show ?thesis
          proof (cases q)
            case None
            then have "cfg' = cfg" "s' = s1" using p2 Cons comment valid by simp_all
            then show ?thesis using holds_alloc_fails [OF _ a [unfolded None]] assms(1) by simp
          next
            case (Some ptr)
            have h: "holds base (ptr # owned (cfg_entries cfg)) s1"
              using holds_alloc [OF _ a [unfolded Some]] assms(1) by simp
            show ?thesis
            proof (cases "dinfo = CB_INFO_OK")
              case False
              then have "cfg' = cfg" "s' = free ptr s1" using p2 Cons comment valid Some by simp_all
              then show ?thesis using holds_free [OF h] assms(1) by simp
            next
              case True
              obtain sinfo cfg2 s2 where st: "cb__config_set alloc free cfg key val s1 = (sinfo, cfg2, s2)"
                by (metis prod_cases3)
              have r: "cfg' = cfg2" "s' = free ptr s2" using p2 Cons comment valid Some True st by simp_all
              have nul: "NUL \<notin> set key" using key_valid_no_NUL [OF valid] .
              have wf: "list_all wf_entry (cfg_entries cfg)" using assms(1) by (simp add: wf_config_def)
              have "holds base (owned (cfg_entries cfg) @ [ptr]) s1" by (rule holds_perm [OF h]) simp
              from holds_set [OF this st wf nul] have "holds base (ptr # owned (cfg_entries cfg2)) s2"
                by (rule holds_perm) simp
              then show ?thesis using wf_set [OF _ nul st] assms(1) holds_free by (simp add: r)
            qed
          qed
        next
          case False
          then show ?thesis using p1 Cons comment by (intro same) simp_all
        qed
      next
        case Nil
        show ?thesis using p [unfolded Nil list.case] Cons comment by (intro same) simp_all
      qed
    next
      case True
      then show ?thesis using p Cons by (intro same) simp_all
    qed
  next
    case Nil
    then show ?thesis using p by (intro same) simp_all
  qed
qed

lemma fail_parse_frees: "keeps base cfg s \<Longrightarrow> fail_parse free cfg info n s = (cfg', s') \<Longrightarrow> holds base [] s' \<and> cfg_entries cfg' = [] \<and> wf_config cfg'"
  using holds_free_loop [of base "cfg_entries cfg" "[]" s]
  by (auto simp: fail_parse_def cb__config_free_entries_def wf_config_def)

lemma keeps_parse_loop:
  "keeps base cfg s \<Longrightarrow> parse_loop alloc free cfg n inp s = (cfg', s') \<Longrightarrow>
    keeps base cfg' s' \<and> (cfg_info cfg \<noteq> CB_INFO_OK \<or> cfg_info cfg' = CB_INFO_OK \<or> cfg_entries cfg' = [])"
proof (induction inp arbitrary: cfg n s rule: split_lines.induct)
  case (1 inp)
  show ?case
  proof (cases "inp = []")
    case True
    then show ?thesis using "1.prems" by auto
  next
    case False
    define line where "line = strip_cr (takeWhile (\<lambda>c. c \<noteq> CHR 0x0A) inp)"
    define rest where "rest = tl (dropWhile (\<lambda>c. c \<noteq> CHR 0x0A) inp)"
    obtain info cfg1 s1 where p: "cb__config_parse_line alloc free cfg line s = (info, cfg1, s1)" by (metis prod_cases3)
    note step = "1.prems"(2) [unfolded parse_loop_step [OF False] line_def [symmetric] rest_def [symmetric] Let_def p prod.case]
    note k = keeps_line [OF "1.prems"(1) p]
    show ?thesis
    proof (cases "CB__CONFIG_LINE_MAX < length line")
      case True
      then show ?thesis using step fail_parse_frees [OF "1.prems"(1)] by simp
    next
      case short: False
      show ?thesis
      proof (cases "info = CB_INFO_OK")
        case False
        then show ?thesis using step short fail_parse_frees [OF k] by simp
      next
        case True
        have "cfg_info cfg1 = cfg_info cfg" using p True by (rule line_info)
        then show ?thesis using "1.IH" [OF False, folded rest_def, OF k] step short True by simp
      qed
    qed
  qed
qed

lemma keeps_parse:
  "holds base [] s \<Longrightarrow> cb_config_parse alloc free inp len s = (cfg, s') \<Longrightarrow>
    keeps base cfg s' \<and> (cfg_info cfg = CB_INFO_OK \<or> cfg_entries cfg = [])"
  using keeps_parse_loop [of base empty_config s 0 _ cfg s']
  by (auto simp: cb_config_parse_def empty_config_def wf_config_def split: option.splits if_splits)

lemma holds_base: "holds base (p # ps) s \<longleftrightarrow> holds (insert p base) ps s \<and> p \<notin> base"
  by (auto simp: holds_def)

lemma keeps_parse_file:
  assumes "holds base [] s" "cb_config_parse_file alloc free f io s = (cfg, io', s')"
  shows "keeps base cfg s' \<and> (cfg_info cfg = CB_INFO_OK \<or> cfg_entries cfg = [])"
proof -
  have same: ?thesis if "cfg_entries cfg = []" "cfg_count cfg = 0" "holds base [] s'"
    using that by (simp add: wf_config_def)
  note d = cb_config_parse_file_def fopen_def fseek_end_def ftell_def fseek_set_def empty_config_def Let_def
  show ?thesis
  proof (cases "f_opens f \<and> f_seek_end f \<and> \<not> f_tell f <s 0 \<and> \<not> CB__CONFIG_FILE_MAX < f_tell f \<and> f_seek_set f")
    case False
    then show ?thesis using assms by (intro same) (auto simp: d split: if_splits)
  next
    case True
    let ?sz = "f_tell f"
    obtain q s1 where a: "alloc (if 0 < ?sz then ?sz else 1) 1 s = (q, s1)" by fastforce
    show ?thesis
    proof (cases q)
      case None
      then show ?thesis using assms True a holds_alloc_fails [OF assms(1) a [unfolded None]]
        by (intro same) (auto simp: d)
    next
      case (Some buf)
      note h = holds_alloc [OF assms(1) a [unfolded Some]]
      define got where "got = (if 0 < ?sz then take (unat ?sz) (f_read f) else [])"
      have got: "(if 0 < ?sz then fread f h (unat ?sz) x else ([], y)) = (got, if 0 < ?sz then use_stream h x else y)"
        for h x y by (simp add: got_def fread_def)
      show ?thesis
      proof (cases "length got = unat ?sz")
        case False
        then have "cfg = empty_config\<lparr>cfg_info := CB_INFO_CONFIG_FILE_OPEN_FAILED\<rparr>" "s' = free buf s1"
          using assms(2) True a Some by (simp_all add: d got)
        then show ?thesis using holds_free [OF h] by (intro same) (simp_all add: empty_config_def)
      next
        case read: True
        obtain cfg1 s2 where p: "cb_config_parse alloc free (Some got) (unat ?sz) s1 = (cfg1, s2)"
          by fastforce
        have k: "keeps (insert buf base) cfg1 s2" "cfg_info cfg1 = CB_INFO_OK \<or> cfg_entries cfg1 = []"
          using keeps_parse [OF _ p, of "insert buf base"] h by (simp_all add: holds_base)
        then have "holds base (owned (cfg_entries cfg1)) (free buf s2)"
          using h by (intro holds_free) (simp add: holds_base)
        moreover have "cfg = cfg1" "s' = free buf s2"
          using assms(2) True a Some p read by (simp_all add: d got)
        ultimately show ?thesis using k by simp
      qed
    qed
  qed
qed

lemma destroy_frees: "keeps base cfg s \<Longrightarrow> cb_config_destroy free cfg s = (cfg', s') \<Longrightarrow> holds base [] s'"
  using holds_free_loop [of base "cfg_entries cfg" "[]" s]
  by (auto simp: cb_config_destroy_def cb__config_free_entries_def)

end

section \<open>Files\<close>

text \<open>The streams that are open are among those that were opened, and no call was made on another.\<close>

definition stdio_ok :: "stdio \<Rightarrow> bool" where
  "stdio_ok io \<longleftrightarrow> io_open io \<subseteq> {..<io_opened io} \<and> \<not> io_fault io"

text \<open>Every path closes the stream it opened, once and after its last use.\<close>

lemma parse_file_closes:
  assumes "stdio_ok io" "cb_config_parse_file alloc free f io s = (cfg, io', s')"
  shows "io' = io\<lparr>io_opened := io_opened io + (if f_opens f then 1 else 0)\<rparr>"
proof (cases "f_opens f")
  case False
  then show ?thesis using assms(2) by (auto simp: cb_config_parse_file_def fopen_def)
next
  case True
  define io1 where "io1 = io\<lparr>io_opened := io_opened io + 1, io_open := insert (io_opened io) (io_open io)\<rparr>"
  let ?h = "io_opened io"
  have o: "fopen f io = (Some ?h, io1)" using True by (simp add: fopen_def io1_def)
  have use: "use_stream ?h io1 = io1" by (simp add: use_stream_def io1_def)
  have "io_open io1 - {?h} = io_open io" using assms(1) by (auto simp: io1_def stdio_ok_def)
  then have close: "fclose ?h io1 = io\<lparr>io_opened := io_opened io + 1\<rparr>"
    unfolding fclose_def use by (simp add: io1_def)
  have same: "(if b then (x, io1) else (y, io1)) = (if b then x else y, io1)" for b and x y :: string by simp
  have "fst (snd (cb_config_parse_file alloc free f io s)) = fclose ?h io1"
    unfolding cb_config_parse_file_def o option.case prod.case fseek_end_def ftell_def fseek_set_def fread_def use Let_def same
    by (simp split: option.splits prod.splits)
  then show ?thesis using assms(2) True close by simp
qed

section \<open>Properties\<close>

lemma parses_to_map:
  fixes alloc :: "('p, 's) alloc"
  assumes "parses_to alloc free empty_config (kvs, None) cfg" "list_all (\<lambda>(k, v). NUL \<notin> set k) kvs"
  shows "wf_config cfg \<and> config_map cfg = map_of (rev kvs) \<and> cfg_info cfg = CB_INFO_OK \<and> cfg_error_line cfg = 0"
proof -
  have "wf_config (empty_config :: 'p cb_config_t)" "config_map (empty_config :: 'p cb_config_t) = Map.empty"
    by (simp_all add: wf_config_def config_map_def empty_config_def)
  moreover have "config_store.updates TYPE('s) alloc free empty_config kvs cfg"
    "cfg_info cfg = CB_INFO_OK" "cfg_error_line cfg = 0"
    using assms(1) by (simp_all add: parses_to_def empty_config_def)
  ultimately show ?thesis using config_store.updates_lookup assms(2) by force
qed

text \<open>C2. The parser gives a text the one meaning it has in the grammar of \<open>Config_Format\<close>, with any
  allocator that does not fail.  If every line is blank, a comment or an assignment, the configuration is
  OK and looking up a key gives the value that the last assignment to it denotes; otherwise the status
  and the line number are those of the first line in error, and the configuration is empty.\<close>

theorem config_parse_meaning:
  assumes "never_fails alloc" "cb_config_parse alloc free (Some inp) (length inp) st = (cfg, st')"
  shows "\<exists>kvs err. text_means inp (kvs, err) \<and> (\<forall>m. text_means inp m \<longrightarrow> m = (kvs, err))
    \<and> (case err of
         None \<Rightarrow> cfg_info cfg = CB_INFO_OK \<and> cfg_error_line cfg = 0 \<and> wf_config cfg
           \<and> (\<forall>key. cb_config_get (Some cfg) (Some key) = map_option (\<lambda>v. v @ [NUL]) (map_of (rev kvs) key))
       | Some (info, n) \<Rightarrow> info \<noteq> CB_INFO_OK \<and> cfg_info cfg = info \<and> cfg_error_line cfg = word_of_nat n
           \<and> cfg_entries cfg = [] \<and> cfg_count cfg = 0)"
proof -
  obtain kvs e where m: "results 1 (split_lines inp) = (kvs, e)" by fastforce
  have "parse_loop alloc free empty_config 0 inp st = (cfg, st')"
    using assms(2) by (simp add: cb_config_parse_def)
  then have p: "parses_to alloc free empty_config (kvs, e) cfg"
    using parse_loop_results [OF assms(1), of free empty_config 0 inp st] m by simp
  have "text_means inp (kvs, e)" "\<forall>m'. text_means inp m' \<longrightarrow> m' = (kvs, e)" unfolding text_means_iff m by simp_all
  moreover have "case e of
      None \<Rightarrow> cfg_info cfg = CB_INFO_OK \<and> cfg_error_line cfg = 0 \<and> wf_config cfg
        \<and> (\<forall>key. cb_config_get (Some cfg) (Some key) = map_option (\<lambda>v. v @ [NUL]) (map_of (rev kvs) key))
    | Some (info, n) \<Rightarrow> info \<noteq> CB_INFO_OK \<and> cfg_info cfg = info \<and> cfg_error_line cfg = word_of_nat n
        \<and> cfg_entries cfg = [] \<and> cfg_count cfg = 0"
  proof (cases e)
    case None
    have "list_all (\<lambda>(k, v). NUL \<notin> set k) kvs" using results_keys [of 1 "split_lines inp"] m by simp
    then show ?thesis using None parses_to_map p get_map by fastforce
  next
    case (Some x)
    then show ?thesis using p by (cases x) (simp add: parses_to_def)
  qed
  ultimately show ?thesis by blast
qed

text \<open>An allocator for the examples.\<close>

definition full_alloc :: "(pointer, memory) alloc" where
  "full_alloc = heap_alloc (\<lambda>m n. Some [])"

lemma full_alloc: "never_fails full_alloc"
  by (simp add: never_fails_def full_alloc_def heap_alloc_malloc malloc_plain_def)

definition no_memory :: memory where
  "no_memory = \<lparr>mem_next = 0, mem_plain = Map.empty, mem_blocks = Map.empty, mem_fault = False\<rparr>"

lemma config_parse_meaning_witness:
  "let inp = ''a = 1 # one'' @ [CHR 0x0D, CHR 0x0A] @ '' ; note'' @ [CHR 0x0A] @ ''a = 2'';
       (cfg, _) = cb_config_parse full_alloc (cb__free None) (Some inp) (length inp) no_memory
   in text_means inp ([(''a'', ''1''), (''a'', ''2'')], None)
    \<and> cfg_info cfg = CB_INFO_OK \<and> cb_config_get (Some cfg) (Some ''a'') = Some (''2'' @ [NUL])"
proof -
  let ?line = "''a = 1 # one''"
  let ?inp = "?line @ [CHR 0x0D, CHR 0x0A] @ '' ; note'' @ [CHR 0x0A] @ ''a = 2''"
  obtain cfg m where c: "cb_config_parse full_alloc (cb__free None) (Some ?inp) (length ?inp) no_memory = (cfg, m)"
    by fastforce
  have "lines_of ''a = 2'' [''a = 2'']" by (intro lines_of.last_line without_cr.no_cr) simp_all
  then have "lines_of ('' ; note'' @ CHR 0x0A # ''a = 2'') ['' ; note'', ''a = 2'']"
    by (intro lines_of.next_line without_cr.no_cr) simp_all
  from lines_of.next_line [OF _ without_cr.cr [of ?line] this]
  have ls: "lines_of ?inp [?line, '' ; note'', ''a = 2'']" by simp
  have v: "value_means '' 1 # one'' (Inr ''1'')" "value_means '' 2'' (Inr ''2'')"
    using value_means.bare [of "'' ''" "''1''" "'' ''" "''# one''"] value_means.bare [of "'' ''" "''2''" "[]" "[]"]
    by (simp_all add: blanks_def bare_def comment_or_end_def comment_signs_def)
  have k: "is_key ''a''" by (simp add: key_heads_def)
  have "line_means ?line (Inr (Some (''a'', ''1'')))"
    by (rule line_means.assigns [OF _ _ _ k _ v(1), of _ "[]" "'' ''"]) (simp_all add: blanks_def)
  moreover have "line_means ''a = 2'' (Inr (Some (''a'', ''2'')))"
    by (rule line_means.assigns [OF _ _ _ k _ v(2), of _ "[]" "'' ''"]) (simp_all add: blanks_def)
  moreover have "ignored '' ; note''"
    unfolding ignored_def
    by (intro exI [of _ "'' ''"] exI [of _ "''; note''"]) (simp add: blanks_def comment_or_end_def comment_signs_def)
  ultimately have "lines_mean 1 [?line, '' ; note'', ''a = 2''] ([(''a'', ''1''), (''a'', ''2'')], None)"
    by (intro lines_mean.assignment lines_mean.says_nothing lines_mean.no_more line_means.ignored) simp_all
  then have t: "text_means ?inp ([(''a'', ''1''), (''a'', ''2'')], None)" using ls unfolding text_means_def by blast
  obtain kvs err where r: "\<forall>m. text_means ?inp m \<longrightarrow> m = (kvs, err)"
    "case err of
         None \<Rightarrow> cfg_info cfg = CB_INFO_OK \<and> cfg_error_line cfg = 0 \<and> wf_config cfg
           \<and> (\<forall>key. cb_config_get (Some cfg) (Some key) = map_option (\<lambda>v. v @ [NUL]) (map_of (rev kvs) key))
       | Some (info, n) \<Rightarrow> info \<noteq> CB_INFO_OK \<and> cfg_info cfg = info \<and> cfg_error_line cfg = word_of_nat n
           \<and> cfg_entries cfg = [] \<and> cfg_count cfg = 0"
    using config_parse_meaning [OF full_alloc c] by blast
  have "kvs = [(''a'', ''1''), (''a'', ''2'')]" "err = None" using r(1) t by blast+
  then have "cfg_info cfg = CB_INFO_OK" "cb_config_get (Some cfg) (Some ''a'') = Some (''2'' @ [NUL])" using r(2) by simp_all
  then show ?thesis unfolding Let_def c prod.case using t by blast
qed

text \<open>C4. What can be written is read back.  Any list of keys that are valid with any values, written
  one per line as \<open>key = "value"\<close> with the special characters escaped and no line beyond the limit,
  parses without error, and looking up a key gives the last value written for it.\<close>

theorem config_write_parse:
  assumes "never_fails alloc" "list_all writable kvs"
    and "cb_config_parse alloc free (Some (render kvs)) (length (render kvs)) st = (cfg, st')"
  shows "cfg_info cfg = CB_INFO_OK
    \<and> (\<forall>key. cb_config_get (Some cfg) (Some key) = map_option (\<lambda>v. v @ [NUL]) (map_of (rev kvs) key))"
proof -
  obtain ls where ls: "split_lines (render kvs) = ls" "results 1 ls = (kvs, None)"
    using split_render [OF assms(2)] results_render [OF assms(2)] by simp
  have "parse_loop alloc free empty_config 0 (render kvs) st = (cfg, st')"
    using assms(3) by (simp add: cb_config_parse_def)
  then have p: "parses_to alloc free empty_config (kvs, None) cfg"
    using parse_loop_results [OF assms(1), of free empty_config 0 "render kvs" st] ls by simp
  have "list_all (\<lambda>(k, v). NUL \<notin> set k) kvs" using results_keys [of 1 ls] ls(2) by simp
  from parses_to_map [OF p this] show ?thesis by (simp add: get_map)
qed

lemma config_write_parse_witness:
  "let kvs = [(''net.port'', ''80''), (''motd'', [CHR 0x22, CHR 0x0A, CHR ''#''])];
       (cfg, _) = cb_config_parse full_alloc (cb__free None) (Some (render kvs)) (length (render kvs)) no_memory
   in cb_config_get (Some cfg) (Some ''motd'') = Some [CHR 0x22, CHR 0x0A, CHR ''#'', NUL]"
proof -
  let ?kvs = "[(''net.port'', ''80''), (''motd'', [CHR 0x22, CHR 0x0A, CHR ''#''])]"
  have w: "list_all writable ?kvs"
    by (simp add: writable_def key_valid_iff cb__config_key_head_ok_def cb__config_key_tail_ok_def
        render_line_def escape_def CB__CONFIG_LINE_MAX_def)
  obtain cfg m where c: "cb_config_parse full_alloc (cb__free None) (Some (render ?kvs)) (length (render ?kvs)) no_memory = (cfg, m)"
    by fastforce
  show ?thesis using config_write_parse [OF full_alloc w c] unfolding Let_def c prod.case by simp
qed

text \<open>C3. Without an arena, the parser leaves neither memory nor an open file behind and frees and closes
  nothing twice.  Whether memory runs out or not and whatever the calls on the file return, a parse that
  fails has returned everything it allocated and holds no entry, destroying the result of any parse, of a
  text or of a file, brings back the memory from before, and no free was of something that was not
  allocated.  The streams that are open after parsing a file are those from before, and no call, a close
  included, was made on a stream that is not open.\<close>

theorem config_frees_all:
  assumes "heap_ok m" "stdio_ok io"
    and "cb_config_parse (heap_alloc avail) (cb__free None) inp len m = (cfg, m1) \<and> io1 = io
      \<or> cb_config_parse_file (heap_alloc avail) (cb__free None) f io m = (cfg, io1, m1)"
  shows "(cfg_info cfg \<noteq> CB_INFO_OK \<longrightarrow> cfg_entries cfg = [] \<and> heap_live m1 = heap_live m)
    \<and> heap_live (snd (cb_config_destroy (cb__free None) cfg m1)) = heap_live m
    \<and> \<not> mem_fault (snd (cb_config_destroy (cb__free None) cfg m1))
    \<and> io_open io1 = io_open io \<and> \<not> io_fault io1"
proof -
  have h: "heap_allocator.holds (heap_live m) [] m" using assms(1) by (simp add: heap_allocator.holds_def)
  have k: "heap_allocator.keeps (heap_live m) cfg m1 \<and> (cfg_info cfg = CB_INFO_OK \<or> cfg_entries cfg = [])"
    using assms(3) heap_allocator.keeps_parse [OF h] heap_allocator.keeps_parse_file [OF h] by blast
  have io: "io_open io1 = io_open io \<and> \<not> io_fault io1"
    using assms(3) parse_file_closes [OF assms(2)] assms(2) by (fastforce simp: stdio_ok_def)
  have "heap_allocator.holds (heap_live m) [] (snd (cb_config_destroy (cb__free None) cfg m1))"
    using heap_allocator.destroy_frees k by (metis prod.collapse)
  then show ?thesis using k io by (auto simp: heap_allocator.holds_def heap_ok_def)
qed

text \<open>A file of one line, with memory for two allocations only: the parse fails.\<close>

lemma config_frees_all_witness:
  "\<exists>cfg io1 m1. cb_config_parse_file (heap_alloc (\<lambda>m n. if mem_next m < 2 then Some [] else None)) (cb__free None)
      \<lparr>f_opens = True, f_seek_end = True, f_tell = 5, f_seek_set = True, f_read = ''a = 1''\<rparr>
      \<lparr>io_opened = 3, io_open = {0, 1, 2}, io_fault = False\<rparr> no_memory = (cfg, io1, m1)
    \<and> heap_live (snd (cb_config_destroy (cb__free None) cfg m1)) = {} \<and> io_open io1 = {0, 1, 2}"
proof -
  let ?f = "\<lparr>f_opens = True, f_seek_end = True, f_tell = 5, f_seek_set = True, f_read = ''a = 1''\<rparr>"
  let ?io = "\<lparr>io_opened = 3, io_open = {0, 1, 2}, io_fault = False\<rparr>"
  obtain cfg io1 m1 where c: "cb_config_parse_file (heap_alloc (\<lambda>m n. if mem_next m < 2 then Some [] else None)) (cb__free None)
      ?f ?io no_memory = (cfg, io1, m1)" by (metis prod_cases3)
  have "heap_ok no_memory" "heap_live no_memory = {}" by (simp_all add: heap_ok_def heap_live_def no_memory_def)
  moreover have "stdio_ok ?io" by (auto simp: stdio_ok_def)
  ultimately show ?thesis using config_frees_all [OF _ _ disjI2 [OF c]] c by auto
qed

end
