(* ===== verification/Netsim.thy ===== *)
theory Netsim
  imports Rng_Bounded Alloc
begin

text \<open>
  The deterministic network simulator of \<open>src/cbase_netsim.c\<close>.  The sorted list of pending datagrams,
  the list of endpoints and each endpoint's ready queue are lists, head first; a node carries the
  pointers it owns, and its length is the length of its payload.  The allocator is given by the
  functions \<open>alloc\<close> and \<open>free\<close> on the memory \<open>net_mem\<close>; the clock function is an opaque value that
  \<open>clocks\<close> reads.  A send draws from the generator of the net, so its result is \<open>None\<close> if a
  rejection loop does not end.  A handle is attached to the net or not.
\<close>

section \<open>Definitions\<close>

record cb_net_addr_t =
  addr_info :: cb_info_t
  addr_ip :: u32
  addr_port :: u16

definition CB_NETSIM_MAX_DATAGRAM_BYTES :: nat where "CB_NETSIM_MAX_DATAGRAM_BYTES = 65535"

record cb_netsim_params_t =
  drop_prob :: cb_fx16_t
  dup_prob :: cb_fx16_t
  corrupt_prob :: cb_fx16_t
  latency_ms_min :: u32
  latency_ms_max :: u32
  reorder_prob :: cb_fx16_t
  reorder_swap_ms_min :: u32
  reorder_swap_ms_max :: u32
  max_queue_bytes :: u32

record 'p cb__netsim_pending_t =
  nd_src :: cb_net_addr_t
  nd_dest :: cb_net_addr_t
  nd_scheduled_ns :: u64
  nd_payload :: "u8 list"
  nd_payload_ptr :: "'p option"
  nd_ptr :: 'p

record 'p cb__netsim_endpoint_t =
  ep_addr :: cb_net_addr_t
  ep_ready :: "'p cb__netsim_pending_t list"
  ep_bytes_in_flight :: u64
  ep_ptr :: 'p

record ('p, 's, 'c) cb_netsim_t =
  net_info :: cb_info_t
  net_mem :: 's
  net_rng :: cb_rng_t
  net_params :: cb_netsim_params_t
  net_clock :: "'c option"
  net_endpoints :: "'p cb__netsim_endpoint_t list"
  net_pending :: "'p cb__netsim_pending_t list"
  stat_enqueued :: u32
  stat_delivered :: u32
  stat_dropped :: u32
  stat_duplicated :: u32
  stat_corrupted :: u32
  stat_reordered :: u32
  stat_queue_full :: u32

record cb_netsim_endpoint_t =
  h_info :: cb_info_t
  h_attached :: bool
  h_addr :: cb_net_addr_t

type_synonym ('p, 's) alloc = "size_t \<Rightarrow> size_t \<Rightarrow> 's \<Rightarrow> 'p option \<times> 's"
type_synonym ('p, 's) free = "'p \<Rightarrow> 's \<Rightarrow> 's"
type_synonym 'c clocks = "('c \<Rightarrow> u64) \<times> u64"

definition net_now :: "'c clocks \<Rightarrow> ('p, 's, 'c) cb_netsim_t \<Rightarrow> u64" where
  "net_now clocks net = (case net_clock net of None \<Rightarrow> snd clocks | Some c \<Rightarrow> fst clocks c)"

definition cb__netsim_params_ok :: "cb_netsim_params_t \<Rightarrow> bool" where
  "cb__netsim_params_ok p =
     (if latency_ms_max p < latency_ms_min p then False
      else if reorder_swap_ms_max p < reorder_swap_ms_min p then False
      else True)"

text \<open>Addresses are compared by address and port.\<close>

definition same_addr :: "cb_net_addr_t \<Rightarrow> cb_net_addr_t \<Rightarrow> bool" where
  "same_addr a b \<longleftrightarrow> addr_ip a = addr_ip b \<and> addr_port a = addr_port b"

fun cb__netsim_find_endpoint :: "'p cb__netsim_endpoint_t list \<Rightarrow> cb_net_addr_t \<Rightarrow> 'p cb__netsim_endpoint_t option" where
  "cb__netsim_find_endpoint [] addr = None"
| "cb__netsim_find_endpoint (e # es) addr =
     (if same_addr (ep_addr e) addr then Some e else cb__netsim_find_endpoint es addr)"

text \<open>Writing through the pointer that \<open>cb__netsim_find_endpoint\<close> returns.\<close>

fun at_endpoint :: "('p cb__netsim_endpoint_t \<Rightarrow> 'p cb__netsim_endpoint_t) \<Rightarrow> cb_net_addr_t
    \<Rightarrow> 'p cb__netsim_endpoint_t list \<Rightarrow> 'p cb__netsim_endpoint_t list" where
  "at_endpoint f addr [] = []"
| "at_endpoint f addr (e # es) = (if same_addr (ep_addr e) addr then f e # es else e # at_endpoint f addr es)"

definition cb__netsim_free_node :: "('p, 's) free \<Rightarrow> 'p cb__netsim_pending_t \<Rightarrow> 's \<Rightarrow> 's" where
  "cb__netsim_free_node free n m =
     free (nd_ptr n) (case nd_payload_ptr n of None \<Rightarrow> m | Some p \<Rightarrow> free p m)"

fun free_nodes :: "('p, 's) free \<Rightarrow> 'p cb__netsim_pending_t list \<Rightarrow> 's \<Rightarrow> 's" where
  "free_nodes free [] m = m"
| "free_nodes free (n # ns) m = free_nodes free ns (cb__netsim_free_node free n m)"

definition cb__netsim_drop_endpoint_ready ::
  "('p, 's) free \<Rightarrow> 'p cb__netsim_endpoint_t \<Rightarrow> 's \<Rightarrow> 'p cb__netsim_endpoint_t \<times> 's" where
  "cb__netsim_drop_endpoint_ready free e m =
     (e\<lparr>ep_ready := [], ep_bytes_in_flight := 0\<rparr>, free_nodes free (ep_ready e) m)"

text \<open>The walk behind the current node.\<close>

fun insert_walk :: "'p cb__netsim_pending_t \<Rightarrow> 'p cb__netsim_pending_t list \<Rightarrow> 'p cb__netsim_pending_t list" where
  "insert_walk node [] = [node]"
| "insert_walk node (n # ns) =
     (if nd_scheduled_ns n \<le> nd_scheduled_ns node then n # insert_walk node ns else node # n # ns)"

fun cb__netsim_pending_insert ::
  "'p cb__netsim_pending_t list \<Rightarrow> 'p cb__netsim_pending_t \<Rightarrow> 'p cb__netsim_pending_t list" where
  "cb__netsim_pending_insert [] node = [node]"
| "cb__netsim_pending_insert (n # ns) node =
     (if nd_scheduled_ns node < nd_scheduled_ns n then node # n # ns else n # insert_walk node ns)"

definition add_bytes :: "'p cb__netsim_pending_t \<Rightarrow> 'p cb__netsim_endpoint_t \<Rightarrow> 'p cb__netsim_endpoint_t" where
  "add_bytes node e = e\<lparr>ep_bytes_in_flight := ep_bytes_in_flight e + word_of_nat (length (nd_payload node))\<rparr>"

definition cb__netsim_enqueue_node :: "('p, 's, 'c) cb_netsim_t \<Rightarrow> 'p cb__netsim_pending_t \<Rightarrow> ('p, 's, 'c) cb_netsim_t" where
  "cb__netsim_enqueue_node net node =
     net\<lparr>net_endpoints := at_endpoint (add_bytes node) (nd_dest node) (net_endpoints net),
       net_pending := cb__netsim_pending_insert (net_pending net) node\<rparr>"

definition cb_netsim_create :: "'s \<Rightarrow> u64 \<Rightarrow> cb_netsim_params_t \<Rightarrow> ('p, 's, 'c) cb_netsim_t" where
  "cb_netsim_create mem seed params =
     (let net = \<lparr>net_info = CB_INFO_OK, net_mem = mem, net_rng = cb_rng_seed seed 0, net_params = params,
            net_clock = None, net_endpoints = [], net_pending = [], stat_enqueued = 0, stat_delivered = 0,
            stat_dropped = 0, stat_duplicated = 0, stat_corrupted = 0, stat_reordered = 0, stat_queue_full = 0\<rparr>
      in if \<not> cb__netsim_params_ok params then net\<lparr>net_info := CB_INFO_NETSIM_BAD_PARAMS\<rparr> else net)"

fun destroy_endpoints :: "('p, 's) free \<Rightarrow> 'p cb__netsim_endpoint_t list \<Rightarrow> 's \<Rightarrow> 's" where
  "destroy_endpoints free [] m = m"
| "destroy_endpoints free (e # es) m =
     (let (e, m) = cb__netsim_drop_endpoint_ready free e m
      in destroy_endpoints free es (free (ep_ptr e) m))"

definition cb_netsim_destroy :: "('p, 's) free \<Rightarrow> ('p, 's, 'c) cb_netsim_t \<Rightarrow> ('p, 's, 'c) cb_netsim_t" where
  "cb_netsim_destroy free net =
     net\<lparr>net_pending := [], net_endpoints := [],
       net_mem := destroy_endpoints free (net_endpoints net) (free_nodes free (net_pending net) (net_mem net))\<rparr>"

definition cb_netsim_set_params ::
  "('p, 's, 'c) cb_netsim_t \<Rightarrow> cb_netsim_params_t \<Rightarrow> cb_info_t \<times> ('p, 's, 'c) cb_netsim_t" where
  "cb_netsim_set_params net params =
     (if \<not> cb__netsim_params_ok params then (CB_INFO_NETSIM_BAD_PARAMS, net)
      else (CB_INFO_OK, net\<lparr>net_params := params\<rparr>))"

definition cb_netsim_set_clock :: "('p, 's, 'c) cb_netsim_t \<Rightarrow> 'c option \<Rightarrow> ('p, 's, 'c) cb_netsim_t" where
  "cb_netsim_set_clock net c = net\<lparr>net_clock := c\<rparr>"

definition sizeof_endpoint :: size_t where "sizeof_endpoint = 48"
definition sizeof_pending :: size_t where "sizeof_pending = 56"

definition cb_netsim_bind :: "('p, 's) alloc \<Rightarrow> ('p, 's, 'c) cb_netsim_t \<Rightarrow> cb_net_addr_t
    \<Rightarrow> cb_netsim_endpoint_t \<times> ('p, 's, 'c) cb_netsim_t" where
  "cb_netsim_bind alloc net addr =
     (let h = \<lparr>h_info = CB_INFO_OK, h_attached = True, h_addr = addr\<rparr>
      in if cb__netsim_find_endpoint (net_endpoints net) addr \<noteq> None
         then (h\<lparr>h_info := CB_INFO_NETSIM_DUPLICATE_ADDR, h_attached := False\<rparr>, net)
         else
           (case alloc sizeof_endpoint 8 (net_mem net) of
              (None, m) \<Rightarrow>
                (h\<lparr>h_info := CB_INFO_NETSIM_ALLOC_FAILED, h_attached := False\<rparr>, net\<lparr>net_mem := m\<rparr>)
            | (Some p, m) \<Rightarrow>
                let e = \<lparr>ep_addr = addr, ep_ready = [], ep_bytes_in_flight = 0, ep_ptr = p\<rparr>
                in (h, net\<lparr>net_mem := m, net_endpoints := e # net_endpoints net\<rparr>)))"

text \<open>Unlinking the first endpoint at an address, and scrubbing the datagrams addressed to it.\<close>

fun unlink_endpoint :: "'p cb__netsim_endpoint_t list \<Rightarrow> cb_net_addr_t
    \<Rightarrow> 'p cb__netsim_endpoint_t option \<times> 'p cb__netsim_endpoint_t list" where
  "unlink_endpoint [] addr = (None, [])"
| "unlink_endpoint (e # es) addr =
     (if same_addr (ep_addr e) addr then (Some e, es)
      else let (r, es) = unlink_endpoint es addr in (r, e # es))"

fun scrub_loop :: "('p, 's) free \<Rightarrow> cb_net_addr_t \<Rightarrow> 'p cb__netsim_pending_t list \<Rightarrow> u32 \<Rightarrow> 's
    \<Rightarrow> 'p cb__netsim_pending_t list \<times> u32 \<times> 's" where
  "scrub_loop free addr [] dropped m = ([], dropped, m)"
| "scrub_loop free addr (n # ns) dropped m =
     (if same_addr (nd_dest n) addr
      then scrub_loop free addr ns (dropped + 1) (cb__netsim_free_node free n m)
      else let (ns, dropped, m) = scrub_loop free addr ns dropped m in (n # ns, dropped, m))"

definition cb_netsim_close :: "('p, 's) free \<Rightarrow> ('p, 's, 'c) cb_netsim_t \<Rightarrow> cb_netsim_endpoint_t
    \<Rightarrow> cb_netsim_endpoint_t \<times> ('p, 's, 'c) cb_netsim_t" where
  "cb_netsim_close free net h =
     (if \<not> h_attached h then (h, net)
      else
        (case unlink_endpoint (net_endpoints net) (h_addr h) of
           (None, es) \<Rightarrow> (h\<lparr>h_attached := False\<rparr>, net\<lparr>net_endpoints := es\<rparr>)
         | (Some e, es) \<Rightarrow>
             let (e, m) = cb__netsim_drop_endpoint_ready free e (net_mem net);
                 (pending, dropped, m) = scrub_loop free (h_addr h) (net_pending net) (stat_dropped net) m;
                 m = free (ep_ptr e) m
             in (h\<lparr>h_attached := False\<rparr>,
                 net\<lparr>net_endpoints := es, net_pending := pending, stat_dropped := dropped, net_mem := m\<rparr>)))"

text \<open>Flipping bit \<open>bit_index\<close> of a payload.\<close>

definition flip_bit :: "u8 list \<Rightarrow> u32 \<Rightarrow> u8 list" where
  "flip_bit payload bit_index =
     (let i = unat (drop_bit 3 bit_index)
      in payload[i := payload ! i XOR ucast (push_bit (unat (bit_index AND 7)) (1 :: u32))])"

text \<open>The corruption roll of a copy and its reorder roll: the net and the node after them.\<close>

definition corrupt_roll :: "('p, 's, 'c) cb_netsim_t \<Rightarrow> 'p cb__netsim_pending_t
    \<Rightarrow> (('p, 's, 'c) cb_netsim_t \<times> 'p cb__netsim_pending_t) option" where
  "corrupt_roll net node =
     (let len = length (nd_payload node)
      in if len = 0 then Some (net, node)
         else
           let (hit, rng) = cb_rng_chance_fx16 (net_rng net) (corrupt_prob (net_params net));
               net = net\<lparr>net_rng := rng\<rparr>
           in if \<not> hit then Some (net, node)
              else
                let bits = ucast (word_of_nat len * 8 :: size_t) :: u32
                in case cb_rng_u32_below (net_rng net) bits of
                     None \<Rightarrow> None
                   | Some (bit_index, rng) \<Rightarrow>
                       Some (net\<lparr>net_rng := rng, stat_corrupted := stat_corrupted net + 1\<rparr>,
                             node\<lparr>nd_payload := flip_bit (nd_payload node) bit_index\<rparr>))"

definition reorder_roll :: "('p, 's, 'c) cb_netsim_t \<Rightarrow> 'p cb__netsim_pending_t
    \<Rightarrow> (('p, 's, 'c) cb_netsim_t \<times> 'p cb__netsim_pending_t) option" where
  "reorder_roll net node =
     (let (hit, rng) = cb_rng_chance_fx16 (net_rng net) (reorder_prob (net_params net));
          net = net\<lparr>net_rng := rng\<rparr>
      in if \<not> hit then Some (net, node)
         else
           let rlo = reorder_swap_ms_min (net_params net);
               rhi = reorder_swap_ms_max (net_params net)
           in case cb_rng_i32_range (net_rng net) rlo rhi of
                None \<Rightarrow> None
              | Some (rms, rng) \<Rightarrow>
                  Some (net\<lparr>net_rng := rng, stat_reordered := stat_reordered net + 1\<rparr>,
                        node\<lparr>nd_scheduled_ns := nd_scheduled_ns node + scast rms * 1000000\<rparr>))"

definition cb__netsim_enqueue_copy :: "('p, 's) alloc \<Rightarrow> ('p, 's) free \<Rightarrow> ('p, 's, 'c) cb_netsim_t \<Rightarrow> cb_net_addr_t
    \<Rightarrow> cb_net_addr_t \<Rightarrow> u8 list \<Rightarrow> u64 \<Rightarrow> (bool \<times> ('p, 's, 'c) cb_netsim_t) option" where
  "cb__netsim_enqueue_copy alloc free net src dest buf base_scheduled_ns =
     (case alloc sizeof_pending 8 (net_mem net) of
        (None, m) \<Rightarrow> Some (False, net\<lparr>net_mem := m\<rparr>)
      | (Some p, m) \<Rightarrow>
          let node = \<lparr>nd_src = src, nd_dest = dest, nd_scheduled_ns = base_scheduled_ns, nd_payload = buf,
                nd_payload_ptr = None, nd_ptr = p\<rparr>;
              (q, m) = (if 0 < length buf then alloc (word_of_nat (length buf)) 1 m else (None, m))
          in if 0 < length buf \<and> q = None then Some (False, net\<lparr>net_mem := free p m\<rparr>)
             else
               (case corrupt_roll (net\<lparr>net_mem := m\<rparr>) (node\<lparr>nd_payload_ptr := q\<rparr>) of
                  None \<Rightarrow> None
                | Some (net, node) \<Rightarrow>
                    (case reorder_roll net node of
                       None \<Rightarrow> None
                     | Some (net, node) \<Rightarrow> Some (True, cb__netsim_enqueue_node net node))))"

text \<open>The latency roll and one copy of the datagram, as \<open>cb_netsim_send_to\<close> does it for both copies.\<close>

definition send_copy :: "('p, 's) alloc \<Rightarrow> ('p, 's) free \<Rightarrow> ('p, 's, 'c) cb_netsim_t \<Rightarrow> cb_net_addr_t
    \<Rightarrow> cb_net_addr_t \<Rightarrow> u8 list \<Rightarrow> u64 \<Rightarrow> (bool \<times> ('p, 's, 'c) cb_netsim_t) option" where
  "send_copy alloc free net src dest buf now =
     (case cb_rng_i32_range (net_rng net) (latency_ms_min (net_params net)) (latency_ms_max (net_params net)) of
        None \<Rightarrow> None
      | Some (lms, rng) \<Rightarrow>
          let sched = now + scast lms * 1000000
          in cb__netsim_enqueue_copy alloc free (net\<lparr>net_rng := rng\<rparr>) src dest buf sched)"

definition cb_netsim_send_to :: "'c clocks \<Rightarrow> ('p, 's) alloc \<Rightarrow> ('p, 's) free \<Rightarrow> ('p, 's, 'c) cb_netsim_t
    \<Rightarrow> cb_netsim_endpoint_t \<Rightarrow> cb_net_addr_t \<Rightarrow> u8 list \<Rightarrow> (cb_info_t \<times> ('p, 's, 'c) cb_netsim_t) option" where
  "cb_netsim_send_to clocks alloc free net h dest buf =
     (if \<not> h_attached h then Some (CB_INFO_GENERIC_ERROR, net)
      else if CB_NETSIM_MAX_DATAGRAM_BYTES < length buf then Some (CB_INFO_NETSIM_PAYLOAD_TOO_LARGE, net)
      else
        let net = net\<lparr>stat_enqueued := stat_enqueued net + 1\<rparr>
        in case cb__netsim_find_endpoint (net_endpoints net) dest of
             None \<Rightarrow> Some (CB_INFO_OK, net\<lparr>stat_dropped := stat_dropped net + 1\<rparr>)
           | Some dest_ep \<Rightarrow>
               if max_queue_bytes (net_params net) \<noteq> 0
                 \<and> ucast (max_queue_bytes (net_params net)) < ep_bytes_in_flight dest_ep + word_of_nat (length buf)
               then Some (CB_INFO_OK, net\<lparr>stat_queue_full := stat_queue_full net + 1\<rparr>)
               else
                 let (dropped, rng) = cb_rng_chance_fx16 (net_rng net) (drop_prob (net_params net));
                     net = net\<lparr>net_rng := rng\<rparr>
                 in if dropped then Some (CB_INFO_OK, net\<lparr>stat_dropped := stat_dropped net + 1\<rparr>)
                    else
                      let now = net_now clocks net
                      in case send_copy alloc free net (h_addr h) dest buf now of
                           None \<Rightarrow> None
                         | Some (False, net) \<Rightarrow> Some (CB_INFO_NETSIM_ALLOC_FAILED, net)
                         | Some (True, net) \<Rightarrow>
                             let (dup, rng) = cb_rng_chance_fx16 (net_rng net) (dup_prob (net_params net));
                                 net = net\<lparr>net_rng := rng\<rparr>
                             in if \<not> dup then Some (CB_INFO_OK, net)
                                else
                                  (case send_copy alloc free net (h_addr h) dest buf now of
                                     None \<Rightarrow> None
                                   | Some (False, net) \<Rightarrow> Some (CB_INFO_NETSIM_ALLOC_FAILED, net)
                                   | Some (True, net) \<Rightarrow>
                                       Some (CB_INFO_OK, net\<lparr>stat_duplicated := stat_duplicated net + 1\<rparr>)))"

definition push_ready :: "'p cb__netsim_pending_t \<Rightarrow> 'p cb__netsim_endpoint_t \<Rightarrow> 'p cb__netsim_endpoint_t" where
  "push_ready node e = e\<lparr>ep_ready := ep_ready e @ [node]\<rparr>"

text \<open>The loop of \<open>cb_netsim_step\<close> over the pending list, with the number of datagrams moved.\<close>

fun step_loop :: "('p, 's) free \<Rightarrow> u64 \<Rightarrow> 'p cb__netsim_pending_t list \<Rightarrow> u32 \<Rightarrow> ('p, 's, 'c) cb_netsim_t
    \<Rightarrow> u32 \<times> ('p, 's, 'c) cb_netsim_t" where
  "step_loop free now [] moved net = (moved, net\<lparr>net_pending := []\<rparr>)"
| "step_loop free now (node # ns) moved net =
     (if nd_scheduled_ns node \<le> now
      then
        (case cb__netsim_find_endpoint (net_endpoints net) (nd_dest node) of
           None \<Rightarrow>
             step_loop free now ns moved
               (net\<lparr>stat_dropped := stat_dropped net + 1, net_mem := cb__netsim_free_node free node (net_mem net)\<rparr>)
         | Some _ \<Rightarrow>
             step_loop free now ns (moved + 1)
               (net\<lparr>net_endpoints := at_endpoint (push_ready node) (nd_dest node) (net_endpoints net)\<rparr>))
      else (moved, net\<lparr>net_pending := node # ns\<rparr>))"

definition cb_netsim_step :: "'c clocks \<Rightarrow> ('p, 's) free \<Rightarrow> ('p, 's, 'c) cb_netsim_t \<Rightarrow> u32 \<times> ('p, 's, 'c) cb_netsim_t" where
  "cb_netsim_step clocks free net = step_loop free (net_now clocks net) (net_pending net) 0 net"

definition pop_ready :: "'p cb__netsim_endpoint_t \<Rightarrow> 'p cb__netsim_endpoint_t" where
  "pop_ready e =
     (let node = hd (ep_ready e);
          n = word_of_nat (length (nd_payload node))
      in e\<lparr>ep_ready := tl (ep_ready e),
           ep_bytes_in_flight := (if n \<le> ep_bytes_in_flight e then ep_bytes_in_flight e - n else 0)\<rparr>)"

text \<open>The outputs of a receive: the source, the buffer and the length, \<open>None\<close> for a null pointer.\<close>

record recv_out =
  out_src :: "cb_net_addr_t option"
  out_buf :: "u8 list option"
  out_len :: "nat option"

definition cb_netsim_recv_from :: "('p, 's) free \<Rightarrow> ('p, 's, 'c) cb_netsim_t \<Rightarrow> cb_netsim_endpoint_t \<Rightarrow> recv_out \<Rightarrow> nat
    \<Rightarrow> cb_info_t \<times> recv_out \<times> ('p, 's, 'c) cb_netsim_t" where
  "cb_netsim_recv_from free net h out out_cap =
     (if \<not> h_attached h \<or> out_len out = None then (CB_INFO_GENERIC_ERROR, out, net)
      else
        (case cb__netsim_find_endpoint (net_endpoints net) (h_addr h) of
           None \<Rightarrow> (CB_INFO_NETSIM_EMPTY, out\<lparr>out_len := Some 0\<rparr>, net)
         | Some e \<Rightarrow>
             (case ep_ready e of
                [] \<Rightarrow> (CB_INFO_NETSIM_EMPTY, out\<lparr>out_len := Some 0\<rparr>, net)
              | node # _ \<Rightarrow>
                  let len = length (nd_payload node)
                  in if out_cap < len
                     then (CB_INFO_NETSIM_BUF_TOO_SMALL, out\<lparr>out_len := Some len\<rparr>, net)
                     else
                       (CB_INFO_OK,
                        \<lparr>out_src = map_option (\<lambda>_. nd_src node) (out_src out),
                          out_buf = (if 0 < len then map_option (put_bytes 0 (nd_payload node)) (out_buf out) else out_buf out),
                          out_len = Some len\<rparr>,
                        net\<lparr>net_endpoints := at_endpoint pop_ready (h_addr h) (net_endpoints net),
                          net_mem := cb__netsim_free_node free node (net_mem net),
                          stat_delivered := stat_delivered net + 1\<rparr>))))"

fun flush_endpoints :: "('p, 's) free \<Rightarrow> 'p cb__netsim_endpoint_t list \<Rightarrow> 's \<Rightarrow> 'p cb__netsim_endpoint_t list \<times> 's" where
  "flush_endpoints free [] m = ([], m)"
| "flush_endpoints free (e # es) m =
     (let (e, m) = cb__netsim_drop_endpoint_ready free e m;
          (es, m) = flush_endpoints free es m
      in (e # es, m))"

definition cb_netsim_flush :: "('p, 's) free \<Rightarrow> ('p, 's, 'c) cb_netsim_t \<Rightarrow> ('p, 's, 'c) cb_netsim_t" where
  "cb_netsim_flush free net =
     (let m = free_nodes free (net_pending net) (net_mem net);
          (es, m) = flush_endpoints free (net_endpoints net) m
      in net\<lparr>net_pending := [], net_endpoints := es, net_mem := m\<rparr>)"

end
