(* ===== verification/Netsim_Laws.thy ===== *)
theory Netsim_Laws
  imports Netsim
begin

text \<open>
  Laws of the lists of endpoints and of datagrams of the simulator in \<open>Netsim\<close>.
\<close>

section \<open>Lists of endpoints and of datagrams\<close>

definition addr_key :: "cb_net_addr_t \<Rightarrow> u32 \<times> u16" where
  "addr_key a = (addr_ip a, addr_port a)"

lemma same_addr_key: "same_addr a b \<longleftrightarrow> addr_key a = addr_key b"
  by (simp add: same_addr_def addr_key_def)

abbreviation keys :: "'p cb__netsim_endpoint_t list \<Rightarrow> (u32 \<times> u16) list" where
  "keys es \<equiv> map (\<lambda>e. addr_key (ep_addr e)) es"

abbreviation bound :: "'p cb__netsim_endpoint_t list \<Rightarrow> cb_net_addr_t \<Rightarrow> bool" where
  "bound es addr \<equiv> addr_key addr \<in> set (keys es)"

lemma find_endpoint_None: "cb__netsim_find_endpoint es addr = None \<longleftrightarrow> \<not> bound es addr"
  by (induction es) (auto simp: same_addr_key)

lemma find_endpoint_split:
  assumes "cb__netsim_find_endpoint es addr = Some e"
  obtains as bs where "es = as @ e # bs" "addr_key (ep_addr e) = addr_key addr" "addr_key addr \<notin> set (keys as)"
  using assms
proof (induction es arbitrary: thesis)
  case (Cons x es)
  show ?case
  proof (cases "same_addr (ep_addr x) addr")
    case True
    then show ?thesis using Cons.prems(1) [of "[]" es] Cons.prems(2) by (simp add: same_addr_key)
  next
    case False
    then have "cb__netsim_find_endpoint es addr = Some e" using Cons.prems(2) by simp
    from Cons.IH [OF _ this] obtain as bs where "es = as @ e # bs" "addr_key (ep_addr e) = addr_key addr"
      "addr_key addr \<notin> set (keys as)" by blast
    then show ?thesis using Cons.prems(1) [of "x # as" bs] False by (simp add: same_addr_key)
  qed
qed simp

lemma at_endpoint_split:
  "addr_key addr \<notin> set (keys as) \<Longrightarrow> addr_key (ep_addr e) = addr_key addr \<Longrightarrow>
    at_endpoint f addr (as @ e # bs) = as @ f e # bs"
  by (induction as) (auto simp: same_addr_key)

lemma unlink_endpoint_split:
  "addr_key addr \<notin> set (keys as) \<Longrightarrow> addr_key (ep_addr e) = addr_key addr \<Longrightarrow>
    unlink_endpoint (as @ e # bs) addr = (Some e, as @ bs)"
  by (induction as) (auto simp: same_addr_key)

lemma unlink_endpoint_none: "\<not> bound es addr \<Longrightarrow> unlink_endpoint es addr = (None, es)"
  by (induction es) (auto simp: same_addr_key)

lemma at_endpoint_none: "\<not> bound es addr \<Longrightarrow> at_endpoint f addr es = es"
  by (induction es) (auto simp: same_addr_key)

lemma keys_at_endpoint: "(\<And>e. ep_addr (f e) = ep_addr e) \<Longrightarrow> keys (at_endpoint f addr es) = keys es"
  by (induction es) auto

lemma at_endpoint_map:
  "distinct (keys es) \<Longrightarrow>
    at_endpoint f addr es = map (\<lambda>e. if addr_key (ep_addr e) = addr_key addr then f e else e) es"
  by (induction es) (auto simp: same_addr_key image_iff intro!: map_idI [symmetric])

lemma pending_insert_walk: "cb__netsim_pending_insert ns node = insert_walk node ns"
  by (cases ns) auto

lemma set_insert_walk [simp]: "set (insert_walk node ns) = insert node (set ns)"
  by (induction ns) auto

lemma length_insert_walk [simp]: "length (insert_walk node ns) = Suc (length ns)"
  by (induction ns) auto

lemma sorted_insert_walk:
  "sorted (map nd_scheduled_ns ns) \<Longrightarrow> sorted (map nd_scheduled_ns (insert_walk node ns))"
  by (induction ns) force+

definition payload_bytes :: "'p cb__netsim_pending_t list \<Rightarrow> nat" where
  "payload_bytes ns = sum_list (map (\<lambda>n. length (nd_payload n)) ns)"

lemma payload_bytes_simps [simp]:
  "payload_bytes [] = 0" "payload_bytes (n # ns) = length (nd_payload n) + payload_bytes ns"
  "payload_bytes (ns @ ms) = payload_bytes ns + payload_bytes ms"
  by (simp_all add: payload_bytes_def)

definition addressed :: "cb_net_addr_t \<Rightarrow> 'p cb__netsim_pending_t list \<Rightarrow> 'p cb__netsim_pending_t list" where
  "addressed addr ns = filter (\<lambda>n. addr_key (nd_dest n) = addr_key addr) ns"

lemma addressed_simps [simp]:
  "addressed addr [] = []"
  "addressed addr (n # ns) = (if addr_key (nd_dest n) = addr_key addr then n # addressed addr ns else addressed addr ns)"
  "addressed addr (ns @ ms) = addressed addr ns @ addressed addr ms"
  by (simp_all add: addressed_def)

lemma bytes_insert_walk:
  "payload_bytes (addressed addr (insert_walk node ns))
    = (if addr_key (nd_dest node) = addr_key addr then length (nd_payload node) else 0) + payload_bytes (addressed addr ns)"
  by (induction ns) auto

lemma scrub_loop_spec:
  "scrub_loop free addr ns d m
    = (filter (\<lambda>n. addr_key (nd_dest n) \<noteq> addr_key addr) ns, d + word_of_nat (length (addressed addr ns)),
       free_nodes free (addressed addr ns) m)"
  by (induction ns arbitrary: d m) (auto simp: same_addr_key algebra_simps)

lemma addressed_scrubbed:
  "addr_key addr \<noteq> addr_key addr' \<Longrightarrow>
    addressed addr' (filter (\<lambda>n. addr_key (nd_dest n) \<noteq> addr_key addr) ns) = addressed addr' ns"
  by (simp add: addressed_def) (rule filter_cong, auto)

lemma length_scrubbed:
  "length (filter (\<lambda>n. addr_key (nd_dest n) \<noteq> addr_key addr) ns) + length (addressed addr ns) = length ns"
  by (induction ns) auto

definition ready_count :: "'p cb__netsim_endpoint_t list \<Rightarrow> nat" where
  "ready_count es = sum_list (map (\<lambda>e. length (ep_ready e)) es)"

lemma ready_count_simps [simp]:
  "ready_count [] = 0" "ready_count (e # es) = length (ep_ready e) + ready_count es"
  "ready_count (as @ bs) = ready_count as + ready_count bs"
  by (simp_all add: ready_count_def)

end
