(* ===== verification/Netsim_Send.thy ===== *)
theory Netsim_Send
  imports Netsim_Laws
begin

text \<open>
  The rolls of a send.  Every send returns; it hands the net at most two copies of the datagram, each
  with a schedule inside the limits of the parameters and at most one bit flipped.
\<close>

section \<open>The rolls\<close>

lemma chance_inc: "cb_rng_chance_fx16 rng p = (b, rng') \<Longrightarrow> rng_inc rng' = rng_inc rng"
  by (auto simp: cb_rng_chance_fx16_def cb_rng_fx16_unit_def split_def Let_def snd_u32 cb__pcg_step_def split: if_splits)

definition roll_ms :: "u32 \<Rightarrow> u32 \<Rightarrow> u64 \<Rightarrow> bool" where
  "roll_ms lo hi d \<longleftrightarrow>
     (\<exists>ms :: i32. d = scast ms * 1000000
       \<and> (sint lo \<le> sint ms \<and> sint ms \<le> sint hi \<or> sint hi < sint lo \<and> ms = lo))"

lemma range_roll:
  assumes "odd (rng_inc rng)"
  obtains ms rng' where "cb_rng_i32_range rng lo hi = Some (ms, rng')" "rng_inc rng' = rng_inc rng"
    "roll_ms lo hi (scast ms * 1000000)"
proof (cases "hi <s lo")
  case True
  then have "roll_ms lo hi (scast lo * 1000000)" unfolding roll_ms_def word_sless_alt by blast
  moreover have "cb_rng_i32_range rng lo hi = Some (lo, rng)" using True by (simp add: cb_rng_i32_range_def)
  ultimately show ?thesis using that by blast
next
  case False
  then have "sint lo \<le> sint hi" by (simp add: word_sless_alt)
  from i32_range_inside [OF assms this] obtain ms n where r: "cb_rng_i32_range rng lo hi = Some (ms, (cb__pcg_step ^^ n) rng)"
    "sint lo \<le> sint ms" "sint ms \<le> sint hi" by blast
  then have "roll_ms lo hi (scast ms * 1000000)" unfolding roll_ms_def by blast
  then show ?thesis using that r(1) step_iter_fields(1) by blast
qed

definition flipped :: "u8 list \<Rightarrow> u8 list \<Rightarrow> bool" where
  "flipped buf p \<longleftrightarrow> p = buf \<or> (\<exists>i. unat i < 8 * length buf \<and> p = flip_bit buf i)"

lemma length_flipped: "flipped buf p \<Longrightarrow> length p = length buf"
  by (auto simp: flipped_def flip_bit_def Let_def)

definition rolled :: "('p, 's, 'c) cb_netsim_t \<Rightarrow> ('p, 's, 'c) cb_netsim_t \<Rightarrow> bool" where
  "rolled net net' \<longleftrightarrow>
     (\<exists>rng m c r. rng_inc rng = rng_inc (net_rng net)
       \<and> net' = net\<lparr>net_rng := rng, net_mem := m, stat_corrupted := c, stat_reordered := r\<rparr>)"

lemma rolled_fields:
  assumes "rolled net net'"
  shows "rng_inc (net_rng net') = rng_inc (net_rng net)" "net_params net' = net_params net"
    "net_clock net' = net_clock net" "net_endpoints net' = net_endpoints net" "net_pending net' = net_pending net"
    "stat_enqueued net' = stat_enqueued net" "stat_delivered net' = stat_delivered net"
    "stat_dropped net' = stat_dropped net" "stat_duplicated net' = stat_duplicated net"
    "stat_queue_full net' = stat_queue_full net"
  using assms by (auto simp: rolled_def)

lemma rolled_refl: "rolled net net"
  unfolding rolled_def
  by (rule exI [of _ "net_rng net"], rule exI [of _ "net_mem net"], rule exI [of _ "stat_corrupted net"],
      rule exI [of _ "stat_reordered net"]) simp

lemma rolled_trans: "rolled a b \<Longrightarrow> rolled b c \<Longrightarrow> rolled a c"
  unfolding rolled_def by force

lemma rolled_rng: "rng_inc rng = rng_inc (net_rng net) \<Longrightarrow> rolled net (net\<lparr>net_rng := rng\<rparr>)"
  unfolding rolled_def
  by (rule exI [of _ rng], rule exI [of _ "net_mem net"], rule exI [of _ "stat_corrupted net"],
      rule exI [of _ "stat_reordered net"]) simp

lemma rolled_mem: "rolled net (net\<lparr>net_mem := m\<rparr>)"
  unfolding rolled_def
  by (rule exI [of _ "net_rng net"], rule exI [of _ m], rule exI [of _ "stat_corrupted net"],
      rule exI [of _ "stat_reordered net"]) simp

lemma rolled_corrupted: "rolled net (net\<lparr>stat_corrupted := c\<rparr>)"
  unfolding rolled_def
  by (rule exI [of _ "net_rng net"], rule exI [of _ "net_mem net"], rule exI [of _ c],
      rule exI [of _ "stat_reordered net"]) simp

lemma rolled_reordered: "rolled net (net\<lparr>stat_reordered := r\<rparr>)"
  unfolding rolled_def
  by (rule exI [of _ "net_rng net"], rule exI [of _ "net_mem net"], rule exI [of _ "stat_corrupted net"],
      rule exI [of _ r]) simp

lemma corrupt_rolls:
  assumes "odd (rng_inc (net_rng net))" "length (nd_payload node) \<le> 65535"
  obtains net' p where "corrupt_roll net node = Some (net', node\<lparr>nd_payload := p\<rparr>)" "rolled net net'"
    "flipped (nd_payload node) p"
proof (cases "nd_payload node = []")
  case True
  then show ?thesis using that [of net "[]", OF _ rolled_refl] by (simp add: corrupt_roll_def flipped_def)
next
  case False
  obtain hit rng where hit: "cb_rng_chance_fx16 (net_rng net) (corrupt_prob (net_params net)) = (hit, rng)" by fastforce
  note inc = chance_inc [OF hit]
  show ?thesis
  proof (cases hit)
    case miss: False
    have "corrupt_roll net node = Some (net\<lparr>net_rng := rng\<rparr>, node\<lparr>nd_payload := nd_payload node\<rparr>)"
      using hit miss False by (simp add: corrupt_roll_def)
    then show ?thesis using that [OF _ rolled_rng [OF inc], of "nd_payload node"] by (simp add: flipped_def)
  next
    case True
    let ?bits = "ucast (word_of_nat (length (nd_payload node)) * 8 :: size_t) :: u32"
    have b: "unat ?bits = 8 * length (nd_payload node)"
    proof -
      have "word_of_nat (length (nd_payload node)) * 8 = (word_of_nat (8 * length (nd_payload node)) :: size_t)"
        by (simp add: mult.commute)
      then show ?thesis using assms(2)
        by (simp add: unsigned_ucast_eq unat_of_nat take_bit_eq_mod del: of_nat_mult)
    qed
    then have nz: "?bits \<noteq> 0" using False by (metis length_0_conv mult_eq_0_iff unat_0 zero_neq_numeral)
    have "odd (rng_inc rng)" using assms(1) inc by simp
    from below_some [OF this, of ?bits] nz obtain x n where
      r: "cb_rng_u32_below rng ?bits = Some (x, (cb__pcg_step ^^ n) rng)" "x < ?bits" by blast
    let ?net' = "net\<lparr>net_rng := (cb__pcg_step ^^ n) rng, stat_corrupted := stat_corrupted net + 1\<rparr>"
    have "corrupt_roll net node = Some (?net', node\<lparr>nd_payload := flip_bit (nd_payload node) x\<rparr>)"
      using hit True False r(1) by (simp add: corrupt_roll_def Let_def)
    moreover have "rolled net ?net'"
      using rolled_trans [OF rolled_rng rolled_corrupted] inc step_iter_fields(1) [of n rng] by fastforce
    moreover have "flipped (nd_payload node) (flip_bit (nd_payload node) x)"
      using r(2) b unfolding flipped_def by (intro disjI2 exI [of _ x]) (simp add: word_less_nat_alt)
    ultimately show ?thesis by (rule that)
  qed
qed

definition reorder_ms :: "cb_netsim_params_t \<Rightarrow> u64 \<Rightarrow> bool" where
  "reorder_ms params d \<longleftrightarrow> d = 0 \<or> roll_ms (reorder_swap_ms_min params) (reorder_swap_ms_max params) d"

lemma reorder_rolls:
  assumes "odd (rng_inc (net_rng net))"
  obtains net' d where
    "reorder_roll net node = Some (net', node\<lparr>nd_scheduled_ns := nd_scheduled_ns node + d\<rparr>)" "rolled net net'"
    "reorder_ms (net_params net) d"
proof -
  obtain hit rng where hit: "cb_rng_chance_fx16 (net_rng net) (reorder_prob (net_params net)) = (hit, rng)" by fastforce
  note inc = chance_inc [OF hit]
  show ?thesis
  proof (cases hit)
    case False
    then have "reorder_roll net node = Some (net\<lparr>net_rng := rng\<rparr>, node\<lparr>nd_scheduled_ns := nd_scheduled_ns node + 0\<rparr>)"
      using hit by (simp add: reorder_roll_def)
    then show ?thesis using that [OF _ rolled_rng [OF inc], of 0] by (simp add: reorder_ms_def)
  next
    case True
    have "odd (rng_inc rng)" using assms inc by simp
    from range_roll [OF this] obtain ms rng' where
      r: "cb_rng_i32_range rng (reorder_swap_ms_min (net_params net)) (reorder_swap_ms_max (net_params net)) = Some (ms, rng')"
      "rng_inc rng' = rng_inc rng"
      "roll_ms (reorder_swap_ms_min (net_params net)) (reorder_swap_ms_max (net_params net)) (scast ms * 1000000)" .
    let ?net' = "net\<lparr>net_rng := rng', stat_reordered := stat_reordered net + 1\<rparr>"
    have "reorder_roll net node
        = Some (?net', node\<lparr>nd_scheduled_ns := nd_scheduled_ns node + scast ms * 1000000\<rparr>)"
      using hit True r(1) by (simp add: reorder_roll_def Let_def)
    moreover have "rolled net ?net'" using rolled_trans [OF rolled_rng rolled_reordered] inc r(2) by fastforce
    moreover have "reorder_ms (net_params net) (scast ms * 1000000)" using r(3) by (simp add: reorder_ms_def)
    ultimately show ?thesis by (rule that)
  qed
qed

section \<open>Copies\<close>

text \<open>A copy of a datagram, sent at \<open>now\<close>.\<close>

definition copy_of :: "cb_netsim_params_t \<Rightarrow> cb_net_addr_t \<Rightarrow> cb_net_addr_t \<Rightarrow> u8 list \<Rightarrow> u64 \<Rightarrow> 'p cb__netsim_pending_t \<Rightarrow> bool" where
  "copy_of params src dest buf now node \<longleftrightarrow>
     nd_src node = src \<and> nd_dest node = dest \<and> flipped buf (nd_payload node)
     \<and> (\<exists>lat extra. roll_ms (latency_ms_min params) (latency_ms_max params) lat \<and> reorder_ms params extra
         \<and> nd_scheduled_ns node = now + lat + extra)"

lemma enqueue_node_fields [simp]:
  "net_pending (cb__netsim_enqueue_node net node) = insert_walk node (net_pending net)"
  "net_endpoints (cb__netsim_enqueue_node net node) = at_endpoint (add_bytes node) (nd_dest node) (net_endpoints net)"
  "net_rng (cb__netsim_enqueue_node net node) = net_rng net"
  "net_params (cb__netsim_enqueue_node net node) = net_params net"
  "net_clock (cb__netsim_enqueue_node net node) = net_clock net"
  "stat_enqueued (cb__netsim_enqueue_node net node) = stat_enqueued net"
  "stat_delivered (cb__netsim_enqueue_node net node) = stat_delivered net"
  "stat_dropped (cb__netsim_enqueue_node net node) = stat_dropped net"
  "stat_duplicated (cb__netsim_enqueue_node net node) = stat_duplicated net"
  "stat_queue_full (cb__netsim_enqueue_node net node) = stat_queue_full net"
  by (simp_all add: cb__netsim_enqueue_node_def pending_insert_walk)

lemma enqueue_copy_cases:
  assumes "odd (rng_inc (net_rng net))" "length buf \<le> 65535"
  obtains (failed) net' where "cb__netsim_enqueue_copy alloc free net src dest buf sched = Some (False, net')" "rolled net net'"
  | (copied) net' node extra where "cb__netsim_enqueue_copy alloc free net src dest buf sched
        = Some (True, cb__netsim_enqueue_node net' node)"
      "rolled net net'" "nd_src node = src" "nd_dest node = dest" "flipped buf (nd_payload node)"
      "reorder_ms (net_params net) extra" "nd_scheduled_ns node = sched + extra"
proof -
  obtain p m where a: "alloc sizeof_pending 8 (net_mem net) = (p, m)" by fastforce
  show ?thesis
  proof (cases p)
    case None
    then show ?thesis using a failed [OF _ rolled_mem] by (simp add: cb__netsim_enqueue_copy_def)
  next
    case (Some p')
    let ?node = "\<lparr>nd_src = src, nd_dest = dest, nd_scheduled_ns = sched, nd_payload = buf, nd_payload_ptr = None, nd_ptr = p'\<rparr>"
    obtain q m' where q: "(if 0 < length buf then alloc (word_of_nat (length buf)) 1 m else (None, m)) = (q, m')" by fastforce
    show ?thesis
    proof (cases "0 < length buf \<and> q = None")
      case True
      then show ?thesis using a Some q failed [OF _ rolled_mem] by (simp add: cb__netsim_enqueue_copy_def)
    next
      case False
      let ?n0 = "net\<lparr>net_mem := m'\<rparr>" and ?node' = "?node\<lparr>nd_payload_ptr := q\<rparr>"
      have "odd (rng_inc (net_rng ?n0))" "length (nd_payload ?node') \<le> 65535" using assms by simp_all
      from corrupt_rolls [OF this] obtain n1 pl where
        c: "corrupt_roll ?n0 ?node' = Some (n1, ?node'\<lparr>nd_payload := pl\<rparr>)" "rolled ?n0 n1" "flipped buf pl"
        by (auto simp only: cb__netsim_pending_t.simps)
      have "odd (rng_inc (net_rng n1))" using assms(1) rolled_fields(1) [OF c(2)] by simp
      from reorder_rolls [OF this, of "?node'\<lparr>nd_payload := pl\<rparr>"] obtain n2 d where
        r: "reorder_roll n1 (?node'\<lparr>nd_payload := pl\<rparr>)
          = Some (n2, ?node'\<lparr>nd_payload := pl, nd_scheduled_ns := sched + d\<rparr>)" "rolled n1 n2" "reorder_ms (net_params n1) d"
        by (auto simp only: cb__netsim_pending_t.simps)
      have e: "cb__netsim_enqueue_copy alloc free net src dest buf sched
          = Some (True, cb__netsim_enqueue_node n2 (?node'\<lparr>nd_payload := pl, nd_scheduled_ns := sched + d\<rparr>))"
        unfolding cb__netsim_enqueue_copy_def a Some prod.case option.case Let_def q if_not_P [OF False] c(1) r(1) ..
      have "rolled net n2" using rolled_trans [OF rolled_mem c(2)] r(2) by (rule rolled_trans)
      from copied [OF e this] show ?thesis using c(3) r(3) rolled_fields(2) [OF c(2)] by simp
    qed
  qed
qed

lemma send_copy_cases:
  assumes "odd (rng_inc (net_rng net))" "length buf \<le> 65535"
  obtains (failed) net' where "send_copy alloc free net src dest buf now = Some (False, net')" "rolled net net'"
  | (copied) net' node where "send_copy alloc free net src dest buf now
        = Some (True, cb__netsim_enqueue_node net' node)" "rolled net net'" "copy_of (net_params net) src dest buf now node"
proof -
  from range_roll [OF assms(1)] obtain ms rng' where
    r: "cb_rng_i32_range (net_rng net) (latency_ms_min (net_params net)) (latency_ms_max (net_params net)) = Some (ms, rng')"
    "rng_inc rng' = rng_inc (net_rng net)"
    "roll_ms (latency_ms_min (net_params net)) (latency_ms_max (net_params net)) (scast ms * 1000000)" .
  let ?n = "net\<lparr>net_rng := rng'\<rparr>"
  have odd: "odd (rng_inc (net_rng ?n))" using assms(1) r(2) by simp
  have s: "send_copy alloc free net src dest buf now
      = cb__netsim_enqueue_copy alloc free ?n src dest buf (now + scast ms * 1000000)"
    by (simp add: send_copy_def r(1))
  show ?thesis
  proof (cases rule: enqueue_copy_cases [OF odd assms(2), of alloc free src dest "now + scast ms * 1000000"])
    case (1 net')
    then show ?thesis using failed s rolled_trans [OF rolled_rng [OF r(2)]] by simp
  next
    case (2 net' node extra)
    then have "copy_of (net_params net) src dest buf now node" using r(3) by (auto simp: copy_of_def)
    then show ?thesis using 2 copied s rolled_trans [OF rolled_rng [OF r(2)]] by simp
  qed
qed

section \<open>A send\<close>

text \<open>What the net is after the send, by the copies that were put in flight.\<close>

definition in_flight :: "('p, 's, 'c) cb_netsim_t \<Rightarrow> ('p, 's, 'c) cb_netsim_t \<Rightarrow> 'p cb__netsim_pending_t list \<Rightarrow> bool" where
  "in_flight net net' copies \<longleftrightarrow>
     net_pending net' = fold insert_walk copies (net_pending net)
     \<and> net_endpoints net' = fold (\<lambda>n. at_endpoint (add_bytes n) (nd_dest n)) copies (net_endpoints net)
     \<and> rng_inc (net_rng net') = rng_inc (net_rng net) \<and> net_params net' = net_params net
     \<and> net_clock net' = net_clock net \<and> stat_enqueued net' = stat_enqueued net + 1
     \<and> stat_delivered net' = stat_delivered net"

lemma send_cases:
  assumes "odd (rng_inc (net_rng net))" "h_attached h" "length buf \<le> CB_NETSIM_MAX_DATAGRAM_BYTES"
  obtains copies net' info d f u where "cb_netsim_send_to clocks alloc free net h dest buf = Some (info, net')"
    "in_flight net net' copies" "\<forall>n \<in> set copies. copy_of (net_params net) (h_addr h) dest buf (net_now clocks net) n"
    "stat_dropped net' = stat_dropped net + (if d then 1 else 0)"
    "stat_queue_full net' = stat_queue_full net + (if f then 1 else 0)"
    "stat_duplicated net' = stat_duplicated net + (if u then 1 else 0)"
    "(d, f, u, length copies, info) \<in>
       {(True, False, False, 0, CB_INFO_OK), (False, True, False, 0, CB_INFO_OK),
        (False, False, False, 0, CB_INFO_NETSIM_ALLOC_FAILED), (False, False, False, 1, CB_INFO_OK),
        (False, False, False, 1, CB_INFO_NETSIM_ALLOC_FAILED), (False, False, True, 2, CB_INFO_OK)}"
    "\<not> bound (net_endpoints net) dest \<Longrightarrow> d"
proof -
  let ?n0 = "net\<lparr>stat_enqueued := stat_enqueued net + 1\<rparr>"
  have len: "length buf \<le> 65535" using assms(3) by (simp add: CB_NETSIM_MAX_DATAGRAM_BYTES_def)
  show ?thesis
  proof (cases "cb__netsim_find_endpoint (net_endpoints net) dest")
    case None
    then show ?thesis using assms(2,3) that [of CB_INFO_OK _ "[]" True False False]
      by (simp add: cb_netsim_send_to_def Let_def in_flight_def)
  next
    case (Some ep)
    then have b: "bound (net_endpoints net) dest" using find_endpoint_None by (metis option.distinct(1))
    show ?thesis
    proof (cases "max_queue_bytes (net_params net) \<noteq> 0
        \<and> ucast (max_queue_bytes (net_params net)) < ep_bytes_in_flight ep + word_of_nat (length buf)")
      case True
      then show ?thesis using assms(2,3) Some b that [of CB_INFO_OK _ "[]" False True False]
        by (simp add: cb_netsim_send_to_def Let_def in_flight_def)
    next
      case room: False
      obtain dr rng where dr: "cb_rng_chance_fx16 (net_rng net) (drop_prob (net_params net)) = (dr, rng)" by fastforce
      note inc = chance_inc [OF dr]
      let ?n1 = "?n0\<lparr>net_rng := rng\<rparr>"
      show ?thesis
      proof (cases dr)
        case True
        have "cb_netsim_send_to clocks alloc free net h dest buf
            = Some (CB_INFO_OK, ?n1\<lparr>stat_dropped := stat_dropped net + 1\<rparr>)"
          using assms(2,3) room dr True unfolding cb_netsim_send_to_def Let_def by (auto simp add: Some)
        then show ?thesis using b inc that [of CB_INFO_OK _ "[]" True False False] by (simp add: in_flight_def)
      next
        case False
        have now: "net_now clocks ?n1 = net_now clocks net" by (simp add: net_now_def)
        have s: "cb_netsim_send_to clocks alloc free net h dest buf =
          (case send_copy alloc free ?n1 (h_addr h) dest buf (net_now clocks net) of
             None \<Rightarrow> None
           | Some (False, net) \<Rightarrow> Some (CB_INFO_NETSIM_ALLOC_FAILED, net)
           | Some (True, net2) \<Rightarrow>
               let (dup, rng) = cb_rng_chance_fx16 (net_rng net2) (dup_prob (net_params net2));
                   net2 = net2\<lparr>net_rng := rng\<rparr>
               in if \<not> dup then Some (CB_INFO_OK, net2)
                  else
                    (case send_copy alloc free net2 (h_addr h) dest buf (net_now clocks net) of
                       None \<Rightarrow> None
                     | Some (False, net) \<Rightarrow> Some (CB_INFO_NETSIM_ALLOC_FAILED, net)
                     | Some (True, net) \<Rightarrow> Some (CB_INFO_OK, net\<lparr>stat_duplicated := stat_duplicated net + 1\<rparr>)))"
          using assms(2,3) room dr False unfolding cb_netsim_send_to_def Let_def
          by (auto simp add: Some net_now_def split: option.split prod.split bool.split)
        have odd: "odd (rng_inc (net_rng ?n1))" using assms(1) inc by simp
        show ?thesis
        proof (cases rule: send_copy_cases [OF odd len, of alloc free "h_addr h" dest "net_now clocks net"])
          case (1 net')
          then show ?thesis using s inc b rolled_fields [OF 1(2)] that [of CB_INFO_NETSIM_ALLOC_FAILED _ "[]" False False False]
            by (simp add: in_flight_def)
        next
          case (2 net' node)
          note f1 = rolled_fields [OF 2(2)]
          let ?n2 = "cb__netsim_enqueue_node net' node"
          obtain du rng' where du: "cb_rng_chance_fx16 (net_rng ?n2) (dup_prob (net_params ?n2)) = (du, rng')" by fastforce
          note inc' = chance_inc [OF du]
          have dest: "nd_dest node = dest" using 2(3) by (simp add: copy_of_def)
          let ?n3 = "?n2\<lparr>net_rng := rng'\<rparr>"
          show ?thesis
          proof (cases du)
            case False
            then show ?thesis using s 2 du inc inc' b dest f1 that [of CB_INFO_OK _ "[node]" False False False]
              by (simp add: in_flight_def)
          next
            case True
            have odd': "odd (rng_inc (net_rng ?n3))" using assms(1) inc inc' f1 by simp
            show ?thesis
            proof (cases rule: send_copy_cases [OF odd' len, of alloc free "h_addr h" dest "net_now clocks net"])
              case (1 net4)
              then show ?thesis using s 2 du True inc inc' b dest f1 rolled_fields [OF 1(2)]
                  that [of CB_INFO_NETSIM_ALLOC_FAILED _ "[node]" False False False]
                by (simp add: in_flight_def)
            next
              case snd: (2 net4 node')
              have "nd_dest node' = dest" using snd(3) by (simp add: copy_of_def)
              then show ?thesis using s 2 du True inc inc' b dest f1 rolled_fields [OF snd(2)] snd
                  that [of CB_INFO_OK _ "[node, node']" False False True]
                by (simp add: in_flight_def)
            qed
          qed
        qed
      qed
    qed
  qed
qed

end
