(* ===== verification/Netsim_Invariant.thy ===== *)
theory Netsim_Invariant
  imports Netsim_Send
begin

text \<open>
  The runs of a simulated net as a transition system, and what every operation keeps: the schedule is
  sorted, the addresses are distinct, the bytes in flight are counted exactly, and the counters account
  for every datagram.
\<close>

section \<open>Runs\<close>

definition ready_at :: "cb_net_addr_t \<Rightarrow> 'p cb__netsim_endpoint_t list \<Rightarrow> 'p cb__netsim_pending_t list" where
  "ready_at addr es = (case cb__netsim_find_endpoint es addr of None \<Rightarrow> [] | Some e \<Rightarrow> ep_ready e)"

text \<open>A net after \<open>k\<close> operations, with any clock reading at each, and the number of datagrams that left
  it without being counted: lost to a failed allocation, discarded from the ready queue of a closed
  endpoint, or flushed.\<close>

inductive net_run :: "('p, 's) alloc \<Rightarrow> ('p, 's) free \<Rightarrow> 's \<Rightarrow> nat \<Rightarrow> u32 \<Rightarrow> ('p, 's, 'c) cb_netsim_t \<Rightarrow> bool"
  for alloc free mem where
  create: "net_run alloc free mem 0 0 (cb_netsim_create mem seed params)"
| set_params: "net_run alloc free mem k l net \<Longrightarrow> cb_netsim_set_params net params = (info, net') \<Longrightarrow>
    net_run alloc free mem (Suc k) l net'"
| set_clock: "net_run alloc free mem k l net \<Longrightarrow> net_run alloc free mem (Suc k) l (cb_netsim_set_clock net c)"
| bind: "net_run alloc free mem k l net \<Longrightarrow> cb_netsim_bind alloc net addr = (h, net') \<Longrightarrow>
    net_run alloc free mem (Suc k) l net'"
| close: "net_run alloc free mem k l net \<Longrightarrow> cb_netsim_close free net h = (h', net') \<Longrightarrow>
    l' = (if h_attached h then l + word_of_nat (length (ready_at (h_addr h) (net_endpoints net))) else l) \<Longrightarrow>
    net_run alloc free mem (Suc k) l' net'"
| send: "net_run alloc free mem k l net \<Longrightarrow> cb_netsim_send_to clocks alloc free net h dest buf = Some (info, net') \<Longrightarrow>
    l' = (if info = CB_INFO_NETSIM_ALLOC_FAILED \<and> length (net_pending net') = length (net_pending net) then l + 1 else l) \<Longrightarrow>
    net_run alloc free mem (Suc k) l' net'"
| step: "net_run alloc free mem k l net \<Longrightarrow> cb_netsim_step clocks free net = (moved, net') \<Longrightarrow>
    net_run alloc free mem (Suc k) l net'"
| recv: "net_run alloc free mem k l net \<Longrightarrow> cb_netsim_recv_from free net h out out_cap = (info, out', net') \<Longrightarrow>
    net_run alloc free mem (Suc k) l net'"
| flush: "net_run alloc free mem k l net \<Longrightarrow>
    l' = l + word_of_nat (length (net_pending net) + ready_count (net_endpoints net)) \<Longrightarrow>
    net_run alloc free mem (Suc k) l' (cb_netsim_flush free net)"

section \<open>The invariant\<close>

definition endpoint_ok :: "nat \<Rightarrow> 'p cb__netsim_pending_t list \<Rightarrow> 'p cb__netsim_endpoint_t \<Rightarrow> bool" where
  "endpoint_ok b pending e \<longleftrightarrow>
     (\<forall>n \<in> set (ep_ready e). addr_key (nd_dest n) = addr_key (ep_addr e))
     \<and> unat (ep_bytes_in_flight e) = payload_bytes (ep_ready e) + payload_bytes (addressed (ep_addr e) pending)
     \<and> unat (ep_bytes_in_flight e) \<le> b"

definition lists_ok :: "nat \<Rightarrow> 'p cb__netsim_pending_t list \<Rightarrow> 'p cb__netsim_endpoint_t list \<Rightarrow> bool" where
  "lists_ok b pending es \<longleftrightarrow>
     sorted (map nd_scheduled_ns pending) \<and> distinct (keys es)
     \<and> (\<forall>n \<in> set pending. bound es (nd_dest n)) \<and> (\<forall>e \<in> set es. endpoint_ok b pending e)"

definition balanced :: "u32 \<Rightarrow> ('p, 's, 'c) cb_netsim_t \<Rightarrow> bool" where
  "balanced l net \<longleftrightarrow>
     stat_enqueued net + stat_duplicated net
       = stat_delivered net + stat_dropped net + stat_queue_full net + l
         + word_of_nat (length (net_pending net) + ready_count (net_endpoints net))"

definition net_ok :: "nat \<Rightarrow> u32 \<Rightarrow> ('p, 's, 'c) cb_netsim_t \<Rightarrow> bool" where
  "net_ok k l net \<longleftrightarrow>
     lists_ok (131070 * k) (net_pending net) (net_endpoints net) \<and> balanced l net \<and> odd (rng_inc (net_rng net))"

lemma lists_ok_mono: "lists_ok b pending es \<Longrightarrow> b \<le> b' \<Longrightarrow> lists_ok b' pending es"
  by (auto simp: lists_ok_def endpoint_ok_def intro: order_trans)

lemma net_ok_Suc: "net_ok k l net \<Longrightarrow> net_ok (Suc k) l net"
  by (auto simp: net_ok_def intro: lists_ok_mono)


section \<open>Every operation keeps the lists\<close>

lemma addressed_unbound: "\<forall>n \<in> set ns. bound es (nd_dest n) \<Longrightarrow> \<not> bound es addr \<Longrightarrow> addressed addr ns = []"
  unfolding addressed_def by (rule filter_False) metis

lemma lists_ok_at_endpoint:
  assumes "distinct (keys es)" "sorted (map nd_scheduled_ns ns)" "\<forall>n \<in> set ns. bound es (nd_dest n)"
    and f: "\<And>e. ep_addr (f e) = ep_addr e"
    and "\<And>e. e \<in> set es \<Longrightarrow> endpoint_ok b ns (if addr_key (ep_addr e) = addr_key addr then f e else e)"
  shows "lists_ok b ns (at_endpoint f addr es)"
proof -
  have "\<forall>e \<in> set (at_endpoint f addr es). endpoint_ok b ns e"
    unfolding at_endpoint_map [OF assms(1)] set_map ball_simps using assms(5) by blast
  then show ?thesis unfolding lists_ok_def keys_at_endpoint [of f, OF f] using assms(1-3) by blast
qed

lemma lists_ok_enqueue:
  assumes "lists_ok b ns es" "bound es (nd_dest node)" "length (nd_payload node) \<le> 65535" "b + 65535 < 2 ^ 64"
  shows "lists_ok (b + 65535) (insert_walk node ns) (at_endpoint (add_bytes node) (nd_dest node) es)"
proof -
  have d: "distinct (keys es)" and e: "\<forall>e \<in> set es. endpoint_ok b ns e" using assms(1) by (simp_all add: lists_ok_def)
  have add: "unat (ep_bytes_in_flight e + word_of_nat (length (nd_payload node)))
      = unat (ep_bytes_in_flight e) + length (nd_payload node)" if "endpoint_ok b ns e" for e :: "'a cb__netsim_endpoint_t"
    using that assms(3,4) by (subst unat_word_ariths) (simp add: endpoint_ok_def unat_of_nat)
  have "endpoint_ok (b + 65535) (insert_walk node ns)
      (if addr_key (ep_addr e) = addr_key (nd_dest node) then add_bytes node e else e)" if "e \<in> set es" for e
  proof -
    have ok: "endpoint_ok b ns e" using e that by blast
    then show ?thesis using assms(3) add [OF ok] by (simp add: endpoint_ok_def bytes_insert_walk add_bytes_def)
  qed
  then show ?thesis using assms(1,2)
    by (intro lists_ok_at_endpoint [OF d]) (auto simp: lists_ok_def sorted_insert_walk add_bytes_def)
qed

lemma ready_count_at_endpoint:
  "(\<And>e. length (ep_ready (f e)) = length (ep_ready e)) \<Longrightarrow> ready_count (at_endpoint f addr es) = ready_count es"
  by (induction es) auto

lemma lists_ok_push:
  assumes "lists_ok b (node # ns) es"
  shows "lists_ok b ns (at_endpoint (push_ready node) (nd_dest node) es)"
    "ready_count (at_endpoint (push_ready node) (nd_dest node) es) = Suc (ready_count es)"
proof -
  have d: "distinct (keys es)" and e: "\<forall>e \<in> set es. endpoint_ok b (node # ns) e" and bd: "bound es (nd_dest node)"
    using assms by (simp_all add: lists_ok_def)
  have "endpoint_ok b ns (if addr_key (ep_addr e) = addr_key (nd_dest node) then push_ready node e else e)"
    if "e \<in> set es" for e
    using e that by (auto simp: endpoint_ok_def push_ready_def)
  then show "lists_ok b ns (at_endpoint (push_ready node) (nd_dest node) es)" using assms
    by (intro lists_ok_at_endpoint [OF d]) (auto simp: lists_ok_def push_ready_def)
  obtain e where "cb__netsim_find_endpoint es (nd_dest node) = Some e" using bd find_endpoint_None by (metis option.exhaust)
  then obtain as bs where "es = as @ e # bs" "addr_key (ep_addr e) = addr_key (nd_dest node)"
    "addr_key (nd_dest node) \<notin> set (keys as)" by (rule find_endpoint_split)
  then show "ready_count (at_endpoint (push_ready node) (nd_dest node) es) = Suc (ready_count es)"
    by (simp add: at_endpoint_split push_ready_def)
qed

lemma lists_ok_pop:
  assumes "lists_ok b ns es" "cb__netsim_find_endpoint es addr = Some e" "ep_ready e = node # r"
  shows "lists_ok b ns (at_endpoint pop_ready addr es)"
    "ready_count es = Suc (ready_count (at_endpoint pop_ready addr es))"
proof -
  obtain as bs where s: "es = as @ e # bs" "addr_key (ep_addr e) = addr_key addr" "addr_key addr \<notin> set (keys as)"
    using assms(2) by (rule find_endpoint_split)
  have ok: "endpoint_ok b ns e" using assms(1) s(1) by (simp add: lists_ok_def)
  let ?len = "word_of_nat (length (nd_payload node)) :: u64"
  have le: "length (nd_payload node) \<le> unat (ep_bytes_in_flight e)" using ok assms(3) by (simp add: endpoint_ok_def)
  have "unat (ep_bytes_in_flight e) < 2 ^ 64" using unsigned_less [where 'a = nat, of "ep_bytes_in_flight e"] by simp
  then have u: "unat ?len = length (nd_payload node)" using le by (simp add: unat_of_nat)
  have l: "?len \<le> ep_bytes_in_flight e" using le by (simp add: word_le_nat_alt u)
  have "unat (ep_bytes_in_flight e - ?len) = unat (ep_bytes_in_flight e) - length (nd_payload node)"
    using unat_sub [OF l] by (simp add: u)
  then have "endpoint_ok b ns (pop_ready e)"
    using ok assms(3) l by (auto simp: endpoint_ok_def pop_ready_def Let_def)
  then show "lists_ok b ns (at_endpoint pop_ready addr es)"
    using assms(1) unfolding s(1) at_endpoint_split [OF s(3,2)]
    by (auto simp: lists_ok_def pop_ready_def Let_def)
  show "ready_count es = Suc (ready_count (at_endpoint pop_ready addr es))"
    using assms(3) unfolding s(1) at_endpoint_split [OF s(3,2)] by (simp add: pop_ready_def Let_def)
qed

lemma lists_ok_bind:
  assumes "lists_ok b ns es" "\<not> bound es (ep_addr e)" "ep_ready e = []" "ep_bytes_in_flight e = 0"
  shows "lists_ok b ns (e # es)"
  using assms addressed_unbound [of ns es "ep_addr e"] by (auto simp: lists_ok_def endpoint_ok_def)

lemma lists_ok_close:
  assumes "lists_ok b ns (as @ e # bs)" "addr_key (ep_addr e) = addr_key addr"
  shows "lists_ok b (filter (\<lambda>n. addr_key (nd_dest n) \<noteq> addr_key addr) ns) (as @ bs)"
proof -
  have "endpoint_ok b (filter (\<lambda>n. addr_key (nd_dest n) \<noteq> addr_key addr) ns) x" if "x \<in> set (as @ bs)" for x
  proof -
    have "addr_key addr \<noteq> addr_key (ep_addr x)" using assms that unfolding lists_ok_def by (auto simp: image_iff)
    moreover have "endpoint_ok b ns x" using assms(1) that unfolding lists_ok_def by auto
    ultimately show ?thesis by (simp add: endpoint_ok_def addressed_scrubbed)
  qed
  then show ?thesis using assms unfolding lists_ok_def by (auto simp: sorted_filter)
qed

section \<open>Runs keep the invariant\<close>

lemma net_ok_create: "net_ok 0 0 (cb_netsim_create mem seed params)"
  by (simp add: net_ok_def cb_netsim_create_def Let_def lists_ok_def balanced_def seed_odd)

lemma net_ok_set_params: "net_ok k l net \<Longrightarrow> net_ok k l (snd (cb_netsim_set_params net params))"
  by (simp add: cb_netsim_set_params_def net_ok_def balanced_def)

lemma net_ok_set_clock: "net_ok k l net \<Longrightarrow> net_ok k l (cb_netsim_set_clock net c)"
  by (simp add: cb_netsim_set_clock_def net_ok_def balanced_def)

lemma net_ok_bind:
  assumes "net_ok k l net"
  shows "net_ok k l (snd (cb_netsim_bind alloc net addr))"
proof (cases "cb__netsim_find_endpoint (net_endpoints net) addr")
  case None
  obtain p m where a: "alloc sizeof_endpoint 8 (net_mem net) = (p, m)" by fastforce
  have "\<not> bound (net_endpoints net) addr" using None find_endpoint_None by blast
  then show ?thesis using assms None a
    by (cases p) (simp_all add: cb_netsim_bind_def Let_def net_ok_def balanced_def lists_ok_bind)
next
  case Some
  then show ?thesis using assms by (simp add: cb_netsim_bind_def Let_def)
qed

lemma net_ok_close:
  assumes "net_ok k l net" "cb_netsim_close free net h = (h', net')"
  shows "net_ok k (if h_attached h then l + word_of_nat (length (ready_at (h_addr h) (net_endpoints net))) else l) net'"
proof (cases "h_attached h")
  case True
  show ?thesis
  proof (cases "cb__netsim_find_endpoint (net_endpoints net) (h_addr h)")
    case None
    then have "\<not> bound (net_endpoints net) (h_addr h)" using find_endpoint_None by blast
    then have "net' = net" using assms(2) True by (simp add: cb_netsim_close_def unlink_endpoint_none)
    then show ?thesis using assms(1) None by (simp add: ready_at_def)
  next
    case (Some e)
    from find_endpoint_split [OF Some] obtain as bs where s: "net_endpoints net = as @ e # bs"
      "addr_key (ep_addr e) = addr_key (h_addr h)" "addr_key (h_addr h) \<notin> set (keys as)" .
    let ?far = "filter (\<lambda>n. addr_key (nd_dest n) \<noteq> addr_key (h_addr h)) (net_pending net)"
    obtain m where n: "net' = net\<lparr>net_endpoints := as @ bs, net_pending := ?far,
        stat_dropped := stat_dropped net + word_of_nat (length (addressed (h_addr h) (net_pending net))), net_mem := m\<rparr>"
      using assms(2) True unfolding cb_netsim_close_def s(1) unlink_endpoint_split [OF s(3,2)]
      by (auto simp: cb__netsim_drop_endpoint_ready_def scrub_loop_spec Let_def)
    have "length (net_pending net) = length ?far + length (addressed (h_addr h) (net_pending net))"
      by (simp add: length_scrubbed)
    then have "balanced (l + word_of_nat (length (ep_ready e))) net'"
      using assms(1) unfolding net_ok_def balanced_def n s(1) by (simp add: algebra_simps)
    then show ?thesis using assms(1) True Some lists_ok_close [OF _ s(2)] unfolding net_ok_def n s(1)
      by (simp add: ready_at_def)
  qed
next
  case False
  then show ?thesis using assms by (auto simp: cb_netsim_close_def)
qed

lemma net_ok_recv:
  assumes "net_ok k l net" "cb_netsim_recv_from free net h out out_cap = (info, out', net')"
  shows "net_ok k l net'"
proof (cases "net' = net")
  case False
  then obtain e node r where e: "cb__netsim_find_endpoint (net_endpoints net) (h_addr h) = Some e" "ep_ready e = node # r"
    using assms(2) unfolding cb_netsim_recv_from_def by (auto split: if_splits option.splits list.splits)
  obtain m where n: "net' = net\<lparr>net_endpoints := at_endpoint pop_ready (h_addr h) (net_endpoints net), net_mem := m,
      stat_delivered := stat_delivered net + 1\<rparr>"
    using assms(2) False e unfolding cb_netsim_recv_from_def by (auto simp: Let_def split: if_splits)
  show ?thesis using assms(1) lists_ok_pop [OF _ e] unfolding net_ok_def balanced_def n
    by (simp add: algebra_simps) (metis add.assoc add.commute of_nat_Suc)
qed (use assms in simp)

lemma net_ok_flush:
  assumes "net_ok k l net"
  shows "net_ok k (l + word_of_nat (length (net_pending net) + ready_count (net_endpoints net))) (cb_netsim_flush free net)"
proof -
  have f: "fst (flush_endpoints free es m) = map (\<lambda>e. e\<lparr>ep_ready := [], ep_bytes_in_flight := 0\<rparr>) es" for es m
    by (induction es arbitrary: m) (simp_all add: cb__netsim_drop_endpoint_ready_def split_def Let_def)
  have r: "ready_count (map (\<lambda>e. e\<lparr>ep_ready := [], ep_bytes_in_flight := 0\<rparr>) es) = 0"
    for es :: "'a cb__netsim_endpoint_t list" by (induction es) simp_all
  show ?thesis using assms
    by (auto simp: net_ok_def balanced_def lists_ok_def endpoint_ok_def cb_netsim_flush_def split_def Let_def f r comp_def)
qed

lemma step_loop_keeps:
  "lists_ok b ns (net_endpoints net) \<Longrightarrow> balanced l (net\<lparr>net_pending := ns\<rparr>) \<Longrightarrow>
    step_loop free now ns moved net = (moved', net') \<Longrightarrow>
    lists_ok b (net_pending net') (net_endpoints net') \<and> balanced l net' \<and> net_rng net' = net_rng net"
proof (induction free now ns moved net rule: step_loop.induct)
  case (2 free now node ns moved net)
  show ?case
  proof (cases "nd_scheduled_ns node \<le> now")
    case True
    obtain e where e: "cb__netsim_find_endpoint (net_endpoints net) (nd_dest node) = Some e"
      using "2.prems"(1) find_endpoint_None by (metis list.set_intros(1) lists_ok_def option.exhaust)
    let ?net = "net\<lparr>net_endpoints := at_endpoint (push_ready node) (nd_dest node) (net_endpoints net)\<rparr>"
    have "balanced l (?net\<lparr>net_pending := ns\<rparr>)"
      using "2.prems"(2) lists_ok_push(2) [OF "2.prems"(1)] by (simp add: balanced_def)
    then show ?thesis using "2.IH"(2) [OF True e] lists_ok_push(1) [OF "2.prems"(1)] "2.prems"(3) True e by simp
  next
    case False
    then show ?thesis using "2.prems" by (auto simp: balanced_def)
  qed
qed auto

lemma net_ok_step: "net_ok k l net \<Longrightarrow> cb_netsim_step clocks free net = (moved, net') \<Longrightarrow> net_ok k l net'"
  using step_loop_keeps [of "131070 * k" "net_pending net" net l] by (simp add: net_ok_def cb_netsim_step_def)

lemma fold_enqueue_keeps:
  "lists_ok b ns es \<Longrightarrow> \<forall>n \<in> set copies. bound es (nd_dest n) \<and> length (nd_payload n) \<le> 65535 \<Longrightarrow>
    b + 65535 * length copies < 2 ^ 64 \<Longrightarrow>
    lists_ok (b + 65535 * length copies) (fold insert_walk copies ns)
      (fold (\<lambda>n. at_endpoint (add_bytes n) (nd_dest n)) copies es)
    \<and> ready_count (fold (\<lambda>n. at_endpoint (add_bytes n) (nd_dest n)) copies es) = ready_count es
    \<and> length (fold insert_walk copies ns) = length ns + length copies"
proof (induction copies arbitrary: b ns es)
  case (Cons n copies)
  have 1: "lists_ok (b + 65535) (insert_walk n ns) (at_endpoint (add_bytes n) (nd_dest n) es)"
    using Cons.prems by (intro lists_ok_enqueue) auto
  have k: "keys (at_endpoint (add_bytes n) (nd_dest n) es) = keys es" by (rule keys_at_endpoint) (simp add: add_bytes_def)
  have r: "ready_count (at_endpoint (add_bytes n) (nd_dest n) es) = ready_count es"
    by (rule ready_count_at_endpoint) (simp add: add_bytes_def)
  show ?case using Cons.IH [OF 1] Cons.prems(2,3) unfolding k r by (simp add: algebra_simps)
qed simp

lemma net_ok_send:
  assumes ok: "net_ok k l net" and "131070 * Suc k < 2 ^ 64"
    and "cb_netsim_send_to clocks alloc free net h dest buf = Some (info, net')"
    and l': "l' = (if info = CB_INFO_NETSIM_ALLOC_FAILED \<and> length (net_pending net') = length (net_pending net) then l + 1 else l)"
  shows "net_ok (Suc k) l' net'"
proof (cases "h_attached h \<and> length buf \<le> CB_NETSIM_MAX_DATAGRAM_BYTES")
  case True
  have odd: "odd (rng_inc (net_rng net))" using ok by (simp add: net_ok_def)
  obtain copies d f u where s: "in_flight net net' copies"
    "\<forall>n \<in> set copies. copy_of (net_params net) (h_addr h) dest buf (net_now clocks net) n"
    "stat_dropped net' = stat_dropped net + (if d then 1 else 0)"
    "stat_queue_full net' = stat_queue_full net + (if f then 1 else 0)"
    "stat_duplicated net' = stat_duplicated net + (if u then 1 else 0)"
    and c: "(d, f, u, length copies, info) \<in>
       {(True, False, False, 0, CB_INFO_OK), (False, True, False, 0, CB_INFO_OK),
        (False, False, False, 0, CB_INFO_NETSIM_ALLOC_FAILED), (False, False, False, 1, CB_INFO_OK),
        (False, False, False, 1, CB_INFO_NETSIM_ALLOC_FAILED), (False, False, True, 2, CB_INFO_OK)}"
    and b: "\<not> bound (net_endpoints net) dest \<Longrightarrow> d"
  proof (cases rule: send_cases [OF odd conjunct1 [OF True] conjunct2 [OF True], of clocks alloc free dest])
    case (1 copies n1 i1 d f u)
    have "n1 = net'" "i1 = info" using 1(1) assms(3) by simp_all
    then show ?thesis using 1(2-8) that by simp
  qed
  have le: "length copies \<le> 2" using c by auto
  have "bound (net_endpoints net) (nd_dest n) \<and> length (nd_payload n) \<le> 65535" if "n \<in> set copies" for n
  proof -
    have "\<not> d" using that c by auto
    then show ?thesis using b s(2) that True by (auto simp: copy_of_def CB_NETSIM_MAX_DATAGRAM_BYTES_def dest!: length_flipped)
  qed
  then have *: "lists_ok (131070 * k + 65535 * length copies) (net_pending net') (net_endpoints net')
      \<and> ready_count (net_endpoints net') = ready_count (net_endpoints net)
      \<and> length (net_pending net') = length (net_pending net) + length copies"
    using fold_enqueue_keeps [of "131070 * k" "net_pending net" "net_endpoints net" copies] ok assms(2) le s(1)
    by (simp add: net_ok_def in_flight_def)
  then have "lists_ok (131070 * Suc k) (net_pending net') (net_endpoints net')" using le by (auto elim: lists_ok_mono)
  moreover have "balanced l' net'"
    using ok * c s unfolding net_ok_def balanced_def in_flight_def l' by (auto simp: algebra_simps)
  ultimately show ?thesis using ok s(1) by (simp add: net_ok_def in_flight_def)
next
  case False
  then have "net' = net" "info \<noteq> CB_INFO_NETSIM_ALLOC_FAILED" using assms(3) by (auto simp: cb_netsim_send_to_def split: if_splits)
  then show ?thesis using net_ok_Suc [OF ok] l' by simp
qed

lemma run_ok: "net_run alloc free mem k l net \<Longrightarrow> k < 2 ^ 40 \<Longrightarrow> net_ok k l net"
proof (induction rule: net_run.induct)
  case (set_params k l net params info net')
  then show ?case using net_ok_set_params [of k l net params] net_ok_Suc by simp
next
  case (set_clock k l net c)
  then show ?case by (intro net_ok_Suc net_ok_set_clock) simp
next
  case (bind k l net addr h net')
  then show ?case using net_ok_bind [of k l net alloc addr] net_ok_Suc by simp
next
  case (close k l net h h' net' l')
  then show ?case using net_ok_close net_ok_Suc by fastforce
next
  case (send k l net clocks h dest buf info net' l')
  then show ?case by (intro net_ok_send) simp_all
next
  case (step k l net clocks moved net')
  then show ?case using net_ok_step net_ok_Suc by fastforce
next
  case (recv k l net h out out_cap info out' net')
  then show ?case using net_ok_recv net_ok_Suc by fastforce
next
  case (flush k l net l')
  then show ?case using net_ok_flush net_ok_Suc by fastforce
qed (rule net_ok_create)

end
