(* ===== verification/Netsim_Props.thy ===== *)
theory Netsim_Props
  imports Netsim_Invariant
begin

text \<open>
  What the simulator promises over whole runs: counting, scheduling and delivery.
\<close>

section \<open>Rolls over the natural numbers\<close>

lemma roll_nat:
  assumes "roll_ms lo hi d" "lo \<le> hi" "unat hi < 2 ^ 31"
  obtains ms where "unat lo \<le> ms" "ms \<le> unat hi" "d = word_of_nat (ms * 1000000)"
proof -
  have lo: "unat lo < 2 ^ 31" using assms(2,3) by (simp add: word_le_nat_alt)
  have s: "sint lo = int (unat lo)" "sint hi = int (unat hi)" using lo assms(3) by (simp_all add: sint_of_small)
  obtain ms :: i32 where ms: "d = scast ms * 1000000" "sint lo \<le> sint ms" "sint ms \<le> sint hi"
    using assms(1,2) unfolding roll_ms_def s word_le_nat_alt by (metis not_less of_nat_less_iff)
  have nn: "0 \<le> sint ms" using ms(2) unfolding s(1) by linarith
  have u: "sint ms = int (unat ms)" unfolding sint_nonneg_uint [OF nn] by (simp only: uint_nat)
  have "(scast ms :: u64) = word_of_int (sint ms)" by (simp only: scast_eq)
  then have "d = word_of_nat (unat ms * 1000000)" using ms(1) u by simp
  moreover have "unat lo \<le> unat ms" "unat ms \<le> unat hi" using ms(2,3) unfolding u s of_nat_le_iff .
  ultimately show ?thesis using that by blast
qed

lemma below_one: "cb_rng_u32_below rng 1 = Some (0, cb__pcg_step rng)"
proof -
  obtain x where x: "cb_rng_u32 rng = (x, cb__pcg_step rng)" using snd_u32 [of rng] by (metis prod.collapse)
  have h: "(ucast (drop_bit 32 (ucast x :: u64)) :: u32) = 0"
  proof (rule word_unat_eq_iff [THEN iffD2])
    show "unat (ucast (drop_bit 32 (ucast x :: u64)) :: u32) = unat (0 :: u32)"
      using unsigned_less [where 'a = nat, of x] by (simp add: unat_high unat_up64)
  qed
  show ?thesis using h by (simp add: cb_rng_u32_below_def x Let_def below_loop_done)
qed

lemma range_one: "cb_rng_i32_range rng lo lo = Some (lo, cb__pcg_step rng)"
proof -
  have "\<not> (4294967296 :: i64) <=s 1" by (simp add: word_sle_eq)
  moreover have "scast (scast lo :: i64) = lo"
  proof (rule sint_eqI)
    have up: "sint (scast lo :: i64) = sint lo" by (rule sint_scast_up) simp
    have "fits LENGTH(32) (sint (scast lo :: i64))" unfolding up by (rule sint_fits)
    then show "sint (scast (scast lo :: i64) :: i32) = sint lo" by (simp only: sint_scast_fits up)
  qed
  ultimately show ?thesis by (simp add: cb_rng_i32_range_def below_one)
qed

section \<open>Properties\<close>

text \<open>C7. The simulator never loses count.  After any operations, however the clock jumps and whether
  memory runs out or not, the schedule is sorted, the addresses are distinct, every endpoint's count of
  bytes in flight is exact, and every datagram enqueued or duplicated was delivered, dropped, refused by a
  full queue, lost uncounted, or is still in the net.  The counters have 32 bits and wrap, so that
  balance holds modulo 2 ^ 32; the bytes in flight are exact numbers.\<close>

theorem netsim_counts:
  assumes "net_run alloc free mem k lost net" "k < 2 ^ 40"
  shows "sorted (map nd_scheduled_ns (net_pending net)) \<and> distinct (map (\<lambda>e. addr_key (ep_addr e)) (net_endpoints net))
    \<and> (\<forall>e \<in> set (net_endpoints net). unat (ep_bytes_in_flight e)
        = payload_bytes (ep_ready e) + payload_bytes (addressed (ep_addr e) (net_pending net)))
    \<and> stat_enqueued net + stat_duplicated net = stat_delivered net + stat_dropped net + stat_queue_full net + lost
        + word_of_nat (length (net_pending net) + ready_count (net_endpoints net))"
  using run_ok [OF assms] unfolding net_ok_def lists_ok_def endpoint_ok_def balanced_def by blast

text \<open>What the loop needs of the lists.\<close>

definition routed :: "'p cb__netsim_pending_t list \<Rightarrow> 'p cb__netsim_endpoint_t list \<Rightarrow> bool" where
  "routed pending es \<longleftrightarrow>
     sorted (map nd_scheduled_ns pending) \<and> distinct (keys es) \<and> (\<forall>n \<in> set pending. bound es (nd_dest n))"

lemma step_loop_moves:
  assumes "routed ns (net_endpoints net)"
  shows "step_loop free now ns moved net
    = (moved + word_of_nat (length (filter (\<lambda>n. nd_scheduled_ns n \<le> now) ns)),
       net\<lparr>net_pending := filter (\<lambda>n. now < nd_scheduled_ns n) ns,
         net_endpoints := map (\<lambda>e. e\<lparr>ep_ready := ep_ready e
           @ addressed (ep_addr e) (filter (\<lambda>n. nd_scheduled_ns n \<le> now) ns)\<rparr>) (net_endpoints net)\<rparr>)"
  using assms
proof (induction free now ns moved net rule: step_loop.induct)
  case (1 free now moved net)
  have "map (\<lambda>e. e\<lparr>ep_ready := ep_ready e\<rparr>) es = es" for es :: "'a cb__netsim_endpoint_t list" by (rule map_idI) simp
  then show ?case by simp
next
  case (2 free now node ns moved net)
  show ?case
  proof (cases "nd_scheduled_ns node \<le> now")
    case True
    obtain e where e: "cb__netsim_find_endpoint (net_endpoints net) (nd_dest node) = Some e"
      using "2.prems" find_endpoint_None by (metis list.set_intros(1) routed_def option.exhaust)
    have d: "distinct (keys (net_endpoints net))" using "2.prems" by (simp add: routed_def)
    let ?net = "net\<lparr>net_endpoints := at_endpoint (push_ready node) (nd_dest node) (net_endpoints net)\<rparr>"
    have "routed ns (net_endpoints ?net)" using "2.prems" by (auto simp: routed_def keys_at_endpoint push_ready_def)
    from "2.IH"(2) [OF True e this] show ?thesis using True e
      by (auto simp: at_endpoint_map [OF d] push_ready_def not_less addr_key_def [symmetric] intro!: map_cong)
  next
    case False
    then have "\<forall>n \<in> set (node # ns). now < nd_scheduled_ns n"
      using "2.prems" by (auto simp: routed_def not_le intro: less_le_trans)
    then have f: "filter (\<lambda>n. nd_scheduled_ns n \<le> now) (node # ns) = []" "filter (\<lambda>n. now < nd_scheduled_ns n) (node # ns) = node # ns"
      by (auto simp: filter_empty_conv intro!: filter_True)
    have "map (\<lambda>e. e\<lparr>ep_ready := ep_ready e\<rparr>) es = es" for es :: "'a cb__netsim_endpoint_t list" by (rule map_idI) simp
    then show ?thesis unfolding f using False by simp
  qed
qed

text \<open>C37. A step delivers exactly what is due.  It moves every datagram whose time has come, in the order
  of the schedule, behind what its endpoint already holds, leaves every other datagram pending, drops
  nothing, and answers the number moved.\<close>

theorem netsim_step_delivers_due:
  assumes "net_run alloc free mem k lost net" "k < 2 ^ 40" "cb_netsim_step clocks free net = (moved, net')"
  shows "net_pending net' = filter (\<lambda>n. net_now clocks net < nd_scheduled_ns n) (net_pending net)
    \<and> net_endpoints net' = map (\<lambda>e. e\<lparr>ep_ready := ep_ready e
        @ filter (\<lambda>n. nd_scheduled_ns n \<le> net_now clocks net \<and> same_addr (nd_dest n) (ep_addr e)) (net_pending net)\<rparr>)
        (net_endpoints net)
    \<and> moved = word_of_nat (length (filter (\<lambda>n. nd_scheduled_ns n \<le> net_now clocks net) (net_pending net)))
    \<and> stat_dropped net' = stat_dropped net \<and> net_mem net' = net_mem net"
proof -
  have "routed (net_pending net) (net_endpoints net)"
    using run_ok [OF assms(1,2)] by (simp add: net_ok_def lists_ok_def routed_def)
  from step_loop_moves [OF this, of free "net_now clocks net" 0] show ?thesis using assms(3)
    by (auto simp: cb_netsim_step_def addressed_def same_addr_key conj_commute)
qed

text \<open>C38. What a send does.  It always returns, and puts at most two copies in flight, each from the
  sender to the destination with its payload intact or one bit flipped, due after a latency inside the
  limits and, if it is reordered, an extra delay inside the limits.  Nothing is sent to an address that
  is not bound.\<close>

theorem netsim_send_rolls:
  fixes net :: "('p, 's, 'c) cb_netsim_t"
  assumes "net_run alloc free mem k lost net" "k < 2 ^ 40" "h_attached h" "length buf \<le> CB_NETSIM_MAX_DATAGRAM_BYTES"
    and "cb__netsim_params_ok (net_params net)" "unat (latency_ms_max (net_params net)) < 2 ^ 31"
    "unat (reorder_swap_ms_max (net_params net)) < 2 ^ 31"
  shows "\<exists>info net' copies. cb_netsim_send_to clocks alloc free net h dest buf = Some (info, net')
    \<and> info \<in> {CB_INFO_OK, CB_INFO_NETSIM_ALLOC_FAILED} \<and> length copies \<le> 2
    \<and> (cb__netsim_find_endpoint (net_endpoints net) dest = None \<longrightarrow> copies = [])
    \<and> net_pending net' = fold (\<lambda>n ns. cb__netsim_pending_insert ns n) copies (net_pending net)
    \<and> (\<forall>n \<in> set copies. nd_src n = h_addr h \<and> nd_dest n = dest
        \<and> (nd_payload n = buf \<or> (\<exists>i. unat i < 8 * length buf \<and> nd_payload n = flip_bit buf i))
        \<and> (\<exists>lat extra. unat (latency_ms_min (net_params net)) \<le> lat \<and> lat \<le> unat (latency_ms_max (net_params net))
            \<and> (extra = 0 \<or> unat (reorder_swap_ms_min (net_params net)) \<le> extra
                \<and> extra \<le> unat (reorder_swap_ms_max (net_params net)))
            \<and> nd_scheduled_ns n = net_now clocks net + word_of_nat ((lat + extra) * 1000000)))"
proof -
  let ?p = "net_params net"
  have p: "latency_ms_min ?p \<le> latency_ms_max ?p" "reorder_swap_ms_min ?p \<le> reorder_swap_ms_max ?p"
    using assms(5) by (auto simp: cb__netsim_params_ok_def not_less split: if_splits)
  have odd: "odd (rng_inc (net_rng net))" using run_ok [OF assms(1,2)] by (simp add: net_ok_def)
  have copy: "nd_src n = h_addr h \<and> nd_dest n = dest
        \<and> (nd_payload n = buf \<or> (\<exists>i. unat i < 8 * length buf \<and> nd_payload n = flip_bit buf i))
        \<and> (\<exists>lat extra. unat (latency_ms_min ?p) \<le> lat \<and> lat \<le> unat (latency_ms_max ?p)
            \<and> (extra = 0 \<or> unat (reorder_swap_ms_min ?p) \<le> extra \<and> extra \<le> unat (reorder_swap_ms_max ?p))
            \<and> nd_scheduled_ns n = net_now clocks net + word_of_nat ((lat + extra) * 1000000))"
    if c: "copy_of ?p (h_addr h) dest buf (net_now clocks net) n" for n :: "'p cb__netsim_pending_t"
  proof -
    obtain l d where ld: "roll_ms (latency_ms_min ?p) (latency_ms_max ?p) l" "reorder_ms ?p d"
      "nd_scheduled_ns n = net_now clocks net + l + d" using c by (auto simp: copy_of_def)
    obtain lat where lat: "unat (latency_ms_min ?p) \<le> lat" "lat \<le> unat (latency_ms_max ?p)" "l = word_of_nat (lat * 1000000)"
      using ld(1) p(1) assms(6) by (rule roll_nat)
    obtain extra where "extra = 0 \<or> unat (reorder_swap_ms_min ?p) \<le> extra \<and> extra \<le> unat (reorder_swap_ms_max ?p)"
      "d = word_of_nat (extra * 1000000)"
      using ld(2) roll_nat [OF _ p(2) assms(7)] unfolding reorder_ms_def by (metis mult_zero_left of_nat_0)
    then have "\<exists>lat extra. unat (latency_ms_min ?p) \<le> lat \<and> lat \<le> unat (latency_ms_max ?p)
            \<and> (extra = 0 \<or> unat (reorder_swap_ms_min ?p) \<le> extra \<and> extra \<le> unat (reorder_swap_ms_max ?p))
            \<and> nd_scheduled_ns n = net_now clocks net + word_of_nat ((lat + extra) * 1000000)"
      using lat ld(3) by (intro exI [of _ lat] exI [of _ extra]) (simp add: algebra_simps)
    then show ?thesis using c by (simp add: copy_of_def flipped_def)
  qed
  show ?thesis
  proof (cases rule: send_cases [OF odd assms(3,4), of clocks alloc free dest])
    case (1 copies net' info d f u)
    have i: "info \<in> {CB_INFO_OK, CB_INFO_NETSIM_ALLOC_FAILED}" "length copies \<le> 2" using 1(7) by auto
    have p: "net_pending net' = fold (\<lambda>n ns. cb__netsim_pending_insert ns n) copies (net_pending net)"
      using 1(2) by (simp add: in_flight_def pending_insert_walk)
    have b: "cb__netsim_find_endpoint (net_endpoints net) dest = None \<longrightarrow> copies = []"
      using 1(7,8) unfolding find_endpoint_None by auto
    show ?thesis
      by (rule exI [of _ info], rule exI [of _ net'], rule exI [of _ copies], intro conjI ballI 1(1) i p b bspec [OF 1(3), THEN copy])
  qed
qed

section \<open>Concrete runs\<close>

text \<open>A link with five milliseconds of latency and an allocator that counts its allocations.\<close>

definition count_alloc :: "(nat, nat) alloc" where "count_alloc sz align m = (Some m, Suc m)"
definition keep_free :: "(nat, nat) free" where "keep_free p m = m"

definition demo_params :: cb_netsim_params_t where
  "demo_params = \<lparr>drop_prob = 0, dup_prob = 0, corrupt_prob = 0, latency_ms_min = 5, latency_ms_max = 5,
     reorder_prob = 0, reorder_swap_ms_min = 0, reorder_swap_ms_max = 0, max_queue_bytes = 0\<rparr>"

definition demo_addr :: cb_net_addr_t where "demo_addr = \<lparr>addr_info = CB_INFO_OK, addr_ip = 1, addr_port = 7\<rparr>"

definition demo_bound :: "(nat, nat, unit) cb_netsim_t" where
  "demo_bound = snd (cb_netsim_bind count_alloc (cb_netsim_create 0 42 demo_params) demo_addr)"

definition demo_handle :: cb_netsim_endpoint_t where
  "demo_handle = \<lparr>h_info = CB_INFO_OK, h_attached = True, h_addr = demo_addr\<rparr>"

definition demo_clocks :: "u64 \<Rightarrow> unit clocks" where "demo_clocks t = (\<lambda>_. t, t)"

definition demo_sent :: "(nat, nat, unit) cb_netsim_t" where
  "demo_sent = snd (the (cb_netsim_send_to (demo_clocks 100) count_alloc keep_free demo_bound demo_handle demo_addr [1, 2, 3]))"

lemma demo_bound_run: "net_run count_alloc keep_free 0 1 0 demo_bound"
  using net_run.bind [OF net_run.create] unfolding demo_bound_def
  by (metis One_nat_def prod.collapse)

lemma chance_zero: "cb_rng_chance_fx16 rng 0 = (False, rng)"
  by (simp add: cb_rng_chance_fx16_def)

lemma demo_send:
  "\<exists>net'. cb_netsim_send_to (demo_clocks 100) count_alloc keep_free demo_bound demo_handle demo_addr [1, 2, 3] = Some (CB_INFO_OK, net')
    \<and> net_pending net' = [\<lparr>nd_src = demo_addr, nd_dest = demo_addr, nd_scheduled_ns = 5000100, nd_payload = [1, 2, 3],
        nd_payload_ptr = Some 2, nd_ptr = 1\<rparr>]
    \<and> net_clock net' = None"
  unfolding cb_netsim_send_to_def send_copy_def
  by (simp add: demo_bound_def demo_handle_def cb_netsim_bind_def cb_netsim_create_def cb__netsim_params_ok_def
      demo_params_def count_alloc_def CB_NETSIM_MAX_DATAGRAM_BYTES_def same_addr_def chance_zero range_one
      cb__netsim_enqueue_copy_def corrupt_roll_def reorder_roll_def cb__netsim_enqueue_node_def net_now_def demo_clocks_def
      Let_def)

lemma demo_sent_send: "cb_netsim_send_to (demo_clocks 100) count_alloc keep_free demo_bound demo_handle demo_addr [1, 2, 3]
    = Some (CB_INFO_OK, demo_sent)"
  "net_pending demo_sent = [\<lparr>nd_src = demo_addr, nd_dest = demo_addr, nd_scheduled_ns = 5000100, nd_payload = [1, 2, 3],
        nd_payload_ptr = Some 2, nd_ptr = 1\<rparr>]"
  "net_clock demo_sent = None"
  using demo_send unfolding demo_sent_def by auto

lemma demo_sent_run: "net_run count_alloc keep_free 0 2 0 demo_sent"
  using net_run.send [OF demo_bound_run demo_sent_send(1), of 0] by (simp add: numeral_2_eq_2)

lemma netsim_counts_witness:
  "length (net_pending demo_sent) = 1
    \<and> stat_enqueued demo_sent + stat_duplicated demo_sent = stat_delivered demo_sent + stat_dropped demo_sent
        + stat_queue_full demo_sent + 0 + word_of_nat (length (net_pending demo_sent) + ready_count (net_endpoints demo_sent))"
  using netsim_counts [OF demo_sent_run] demo_sent_send(2) by simp

lemma netsim_step_delivers_due_witness:
  "net_pending (snd (cb_netsim_step (demo_clocks 5000100) keep_free demo_sent)) = []
    \<and> fst (cb_netsim_step (demo_clocks 5000100) keep_free demo_sent) = 1"
  using netsim_step_delivers_due [OF demo_sent_run _ prod.collapse [symmetric], of "demo_clocks 5000100"] demo_sent_send
  by (simp add: net_now_def demo_clocks_def)

lemma netsim_send_rolls_witness:
  "\<exists>info net' copies. cb_netsim_send_to (demo_clocks 100) count_alloc keep_free demo_bound demo_handle demo_addr [1, 2, 3] = Some (info, net')
    \<and> length copies \<le> 2 \<and> net_pending net' = fold (\<lambda>n ns. cb__netsim_pending_insert ns n) copies (net_pending demo_bound)
    \<and> (\<forall>n \<in> set copies. \<exists>i. nd_payload n = [1, 2, 3] \<or> nd_payload n = flip_bit [1, 2, 3] i)"
proof -
  have "h_attached demo_handle" "length [1, 2, 3 :: u8] \<le> CB_NETSIM_MAX_DATAGRAM_BYTES"
    "cb__netsim_params_ok (net_params demo_bound)" "unat (latency_ms_max (net_params demo_bound)) < 2 ^ 31"
    "unat (reorder_swap_ms_max (net_params demo_bound)) < 2 ^ 31"
    by (simp_all add: demo_handle_def CB_NETSIM_MAX_DATAGRAM_BYTES_def demo_bound_def cb_netsim_bind_def
        cb_netsim_create_def demo_params_def cb__netsim_params_ok_def count_alloc_def Let_def)
  from netsim_send_rolls [OF demo_bound_run _ this, of "demo_clocks 100" demo_addr] show ?thesis by fastforce
qed

end
