(* ===== verification/Netsim_Memory.thy ===== *)
theory Netsim_Memory
  imports Netsim_Props
begin

text \<open>
  The memory of the simulator: a net owns one or two allocations per datagram and one per endpoint, and
  every operation keeps the books with any allocator that meets the contract.
\<close>

section \<open>What a net owns\<close>

definition node_owns :: "'p cb__netsim_pending_t \<Rightarrow> 'p list" where
  "node_owns n = (case nd_payload_ptr n of None \<Rightarrow> [] | Some p \<Rightarrow> [p]) @ [nd_ptr n]"

definition nodes_own :: "'p cb__netsim_pending_t list \<Rightarrow> 'p list" where
  "nodes_own ns = concat (map node_owns ns)"

definition endpoints_own :: "'p cb__netsim_endpoint_t list \<Rightarrow> 'p list" where
  "endpoints_own es = concat (map (\<lambda>e. nodes_own (ep_ready e) @ [ep_ptr e]) es)"

definition net_owns :: "('p, 's, 'c) cb_netsim_t \<Rightarrow> 'p list" where
  "net_owns net = nodes_own (net_pending net) @ endpoints_own (net_endpoints net)"

lemma nodes_own_simps [simp]:
  "nodes_own [] = []" "nodes_own (n # ns) = node_owns n @ nodes_own ns" "nodes_own (ns @ ms) = nodes_own ns @ nodes_own ms"
  by (simp_all add: nodes_own_def)

lemma endpoints_own_simps [simp]:
  "endpoints_own [] = []" "endpoints_own (e # es) = nodes_own (ep_ready e) @ ep_ptr e # endpoints_own es"
  "endpoints_own (as @ bs) = endpoints_own as @ endpoints_own bs"
  by (simp_all add: endpoints_own_def)

lemma nodes_own_insert: "mset (nodes_own (insert_walk node ns)) = mset (node_owns node) + mset (nodes_own ns)"
  by (induction ns) auto

lemma nodes_own_partition:
  "mset (nodes_own ns) = mset (nodes_own (addressed addr ns))
    + mset (nodes_own (filter (\<lambda>n. addr_key (nd_dest n) \<noteq> addr_key addr) ns))"
  by (induction ns) auto

lemma endpoints_own_at:
  "(\<And>e. ep_ready (f e) = ep_ready e \<and> ep_ptr (f e) = ep_ptr e) \<Longrightarrow>
    endpoints_own (at_endpoint f addr es) = endpoints_own es"
  by (induction es) auto

lemma rolls_own:
  "corrupt_roll net node = Some (net', node') \<Longrightarrow>
    net_mem net' = net_mem net \<and> net_owns net' = net_owns net \<and> node_owns node' = node_owns node"
  "reorder_roll net node = Some (net', node') \<Longrightarrow>
    net_mem net' = net_mem net \<and> net_owns net' = net_owns net \<and> node_owns node' = node_owns node"
  by (auto simp: corrupt_roll_def reorder_roll_def net_owns_def node_owns_def Let_def split: prod.splits if_splits option.splits)

lemma enqueue_node_owns:
  "mset (net_owns (cb__netsim_enqueue_node net node)) = mset (node_owns node) + mset (net_owns net)"
  "net_mem (cb__netsim_enqueue_node net node) = net_mem net"
  by (simp_all add: net_owns_def nodes_own_insert endpoints_own_at add_bytes_def) (simp add: cb__netsim_enqueue_node_def)

section \<open>Every operation keeps the books\<close>

context allocator
begin

lemma holds_free_node: "holds base (node_owns n @ ps) m \<Longrightarrow> holds base ps (cb__netsim_free_node free n m)"
  by (auto simp: node_owns_def cb__netsim_free_node_def intro: holds_free split: option.splits)

lemma holds_free_nodes: "holds base (nodes_own ns @ ps) m \<Longrightarrow> holds base ps (free_nodes free ns m)"
  by (induction ns arbitrary: m) (simp_all add: holds_free_node)

lemma holds_destroy_endpoints: "holds base (endpoints_own es) m \<Longrightarrow> holds base [] (destroy_endpoints free es m)"
proof (induction es arbitrary: m)
  case (Cons e es)
  then have "holds base (ep_ptr e # endpoints_own es) (free_nodes free (ep_ready e) m)"
    by (intro holds_free_nodes) simp
  then show ?case by (simp add: cb__netsim_drop_endpoint_ready_def Let_def Cons.IH holds_free)
qed simp

lemma holds_destroy:
  "holds base (net_owns net) (net_mem net) \<Longrightarrow> holds base [] (net_mem (cb_netsim_destroy free net))"
  by (simp add: cb_netsim_destroy_def net_owns_def holds_destroy_endpoints holds_free_nodes)

definition books :: "'p set \<Rightarrow> ('p, 's, 'c) cb_netsim_t \<Rightarrow> bool" where
  "books base net \<longleftrightarrow> holds base (net_owns net) (net_mem net)"

lemma books_enqueue_copy:
  assumes "books base net" "cb__netsim_enqueue_copy alloc free net src dest buf t = Some (done, net')"
  shows "books base net'"
proof -
  obtain p m where a: "alloc sizeof_pending 8 (net_mem net) = (p, m)" by fastforce
  note h = assms(1) [unfolded books_def]
  show ?thesis
  proof (cases p)
    case None
    then show ?thesis using assms(2) a holds_alloc_fails [OF h] by (auto simp: cb__netsim_enqueue_copy_def books_def net_owns_def)
  next
    case (Some p')
    note h1 = holds_alloc [OF h a [unfolded Some]]
    obtain q m' where q: "(if 0 < length buf then alloc (word_of_nat (length buf)) 1 m else (None, m)) = (q, m')" by fastforce
    show ?thesis
    proof (cases "0 < length buf \<and> q = None")
      case True
      then have "net' = net\<lparr>net_mem := free p' m'\<rparr>" using assms(2) a Some q by (auto simp: cb__netsim_enqueue_copy_def)
      moreover have "holds base (p' # net_owns net) m'" using holds_alloc_fails [OF h1] q True by (auto split: if_splits)
      ultimately show ?thesis by (simp add: books_def net_owns_def holds_free)
    next
      case False
      have h2: "holds base ((case q of None \<Rightarrow> [] | Some x \<Rightarrow> [x]) @ p' # net_owns net) m'"
        using holds_alloc [OF h1] h1 q False by (auto split: if_splits option.splits)
      let ?node = "\<lparr>nd_src = src, nd_dest = dest, nd_scheduled_ns = t, nd_payload = buf, nd_payload_ptr = q, nd_ptr = p'\<rparr>"
      obtain n1 d1 n2 d2 where r: "corrupt_roll (net\<lparr>net_mem := m'\<rparr>) ?node = Some (n1, d1)" "reorder_roll n1 d1 = Some (n2, d2)"
        "net' = cb__netsim_enqueue_node n2 d2"
        using assms(2) a Some q False unfolding cb__netsim_enqueue_copy_def by (auto simp: Let_def split: option.splits)
      have o: "node_owns d2 = (case q of None \<Rightarrow> [] | Some x \<Rightarrow> [x]) @ [p']" "net_owns n2 = net_owns net" "net_mem n2 = m'"
        using rolls_own(1) [OF r(1)] rolls_own(2) [OF r(2)] by (simp_all add: node_owns_def net_owns_def)
      show ?thesis unfolding books_def r(3) enqueue_node_owns(2) o(3)
        by (rule holds_perm [OF h2]) (simp add: enqueue_node_owns(1) o)
    qed
  qed
qed


lemma books_simps [simp]:
  "books base (net\<lparr>net_rng := r\<rparr>) = books base net" "books base (net\<lparr>stat_enqueued := n\<rparr>) = books base net"
  "books base (net\<lparr>stat_dropped := n\<rparr>) = books base net" "books base (net\<lparr>stat_queue_full := n\<rparr>) = books base net"
  "books base (net\<lparr>stat_duplicated := n\<rparr>) = books base net"
  by (simp_all add: books_def net_owns_def)

lemma books_send_copy:
  "books base net \<Longrightarrow> send_copy alloc free net src dest buf now = Some (done, net') \<Longrightarrow> books base net'"
  by (auto simp: send_copy_def Let_def split: option.splits intro: books_enqueue_copy [rotated])

lemma books_send:
  "books base net \<Longrightarrow> cb_netsim_send_to clocks alloc free net h dest buf = Some (info, net') \<Longrightarrow> books base net'"
  unfolding cb_netsim_send_to_def Let_def
  by (auto split: if_splits option.splits prod.splits bool.splits dest!: books_send_copy [rotated])

lemma books_bind: "books base net \<Longrightarrow> cb_netsim_bind alloc net addr = (h, net') \<Longrightarrow> books base net'"
  using holds_alloc [of base "net_owns net" "net_mem net" sizeof_endpoint 8]
    holds_alloc_fails [of base "net_owns net" "net_mem net" sizeof_endpoint 8]
  by (auto simp: cb_netsim_bind_def books_def net_owns_def Let_def split: if_splits prod.splits option.splits
      intro: holds_perm)

lemma books_close: 
  assumes "books base net" "cb_netsim_close free net h = (h', net')"
  shows "books base net'"
proof (cases "h_attached h \<and> bound (net_endpoints net) (h_addr h)")
  case True
  then obtain e where "cb__netsim_find_endpoint (net_endpoints net) (h_addr h) = Some e"
    using find_endpoint_None by (metis option.exhaust)
  then obtain as bs where s: "net_endpoints net = as @ e # bs" "addr_key (ep_addr e) = addr_key (h_addr h)"
    "addr_key (h_addr h) \<notin> set (keys as)" by (rule find_endpoint_split)
  let ?far = "filter (\<lambda>n. addr_key (nd_dest n) \<noteq> addr_key (h_addr h)) (net_pending net)"
  let ?near = "addressed (h_addr h) (net_pending net)"
  let ?m1 = "free_nodes free (ep_ready e) (net_mem net)"
  have n: "net_owns net' = nodes_own ?far @ endpoints_own (as @ bs)"
    "net_mem net' = free (ep_ptr e) (free_nodes free ?near ?m1)"
    using assms(2) True unfolding cb_netsim_close_def s(1) unlink_endpoint_split [OF s(3,2)]
    by (auto simp: cb__netsim_drop_endpoint_ready_def scrub_loop_spec Let_def net_owns_def)
  have "holds base (nodes_own (ep_ready e) @ nodes_own ?near @ ep_ptr e # nodes_own ?far @ endpoints_own (as @ bs)) (net_mem net)"
    using assms(1) nodes_own_partition [of "net_pending net" "h_addr h"] unfolding books_def net_owns_def s(1)
    by (elim holds_perm) simp
  then show ?thesis unfolding books_def n by (intro holds_free holds_free_nodes)
next
  case False
  then have "net' = net" using assms(2) by (cases "h_attached h") (auto simp: cb_netsim_close_def unlink_endpoint_none)
  then show ?thesis using assms(1) by simp
qed

lemma holds_step_loop:
  "holds base (nodes_own ns @ endpoints_own (net_endpoints net)) (net_mem net) \<Longrightarrow>
    step_loop free now ns moved net = (moved', net') \<Longrightarrow> books base net'"
proof (induction ns arbitrary: moved net)
  case (Cons node ns)
  show ?case
  proof (cases "nd_scheduled_ns node \<le> now")
    case due: True
    show ?thesis
    proof (cases "cb__netsim_find_endpoint (net_endpoints net) (nd_dest node)")
      case None
      have "holds base (nodes_own ns @ endpoints_own (net_endpoints net)) (cb__netsim_free_node free node (net_mem net))"
        using Cons.prems(1) by (intro holds_free_node) simp
      then show ?thesis using Cons.IH [of "net\<lparr>stat_dropped := stat_dropped net + 1,
          net_mem := cb__netsim_free_node free node (net_mem net)\<rparr>"] Cons.prems(2) due None by simp
    next
      case (Some e)
      then obtain as bs where s: "net_endpoints net = as @ e # bs" "addr_key (ep_addr e) = addr_key (nd_dest node)"
        "addr_key (nd_dest node) \<notin> set (keys as)" by (rule find_endpoint_split)
      have "holds base (nodes_own ns @ endpoints_own (at_endpoint (push_ready node) (nd_dest node) (net_endpoints net))) (net_mem net)"
        using Cons.prems(1) unfolding s(1) at_endpoint_split [OF s(3,2)] by (elim holds_perm) (simp add: push_ready_def)
      then show ?thesis using Cons.IH [of "net\<lparr>net_endpoints :=
          at_endpoint (push_ready node) (nd_dest node) (net_endpoints net)\<rparr>"] Cons.prems(2) due Some by simp
    qed
  next
    case False
    then show ?thesis using Cons.prems by (auto simp: books_def net_owns_def)
  qed
qed (auto simp: books_def net_owns_def)

lemma books_recv:
  assumes "books base net" "cb_netsim_recv_from free net h out out_cap = (info, out', net')"
  shows "books base net'"
proof (cases "net' = net")
  case False
  then obtain e node r where e: "cb__netsim_find_endpoint (net_endpoints net) (h_addr h) = Some e" "ep_ready e = node # r"
    using assms(2) unfolding cb_netsim_recv_from_def by (auto split: if_splits option.splits list.splits)
  obtain as bs where s: "net_endpoints net = as @ e # bs" "addr_key (ep_addr e) = addr_key (h_addr h)"
    "addr_key (h_addr h) \<notin> set (keys as)" using e(1) by (rule find_endpoint_split)
  have n: "net_owns net' = nodes_own (net_pending net) @ endpoints_own (as @ pop_ready e # bs)"
    "net_mem net' = cb__netsim_free_node free node (net_mem net)"
    using assms(2) False e unfolding cb_netsim_recv_from_def net_owns_def
    by (auto simp: Let_def s(1) at_endpoint_split [OF s(3,2)] split: if_splits)
  have "holds base (node_owns node @ net_owns net') (net_mem net)"
    using assms(1) e(2) unfolding books_def n net_owns_def [of net] s(1) by (elim holds_perm) (simp add: pop_ready_def Let_def)
  then show ?thesis unfolding books_def n(2) by (rule holds_free_node)
qed (use assms in simp)

lemma holds_flush_endpoints:
  "holds base (endpoints_own es @ ps) m \<Longrightarrow> flush_endpoints free es m = (es', m') \<Longrightarrow>
    holds base (endpoints_own es' @ ps) m'"
proof (induction es arbitrary: m m' es' ps)
  case (Cons e es)
  let ?m = "free_nodes free (ep_ready e) m"
  have h: "holds base (endpoints_own es @ ep_ptr e # ps) ?m"
    by (rule holds_perm [OF holds_free_nodes, of base "ep_ready e" "ep_ptr e # endpoints_own es @ ps"])
      (use Cons.prems(1) in simp_all)
  obtain es1 m1 where f: "flush_endpoints free es ?m = (es1, m1)" by fastforce
  then have "es' = e\<lparr>ep_ready := [], ep_bytes_in_flight := 0\<rparr> # es1" "m' = m1"
    using Cons.prems(2) by (auto simp: cb__netsim_drop_endpoint_ready_def Let_def)
  then show ?case using holds_perm [OF Cons.IH [OF h f]] by simp
qed simp

lemma books_flush: "books base net \<Longrightarrow> books base (cb_netsim_flush free net)"
proof -
  assume b: "books base net"
  let ?m = "free_nodes free (net_pending net) (net_mem net)"
  have "holds base (endpoints_own (net_endpoints net) @ []) ?m"
    using b by (simp add: books_def net_owns_def holds_free_nodes)
  moreover obtain es m where f: "flush_endpoints free (net_endpoints net) ?m = (es, m)" by fastforce
  ultimately show ?thesis using holds_flush_endpoints [of base _ "[]"] by (simp add: cb_netsim_flush_def books_def net_owns_def)
qed

lemma run_books: "net_run alloc free mem k l net \<Longrightarrow> ok mem \<Longrightarrow> books (live mem) net"
proof (induction rule: net_run.induct)
  case (create seed params)
  then show ?case by (simp add: cb_netsim_create_def Let_def books_def net_owns_def holds_def)
next
  case (set_params k l net params info net')
  then show ?case by (auto simp: cb_netsim_set_params_def books_def net_owns_def split: if_splits)
next
  case (set_clock k l net c)
  then show ?case by (simp add: cb_netsim_set_clock_def books_def net_owns_def)
next
  case (step k l net clocks moved net')
  then show ?case using holds_step_loop [of "live mem" "net_pending net" net] by (simp add: cb_netsim_step_def books_def net_owns_def)
qed (blast intro: books_bind books_close books_send books_recv books_flush)+

end

text \<open>C15. The simulator leaves no memory behind and frees nothing twice.  After any operations without an
  arena, whether memory runs out or not, exactly the datagrams and endpoints still in the net are
  allocated beside what was before, and destroying the net brings back the memory from before.\<close>

theorem netsim_frees_all:
  assumes "heap_ok m" "net_run (heap_alloc avail) (cb__free None) m k lost net"
  shows "distinct (net_owns net) \<and> heap_live (net_mem net) = heap_live m \<union> set (net_owns net)
    \<and> heap_live (net_mem (cb_netsim_destroy (cb__free None) net)) = heap_live m
    \<and> \<not> mem_fault (net_mem (cb_netsim_destroy (cb__free None) net))"
proof -
  have "heap_allocator.books (heap_live m) net" by (rule heap_allocator.run_books [OF assms(2,1)])
  then show ?thesis using heap_allocator.holds_destroy [of "heap_live m" net]
    unfolding heap_allocator.books_def heap_allocator.holds_def by (simp add: heap_ok_def)
qed

lemma netsim_frees_all_witness:
  "let avail = (\<lambda>_ n. Some (replicate (unat n) 0));
       m = \<lparr>mem_next = 0, mem_plain = Map.empty, mem_blocks = Map.empty, mem_fault = False\<rparr>;
       net = snd (cb_netsim_bind (heap_alloc avail) (cb_netsim_create m 42 demo_params) demo_addr) :: (pointer, memory, unit) cb_netsim_t
   in heap_live (net_mem net) \<noteq> {} \<and> heap_live (net_mem (cb_netsim_destroy (cb__free None) net)) = {}"
proof -
  define m where "m = \<lparr>mem_next = 0, mem_plain = Map.empty, mem_blocks = Map.empty, mem_fault = False\<rparr>"
  define avail :: plain_malloc where "avail = (\<lambda>_ n. Some (replicate (unat n) 0))"
  define net :: "(pointer, memory, unit) cb_netsim_t"
    where "net = snd (cb_netsim_bind (heap_alloc avail) (cb_netsim_create m 42 demo_params) demo_addr)"
  have ok: "heap_ok m" "heap_live m = {}" by (simp_all add: heap_ok_def m_def heap_live_def)
  have run: "net_run (heap_alloc avail) (cb__free None) m (Suc 0) 0 net"
    unfolding net_def by (rule net_run.bind [OF net_run.create prod.collapse [symmetric]])
  have "net_owns net = [Plain 0]"
    by (simp add: net_def avail_def m_def cb_netsim_bind_def cb_netsim_create_def demo_params_def cb__netsim_params_ok_def
        heap_alloc_malloc malloc_plain_def net_owns_def Let_def)
  then show ?thesis using netsim_frees_all [OF ok(1) run] ok(2) unfolding Let_def net_def avail_def m_def by simp
qed

end
