(* ===== verification/Network.thy ===== *)
theory Network
  imports Netsim
begin

text \<open>
  The socket wrappers of \<open>src/cbase_network.c\<close> as the POSIX build compiles them, with the constants of
  Linux.  The calls of the operating system are the functions of a record, on a state of the system
  that the model does not look into; \<open>posix_spec\<close> states what they do to the open descriptors.
\<close>

section \<open>The operating system\<close>

type_synonym sockfd = i32

datatype sock_type = SOCK_DGRAM | SOCK_STREAM

record sockaddr_in =
  sin_family :: u16
  sin_port :: u16
  sin_addr :: u32

record 'w posix =
  px_ignore_sigpipe :: "'w \<Rightarrow> 'w"
  px_inet_pton :: "string \<Rightarrow> u32 option"
  px_socket :: "sock_type \<Rightarrow> 'w \<Rightarrow> sockfd \<times> 'w"
  px_reuseaddr :: "sockfd \<Rightarrow> 'w \<Rightarrow> 'w"
  px_bind :: "sockfd \<Rightarrow> sockaddr_in \<Rightarrow> 'w \<Rightarrow> i32 \<times> 'w"
  px_listen :: "sockfd \<Rightarrow> i32 \<Rightarrow> 'w \<Rightarrow> i32 \<times> 'w"
  px_connect :: "sockfd \<Rightarrow> sockaddr_in \<Rightarrow> 'w \<Rightarrow> i32 \<times> 'w"
  px_accept :: "sockfd \<Rightarrow> 'w \<Rightarrow> sockfd \<times> 'w"
  px_getfl :: "sockfd \<Rightarrow> 'w \<Rightarrow> i32 \<times> 'w"
  px_setfl :: "sockfd \<Rightarrow> i32 \<Rightarrow> 'w \<Rightarrow> i32 \<times> 'w"
  px_close :: "sockfd \<Rightarrow> 'w \<Rightarrow> 'w"
  px_sendto :: "sockfd \<Rightarrow> u8 list \<Rightarrow> sockaddr_in \<Rightarrow> 'w \<Rightarrow> i64 \<times> 'w"
  px_recvfrom :: "sockfd \<Rightarrow> u8 list \<Rightarrow> nat \<Rightarrow> 'w \<Rightarrow> (i64 \<times> u8 list \<times> sockaddr_in) \<times> 'w"
  px_send :: "sockfd \<Rightarrow> u8 list \<Rightarrow> 'w \<Rightarrow> i64 \<times> 'w"
  px_recv :: "sockfd \<Rightarrow> u8 list \<Rightarrow> nat \<Rightarrow> 'w \<Rightarrow> (i64 \<times> u8 list) \<times> 'w"
  px_poll :: "(sockfd \<times> u16) list \<Rightarrow> i32 \<Rightarrow> 'w \<Rightarrow> (i32 \<times> u16 list) \<times> 'w"
  px_errno :: "'w \<Rightarrow> i32"

definition AF_INET :: u16 where "AF_INET = 2"
definition O_NONBLOCK :: i32 where "O_NONBLOCK = 0x800"
definition EAGAIN :: i32 where "EAGAIN = 11"
definition POLLIN :: u16 where "POLLIN = 1"
definition POLLOUT :: u16 where "POLLOUT = 4"
definition POLLERR :: u16 where "POLLERR = 8"
definition POLLHUP :: u16 where "POLLHUP = 16"
definition POLLNVAL :: u16 where "POLLNVAL = 32"

text \<open>The byte order of the network, on a little-endian machine.\<close>

definition htons :: "u16 \<Rightarrow> u16" where
  "htons x = push_bit 8 x OR drop_bit 8 x"

definition htonl :: "u32 \<Rightarrow> u32" where
  "htonl x = push_bit 24 x OR (push_bit 8 x AND 0xFF0000) OR (drop_bit 8 x AND 0xFF00) OR drop_bit 24 x"

section \<open>Definitions\<close>

definition CB__INVALID_SOCK :: sockfd where "CB__INVALID_SOCK = - 1"
definition CB__SOCK_WOULDBLOCK :: i32 where "CB__SOCK_WOULDBLOCK = EAGAIN"

record cb_net_io_result_t =
  io_info :: cb_info_t
  io_bytes :: size_t

record cb_udp_socket_t =
  udp_info :: cb_info_t
  udp_handle :: sockfd

record cb_udp_recv_result_t =
  recv_info :: cb_info_t
  recv_from :: cb_net_addr_t
  recv_size :: size_t

record cb_tcp_socket_t =
  tcp_info :: cb_info_t
  tcp_handle :: sockfd

record cb_tcp_listener_t =
  lst_info :: cb_info_t
  lst_handle :: sockfd

record cb_net_pollable_t =
  poll_handle :: sockfd
  poll_events :: i32
  poll_revents :: i32

definition CB_NET_POLL_READ :: i32 where "CB_NET_POLL_READ = 1"
definition CB_NET_POLL_WRITE :: i32 where "CB_NET_POLL_WRITE = 2"
definition CB_NET_POLL_ERROR :: i32 where "CB_NET_POLL_ERROR = 4"

definition cb__set_nonblocking :: "'w posix \<Rightarrow> sockfd \<Rightarrow> 'w \<Rightarrow> cb_info_t \<times> 'w" where
  "cb__set_nonblocking os s w =
     (let (flags, w) = px_getfl os s w
      in if flags <s 0 then (CB_INFO_NET_NONBLOCK_FAILED, w)
         else
           let (rc, w) = px_setfl os s (flags OR O_NONBLOCK) w
           in if rc <s 0 then (CB_INFO_NET_NONBLOCK_FAILED, w) else (CB_INFO_OK, w))"

definition cb__addr_to_sockaddr :: "cb_net_addr_t \<Rightarrow> sockaddr_in" where
  "cb__addr_to_sockaddr a = \<lparr>sin_family = AF_INET, sin_port = htons (addr_port a), sin_addr = htonl (addr_ip a)\<rparr>"

definition cb__sockaddr_to_addr :: "sockaddr_in \<Rightarrow> cb_net_addr_t" where
  "cb__sockaddr_to_addr sa = \<lparr>addr_info = CB_INFO_OK, addr_ip = htonl (sin_addr sa), addr_port = htons (sin_port sa)\<rparr>"

definition cb_net_init :: "'w posix \<Rightarrow> 'w \<Rightarrow> cb_info_t \<times> 'w" where
  "cb_net_init os w = (CB_INFO_OK, px_ignore_sigpipe os w)"

definition cb_net_shutdown :: "'w \<Rightarrow> cb_info_t \<times> 'w" where
  "cb_net_shutdown w = (CB_INFO_OK, w)"

definition cb_net_addr_v4 :: "'w posix \<Rightarrow> string \<Rightarrow> u16 \<Rightarrow> cb_net_addr_t" where
  "cb_net_addr_v4 os ip_dotted port =
     (case px_inet_pton os ip_dotted of
        None \<Rightarrow> \<lparr>addr_info = CB_INFO_NET_ADDR_INVALID, addr_ip = 0, addr_port = port\<rparr>
      | Some s_addr \<Rightarrow> \<lparr>addr_info = CB_INFO_OK, addr_ip = htonl s_addr, addr_port = port\<rparr>)"

text \<open>The address that a server binds: any interface, and the port.\<close>

definition any_addr :: "u16 \<Rightarrow> sockaddr_in" where
  "any_addr port = \<lparr>sin_family = AF_INET, sin_port = htons port, sin_addr = htonl 0\<rparr>"

subsection \<open>UDP\<close>

definition cb_udp_open :: "'w posix \<Rightarrow> u16 \<Rightarrow> 'w \<Rightarrow> cb_udp_socket_t \<times> 'w" where
  "cb_udp_open os bind_port w =
     (let s = \<lparr>udp_info = CB_INFO_OK, udp_handle = CB__INVALID_SOCK\<rparr>;
          (fd, w) = px_socket os SOCK_DGRAM w
      in if fd = CB__INVALID_SOCK then (s\<lparr>udp_info := CB_INFO_NET_SOCKET_FAILED\<rparr>, w)
         else
           let w = px_reuseaddr os fd w;
               (rc, w) = px_bind os fd (any_addr bind_port) w
           in if rc \<noteq> 0 then (s\<lparr>udp_info := CB_INFO_NET_BIND_FAILED\<rparr>, px_close os fd w)
              else
                let (info, w) = cb__set_nonblocking os fd w
                in if info \<noteq> CB_INFO_OK then (s\<lparr>udp_info := CB_INFO_NET_NONBLOCK_FAILED\<rparr>, px_close os fd w)
                   else (s\<lparr>udp_handle := fd\<rparr>, w))"

definition cb_udp_close :: "'w posix \<Rightarrow> cb_udp_socket_t \<Rightarrow> 'w \<Rightarrow> cb_info_t \<times> cb_udp_socket_t \<times> 'w" where
  "cb_udp_close os s w =
     (if udp_handle s \<noteq> CB__INVALID_SOCK
      then (CB_INFO_OK, s\<lparr>udp_handle := CB__INVALID_SOCK\<rparr>, px_close os (udp_handle s) w)
      else (CB_INFO_OK, s, w))"

definition cb_udp_send :: "'w posix \<Rightarrow> cb_udp_socket_t \<Rightarrow> cb_net_addr_t \<Rightarrow> u8 list \<Rightarrow> 'w \<Rightarrow> cb_net_io_result_t \<times> 'w" where
  "cb_udp_send os s to data w =
     (let (sent, w) = px_sendto os (udp_handle s) data (cb__addr_to_sockaddr to) w
      in if sent <s 0
         then (\<lparr>io_info = (if px_errno os w = CB__SOCK_WOULDBLOCK then CB_INFO_NET_WOULD_BLOCK
                  else CB_INFO_NET_SEND_FAILED), io_bytes = 0\<rparr>, w)
         else (\<lparr>io_info = CB_INFO_OK, io_bytes = sent\<rparr>, w))"

definition cb_udp_recv :: "'w posix \<Rightarrow> cb_udp_socket_t \<Rightarrow> u8 list \<Rightarrow> nat \<Rightarrow> 'w
    \<Rightarrow> cb_udp_recv_result_t \<times> u8 list \<times> 'w" where
  "cb_udp_recv os s buf buf_size w =
     (let ((got, buf, sa), w) = px_recvfrom os (udp_handle s) buf buf_size w;
          from = \<lparr>addr_info = CB_INFO_OK, addr_ip = 0, addr_port = 0\<rparr>
      in if got <s 0
         then (\<lparr>recv_info = (if px_errno os w = CB__SOCK_WOULDBLOCK then CB_INFO_NET_WOULD_BLOCK
                  else CB_INFO_NET_RECV_FAILED), recv_from = from, recv_size = 0\<rparr>, buf, w)
         else (\<lparr>recv_info = CB_INFO_OK, recv_from = cb__sockaddr_to_addr sa, recv_size = got\<rparr>, buf, w))"

subsection \<open>TCP\<close>

definition cb_tcp_listen :: "'w posix \<Rightarrow> u16 \<Rightarrow> i32 \<Rightarrow> 'w \<Rightarrow> cb_tcp_listener_t \<times> 'w" where
  "cb_tcp_listen os port backlog w =
     (let l = \<lparr>lst_info = CB_INFO_OK, lst_handle = CB__INVALID_SOCK\<rparr>;
          (fd, w) = px_socket os SOCK_STREAM w
      in if fd = CB__INVALID_SOCK then (l\<lparr>lst_info := CB_INFO_NET_SOCKET_FAILED\<rparr>, w)
         else
           let w = px_reuseaddr os fd w;
               (rc, w) = px_bind os fd (any_addr port) w
           in if rc \<noteq> 0 then (l\<lparr>lst_info := CB_INFO_NET_BIND_FAILED\<rparr>, px_close os fd w)
              else
                let (rc, w) = px_listen os fd backlog w
                in if rc \<noteq> 0 then (l\<lparr>lst_info := CB_INFO_NET_LISTEN_FAILED\<rparr>, px_close os fd w)
                   else
                     let (info, w) = cb__set_nonblocking os fd w
                     in if info \<noteq> CB_INFO_OK then (l\<lparr>lst_info := CB_INFO_NET_NONBLOCK_FAILED\<rparr>, px_close os fd w)
                        else (l\<lparr>lst_handle := fd\<rparr>, w))"

definition cb_tcp_listener_close :: "'w posix \<Rightarrow> cb_tcp_listener_t \<Rightarrow> 'w \<Rightarrow> cb_info_t \<times> cb_tcp_listener_t \<times> 'w" where
  "cb_tcp_listener_close os l w =
     (if lst_handle l \<noteq> CB__INVALID_SOCK
      then (CB_INFO_OK, l\<lparr>lst_handle := CB__INVALID_SOCK\<rparr>, px_close os (lst_handle l) w)
      else (CB_INFO_OK, l, w))"

definition cb_tcp_accept :: "'w posix \<Rightarrow> cb_tcp_listener_t \<Rightarrow> 'w \<Rightarrow> cb_tcp_socket_t \<times> 'w" where
  "cb_tcp_accept os l w =
     (let s = \<lparr>tcp_info = CB_INFO_OK, tcp_handle = CB__INVALID_SOCK\<rparr>;
          (fd, w) = px_accept os (lst_handle l) w
      in if fd <s 0
         then (s\<lparr>tcp_info := (if px_errno os w = EAGAIN then CB_INFO_NET_WOULD_BLOCK else CB_INFO_NET_ACCEPT_FAILED)\<rparr>, w)
         else
           let (info, w) = cb__set_nonblocking os fd w
           in if info \<noteq> CB_INFO_OK then (s\<lparr>tcp_info := CB_INFO_NET_NONBLOCK_FAILED\<rparr>, px_close os fd w)
              else (s\<lparr>tcp_handle := fd\<rparr>, w))"

definition cb_tcp_connect :: "'w posix \<Rightarrow> cb_net_addr_t \<Rightarrow> 'w \<Rightarrow> cb_tcp_socket_t \<times> 'w" where
  "cb_tcp_connect os to w =
     (let s = \<lparr>tcp_info = CB_INFO_OK, tcp_handle = CB__INVALID_SOCK\<rparr>;
          (fd, w) = px_socket os SOCK_STREAM w
      in if fd = CB__INVALID_SOCK then (s\<lparr>tcp_info := CB_INFO_NET_SOCKET_FAILED\<rparr>, w)
         else
           let (rc, w) = px_connect os fd (cb__addr_to_sockaddr to) w
           in if rc \<noteq> 0 then (s\<lparr>tcp_info := CB_INFO_NET_CONNECT_FAILED\<rparr>, px_close os fd w)
              else
                let (info, w) = cb__set_nonblocking os fd w
                in if info \<noteq> CB_INFO_OK then (s\<lparr>tcp_info := CB_INFO_NET_NONBLOCK_FAILED\<rparr>, px_close os fd w)
                   else (s\<lparr>tcp_handle := fd\<rparr>, w))"

definition cb_tcp_close :: "'w posix \<Rightarrow> cb_tcp_socket_t \<Rightarrow> 'w \<Rightarrow> cb_info_t \<times> cb_tcp_socket_t \<times> 'w" where
  "cb_tcp_close os s w =
     (if tcp_handle s \<noteq> CB__INVALID_SOCK
      then (CB_INFO_OK, s\<lparr>tcp_handle := CB__INVALID_SOCK\<rparr>, px_close os (tcp_handle s) w)
      else (CB_INFO_OK, s, w))"

definition cb_tcp_send :: "'w posix \<Rightarrow> cb_tcp_socket_t \<Rightarrow> u8 list \<Rightarrow> 'w \<Rightarrow> cb_net_io_result_t \<times> 'w" where
  "cb_tcp_send os s data w =
     (let (sent, w) = px_send os (tcp_handle s) data w
      in if sent <s 0
         then (\<lparr>io_info = (if px_errno os w = CB__SOCK_WOULDBLOCK then CB_INFO_NET_WOULD_BLOCK
                  else CB_INFO_NET_SEND_FAILED), io_bytes = 0\<rparr>, w)
         else (\<lparr>io_info = CB_INFO_OK, io_bytes = sent\<rparr>, w))"

definition cb_tcp_recv :: "'w posix \<Rightarrow> cb_tcp_socket_t \<Rightarrow> u8 list \<Rightarrow> nat \<Rightarrow> 'w
    \<Rightarrow> cb_net_io_result_t \<times> u8 list \<times> 'w" where
  "cb_tcp_recv os s buf buf_size w =
     (let ((got, buf), w) = px_recv os (tcp_handle s) buf buf_size w
      in if got <s 0
         then (\<lparr>io_info = (if px_errno os w = CB__SOCK_WOULDBLOCK then CB_INFO_NET_WOULD_BLOCK
                  else CB_INFO_NET_RECV_FAILED), io_bytes = 0\<rparr>, buf, w)
         else if got = 0 then (\<lparr>io_info = CB_INFO_NET_CLOSED, io_bytes = 0\<rparr>, buf, w)
         else (\<lparr>io_info = CB_INFO_OK, io_bytes = got\<rparr>, buf, w))"

subsection \<open>Polling\<close>

definition poll_request :: "cb_net_pollable_t \<Rightarrow> sockfd \<times> u16" where
  "poll_request item =
     (poll_handle item,
      (if poll_events item AND CB_NET_POLL_READ \<noteq> 0 then POLLIN else 0)
      OR (if poll_events item AND CB_NET_POLL_WRITE \<noteq> 0 then POLLOUT else 0))"

definition poll_answer :: "u16 \<Rightarrow> i32" where
  "poll_answer revents =
     (if revents AND POLLIN \<noteq> 0 then CB_NET_POLL_READ else 0)
     OR (if revents AND POLLOUT \<noteq> 0 then CB_NET_POLL_WRITE else 0)
     OR (if revents AND (POLLERR OR POLLHUP OR POLLNVAL) \<noteq> 0 then CB_NET_POLL_ERROR else 0)"

text \<open>\<open>avail\<close> tells whether the memory for the requests can be had; it is freed on every path.\<close>

definition cb_net_poll :: "'w posix \<Rightarrow> bool \<Rightarrow> cb_net_pollable_t list \<Rightarrow> i32 \<Rightarrow> 'w
    \<Rightarrow> cb_info_t \<times> cb_net_pollable_t list \<times> 'w" where
  "cb_net_poll os avail items timeout_ms w =
     (if \<not> avail then (CB_INFO_ALLOC_FAILED, items, w)
      else
        let ((rc, revents), w) = px_poll os (map poll_request items) timeout_ms w
        in if rc <s 0 then (CB_INFO_NET_POLL_FAILED, items, w)
           else (CB_INFO_OK, map2 (\<lambda>item r. item\<lparr>poll_revents := poll_answer r\<rparr>) items revents, w))"

section \<open>What the code relies on\<close>

text \<open>\<open>socket\<close> and \<open>accept\<close> fail with -1, or give a descriptor that was not open and opens it; \<open>close\<close>
  closes its descriptor; no other call opens or closes one.\<close>

definition gives_fd :: "('w \<Rightarrow> sockfd set) \<Rightarrow> 'w \<Rightarrow> sockfd \<times> 'w \<Rightarrow> bool" where
  "gives_fd fds w r \<longleftrightarrow>
     (fst r = - 1 \<and> fds (snd r) = fds w \<or> 0 \<le>s fst r \<and> fst r \<notin> fds w \<and> fds (snd r) = insert (fst r) (fds w))"

definition posix_spec :: "'w posix \<Rightarrow> ('w \<Rightarrow> sockfd set) \<Rightarrow> bool" where
  "posix_spec os fds \<longleftrightarrow>
     (\<forall>t w. gives_fd fds w (px_socket os t w)) \<and> (\<forall>l w. gives_fd fds w (px_accept os l w))
     \<and> (\<forall>s w. fds (px_close os s w) = fds w - {s}) \<and> (\<forall>s w. fds (px_reuseaddr os s w) = fds w)
     \<and> (\<forall>s a w. fds (snd (px_bind os s a w)) = fds w) \<and> (\<forall>s n w. fds (snd (px_listen os s n w)) = fds w)
     \<and> (\<forall>s a w. fds (snd (px_connect os s a w)) = fds w) \<and> (\<forall>s w. fds (snd (px_getfl os s w)) = fds w)
     \<and> (\<forall>s f w. fds (snd (px_setfl os s f w)) = fds w)"

section \<open>Descriptors\<close>

text \<open>A socket that was made, or was not: open and new, or no descriptor more than before.\<close>

definition made :: "('w \<Rightarrow> sockfd set) \<Rightarrow> 'w \<Rightarrow> cb_info_t \<Rightarrow> sockfd \<Rightarrow> 'w \<Rightarrow> bool" where
  "made fds w info fd w' \<longleftrightarrow>
     (if info = CB_INFO_OK then fd \<noteq> CB__INVALID_SOCK \<and> fd \<notin> fds w \<and> fds w' = insert fd (fds w)
      else fd = CB__INVALID_SOCK \<and> fds w' = fds w)"

lemma set_nonblocking_fds: "posix_spec os fds \<Longrightarrow> cb__set_nonblocking os s w = (info, w') \<Longrightarrow> fds w' = fds w"
  by (auto simp: cb__set_nonblocking_def posix_spec_def split: prod.splits if_splits) (metis snd_conv)+

lemma socket_cases:
  assumes "posix_spec os fds" "px_socket os t w = (fd, w')"
  obtains "fd = - 1" "fds w' = fds w" | "fd \<noteq> - 1" "fd \<notin> fds w" "fds w' = insert fd (fds w)"
proof -
  have "gives_fd fds w (fd, w')" using assms unfolding posix_spec_def by metis
  moreover have "\<not> 0 \<le>s (- 1 :: i32)" by (simp add: word_sle_eq)
  ultimately show ?thesis using that unfolding gives_fd_def by (cases "fd = - 1") auto
qed

lemma accept_cases:
  assumes "posix_spec os fds" "px_accept os l w = (fd, w')"
  obtains "fd = - 1" "fd <s 0" "fds w' = fds w" | "\<not> fd <s 0" "fd \<noteq> - 1" "fd \<notin> fds w" "fds w' = insert fd (fds w)"
proof -
  have "gives_fd fds w (fd, w')" using assms unfolding posix_spec_def by metis
  moreover have "\<not> 0 \<le>s (- 1 :: i32)" "(- 1 :: i32) <s 0" by (simp_all add: word_sle_eq word_sless_alt)
  moreover have "\<not> fd <s 0 \<longleftrightarrow> 0 \<le>s fd" by (simp add: word_sle_eq word_sless_alt not_less)
  ultimately show ?thesis using that unfolding gives_fd_def by (cases "fd = - 1") auto
qed

lemma spec_fds:
  assumes "posix_spec os fds"
  shows "fds (px_close os s w) = fds w - {s}" "fds (px_reuseaddr os s w) = fds w"
    "px_bind os s a w = (rc, w') \<Longrightarrow> fds w' = fds w" "px_listen os s n w = (rc, w') \<Longrightarrow> fds w' = fds w"
    "px_connect os s a w = (rc, w') \<Longrightarrow> fds w' = fds w"
  using assms unfolding posix_spec_def by (metis snd_conv)+

lemma made_close:
  assumes "posix_spec os fds" "made fds w info fd w'"
  shows "fd \<noteq> CB__INVALID_SOCK \<Longrightarrow> fds (px_close os fd w') = fds w" "fd = CB__INVALID_SOCK \<Longrightarrow> fds w' = fds w"
  using assms(2) spec_fds(1) [OF assms(1)] by (auto simp: made_def split: if_splits)

lemma made_udp:
  assumes "posix_spec os fds" "cb_udp_open os port w = (s, w')"
  shows "made fds w (udp_info s) (udp_handle s) w'"
  using assms(2) unfolding cb_udp_open_def Let_def
  by (auto simp: made_def CB__INVALID_SOCK_def spec_fds [OF assms(1)] elim!: socket_cases [OF assms(1)]
      split: prod.splits if_splits dest!: set_nonblocking_fds [OF assms(1)] spec_fds(3) [OF assms(1)])

lemma made_listen:
  assumes "posix_spec os fds" "cb_tcp_listen os port backlog w = (l, w')"
  shows "made fds w (lst_info l) (lst_handle l) w'"
  using assms(2) unfolding cb_tcp_listen_def Let_def
  by (auto simp: made_def CB__INVALID_SOCK_def spec_fds [OF assms(1)] elim!: socket_cases [OF assms(1)]
      split: prod.splits if_splits dest!: set_nonblocking_fds [OF assms(1)] spec_fds(3,4) [OF assms(1)])

lemma made_accept:
  assumes "posix_spec os fds" "cb_tcp_accept os l w = (s, w')"
  shows "made fds w (tcp_info s) (tcp_handle s) w'"
  using assms(2) unfolding cb_tcp_accept_def Let_def
  by (auto simp: made_def CB__INVALID_SOCK_def spec_fds [OF assms(1)] elim!: accept_cases [OF assms(1)]
      split: prod.splits if_splits dest!: set_nonblocking_fds [OF assms(1)])

lemma made_connect:
  assumes "posix_spec os fds" "cb_tcp_connect os peer w = (s, w')"
  shows "made fds w (tcp_info s) (tcp_handle s) w'"
  using assms(2) unfolding cb_tcp_connect_def Let_def
  by (auto simp: made_def CB__INVALID_SOCK_def spec_fds [OF assms(1)] elim!: socket_cases [OF assms(1)]
      split: prod.splits if_splits dest!: set_nonblocking_fds [OF assms(1)] spec_fds(5) [OF assms(1)])

section \<open>Properties\<close>

text \<open>No descriptor is lost.  Whatever fails, opening a UDP socket, listening, accepting and
  connecting answer OK with a new open descriptor, or an error and no descriptor, with nothing more
  open than before; closing what they opened brings the descriptors back, and closing twice is
  harmless.\<close>

theorem network_no_descriptor_leak:
  assumes "posix_spec os fds"
  shows "(let (s, w') = cb_udp_open os port w in made fds w (udp_info s) (udp_handle s) w'
      \<and> (let (_, s', w'') = cb_udp_close os s w' in fds w'' = fds w \<and> cb_udp_close os s' w'' = (CB_INFO_OK, s', w'')))
    \<and> (let (l, w') = cb_tcp_listen os port backlog w in made fds w (lst_info l) (lst_handle l) w'
      \<and> (let (_, l', w'') = cb_tcp_listener_close os l w' in fds w'' = fds w \<and> cb_tcp_listener_close os l' w'' = (CB_INFO_OK, l', w'')))
    \<and> (let (s, w') = cb_tcp_accept os lst w in made fds w (tcp_info s) (tcp_handle s) w'
      \<and> (let (_, s', w'') = cb_tcp_close os s w' in fds w'' = fds w \<and> cb_tcp_close os s' w'' = (CB_INFO_OK, s', w'')))
    \<and> (let (s, w') = cb_tcp_connect os peer w in made fds w (tcp_info s) (tcp_handle s) w'
      \<and> (let (_, s', w'') = cb_tcp_close os s w' in fds w'' = fds w \<and> cb_tcp_close os s' w'' = (CB_INFO_OK, s', w'')))"
proof (intro conjI)
  note close = made_close [OF assms]
  obtain s w' where o: "cb_udp_open os port w = (s, w')" by fastforce
  show "let (s, w') = cb_udp_open os port w in made fds w (udp_info s) (udp_handle s) w'
      \<and> (let (_, s', w'') = cb_udp_close os s w' in fds w'' = fds w \<and> cb_udp_close os s' w'' = (CB_INFO_OK, s', w''))"
    using made_udp [OF assms o] close [OF made_udp [OF assms o]] by (auto simp: o cb_udp_close_def)
next
  note close = made_close [OF assms]
  obtain l w' where o: "cb_tcp_listen os port backlog w = (l, w')" by fastforce
  show "let (l, w') = cb_tcp_listen os port backlog w in made fds w (lst_info l) (lst_handle l) w'
      \<and> (let (_, l', w'') = cb_tcp_listener_close os l w' in fds w'' = fds w \<and> cb_tcp_listener_close os l' w'' = (CB_INFO_OK, l', w''))"
    using made_listen [OF assms o] close [OF made_listen [OF assms o]] by (auto simp: o cb_tcp_listener_close_def)
next
  note close = made_close [OF assms]
  obtain s w' where o: "cb_tcp_accept os lst w = (s, w')" by fastforce
  show "let (s, w') = cb_tcp_accept os lst w in made fds w (tcp_info s) (tcp_handle s) w'
      \<and> (let (_, s', w'') = cb_tcp_close os s w' in fds w'' = fds w \<and> cb_tcp_close os s' w'' = (CB_INFO_OK, s', w''))"
    using made_accept [OF assms o] close [OF made_accept [OF assms o]] by (auto simp: o cb_tcp_close_def)
next
  note close = made_close [OF assms]
  obtain s w' where o: "cb_tcp_connect os peer w = (s, w')" by fastforce
  show "let (s, w') = cb_tcp_connect os peer w in made fds w (tcp_info s) (tcp_handle s) w'
      \<and> (let (_, s', w'') = cb_tcp_close os s w' in fds w'' = fds w \<and> cb_tcp_close os s' w'' = (CB_INFO_OK, s', w''))"
    using made_connect [OF assms o] close [OF made_connect [OF assms o]] by (auto simp: o cb_tcp_close_def)
qed

text \<open>A system with one descriptor, the number 3, which binds every address but refuses to listen.\<close>

definition small_os :: "bool posix" where
  "small_os = \<lparr>px_ignore_sigpipe = \<lambda>w. w, px_inet_pton = \<lambda>_. None,
     px_socket = \<lambda>_ w. if w then (- 1, w) else (3, True), px_reuseaddr = \<lambda>_ w. w, px_bind = \<lambda>_ _ w. (0, w),
     px_listen = \<lambda>_ _ w. (- 1, w), px_connect = \<lambda>_ _ w. (0, w), px_accept = \<lambda>_ w. if w then (- 1, w) else (3, True),
     px_getfl = \<lambda>_ w. (2, w), px_setfl = \<lambda>_ _ w. (0, w), px_close = \<lambda>s w. w \<and> s \<noteq> 3,
     px_sendto = \<lambda>_ data _ w. (word_of_nat (length data), w),
     px_recvfrom = \<lambda>_ buf _ w. ((- 1, buf, any_addr 0), w), px_send = \<lambda>_ data w. (word_of_nat (length data), w),
     px_recv = \<lambda>_ buf _ w. ((0, buf), w), px_poll = \<lambda>reqs _ w. ((0, map snd reqs), w), px_errno = \<lambda>_. EAGAIN\<rparr>"

definition small_fds :: "bool \<Rightarrow> sockfd set" where
  "small_fds w = (if w then {3} else {})"

lemma small_os_spec: "posix_spec small_os small_fds"
  by (auto simp: posix_spec_def gives_fd_def small_os_def small_fds_def word_sle_eq)

lemma network_no_descriptor_leak_witness:
  "(let (s, w') = cb_udp_open small_os 7 False in udp_info s = CB_INFO_OK \<and> small_fds w' = {3}
      \<and> small_fds (snd (snd (cb_udp_close small_os s w'))) = {})
    \<and> (let (l, w') = cb_tcp_listen small_os 7 1 False in lst_info l = CB_INFO_NET_LISTEN_FAILED \<and> small_fds w' = {})"
proof -
  have l: "lst_info (fst (cb_tcp_listen small_os 7 1 False)) = CB_INFO_NET_LISTEN_FAILED"
    by (simp add: cb_tcp_listen_def small_os_def CB__INVALID_SOCK_def)
  have u: "udp_info (fst (cb_udp_open small_os 7 False)) = CB_INFO_OK"
    by (simp add: cb_udp_open_def small_os_def CB__INVALID_SOCK_def cb__set_nonblocking_def O_NONBLOCK_def word_sless_alt)
  have h: "udp_handle (fst (cb_udp_open small_os 7 False)) = 3"
    by (simp add: cb_udp_open_def small_os_def CB__INVALID_SOCK_def cb__set_nonblocking_def O_NONBLOCK_def word_sless_alt)
  show ?thesis
    using network_no_descriptor_leak [OF small_os_spec, of 7 False 1 "\<lparr>lst_info = CB_INFO_OK, lst_handle = 3\<rparr>"
        "\<lparr>addr_info = CB_INFO_OK, addr_ip = 0, addr_port = 0\<rparr>"] l u h
    by (auto simp: made_def small_fds_def split: prod.splits if_splits)
qed

lemma htons_twice: "htons (htons x) = x"
  unfolding htons_def by (rule bit_word_eqI) (auto simp: bit_simps)

lemma bit_htonl:
  assumes "n < 32"
  shows "bit (htonl x) n = bit x (if n < 8 then n + 24 else if n < 16 then n + 8 else if n < 24 then n - 8 else n - 24)"
proof -
  have m: "(0xFF0000 :: u32) = push_bit 16 (mask 8)" "(0xFF00 :: u32) = push_bit 8 (mask 8)"
    by (simp_all add: mask_numeral)
  have b: "\<not> bit x k" if "32 \<le> k" for k using that by (simp add: bit_word.rep_eq)
  consider "n < 8" | "8 \<le> n" "n < 16" | "16 \<le> n" "n < 24" | "24 \<le> n" by linarith
  then show ?thesis
    by cases (use assms in \<open>auto simp: htonl_def m bit_or_iff bit_and_iff bit_push_bit_iff bit_drop_bit_eq bit_mask_iff b
        add.commute less_diff_conv2\<close>)
qed

lemma htonl_twice: "htonl (htonl x) = x"
proof (rule bit_word_eqI)
  fix n assume "n < LENGTH(32)"
  then consider "n < 8" | "8 \<le> n" "n < 16" | "16 \<le> n" "n < 24" | "24 \<le> n" "n < 32" by force
  then show "bit (htonl (htonl x)) n = bit x n" by cases (simp_all add: bit_htonl less_diff_conv2)
qed

text \<open>An address survives the conversion to the byte order of the network and back.\<close>

lemma sockaddr_roundtrip: "cb__sockaddr_to_addr (cb__addr_to_sockaddr a) = a\<lparr>addr_info := CB_INFO_OK\<rparr>"
  by (simp add: cb__sockaddr_to_addr_def cb__addr_to_sockaddr_def htons_twice htonl_twice)

end
