(* ===== verification/Network_Windows.thy ===== *)
theory Network_Windows
  imports Network
begin

text \<open>
  The socket wrappers of \<open>src/cbase_network.c\<close> as the Windows build compiles them.  A socket is a 64-bit
  handle, failures are read with \<open>WSAGetLastError\<close>, and lengths are cast to \<open>int\<close>.  The calls of
  Winsock are the functions of a record, as in \<open>Network\<close>; the conversions of addresses are the same code in both
  builds.
\<close>

section \<open>Winsock\<close>

type_synonym SOCKET = u64

record 'w winsock =
  wk_startup :: "'w \<Rightarrow> i32 \<times> 'w"
  wk_cleanup :: "'w \<Rightarrow> i32 \<times> 'w"
  wk_socket :: "sock_type \<Rightarrow> 'w \<Rightarrow> SOCKET \<times> 'w"
  wk_reuseaddr :: "SOCKET \<Rightarrow> 'w \<Rightarrow> 'w"
  wk_bind :: "SOCKET \<Rightarrow> sockaddr_in \<Rightarrow> 'w \<Rightarrow> i32 \<times> 'w"
  wk_listen :: "SOCKET \<Rightarrow> i32 \<Rightarrow> 'w \<Rightarrow> i32 \<times> 'w"
  wk_connect :: "SOCKET \<Rightarrow> sockaddr_in \<Rightarrow> 'w \<Rightarrow> i32 \<times> 'w"
  wk_accept :: "SOCKET \<Rightarrow> 'w \<Rightarrow> SOCKET \<times> 'w"
  wk_fionbio :: "SOCKET \<Rightarrow> u32 \<Rightarrow> 'w \<Rightarrow> i32 \<times> 'w"
  wk_close :: "SOCKET \<Rightarrow> 'w \<Rightarrow> 'w"
  wk_sendto :: "SOCKET \<Rightarrow> u8 list \<Rightarrow> i32 \<Rightarrow> sockaddr_in \<Rightarrow> 'w \<Rightarrow> i32 \<times> 'w"
  wk_recvfrom :: "SOCKET \<Rightarrow> u8 list \<Rightarrow> i32 \<Rightarrow> 'w \<Rightarrow> (i32 \<times> u8 list \<times> sockaddr_in) \<times> 'w"
  wk_send :: "SOCKET \<Rightarrow> u8 list \<Rightarrow> i32 \<Rightarrow> 'w \<Rightarrow> i32 \<times> 'w"
  wk_recv :: "SOCKET \<Rightarrow> u8 list \<Rightarrow> i32 \<Rightarrow> 'w \<Rightarrow> (i32 \<times> u8 list) \<times> 'w"
  wk_poll :: "(SOCKET \<times> u16) list \<Rightarrow> u32 \<Rightarrow> i32 \<Rightarrow> 'w \<Rightarrow> (i32 \<times> u16 list) \<times> 'w"
  wk_last_error :: "'w \<Rightarrow> i32"

definition WSAEWOULDBLOCK :: i32 where "WSAEWOULDBLOCK = 10035"
definition POLLRDNORM :: u16 where "POLLRDNORM = 0x0100"
definition POLLWRNORM :: u16 where "POLLWRNORM = 0x0010"
definition POLL_ERR_HUP_NVAL :: u16 where "POLL_ERR_HUP_NVAL = 7"

section \<open>Definitions\<close>

definition CB__INVALID_SOCK_windows :: SOCKET where "CB__INVALID_SOCK_windows = - 1"
definition CB__SOCK_WOULDBLOCK_windows :: i32 where "CB__SOCK_WOULDBLOCK_windows = WSAEWOULDBLOCK"

record cb_socket_windows =
  win_info :: cb_info_t
  win_handle :: SOCKET

record cb_net_pollable_windows =
  wpoll_handle :: SOCKET
  wpoll_events :: i32
  wpoll_revents :: i32

text \<open>The cast \<open>(int)size\<close> of a length.\<close>

definition int_size :: "size_t \<Rightarrow> i32" where
  "int_size n = ucast n"

definition cb__set_nonblocking_windows :: "'w winsock \<Rightarrow> SOCKET \<Rightarrow> 'w \<Rightarrow> cb_info_t \<times> 'w" where
  "cb__set_nonblocking_windows os s w =
     (let (rc, w) = wk_fionbio os s 1 w in if rc \<noteq> 0 then (CB_INFO_NET_NONBLOCK_FAILED, w) else (CB_INFO_OK, w))"

definition cb_net_init_windows :: "'w winsock \<Rightarrow> 'w \<Rightarrow> cb_info_t \<times> 'w" where
  "cb_net_init_windows os w = (let (rc, w) = wk_startup os w in (if rc = 0 then CB_INFO_OK else CB_INFO_NET_INIT_FAILED, w))"

definition cb_net_shutdown_windows :: "'w winsock \<Rightarrow> 'w \<Rightarrow> cb_info_t \<times> 'w" where
  "cb_net_shutdown_windows os w = (let (rc, w) = wk_cleanup os w in (if rc = 0 then CB_INFO_OK else CB_INFO_NET_INIT_FAILED, w))"

text \<open>The error of a failed call.\<close>

definition blocked_or :: "'w winsock \<Rightarrow> cb_info_t \<Rightarrow> 'w \<Rightarrow> cb_info_t" where
  "blocked_or os info w = (if wk_last_error os w = CB__SOCK_WOULDBLOCK_windows then CB_INFO_NET_WOULD_BLOCK else info)"

definition cb_udp_open_windows :: "'w winsock \<Rightarrow> u16 \<Rightarrow> 'w \<Rightarrow> cb_socket_windows \<times> 'w" where
  "cb_udp_open_windows os bind_port w =
     (let s = \<lparr>win_info = CB_INFO_OK, win_handle = CB__INVALID_SOCK_windows\<rparr>;
          (fd, w) = wk_socket os SOCK_DGRAM w
      in if fd = CB__INVALID_SOCK_windows then (s\<lparr>win_info := CB_INFO_NET_SOCKET_FAILED\<rparr>, w)
         else
           let w = wk_reuseaddr os fd w;
               (rc, w) = wk_bind os fd (any_addr bind_port) w
           in if rc \<noteq> 0 then (s\<lparr>win_info := CB_INFO_NET_BIND_FAILED\<rparr>, wk_close os fd w)
              else
                let (info, w) = cb__set_nonblocking_windows os fd w
                in if info \<noteq> CB_INFO_OK then (s\<lparr>win_info := CB_INFO_NET_NONBLOCK_FAILED\<rparr>, wk_close os fd w)
                   else (s\<lparr>win_handle := fd\<rparr>, w))"

definition cb_udp_close_windows :: "'w winsock \<Rightarrow> cb_socket_windows \<Rightarrow> 'w \<Rightarrow> cb_info_t \<times> cb_socket_windows \<times> 'w" where
  "cb_udp_close_windows os s w =
     (if win_handle s \<noteq> CB__INVALID_SOCK_windows
      then (CB_INFO_OK, s\<lparr>win_handle := CB__INVALID_SOCK_windows\<rparr>, wk_close os (win_handle s) w)
      else (CB_INFO_OK, s, w))"

definition cb_udp_send_windows :: "'w winsock \<Rightarrow> cb_socket_windows \<Rightarrow> cb_net_addr_t \<Rightarrow> u8 list \<Rightarrow> size_t \<Rightarrow> 'w
    \<Rightarrow> cb_net_io_result_t \<times> 'w" where
  "cb_udp_send_windows os s to data n w =
     (let (sent, w) = wk_sendto os (win_handle s) data (int_size n) (cb__addr_to_sockaddr to) w
      in if sent <s 0 then (\<lparr>io_info = blocked_or os CB_INFO_NET_SEND_FAILED w, io_bytes = 0\<rparr>, w)
         else (\<lparr>io_info = CB_INFO_OK, io_bytes = scast sent\<rparr>, w))"

definition cb_udp_recv_windows :: "'w winsock \<Rightarrow> cb_socket_windows \<Rightarrow> u8 list \<Rightarrow> size_t \<Rightarrow> 'w
    \<Rightarrow> cb_udp_recv_result_t \<times> u8 list \<times> 'w" where
  "cb_udp_recv_windows os s buf buf_size w =
     (let ((got, buf, sa), w) = wk_recvfrom os (win_handle s) buf (int_size buf_size) w;
          from = \<lparr>addr_info = CB_INFO_OK, addr_ip = 0, addr_port = 0\<rparr>
      in if got <s 0 then (\<lparr>recv_info = blocked_or os CB_INFO_NET_RECV_FAILED w, recv_from = from, recv_size = 0\<rparr>, buf, w)
         else (\<lparr>recv_info = CB_INFO_OK, recv_from = cb__sockaddr_to_addr sa, recv_size = scast got\<rparr>, buf, w))"

definition cb_tcp_listen_windows :: "'w winsock \<Rightarrow> u16 \<Rightarrow> i32 \<Rightarrow> 'w \<Rightarrow> cb_socket_windows \<times> 'w" where
  "cb_tcp_listen_windows os port backlog w =
     (let l = \<lparr>win_info = CB_INFO_OK, win_handle = CB__INVALID_SOCK_windows\<rparr>;
          (fd, w) = wk_socket os SOCK_STREAM w
      in if fd = CB__INVALID_SOCK_windows then (l\<lparr>win_info := CB_INFO_NET_SOCKET_FAILED\<rparr>, w)
         else
           let w = wk_reuseaddr os fd w;
               (rc, w) = wk_bind os fd (any_addr port) w
           in if rc \<noteq> 0 then (l\<lparr>win_info := CB_INFO_NET_BIND_FAILED\<rparr>, wk_close os fd w)
              else
                let (rc, w) = wk_listen os fd backlog w
                in if rc \<noteq> 0 then (l\<lparr>win_info := CB_INFO_NET_LISTEN_FAILED\<rparr>, wk_close os fd w)
                   else
                     let (info, w) = cb__set_nonblocking_windows os fd w
                     in if info \<noteq> CB_INFO_OK then (l\<lparr>win_info := CB_INFO_NET_NONBLOCK_FAILED\<rparr>, wk_close os fd w)
                        else (l\<lparr>win_handle := fd\<rparr>, w))"

definition cb_tcp_listener_close_windows :: "'w winsock \<Rightarrow> cb_socket_windows \<Rightarrow> 'w \<Rightarrow> cb_info_t \<times> cb_socket_windows \<times> 'w" where
  "cb_tcp_listener_close_windows os s w =
     (if win_handle s \<noteq> CB__INVALID_SOCK_windows
      then (CB_INFO_OK, s\<lparr>win_handle := CB__INVALID_SOCK_windows\<rparr>, wk_close os (win_handle s) w)
      else (CB_INFO_OK, s, w))"

definition cb_tcp_accept_windows :: "'w winsock \<Rightarrow> cb_socket_windows \<Rightarrow> 'w \<Rightarrow> cb_socket_windows \<times> 'w" where
  "cb_tcp_accept_windows os l w =
     (let s = \<lparr>win_info = CB_INFO_OK, win_handle = CB__INVALID_SOCK_windows\<rparr>;
          (fd, w) = wk_accept os (win_handle l) w
      in if fd = CB__INVALID_SOCK_windows then (s\<lparr>win_info := blocked_or os CB_INFO_NET_ACCEPT_FAILED w\<rparr>, w)
         else
           let (info, w) = cb__set_nonblocking_windows os fd w
           in if info \<noteq> CB_INFO_OK then (s\<lparr>win_info := CB_INFO_NET_NONBLOCK_FAILED\<rparr>, wk_close os fd w)
              else (s\<lparr>win_handle := fd\<rparr>, w))"

definition cb_tcp_connect_windows :: "'w winsock \<Rightarrow> cb_net_addr_t \<Rightarrow> 'w \<Rightarrow> cb_socket_windows \<times> 'w" where
  "cb_tcp_connect_windows os to w =
     (let s = \<lparr>win_info = CB_INFO_OK, win_handle = CB__INVALID_SOCK_windows\<rparr>;
          (fd, w) = wk_socket os SOCK_STREAM w
      in if fd = CB__INVALID_SOCK_windows then (s\<lparr>win_info := CB_INFO_NET_SOCKET_FAILED\<rparr>, w)
         else
           let (rc, w) = wk_connect os fd (cb__addr_to_sockaddr to) w
           in if rc \<noteq> 0 then (s\<lparr>win_info := CB_INFO_NET_CONNECT_FAILED\<rparr>, wk_close os fd w)
              else
                let (info, w) = cb__set_nonblocking_windows os fd w
                in if info \<noteq> CB_INFO_OK then (s\<lparr>win_info := CB_INFO_NET_NONBLOCK_FAILED\<rparr>, wk_close os fd w)
                   else (s\<lparr>win_handle := fd\<rparr>, w))"

definition cb_tcp_close_windows :: "'w winsock \<Rightarrow> cb_socket_windows \<Rightarrow> 'w \<Rightarrow> cb_info_t \<times> cb_socket_windows \<times> 'w" where
  "cb_tcp_close_windows os s w =
     (if win_handle s \<noteq> CB__INVALID_SOCK_windows
      then (CB_INFO_OK, s\<lparr>win_handle := CB__INVALID_SOCK_windows\<rparr>, wk_close os (win_handle s) w)
      else (CB_INFO_OK, s, w))"

definition cb_tcp_send_windows :: "'w winsock \<Rightarrow> cb_socket_windows \<Rightarrow> u8 list \<Rightarrow> size_t \<Rightarrow> 'w \<Rightarrow> cb_net_io_result_t \<times> 'w" where
  "cb_tcp_send_windows os s data n w =
     (let (sent, w) = wk_send os (win_handle s) data (int_size n) w
      in if sent <s 0 then (\<lparr>io_info = blocked_or os CB_INFO_NET_SEND_FAILED w, io_bytes = 0\<rparr>, w)
         else (\<lparr>io_info = CB_INFO_OK, io_bytes = scast sent\<rparr>, w))"

definition cb_tcp_recv_windows :: "'w winsock \<Rightarrow> cb_socket_windows \<Rightarrow> u8 list \<Rightarrow> size_t \<Rightarrow> 'w
    \<Rightarrow> cb_net_io_result_t \<times> u8 list \<times> 'w" where
  "cb_tcp_recv_windows os s buf buf_size w =
     (let ((got, buf), w) = wk_recv os (win_handle s) buf (int_size buf_size) w
      in if got <s 0 then (\<lparr>io_info = blocked_or os CB_INFO_NET_RECV_FAILED w, io_bytes = 0\<rparr>, buf, w)
         else if got = 0 then (\<lparr>io_info = CB_INFO_NET_CLOSED, io_bytes = 0\<rparr>, buf, w)
         else (\<lparr>io_info = CB_INFO_OK, io_bytes = scast got\<rparr>, buf, w))"

definition poll_request_windows :: "cb_net_pollable_windows \<Rightarrow> SOCKET \<times> u16" where
  "poll_request_windows item =
     (wpoll_handle item,
      (if wpoll_events item AND CB_NET_POLL_READ \<noteq> 0 then POLLRDNORM else 0)
      OR (if wpoll_events item AND CB_NET_POLL_WRITE \<noteq> 0 then POLLWRNORM else 0))"

definition poll_answer_windows :: "u16 \<Rightarrow> i32" where
  "poll_answer_windows revents =
     (if revents AND POLLRDNORM \<noteq> 0 then CB_NET_POLL_READ else 0)
     OR (if revents AND POLLWRNORM \<noteq> 0 then CB_NET_POLL_WRITE else 0)
     OR (if revents AND POLL_ERR_HUP_NVAL \<noteq> 0 then CB_NET_POLL_ERROR else 0)"

definition cb_net_poll_windows :: "'w winsock \<Rightarrow> bool \<Rightarrow> cb_net_pollable_windows list \<Rightarrow> i32 \<Rightarrow> 'w
    \<Rightarrow> cb_info_t \<times> cb_net_pollable_windows list \<times> 'w" where
  "cb_net_poll_windows os avail items timeout_ms w =
     (if \<not> avail then (CB_INFO_ALLOC_FAILED, items, w)
      else
        let ((rc, revents), w) = wk_poll os (map poll_request_windows items) (word_of_nat (length items)) timeout_ms w
        in if rc <s 0 then (CB_INFO_NET_POLL_FAILED, items, w)
           else (CB_INFO_OK, map2 (\<lambda>item r. item\<lparr>wpoll_revents := poll_answer_windows r\<rparr>) items revents, w))"

section \<open>What the code relies on\<close>

text \<open>\<open>socket\<close> and \<open>accept\<close> fail with \<open>INVALID_SOCKET\<close>, or give a handle that was not open and open it; \<open>closesocket\<close>
  closes its handle; no other call opens or closes one.\<close>

definition gives_socket :: "('w \<Rightarrow> SOCKET set) \<Rightarrow> 'w \<Rightarrow> SOCKET \<times> 'w \<Rightarrow> bool" where
  "gives_socket socks w r \<longleftrightarrow>
     (if fst r = CB__INVALID_SOCK_windows then socks (snd r) = socks w
      else fst r \<notin> socks w \<and> socks (snd r) = insert (fst r) (socks w))"

definition winsock_spec :: "'w winsock \<Rightarrow> ('w \<Rightarrow> SOCKET set) \<Rightarrow> bool" where
  "winsock_spec os socks \<longleftrightarrow>
     (\<forall>t w. gives_socket socks w (wk_socket os t w)) \<and> (\<forall>l w. gives_socket socks w (wk_accept os l w))
     \<and> (\<forall>s w. socks (wk_close os s w) = socks w - {s}) \<and> (\<forall>s w. socks (wk_reuseaddr os s w) = socks w)
     \<and> (\<forall>s a w. socks (snd (wk_bind os s a w)) = socks w) \<and> (\<forall>s n w. socks (snd (wk_listen os s n w)) = socks w)
     \<and> (\<forall>s a w. socks (snd (wk_connect os s a w)) = socks w) \<and> (\<forall>s n w. socks (snd (wk_fionbio os s n w)) = socks w)"

section \<open>Handles\<close>

definition made_windows :: "('w \<Rightarrow> SOCKET set) \<Rightarrow> 'w \<Rightarrow> cb_socket_windows \<times> 'w \<Rightarrow> bool" where
  "made_windows socks w r \<longleftrightarrow>
     (let (s, w') = r in
      if win_info s = CB_INFO_OK
      then win_handle s \<noteq> CB__INVALID_SOCK_windows \<and> win_handle s \<notin> socks w \<and> socks w' = insert (win_handle s) (socks w)
      else win_handle s = CB__INVALID_SOCK_windows \<and> socks w' = socks w)"

lemma winsock_socks:
  assumes "winsock_spec os socks"
  shows "socks (wk_close os s w) = socks w - {s}" "socks (wk_reuseaddr os s w) = socks w"
    "wk_bind os s a w = (rc, w') \<Longrightarrow> socks w' = socks w" "wk_listen os s n w = (rc, w') \<Longrightarrow> socks w' = socks w"
    "wk_connect os s a w = (rc, w') \<Longrightarrow> socks w' = socks w" "wk_fionbio os s m w = (rc, w') \<Longrightarrow> socks w' = socks w"
  using assms unfolding winsock_spec_def by (metis snd_conv)+

lemma winsock_new:
  assumes "winsock_spec os socks" "wk_socket os t w = (fd, w') \<or> wk_accept os l w = (fd, w')"
  obtains "fd = CB__INVALID_SOCK_windows" "socks w' = socks w"
    | "fd \<noteq> CB__INVALID_SOCK_windows" "fd \<notin> socks w" "socks w' = insert fd (socks w)"
proof -
  have "gives_socket socks w (fd, w')" using assms unfolding winsock_spec_def by metis
  then show ?thesis using that by (auto simp: gives_socket_def split: if_splits)
qed

lemma set_nonblocking_windows_socks:
  "winsock_spec os socks \<Longrightarrow> cb__set_nonblocking_windows os s w = (info, w') \<Longrightarrow> socks w' = socks w"
  by (auto simp: cb__set_nonblocking_windows_def winsock_socks(6) split: prod.splits if_splits)

lemma makes_windows:
  assumes "winsock_spec os socks"
  shows "made_windows socks w (cb_udp_open_windows os port w)" "made_windows socks w (cb_tcp_listen_windows os port backlog w)"
    "made_windows socks w (cb_tcp_accept_windows os l w)" "made_windows socks w (cb_tcp_connect_windows os peer w)"
proof -
  note f = made_windows_def winsock_socks(1,2) [OF assms]
  note d = set_nonblocking_windows_socks [OF assms] winsock_socks(3-5) [OF assms]
  show "made_windows socks w (cb_udp_open_windows os port w)"
    unfolding cb_udp_open_windows_def Let_def
    by (auto simp: f elim!: winsock_new [OF assms disjI1] split: prod.splits if_splits dest!: d)
  show "made_windows socks w (cb_tcp_listen_windows os port backlog w)"
    unfolding cb_tcp_listen_windows_def Let_def
    by (auto simp: f elim!: winsock_new [OF assms disjI1] split: prod.splits if_splits dest!: d)
  show "made_windows socks w (cb_tcp_accept_windows os l w)"
    unfolding cb_tcp_accept_windows_def Let_def blocked_or_def
    by (auto simp: f elim!: winsock_new [OF assms disjI2] split: prod.splits if_splits dest!: d)
  show "made_windows socks w (cb_tcp_connect_windows os peer w)"
    unfolding cb_tcp_connect_windows_def Let_def
    by (auto simp: f elim!: winsock_new [OF assms disjI1] split: prod.splits if_splits dest!: d)
qed

text \<open>Closing what was made, once and again.\<close>

definition closes_windows :: "('w \<Rightarrow> SOCKET set) \<Rightarrow> (cb_socket_windows \<Rightarrow> 'w \<Rightarrow> cb_info_t \<times> cb_socket_windows \<times> 'w) \<Rightarrow> 'w
    \<Rightarrow> cb_socket_windows \<times> 'w \<Rightarrow> bool" where
  "closes_windows socks close w r \<longleftrightarrow>
     (case r of (s, w') \<Rightarrow> case close s w' of (_, s', w'') \<Rightarrow> socks w'' = socks w \<and> close s' w'' = (CB_INFO_OK, s', w''))"

lemma made_closes_windows:
  assumes "winsock_spec os socks" "made_windows socks w r"
  shows "closes_windows socks (cb_udp_close_windows os) w r" "closes_windows socks (cb_tcp_listener_close_windows os) w r"
    "closes_windows socks (cb_tcp_close_windows os) w r"
proof -
  obtain s w' where r: "r = (s, w')" by fastforce
  have "win_handle s = CB__INVALID_SOCK_windows \<and> socks w' = socks w
      \<or> win_handle s \<noteq> CB__INVALID_SOCK_windows \<and> socks (wk_close os (win_handle s) w') = socks w"
    using assms(2) winsock_socks(1) [OF assms(1)] by (auto simp: made_windows_def r split: if_splits)
  then show "closes_windows socks (cb_udp_close_windows os) w r" "closes_windows socks (cb_tcp_listener_close_windows os) w r"
    "closes_windows socks (cb_tcp_close_windows os) w r"
    unfolding r closes_windows_def cb_udp_close_windows_def cb_tcp_listener_close_windows_def cb_tcp_close_windows_def
    by (elim disjE; simp)+
qed

section \<open>Lengths\<close>

text \<open>A length below \<open>2^31\<close> reaches Winsock as it is; \<open>2^32\<close> reaches it as 0, so a receive into a buffer of that size answers
  that the connection is closed.\<close>

lemma int_size_small: "uint n < 2 ^ 31 \<Longrightarrow> sint (int_size n) = uint n"
proof -
  assume "uint n < 2 ^ 31"
  then have "uint n < 2 ^ 31" .
  moreover have "sint (int_size n) = signed_take_bit 31 (uint n)"
    unfolding int_size_def by transfer (simp add: signed_take_bit_take_bit)
  moreover have "- (2 ^ 31) \<le> uint n" by (rule order_trans [OF _ uint_ge_0]) simp
  ultimately show ?thesis by (simp only: signed_take_bit_int_eq_self)
qed

lemma recv_windows_closed:
  assumes "\<forall>s buf w. fst (fst (wk_recv os s buf 0 w)) = 0"
  shows "io_info (fst (cb_tcp_recv_windows os s buf (2 ^ 32) w)) = CB_INFO_NET_CLOSED"
proof -
  have "int_size (2 ^ 32) = 0" by (simp add: int_size_def)
  moreover obtain b v where "wk_recv os (win_handle s) buf 0 w = ((0, b), v)" using assms by (metis prod.collapse)
  ultimately show ?thesis by (simp add: cb_tcp_recv_windows_def word_sless_alt)
qed

section \<open>Properties\<close>

text \<open>C32. No socket is lost, in either build.  Whatever fails, opening a UDP socket, listening, accepting and
  connecting answer OK with a new open descriptor or handle, or an error and none, with nothing more
  open than before; closing what they opened brings the open ones back, and closing twice is
  harmless.\<close>

theorem network_no_socket_leak:
  assumes "posix_spec os fds" "winsock_spec wos socks"
  shows "(let (s, w') = cb_udp_open os port w in made fds w (udp_info s) (udp_handle s) w'
      \<and> (let (_, s', w'') = cb_udp_close os s w' in fds w'' = fds w \<and> cb_udp_close os s' w'' = (CB_INFO_OK, s', w'')))
    \<and> (let (l, w') = cb_tcp_listen os port backlog w in made fds w (lst_info l) (lst_handle l) w'
      \<and> (let (_, l', w'') = cb_tcp_listener_close os l w' in fds w'' = fds w \<and> cb_tcp_listener_close os l' w'' = (CB_INFO_OK, l', w'')))
    \<and> (let (s, w') = cb_tcp_accept os lst w in made fds w (tcp_info s) (tcp_handle s) w'
      \<and> (let (_, s', w'') = cb_tcp_close os s w' in fds w'' = fds w \<and> cb_tcp_close os s' w'' = (CB_INFO_OK, s', w'')))
    \<and> (let (s, w') = cb_tcp_connect os peer w in made fds w (tcp_info s) (tcp_handle s) w'
      \<and> (let (_, s', w'') = cb_tcp_close os s w' in fds w'' = fds w \<and> cb_tcp_close os s' w'' = (CB_INFO_OK, s', w'')))
    \<and> (let r = cb_udp_open_windows wos port v in made_windows socks v r \<and> closes_windows socks (cb_udp_close_windows wos) v r)
    \<and> (let r = cb_tcp_listen_windows wos port backlog v in
        made_windows socks v r \<and> closes_windows socks (cb_tcp_listener_close_windows wos) v r)
    \<and> (let r = cb_tcp_accept_windows wos l v in made_windows socks v r \<and> closes_windows socks (cb_tcp_close_windows wos) v r)
    \<and> (let r = cb_tcp_connect_windows wos peer v in made_windows socks v r \<and> closes_windows socks (cb_tcp_close_windows wos) v r)"
  unfolding Let_def [of "cb_udp_open_windows wos port v"] Let_def [of "cb_tcp_listen_windows wos port backlog v"]
    Let_def [of "cb_tcp_accept_windows wos l v"] Let_def [of "cb_tcp_connect_windows wos peer v"]
  using network_no_descriptor_leak [OF assms(1), of port w backlog lst peer] makes_windows [OF assms(2)]
    made_closes_windows [OF assms(2)] by blast

text \<open>A system with one handle, 8, which binds every address but refuses to listen.\<close>

definition small_winsock :: "bool winsock" where
  "small_winsock = \<lparr>wk_startup = \<lambda>w. (0, w), wk_cleanup = \<lambda>w. (0, w),
     wk_socket = \<lambda>_ w. if w then (- 1, w) else (8, True), wk_reuseaddr = \<lambda>_ w. w, wk_bind = \<lambda>_ _ w. (0, w),
     wk_listen = \<lambda>_ _ w. (- 1, w), wk_connect = \<lambda>_ _ w. (0, w), wk_accept = \<lambda>_ w. if w then (- 1, w) else (8, True),
     wk_fionbio = \<lambda>_ _ w. (0, w), wk_close = \<lambda>s w. w \<and> s \<noteq> 8,
     wk_sendto = \<lambda>_ _ n _ w. (n, w), wk_recvfrom = \<lambda>_ buf _ w. ((- 1, buf, any_addr 0), w), wk_send = \<lambda>_ _ n w. (n, w),
     wk_recv = \<lambda>_ buf _ w. ((0, buf), w), wk_poll = \<lambda>reqs _ _ w. ((0, map snd reqs), w), wk_last_error = \<lambda>_. WSAEWOULDBLOCK\<rparr>"

definition small_socks :: "bool \<Rightarrow> SOCKET set" where
  "small_socks w = (if w then {8} else {})"

lemma small_winsock_spec: "winsock_spec small_winsock small_socks"
  by (auto simp: winsock_spec_def gives_socket_def small_winsock_def small_socks_def CB__INVALID_SOCK_windows_def)

lemma network_no_socket_leak_witness:
  "win_info (fst (cb_udp_open_windows small_winsock 7 False)) = CB_INFO_OK
    \<and> closes_windows small_socks (cb_udp_close_windows small_winsock) False (cb_udp_open_windows small_winsock 7 False)
    \<and> win_info (fst (cb_tcp_listen_windows small_winsock 7 1 False)) = CB_INFO_NET_LISTEN_FAILED
    \<and> made_windows small_socks False (cb_tcp_listen_windows small_winsock 7 1 False)
    \<and> made small_fds False (udp_info (fst (cb_udp_open small_os 7 False))) (udp_handle (fst (cb_udp_open small_os 7 False)))
        (snd (cb_udp_open small_os 7 False))"
proof -
  have "win_info (fst (cb_udp_open_windows small_winsock 7 False)) = CB_INFO_OK"
    by (simp add: cb_udp_open_windows_def small_winsock_def CB__INVALID_SOCK_windows_def cb__set_nonblocking_windows_def)
  moreover have "win_info (fst (cb_tcp_listen_windows small_winsock 7 1 False)) = CB_INFO_NET_LISTEN_FAILED"
    by (simp add: cb_tcp_listen_windows_def small_winsock_def CB__INVALID_SOCK_windows_def)
  ultimately show ?thesis
    using network_no_socket_leak [OF small_os_spec small_winsock_spec, of 7 False 1 _ _ False]
    by (simp add: split_beta Let_def)
qed

end
