(* ===== verification/Transport.thy ===== *)
theory Transport
  imports Network Netsim_Props
begin

text \<open>
  The transport of \<open>src/cbase_transport.c\<close>: a table of functions over UDP sockets or over endpoints of
  the simulator.  A pointer to a socket or an endpoint is an index into the objects of the caller,
  which the world of a backend holds beside the system or the net; \<open>None\<close> is the null pointer.  An
  operation without result dereferences a null pointer, or draws from a rejection loop that does not
  end.

  An ideal link, the simulator without impairments below the transport, is then shown to be a queue:
  \<open>datagram_link\<close> is the contract of such a link, and its clients see the messages in order.
\<close>

section \<open>Definitions\<close>

record ('i, 'w) cb_transport_ops_t =
  op_send :: "('i \<Rightarrow> cb_net_addr_t \<Rightarrow> u8 list \<Rightarrow> 'w \<Rightarrow> (cb_net_io_result_t \<times> 'w) option) option"
  op_recv :: "('i \<Rightarrow> u8 list \<Rightarrow> nat \<Rightarrow> 'w \<Rightarrow> (cb_udp_recv_result_t \<times> u8 list \<times> 'w) option) option"
  op_close :: "('i \<Rightarrow> 'w \<Rightarrow> (cb_info_t \<times> 'w) option) option"

record ('i, 'w) cb_transport_t =
  tr_info :: cb_info_t
  tr_ops :: "('i, 'w) cb_transport_ops_t option"
  tr_impl :: 'i

text \<open>What \<open>cb_transport_recv\<close> and the adapter of the simulator start from.\<close>

definition nothing_received :: cb_udp_recv_result_t where
  "nothing_received = \<lparr>recv_info = CB_INFO_OK,
     recv_from = \<lparr>addr_info = CB_INFO_OK, addr_ip = 0, addr_port = 0\<rparr>, recv_size = 0\<rparr>"

subsection \<open>UDP adapter\<close>

type_synonym 'w udp_world = "(nat \<Rightarrow> cb_udp_socket_t) \<times> 'w"

definition cb__transport_udp_send :: "'w posix \<Rightarrow> nat option \<Rightarrow> cb_net_addr_t \<Rightarrow> u8 list \<Rightarrow> 'w udp_world
    \<Rightarrow> (cb_net_io_result_t \<times> 'w udp_world) option" where
  "cb__transport_udp_send os impl to data w =
     (case impl of
        None \<Rightarrow> None
      | Some i \<Rightarrow> let (r, sys) = cb_udp_send os (fst w i) to data (snd w) in Some (r, fst w, sys))"

definition cb__transport_udp_recv :: "'w posix \<Rightarrow> nat option \<Rightarrow> u8 list \<Rightarrow> nat \<Rightarrow> 'w udp_world
    \<Rightarrow> (cb_udp_recv_result_t \<times> u8 list \<times> 'w udp_world) option" where
  "cb__transport_udp_recv os impl buf buf_size w =
     (case impl of
        None \<Rightarrow> None
      | Some i \<Rightarrow> let (r, buf, sys) = cb_udp_recv os (fst w i) buf buf_size (snd w) in Some (r, buf, fst w, sys))"

definition cb__transport_udp_close :: "'w posix \<Rightarrow> nat option \<Rightarrow> 'w udp_world \<Rightarrow> (cb_info_t \<times> 'w udp_world) option" where
  "cb__transport_udp_close os impl w =
     (case impl of
        None \<Rightarrow> None
      | Some i \<Rightarrow> let (info, s, sys) = cb_udp_close os (fst w i) (snd w) in Some (info, (fst w)(i := s), sys))"

definition CB__TRANSPORT_UDP_OPS :: "'w posix \<Rightarrow> (nat option, 'w udp_world) cb_transport_ops_t" where
  "CB__TRANSPORT_UDP_OPS os =
     \<lparr>op_send = Some (cb__transport_udp_send os), op_recv = Some (cb__transport_udp_recv os),
      op_close = Some (cb__transport_udp_close os)\<rparr>"

subsection \<open>NetSim adapter\<close>

type_synonym ('p, 's, 'c) sim_world = "(nat \<Rightarrow> cb_netsim_endpoint_t) \<times> ('p, 's, 'c) cb_netsim_t"

definition cb__transport_netsim_send :: "'c clocks \<Rightarrow> ('p, 's) alloc \<Rightarrow> ('p, 's) free \<Rightarrow> nat option \<Rightarrow> cb_net_addr_t
    \<Rightarrow> u8 list \<Rightarrow> ('p, 's, 'c) sim_world \<Rightarrow> (cb_net_io_result_t \<times> ('p, 's, 'c) sim_world) option" where
  "cb__transport_netsim_send clocks alloc free impl to data w =
     (case (case impl of
              None \<Rightarrow> Some (CB_INFO_GENERIC_ERROR, snd w)
            | Some i \<Rightarrow> cb_netsim_send_to clocks alloc free (snd w) (fst w i) to data) of
        None \<Rightarrow> None
      | Some (info, net) \<Rightarrow>
          Some (\<lparr>io_info = info, io_bytes = (if info = CB_INFO_OK then word_of_nat (length data) else 0)\<rparr>, fst w, net))"

definition cb__transport_netsim_recv :: "('p, 's) free \<Rightarrow> nat option \<Rightarrow> u8 list \<Rightarrow> nat
    \<Rightarrow> ('p, 's, 'c) sim_world \<Rightarrow> (cb_udp_recv_result_t \<times> u8 list \<times> ('p, 's, 'c) sim_world) option" where
  "cb__transport_netsim_recv free impl buf buf_size w =
     (let out = \<lparr>out_src = Some (recv_from nothing_received), out_buf = Some buf, out_len = Some 0\<rparr>;
          (info, out, net) = (case impl of
             None \<Rightarrow> (CB_INFO_GENERIC_ERROR, out, snd w)
           | Some i \<Rightarrow> cb_netsim_recv_from free (snd w) (fst w i) out buf_size);
          buf = the (out_buf out)
      in if info = CB_INFO_NETSIM_EMPTY then Some (nothing_received\<lparr>recv_info := CB_INFO_NET_WOULD_BLOCK\<rparr>, buf, fst w, net)
         else if info \<noteq> CB_INFO_OK then Some (nothing_received\<lparr>recv_info := info\<rparr>, buf, fst w, net)
         else Some (nothing_received\<lparr>recv_size := word_of_nat (the (out_len out)), recv_from := the (out_src out)\<rparr>,
                buf, fst w, net))"

definition cb__transport_netsim_close :: "nat option \<Rightarrow> ('p, 's, 'c) sim_world \<Rightarrow> (cb_info_t \<times> ('p, 's, 'c) sim_world) option" where
  "cb__transport_netsim_close impl w = Some (CB_INFO_OK, w)"

definition CB__TRANSPORT_NETSIM_OPS :: "'c clocks \<Rightarrow> ('p, 's) alloc \<Rightarrow> ('p, 's) free
    \<Rightarrow> (nat option, ('p, 's, 'c) sim_world) cb_transport_ops_t" where
  "CB__TRANSPORT_NETSIM_OPS clocks alloc free =
     \<lparr>op_send = Some (cb__transport_netsim_send clocks alloc free), op_recv = Some (cb__transport_netsim_recv free),
      op_close = Some cb__transport_netsim_close\<rparr>"

subsection \<open>Factories and dispatchers\<close>

definition cb_transport_udp :: "'w posix \<Rightarrow> (nat \<Rightarrow> cb_udp_socket_t) \<Rightarrow> nat option \<Rightarrow> (nat option, 'w udp_world) cb_transport_t" where
  "cb_transport_udp os socks udp =
     \<lparr>tr_info = (case udp of
        None \<Rightarrow> CB_INFO_GENERIC_ERROR
      | Some i \<Rightarrow> if udp_info (socks i) \<noteq> CB_INFO_OK then CB_INFO_GENERIC_ERROR else CB_INFO_OK),
      tr_ops = Some (CB__TRANSPORT_UDP_OPS os), tr_impl = udp\<rparr>"

definition cb_transport_netsim :: "'c clocks \<Rightarrow> ('p, 's) alloc \<Rightarrow> ('p, 's) free \<Rightarrow> (nat \<Rightarrow> cb_netsim_endpoint_t)
    \<Rightarrow> nat option \<Rightarrow> (nat option, ('p, 's, 'c) sim_world) cb_transport_t" where
  "cb_transport_netsim clocks alloc free eps ep =
     \<lparr>tr_info = (case ep of
        None \<Rightarrow> CB_INFO_GENERIC_ERROR
      | Some i \<Rightarrow> if h_info (eps i) \<noteq> CB_INFO_OK then CB_INFO_GENERIC_ERROR else CB_INFO_OK),
      tr_ops = Some (CB__TRANSPORT_NETSIM_OPS clocks alloc free), tr_impl = ep\<rparr>"

definition cb_transport_send :: "('i, 'w) cb_transport_t option \<Rightarrow> cb_net_addr_t \<Rightarrow> u8 list \<Rightarrow> 'w
    \<Rightarrow> (cb_net_io_result_t \<times> 'w) option" where
  "cb_transport_send t to data w =
     (case Option.bind t tr_ops of
        None \<Rightarrow> Some (\<lparr>io_info = CB_INFO_GENERIC_ERROR, io_bytes = 0\<rparr>, w)
      | Some ops \<Rightarrow>
          (case op_send ops of
             None \<Rightarrow> Some (\<lparr>io_info = CB_INFO_GENERIC_ERROR, io_bytes = 0\<rparr>, w)
           | Some f \<Rightarrow> f (tr_impl (the t)) to data w))"

definition cb_transport_recv :: "('i, 'w) cb_transport_t option \<Rightarrow> u8 list \<Rightarrow> nat \<Rightarrow> 'w
    \<Rightarrow> (cb_udp_recv_result_t \<times> u8 list \<times> 'w) option" where
  "cb_transport_recv t buf buf_size w =
     (case Option.bind t tr_ops of
        None \<Rightarrow> Some (nothing_received\<lparr>recv_info := CB_INFO_GENERIC_ERROR\<rparr>, buf, w)
      | Some ops \<Rightarrow>
          (case op_recv ops of
             None \<Rightarrow> Some (nothing_received\<lparr>recv_info := CB_INFO_GENERIC_ERROR\<rparr>, buf, w)
           | Some f \<Rightarrow> f (tr_impl (the t)) buf buf_size w))"

definition cb_transport_close :: "('i, 'w) cb_transport_t option \<Rightarrow> 'w \<Rightarrow> (cb_info_t \<times> 'w) option" where
  "cb_transport_close t w =
     (case Option.bind t tr_ops of
        None \<Rightarrow> Some (CB_INFO_GENERIC_ERROR, w)
      | Some ops \<Rightarrow>
          (case op_close ops of
             None \<Rightarrow> Some (CB_INFO_GENERIC_ERROR, w)
           | Some f \<Rightarrow> f (tr_impl (the t)) w))"

section \<open>A datagram link\<close>

text \<open>A link puts messages in at one end and takes them out at the other; time passes in between.\<close>

datatype 'm traffic = Put 'm | Get | Wait u64

locale datagram_link =
  fixes put :: "'m \<Rightarrow> 'w \<Rightarrow> 'w option"
    and get :: "'w \<Rightarrow> ('m option \<times> 'w) option"
    and wait :: "u64 \<Rightarrow> 'w \<Rightarrow> 'w"
    and mail :: "'w \<Rightarrow> 'm list"
    and ok :: "'w \<Rightarrow> bool"
    and fits :: "'m \<Rightarrow> bool"
  assumes put_law: "ok w \<Longrightarrow> fits m \<Longrightarrow> \<exists>w'. put m w = Some w' \<and> ok w' \<and> mail w' = mail w @ [m]"
    and get_law: "ok w \<Longrightarrow> \<exists>w'. get w = Some (case mail w of [] \<Rightarrow> None | m # _ \<Rightarrow> Some m, w') \<and> ok w' \<and> mail w' = tl (mail w)"
    and wait_law: "ok w \<Longrightarrow> ok (wait t w) \<and> mail (wait t w) = mail w"

text \<open>Traffic over a link, with what each \<open>Get\<close> answers.\<close>

fun traffic_run :: "('m \<Rightarrow> 'w \<Rightarrow> 'w option) \<Rightarrow> ('w \<Rightarrow> ('m option \<times> 'w) option) \<Rightarrow> (u64 \<Rightarrow> 'w \<Rightarrow> 'w)
    \<Rightarrow> 'm traffic list \<Rightarrow> 'w \<Rightarrow> ('m option list \<times> 'w) option" where
  "traffic_run put get wait [] w = Some ([], w)"
| "traffic_run put get wait (Put m # ts) w =
     (case put m w of None \<Rightarrow> None | Some w \<Rightarrow> traffic_run put get wait ts w)"
| "traffic_run put get wait (Get # ts) w =
     (case get w of
        None \<Rightarrow> None
      | Some (r, w) \<Rightarrow>
          (case traffic_run put get wait ts w of None \<Rightarrow> None | Some (rs, w) \<Rightarrow> Some (r # rs, w)))"
| "traffic_run put get wait (Wait t # ts) w = traffic_run put get wait ts (wait t w)"

text \<open>What a queue answers.\<close>

fun fifo :: "'m traffic list \<Rightarrow> 'm list \<Rightarrow> 'm option list" where
  "fifo [] q = []"
| "fifo (Put m # ts) q = fifo ts (q @ [m])"
| "fifo (Get # ts) q = (case q of [] \<Rightarrow> None # fifo ts [] | m # q \<Rightarrow> Some m # fifo ts q)"
| "fifo (Wait t # ts) q = fifo ts q"

context datagram_link
begin

lemma run_fifo:
  "ok w \<Longrightarrow> \<forall>m. Put m \<in> set ts \<longrightarrow> fits m \<Longrightarrow>
    \<exists>w'. traffic_run put get wait ts w = Some (fifo ts (mail w), w') \<and> ok w'"
proof (induction ts arbitrary: w)
  case (Cons t ts)
  have fit: "\<forall>m. Put m \<in> set ts \<longrightarrow> fits m" using Cons.prems(2) by simp
  show ?case
  proof (cases t)
    case (Put m)
    obtain w' where w': "put m w = Some w'" "ok w'" "mail w' = mail w @ [m]" using put_law [of w m] Cons.prems Put by auto
    then show ?thesis using Cons.IH [OF w'(2) fit] Put by simp
  next
    case Get
    obtain w' where w': "get w = Some (case mail w of [] \<Rightarrow> None | m # _ \<Rightarrow> Some m, w')" "ok w'" "mail w' = tl (mail w)"
      using get_law [OF Cons.prems(1)] by auto
    then show ?thesis using Cons.IH [OF w'(2) fit] Get by (cases "mail w") auto
  next
    case (Wait d)
    then show ?thesis using wait_law [OF Cons.prems(1)] Cons.IH [of "wait d w", OF _ fit] by simp
  qed
qed simp

end

section \<open>The ideal link\<close>

lemma find_endpoint_map:
  "(\<And>e. ep_addr (g e) = ep_addr e) \<Longrightarrow>
    cb__netsim_find_endpoint (map g es) addr = map_option g (cb__netsim_find_endpoint es addr)"
  by (induction es) auto

lemma find_at_endpoint:
  "(\<And>e. ep_addr (f e) = ep_addr e) \<Longrightarrow>
    cb__netsim_find_endpoint (at_endpoint f addr es) addr = map_option f (cb__netsim_find_endpoint es addr)"
  by (induction es) auto

lemma find_endpoint_key:
  "cb__netsim_find_endpoint es addr = Some e \<Longrightarrow> addr_key (ep_addr e) = addr_key addr"
  by (induction es) (auto simp: same_addr_key split: if_splits)

lemma insert_walk_last:
  "\<forall>n \<in> set ns. nd_scheduled_ns n \<le> nd_scheduled_ns node \<Longrightarrow> insert_walk node ns = ns @ [node]"
  by (induction ns) auto

definition ideal :: "cb_netsim_params_t \<Rightarrow> bool" where
  "ideal p \<longleftrightarrow> drop_prob p = 0 \<and> dup_prob p = 0 \<and> corrupt_prob p = 0 \<and> reorder_prob p = 0
     \<and> latency_ms_min p = 0 \<and> latency_ms_max p = 0 \<and> max_queue_bytes p = 0"

lemma ideal_send:
  assumes "never_fails alloc" "ideal (net_params net)" "h_attached h" "length buf \<le> CB_NETSIM_MAX_DATAGRAM_BYTES"
    and "bound (net_endpoints net) dest"
  obtains mem node where "cb_netsim_send_to clocks alloc free net h dest buf =
      Some (CB_INFO_OK, cb__netsim_enqueue_node (net\<lparr>stat_enqueued := stat_enqueued net + 1,
        net_rng := cb__pcg_step (net_rng net), net_mem := mem\<rparr>) node)"
    "nd_src node = h_addr h" "nd_dest node = dest" "nd_payload node = buf" "nd_scheduled_ns node = net_now clocks net"
proof -
  obtain e where e: "cb__netsim_find_endpoint (net_endpoints net) dest = Some e"
    using assms(5) find_endpoint_None by (metis option.exhaust)
  obtain p m where a: "alloc sizeof_pending 8 (net_mem net) = (Some p, m)" using never_fails_gives [OF assms(1)] by blast
  obtain q m' where q: "(if 0 < length buf then alloc (word_of_nat (length buf)) 1 m else (None, m)) = (q, m')"
    "0 < length buf \<longrightarrow> q \<noteq> None"
    using never_fails_gives [OF assms(1), of "word_of_nat (length buf)" 1 m] by (cases "0 < length buf") auto
  let ?node = "\<lparr>nd_src = h_addr h, nd_dest = dest, nd_scheduled_ns = net_now clocks net, nd_payload = buf,
      nd_payload_ptr = q, nd_ptr = p\<rparr>"
  have now: "net_now clocks (net\<lparr>stat_enqueued := x\<rparr>) = net_now clocks net" for x by (simp add: net_now_def)
  have "cb_netsim_send_to clocks alloc free net h dest buf =
      Some (CB_INFO_OK, cb__netsim_enqueue_node (net\<lparr>stat_enqueued := stat_enqueued net + 1,
        net_rng := cb__pcg_step (net_rng net), net_mem := m'\<rparr>) ?node)"
    using assms(2-4) q a unfolding ideal_def
    by (auto simp: cb_netsim_send_to_def send_copy_def e chance_zero range_one cb__netsim_enqueue_copy_def
        corrupt_roll_def reorder_roll_def Let_def now cb__netsim_enqueue_node_def split: if_splits)
  then show ?thesis by (rule that) simp_all
qed

text \<open>The two ends are the endpoints 0 and 1 of the caller; the clock of the world is the net's.\<close>

type_synonym ('p, 's) link_world = "('p, 's, unit) sim_world \<times> u64"

definition sender :: "('p, 's) link_world \<Rightarrow> cb_netsim_endpoint_t" where "sender w = fst (fst w) 0"
definition receiver :: "('p, 's) link_world \<Rightarrow> cb_netsim_endpoint_t" where "receiver w = fst (fst w) (Suc 0)"
definition link_clocks :: "('p, 's) link_world \<Rightarrow> unit clocks" where "link_clocks w = (\<lambda>_. snd w, snd w)"

definition link_put :: "('p, 's) alloc \<Rightarrow> ('p, 's) free \<Rightarrow> u8 list \<Rightarrow> ('p, 's) link_world \<Rightarrow> ('p, 's) link_world option" where
  "link_put alloc free m w =
     (case cb_transport_send (Some (cb_transport_netsim (link_clocks w) alloc free (fst (fst w)) (Some 0)))
         (h_addr (receiver w)) m (fst w) of
        None \<Rightarrow> None
      | Some (r, sim) \<Rightarrow>
          if r = \<lparr>io_info = CB_INFO_OK, io_bytes = word_of_nat (length m)\<rparr> then Some (sim, snd w) else None)"

definition link_get :: "('p, 's) alloc \<Rightarrow> ('p, 's) free \<Rightarrow> ('p, 's) link_world \<Rightarrow> (u8 list option \<times> ('p, 's) link_world) option" where
  "link_get alloc free w =
     (let net = snd (cb_netsim_step (link_clocks w) free (snd (fst w)))
      in case cb_transport_recv (Some (cb_transport_netsim (link_clocks w) alloc free (fst (fst w)) (Some (Suc 0))))
             (replicate 65535 0) 65535 (fst (fst w), net) of
           None \<Rightarrow> None
         | Some (r, buf, sim) \<Rightarrow>
             if recv_info r = CB_INFO_NET_WOULD_BLOCK then Some (None, sim, snd w)
             else if recv_info r = CB_INFO_OK \<and> recv_from r = h_addr (sender w)
             then Some (Some (take (unat (recv_size r)) buf), sim, snd w)
             else None)"

definition link_wait :: "u64 \<Rightarrow> ('p, 's) link_world \<Rightarrow> ('p, 's) link_world" where
  "link_wait t w = (fst w, max (snd w) t)"

definition waiting :: "('p, 's) link_world \<Rightarrow> 'p cb__netsim_pending_t list" where
  "waiting w = ready_at (h_addr (receiver w)) (net_endpoints (snd (fst w)))
     @ addressed (h_addr (receiver w)) (net_pending (snd (fst w)))"

definition link_mail :: "('p, 's) link_world \<Rightarrow> u8 list list" where
  "link_mail w = map nd_payload (waiting w)"

definition link_ok :: "('p, 's) link_world \<Rightarrow> bool" where
  "link_ok w \<longleftrightarrow>
     (let net = snd (fst w)
      in h_attached (sender w) \<and> h_attached (receiver w) \<and> ideal (net_params net) \<and> net_clock net = None
        \<and> routed (net_pending net) (net_endpoints net) \<and> bound (net_endpoints net) (h_addr (receiver w))
        \<and> (\<forall>n \<in> set (net_pending net). nd_scheduled_ns n \<le> snd w)
        \<and> (\<forall>n \<in> set (waiting w). nd_src n = h_addr (sender w) \<and> length (nd_payload n) \<le> 65535))"

definition datagram_fits :: "u8 list \<Rightarrow> bool" where
  "datagram_fits m \<longleftrightarrow> length m \<le> CB_NETSIM_MAX_DATAGRAM_BYTES"

lemma link_put_law:
  assumes "never_fails alloc" "link_ok w" "datagram_fits m"
  shows "\<exists>w'. link_put alloc free m w = Some w' \<and> link_ok w' \<and> link_mail w' = link_mail w @ [m]"
proof -
  obtain eps net now where w: "w = ((eps, net), now)" by (metis prod.collapse)
  let ?to = "h_addr (eps (Suc 0))"
  have ok: "h_attached (eps 0)" "h_attached (eps (Suc 0))" "ideal (net_params net)" "net_clock net = None"
    "routed (net_pending net) (net_endpoints net)" "bound (net_endpoints net) ?to"
    "\<forall>n \<in> set (net_pending net). nd_scheduled_ns n \<le> now"
    "\<forall>n \<in> set (waiting w). nd_src n = h_addr (eps 0) \<and> length (nd_payload n) \<le> 65535"
    using assms(2) by (simp_all add: link_ok_def Let_def w sender_def receiver_def)
  have len: "length m \<le> CB_NETSIM_MAX_DATAGRAM_BYTES" using assms(3) by (simp add: datagram_fits_def)
  obtain mem node where s: "cb_netsim_send_to (link_clocks w) alloc free net (eps 0) ?to m =
      Some (CB_INFO_OK, cb__netsim_enqueue_node (net\<lparr>stat_enqueued := stat_enqueued net + 1,
        net_rng := cb__pcg_step (net_rng net), net_mem := mem\<rparr>) node)"
    "nd_src node = h_addr (eps 0)" "nd_dest node = ?to" "nd_payload node = m" "nd_scheduled_ns node = net_now (link_clocks w) net"
    using ideal_send [OF assms(1) ok(3,1) len ok(6)] by metis
  have now: "nd_scheduled_ns node = now" using s(5) ok(4) by (simp add: net_now_def link_clocks_def w)
  let ?net' = "cb__netsim_enqueue_node (net\<lparr>stat_enqueued := stat_enqueued net + 1,
        net_rng := cb__pcg_step (net_rng net), net_mem := mem\<rparr>) node"
  have i: "insert_walk node (net_pending net) = net_pending net @ [node]" using ok(7) now by (simp add: insert_walk_last)
  then have p: "net_pending ?net' = net_pending net @ [node]" by simp
  have e: "net_endpoints ?net' = at_endpoint (add_bytes node) ?to (net_endpoints net)" by (simp add: s(3))
  have k: "keys (at_endpoint (add_bytes node) ?to (net_endpoints net)) = keys (net_endpoints net)"
    by (rule keys_at_endpoint) (simp add: add_bytes_def)
  have r: "ready_at ?to (net_endpoints ?net') = ready_at ?to (net_endpoints net)"
    unfolding ready_at_def e by (simp add: find_at_endpoint add_bytes_def split: option.split)
  have wt: "waiting ((eps, ?net'), now) = waiting w @ [node]"
    unfolding waiting_def receiver_def w snd_conv fst_conv r p by (simp add: s(3))
  have "routed (net_pending ?net') (net_endpoints ?net')"
    using ok(5,6,7) now unfolding routed_def p e
    by (simp add: keys_at_endpoint add_bytes_def sorted_append s(3))
  moreover have "bound (net_endpoints ?net') ?to" unfolding e k using ok(6) .
  ultimately have "link_ok ((eps, ?net'), now)"
    using ok now s(2,4) len unfolding link_ok_def Let_def wt p
    by (auto simp: sender_def receiver_def i CB_NETSIM_MAX_DATAGRAM_BYTES_def)
  moreover have "link_put alloc free m w = Some ((eps, ?net'), now)"
    using s(1) by (simp add: link_put_def w cb_transport_send_def cb_transport_netsim_def CB__TRANSPORT_NETSIM_OPS_def
        cb__transport_netsim_send_def receiver_def)
  moreover have "link_mail ((eps, ?net'), now) = link_mail w @ [m]" by (simp add: link_mail_def wt s(4))
  ultimately show ?thesis by blast
qed

lemma link_get_law:
  assumes "link_ok w"
  shows "\<exists>w'. link_get alloc free w = Some (case link_mail w of [] \<Rightarrow> None | m # _ \<Rightarrow> Some m, w')
    \<and> link_ok w' \<and> link_mail w' = tl (link_mail w)"
proof -
  obtain eps net now where w: "w = ((eps, net), now)" by (metis prod.collapse)
  let ?to = "h_addr (eps (Suc 0))"
  have ok: "h_attached (eps 0)" "h_attached (eps (Suc 0))" "ideal (net_params net)" "net_clock net = None"
    "routed (net_pending net) (net_endpoints net)" "bound (net_endpoints net) ?to"
    "\<forall>n \<in> set (net_pending net). nd_scheduled_ns n \<le> now"
    "\<forall>n \<in> set (waiting w). nd_src n = h_addr (eps 0) \<and> length (nd_payload n) \<le> 65535"
    using assms by (simp_all add: link_ok_def Let_def w sender_def receiver_def)
  obtain e where e: "cb__netsim_find_endpoint (net_endpoints net) ?to = Some e"
    using ok(6) find_endpoint_None by (metis option.exhaust)
  let ?g = "\<lambda>e. e\<lparr>ep_ready := ep_ready e @ addressed (ep_addr e) (net_pending net)\<rparr>"
  let ?net1 = "net\<lparr>net_pending := [], net_endpoints := map ?g (net_endpoints net)\<rparr>"
  have f: "filter (\<lambda>n. nd_scheduled_ns n \<le> now) (net_pending net) = net_pending net"
    "filter (\<lambda>n. now < nd_scheduled_ns n) (net_pending net) = []"
    using ok(7) by (auto simp: not_less intro: filter_True filter_False)
  have step: "snd (cb_netsim_step (link_clocks w) free net) = ?net1"
    using step_loop_moves [OF ok(5), of free now 0] ok(4) f
    by (simp add: cb_netsim_step_def net_now_def link_clocks_def w)
  have e1: "cb__netsim_find_endpoint (map ?g (net_endpoints net)) ?to = Some (?g e)" by (simp add: find_endpoint_map e)
  have wt: "ep_ready (?g e) = waiting w"
    using find_endpoint_key [OF e] by (simp add: waiting_def ready_at_def receiver_def w e addressed_def)
  have keys1: "keys (net_endpoints ?net1) = keys (net_endpoints net)" by (simp add: comp_def)
  have rt1: "routed [] (net_endpoints ?net1)" "bound (net_endpoints ?net1) ?to"
    using ok(5,6) unfolding routed_def keys1 by simp_all
  show ?thesis
  proof (cases "waiting w")
    case Nil
    let ?w' = "((eps, ?net1), now)"
    have "waiting ?w' = ep_ready (?g e)" unfolding waiting_def ready_at_def receiver_def by (simp add: e1)
    then have "waiting ?w' = []" unfolding wt Nil .
    moreover from this have "link_ok ?w'" using ok(1-4) rt1
      by (simp add: link_ok_def Let_def sender_def receiver_def image_image)
    moreover have "link_get alloc free w = Some (None, ?w')"
      using e1 wt Nil ok(2) unfolding link_get_def Let_def w fst_conv snd_conv step [unfolded w]
      by (simp add: cb_transport_recv_def cb_transport_netsim_def CB__TRANSPORT_NETSIM_OPS_def cb__transport_netsim_recv_def
          cb_netsim_recv_from_def nothing_received_def)
    ultimately show ?thesis using Nil by (auto simp: link_mail_def)
  next
    case (Cons n ns)
    have n: "nd_src n = h_addr (eps 0)" "length (nd_payload n) \<le> 65535" using ok(8) Cons by simp_all
    let ?net2 = "?net1\<lparr>net_endpoints := at_endpoint pop_ready ?to (net_endpoints ?net1),
        net_mem := cb__netsim_free_node free n (net_mem net), stat_delivered := stat_delivered net + 1\<rparr>"
    let ?w' = "((eps, ?net2), now)"
    have "waiting ?w' = tl (ep_ready (?g e))" unfolding waiting_def ready_at_def receiver_def
      by (simp add: e1 find_at_endpoint pop_ready_def Let_def)
    then have "waiting ?w' = tl (waiting w)" unfolding wt .
    then have wt': "waiting ?w' = ns" using Cons by simp
    have keys2: "keys (at_endpoint pop_ready ?to (net_endpoints ?net1)) = keys (net_endpoints ?net1)"
      by (rule keys_at_endpoint) (simp add: pop_ready_def Let_def)
    have "routed [] (at_endpoint pop_ready ?to (net_endpoints ?net1))" "bound (at_endpoint pop_ready ?to (net_endpoints ?net1)) ?to"
      using rt1 unfolding routed_def keys2 by blast+
    moreover have "\<forall>n \<in> set ns. nd_src n = h_addr (eps 0) \<and> length (nd_payload n) \<le> 65535" using ok(8) Cons by simp
    ultimately have "link_ok ?w'" using ok(1-4) wt'
      by (simp add: link_ok_def Let_def sender_def receiver_def image_image)
    moreover have "link_get alloc free w = Some (Some (nd_payload n), ?w')"
    proof -
      have buf: "take (length (nd_payload n)) (put_bytes 0 (nd_payload n) (replicate 65535 0)) = nd_payload n"
        by (simp add: put_bytes_def)
      have rf: "cb_netsim_recv_from free ?net1 (eps (Suc 0)) \<lparr>out_src = Some (recv_from nothing_received),
          out_buf = Some (replicate 65535 0), out_len = Some 0\<rparr> 65535
        = (CB_INFO_OK, \<lparr>out_src = Some (h_addr (eps 0)),
            out_buf = Some (if 0 < length (nd_payload n) then put_bytes 0 (nd_payload n) (replicate 65535 0) else replicate 65535 0),
            out_len = Some (length (nd_payload n))\<rparr>, ?net2)"
        using e1 wt Cons ok(2) n by (simp add: cb_netsim_recv_from_def Let_def)
      show ?thesis
        using rf n buf unfolding link_get_def Let_def w fst_conv snd_conv step [unfolded w]
        by (simp add: cb_transport_recv_def cb_transport_netsim_def CB__TRANSPORT_NETSIM_OPS_def cb__transport_netsim_recv_def
            nothing_received_def Let_def sender_def unat_of_nat)
    qed
    ultimately show ?thesis using Cons wt' by (auto simp: link_mail_def)
  qed
qed

lemma link_wait_law: "link_ok w \<Longrightarrow> link_ok (link_wait t w) \<and> link_mail (link_wait t w) = link_mail w"
  by (auto simp: link_ok_def link_wait_def link_mail_def waiting_def sender_def receiver_def Let_def intro: order_trans)

interpretation ideal_link: datagram_link "link_put alloc free" "link_get alloc free" link_wait link_mail
  "\<lambda>w. never_fails alloc \<and> link_ok w" datagram_fits
  for alloc :: "('p, 's) alloc" and free :: "('p, 's) free"
proof
  fix w :: "('p, 's) link_world" and m t
  show "\<exists>w'. link_put alloc free m w = Some w' \<and> (never_fails alloc \<and> link_ok w') \<and> link_mail w' = link_mail w @ [m]"
    if "never_fails alloc \<and> link_ok w" "datagram_fits m"
    using link_put_law [of alloc w m free] that by blast
  show "\<exists>w'. link_get alloc free w = Some (case link_mail w of [] \<Rightarrow> None | m # _ \<Rightarrow> Some m, w')
      \<and> (never_fails alloc \<and> link_ok w') \<and> link_mail w' = tl (link_mail w)"
    if "never_fails alloc \<and> link_ok w"
    using link_get_law [of w alloc free] that by blast
  show "(never_fails alloc \<and> link_ok (link_wait t w)) \<and> link_mail (link_wait t w) = link_mail w"
    if "never_fails alloc \<and> link_ok w"
    using link_wait_law [of w t] that by blast
qed

section \<open>Properties\<close>

text \<open>C8. Over an ideal link the transport is a queue.  Without impairments in the simulator below it, and
  with a clock that does not go back, any sends by one end and receives by the other, in any order and at
  any times, answer exactly what a first-in first-out queue answers: every datagram once, in order,
  unchanged, and nothing when the queue is empty.\<close>

theorem transport_ideal_fifo:
  assumes "never_fails alloc" "link_ok w" "\<forall>m. Put m \<in> set ts \<longrightarrow> datagram_fits m"
  shows "\<exists>w'. traffic_run (link_put alloc free) (link_get alloc free) link_wait ts w = Some (fifo ts (link_mail w), w')
    \<and> link_ok w'"
  using ideal_link.run_fifo [of alloc w ts free] assms by blast

definition ideal_params :: cb_netsim_params_t where
  "ideal_params = \<lparr>drop_prob = 0, dup_prob = 0, corrupt_prob = 0, latency_ms_min = 0, latency_ms_max = 0,
     reorder_prob = 0, reorder_swap_ms_min = 0, reorder_swap_ms_max = 0, max_queue_bytes = 0\<rparr>"

text \<open>An endpoint that talks to itself.\<close>

definition demo_link :: "(nat, nat) link_world" where
  "demo_link = ((\<lambda>_. demo_handle, snd (cb_netsim_bind count_alloc (cb_netsim_create 0 42 ideal_params) demo_addr)), 0)"

lemma transport_ideal_fifo_witness:
  "\<exists>w'. traffic_run (link_put count_alloc keep_free) (link_get count_alloc keep_free) link_wait
      [Put [1, 2], Put [3], Get, Wait 5, Put [], Get, Get, Get] demo_link = Some ([Some [1, 2], Some [3], Some [], None], w')"
proof -
  have "never_fails count_alloc" by (simp add: never_fails_def count_alloc_def)
  moreover have ok: "link_ok demo_link" "link_mail demo_link = []"
    by (simp_all add: link_ok_def link_mail_def waiting_def demo_link_def sender_def receiver_def demo_handle_def ready_at_def
        cb_netsim_bind_def cb_netsim_create_def ideal_params_def cb__netsim_params_ok_def count_alloc_def ideal_def
        routed_def Let_def same_addr_def)
  ultimately show ?thesis
    using transport_ideal_fifo [of count_alloc demo_link "[Put [1, 2], Put [3], Get, Wait 5, Put [], Get, Get, Get]" keep_free]
    by (auto simp: datagram_fits_def CB_NETSIM_MAX_DATAGRAM_BYTES_def)
qed

end
