(* ===== verification/Ts_Queue.thy ===== *)
theory Ts_Queue
  imports Alloc
begin

text \<open>
  The thread-safe queue of \<open>src/cbase_threading.c\<close>.  The calls of any number of threads interleave at
  the operations on the mutex and the condition variables: a thread is at a program point, the code
  between two such operations is one step of it, and the mutex has at most one owner.  A waiter
  wakes at any time; a signal wakes a waiter of its condition variable if there is one.  Locking and
  waiting may fail with an error, except in \<open>cb_tsqueue_count\<close>, which does not look whether its lock
  succeeded; signalling and unlocking do what POSIX says.  The history of the
  items stored and taken is kept beside the state to state what the queue promises.
\<close>

section \<open>Definitions\<close>

record 'a cb_tsqueue_t =
  q_items :: "'a list"
  q_capacity :: u32
  q_count :: u32
  q_head :: u32
  q_tail :: u32

text \<open>The code of a push and of a pop that runs under the mutex.\<close>

definition store_item :: "'a \<Rightarrow> 'a cb_tsqueue_t \<Rightarrow> 'a cb_tsqueue_t" where
  "store_item item q =
     q\<lparr>q_items := (q_items q)[unat (q_tail q) := item], q_tail := (q_tail q + 1) mod q_capacity q,
       q_count := q_count q + 1\<rparr>"

definition take_item :: "'a cb_tsqueue_t \<Rightarrow> 'a \<times> 'a cb_tsqueue_t" where
  "take_item q =
     (q_items q ! unat (q_head q), q\<lparr>q_head := (q_head q + 1) mod q_capacity q, q_count := q_count q - 1\<rparr>)"

text \<open>The program points.  A call is before the lock, at its test (which holds the mutex), asleep in
  \<open>cb_cond_wait\<close>, woken and about to take the mutex again, before its signal, before its unlock with
  its result, or done.\<close>

datatype 'a tsq_pc =
  Push_Lock 'a | Push_Test 'a | Push_Wait 'a | Push_Woken 'a | Push_Signal | Push_Unlock cb_info_t | Push_Done cb_info_t
| Pop_Lock | Pop_Test | Pop_Wait | Pop_Woken | Try_Lock | Try_Test
| Pop_Signal 'a | Pop_Unlock cb_info_t "'a option" | Pop_Done cb_info_t "'a option"
| Count_Lock | Count_Read | Count_Unlock u32 | Count_Done u32

record 'a tsq_sys =
  sys_q :: "'a cb_tsqueue_t"
  sys_pcs :: "'a tsq_pc list"
  sys_owner :: "nat option"
  sys_stored :: "'a list"
  sys_taken :: "(nat \<times> 'a) list"

fun at_start :: "'a tsq_pc \<Rightarrow> bool" where
  "at_start (Push_Lock _) = True" | "at_start Pop_Lock = True" | "at_start Try_Lock = True"
| "at_start Count_Lock = True" | "at_start _ = False"

fun at_end :: "'a tsq_pc \<Rightarrow> bool" where
  "at_end (Push_Done _) = True" | "at_end (Pop_Done _ _) = True" | "at_end (Count_Done _) = True" | "at_end _ = False"

text \<open>Taking the mutex: where the call goes on, and the error it returns if the lock fails.\<close>

fun after_lock :: "'a tsq_pc \<Rightarrow> 'a tsq_pc option" where
  "after_lock (Push_Lock v) = Some (Push_Test v)"
| "after_lock (Push_Woken v) = Some (Push_Test v)"
| "after_lock Pop_Lock = Some Pop_Test"
| "after_lock Pop_Woken = Some Pop_Test"
| "after_lock Try_Lock = Some Try_Test"
| "after_lock Count_Lock = Some Count_Read"
| "after_lock _ = None"

fun lock_failed :: "'a tsq_pc \<Rightarrow> 'a tsq_pc option" where
  "lock_failed (Push_Lock v) = Some (Push_Done CB_INFO_MUTEX_LOCK_FAILED)"
| "lock_failed Pop_Lock = Some (Pop_Done CB_INFO_MUTEX_LOCK_FAILED None)"
| "lock_failed Try_Lock = Some (Pop_Done CB_INFO_MUTEX_LOCK_FAILED None)"
| "lock_failed _ = None"

text \<open>Falling asleep when the test says so, which releases the mutex, or the error if waiting fails.\<close>

fun must_wait :: "'a tsq_pc \<Rightarrow> 'a cb_tsqueue_t \<Rightarrow> 'a tsq_pc option" where
  "must_wait (Push_Test v) q = (if q_count q = q_capacity q then Some (Push_Wait v) else None)"
| "must_wait Pop_Test q = (if q_count q = 0 then Some Pop_Wait else None)"
| "must_wait _ q = None"

fun wait_failed :: "'a tsq_pc \<Rightarrow> 'a cb_tsqueue_t \<Rightarrow> 'a tsq_pc option" where
  "wait_failed (Push_Test v) q =
     (if q_count q = q_capacity q then Some (Push_Unlock CB_INFO_COND_WAIT_FAILED) else None)"
| "wait_failed Pop_Test q = (if q_count q = 0 then Some (Pop_Unlock CB_INFO_COND_WAIT_FAILED None) else None)"
| "wait_failed _ q = None"

fun woken :: "'a tsq_pc \<Rightarrow> 'a tsq_pc option" where
  "woken (Push_Wait v) = Some (Push_Woken v)"
| "woken Pop_Wait = Some Pop_Woken"
| "woken _ = None"

text \<open>The waiters of \<open>not_empty\<close> and of \<open>not_full\<close>.\<close>

fun waits_not_empty :: "'a tsq_pc \<Rightarrow> bool" where
  "waits_not_empty Pop_Wait = True" | "waits_not_empty _ = False"

fun waits_not_full :: "'a tsq_pc \<Rightarrow> bool" where
  "waits_not_full (Push_Wait _) = True" | "waits_not_full _ = False"

text \<open>Unlocking, with the result.\<close>

fun after_unlock :: "'a tsq_pc \<Rightarrow> 'a tsq_pc option" where
  "after_unlock (Push_Unlock info) = Some (Push_Done info)"
| "after_unlock (Pop_Unlock info data) = Some (Pop_Done info data)"
| "after_unlock (Count_Unlock c) = Some (Count_Done c)"
| "after_unlock _ = None"

definition goto :: "nat \<Rightarrow> 'a tsq_pc \<Rightarrow> 'a tsq_sys \<Rightarrow> 'a tsq_sys" where
  "goto i pc s = s\<lparr>sys_pcs := (sys_pcs s)[i := pc]\<rparr>"

text \<open>A signal: the system after it, where \<open>j\<close> is the waiter that it wakes, if there is one.\<close>

inductive signalled :: "('a tsq_pc \<Rightarrow> bool) \<Rightarrow> 'a tsq_sys \<Rightarrow> 'a tsq_sys \<Rightarrow> bool" where
  nobody: "\<forall>pc \<in> set (sys_pcs s). \<not> waits pc \<Longrightarrow> signalled waits s s"
| somebody: "j < length (sys_pcs s) \<Longrightarrow> waits (sys_pcs s ! j) \<Longrightarrow> woken (sys_pcs s ! j) = Some pc \<Longrightarrow>
    signalled waits s (goto j pc s)"

text \<open>The steps of thread \<open>i\<close>, at program point \<open>pc\<close>.\<close>

inductive tsq_step :: "nat \<Rightarrow> 'a tsq_pc \<Rightarrow> 'a tsq_sys \<Rightarrow> 'a tsq_sys \<Rightarrow> bool" for i pc s where
  lock: "after_lock pc = Some pc' \<Longrightarrow> sys_owner s = None \<Longrightarrow>
    tsq_step i pc s (goto i pc' (s\<lparr>sys_owner := Some i\<rparr>))"
| lock_fails: "lock_failed pc = Some pc' \<Longrightarrow> tsq_step i pc s (goto i pc' s)"
| wait: "must_wait pc (sys_q s) = Some pc' \<Longrightarrow> tsq_step i pc s (goto i pc' (s\<lparr>sys_owner := None\<rparr>))"
| wait_fails: "wait_failed pc (sys_q s) = Some pc' \<Longrightarrow> tsq_step i pc s (goto i pc' s)"
| wake: "woken pc = Some pc' \<Longrightarrow> tsq_step i pc s (goto i pc' s)"
| store: "pc = Push_Test v \<Longrightarrow> q_count (sys_q s) \<noteq> q_capacity (sys_q s) \<Longrightarrow>
    tsq_step i pc s (goto i Push_Signal (s\<lparr>sys_q := store_item v (sys_q s), sys_stored := sys_stored s @ [v]\<rparr>))"
| push_signal: "pc = Push_Signal \<Longrightarrow> signalled waits_not_empty s s' \<Longrightarrow>
    tsq_step i pc s (goto i (Push_Unlock CB_INFO_OK) s')"
| take: "pc = Pop_Test \<or> pc = Try_Test \<Longrightarrow> q_count (sys_q s) \<noteq> 0 \<Longrightarrow> take_item (sys_q s) = (v, q) \<Longrightarrow>
    tsq_step i pc s (goto i (Pop_Signal v) (s\<lparr>sys_q := q, sys_taken := sys_taken s @ [(i, v)]\<rparr>))"
| pop_signal: "pc = Pop_Signal v \<Longrightarrow> signalled waits_not_full s s' \<Longrightarrow>
    tsq_step i pc s (goto i (Pop_Unlock CB_INFO_OK (Some v)) s')"
| try_empty: "pc = Try_Test \<Longrightarrow> q_count (sys_q s) = 0 \<Longrightarrow>
    tsq_step i pc s (goto i (Pop_Unlock CB_INFO_QUEUE_EMPTY None) s)"
| count: "pc = Count_Read \<Longrightarrow> tsq_step i pc s (goto i (Count_Unlock (q_count (sys_q s))) s)"
| unlock: "after_unlock pc = Some pc' \<Longrightarrow> tsq_step i pc s (goto i pc' (s\<lparr>sys_owner := None\<rparr>))"

text \<open>The empty queue of \<open>cb_tsqueue_create\<close>, and all that \<open>n\<close> threads can do with it.\<close>

definition empty_queue :: "u32 \<Rightarrow> 'a list \<Rightarrow> 'a cb_tsqueue_t" where
  "empty_queue capacity items =
     \<lparr>q_items = items, q_capacity = capacity, q_count = 0, q_head = 0, q_tail = 0\<rparr>"

definition idle_threads :: "nat \<Rightarrow> 'a cb_tsqueue_t \<Rightarrow> 'a tsq_sys" where
  "idle_threads n q = \<lparr>sys_q = q, sys_pcs = replicate n (Count_Done 0), sys_owner = None, sys_stored = [], sys_taken = []\<rparr>"

inductive tsq_reachable :: "nat \<Rightarrow> u32 \<Rightarrow> 'a tsq_sys \<Rightarrow> bool" for n capacity where
  start: "length items = unat capacity \<Longrightarrow> tsq_reachable n capacity (idle_threads n (empty_queue capacity items))"
| call: "tsq_reachable n capacity s \<Longrightarrow> i < n \<Longrightarrow> at_end (sys_pcs s ! i) \<Longrightarrow> at_start pc \<Longrightarrow>
    tsq_reachable n capacity (goto i pc s)"
| step: "tsq_reachable n capacity s \<Longrightarrow> i < n \<Longrightarrow> tsq_step i (sys_pcs s ! i) s s' \<Longrightarrow> tsq_reachable n capacity s'"

section \<open>The ring is a list\<close>

definition queue_list :: "'a cb_tsqueue_t \<Rightarrow> 'a list" where
  "queue_list q = map (\<lambda>k. q_items q ! ((unat (q_head q) + k) mod unat (q_capacity q))) [0 ..< unat (q_count q)]"

definition ring_ok :: "'a cb_tsqueue_t \<Rightarrow> bool" where
  "ring_ok q \<longleftrightarrow>
     length (q_items q) = unat (q_capacity q) \<and> q_count q \<le> q_capacity q
     \<and> (q_capacity q \<noteq> 0 \<longrightarrow> unat (q_head q) < unat (q_capacity q)
         \<and> unat (q_tail q) = (unat (q_head q) + unat (q_count q)) mod unat (q_capacity q))"

lemma unat_succ_mod:
  assumes "unat (x :: u32) < unat c"
  shows "unat ((x + 1) mod c) = (unat x + 1) mod unat c"
proof -
  have "unat c < 2 ^ 32" using unsigned_less [where 'a = nat, of c] by simp
  then have "unat (x + 1) = unat x + 1" using assms by (subst unat_word_ariths) simp
  then show ?thesis by (simp only: unat_mod)
qed

lemma mod_add_inj:
  assumes "j < c" "k < c" "(h + j) mod c = (h + k) mod (c :: nat)"
  shows "j = k"
  using assms
proof (induction j k rule: linorder_wlog)
  case (le j k)
  then have "c dvd (h + k) - (h + j)" by (metis add_le_cancel_left mod_eq_dvd_iff_nat)
  then show ?case using le by (auto dest: dvd_imp_le)
qed simp

lemma length_queue_list [simp]: "length (queue_list q) = unat (q_count q)"
  by (simp add: queue_list_def)

lemma store_item_list:
  assumes "ring_ok q" "q_count q \<noteq> q_capacity q"
  shows "ring_ok (store_item v q)" "queue_list (store_item v q) = queue_list q @ [v]"
proof -
  let ?c = "unat (q_capacity q)" and ?n = "unat (q_count q)" and ?h = "unat (q_head q)"
  have lt: "q_count q < q_capacity q" using assms by (auto simp: ring_ok_def intro: le_neq_trans)
  then have n: "?n < ?c" by (simp add: word_less_nat_alt)
  have nz: "q_capacity q \<noteq> 0" using lt by auto
  have t: "unat (q_tail q) = (?h + ?n) mod ?c" "?h < ?c" "length (q_items q) = ?c" using assms(1) nz by (simp_all add: ring_ok_def)
  have tl: "unat (q_tail q) < ?c" using t(1) n by simp
  have "?c < 2 ^ 32" using unsigned_less [where 'a = nat, of "q_capacity q"] by simp
  then have n1: "unat (q_count q + 1) = Suc ?n" using n by (subst unat_word_ariths) simp
  have t1: "unat ((q_tail q + 1) mod q_capacity q) = (?h + Suc ?n) mod ?c"
    unfolding unat_succ_mod [OF tl] t(1) by (simp add: mod_Suc_eq)
  show "ring_ok (store_item v q)"
    using assms(1) n nz t t1 n1 by (auto simp: ring_ok_def store_item_def word_le_nat_alt)
  have "(q_items q)[unat (q_tail q) := v] ! ((?h + k) mod ?c) = q_items q ! ((?h + k) mod ?c)" if "k < ?n" for k
  proof -
    have "(?h + k) mod ?c \<noteq> unat (q_tail q)"
      unfolding t(1) using mod_add_inj [of k ?c ?n ?h] that n by auto
    then show ?thesis by simp
  qed
  moreover have "(q_items q)[unat (q_tail q) := v] ! ((?h + ?n) mod ?c) = v"
    using tl t unfolding t(1) by simp
  ultimately show "queue_list (store_item v q) = queue_list q @ [v]"
    by (simp add: queue_list_def store_item_def n1)
qed

lemma take_item_list:
  assumes "ring_ok q" "q_count q \<noteq> 0" "take_item q = (v, q')"
  shows "ring_ok q'" "queue_list q = v # queue_list q'"
proof -
  let ?c = "unat (q_capacity q)" and ?n = "unat (q_count q)" and ?h = "unat (q_head q)"
  have q': "v = q_items q ! ?h" "q' = q\<lparr>q_head := (q_head q + 1) mod q_capacity q, q_count := q_count q - 1\<rparr>"
    using assms(3) by (auto simp: take_item_def)
  have le: "?n \<le> ?c" using assms(1) by (simp add: ring_ok_def word_le_nat_alt)
  have pos: "0 < ?n" using assms(2) by (simp add: unat_gt_0)
  then have nz: "q_capacity q \<noteq> 0" using le by auto
  have h: "?h < ?c" "unat (q_tail q) = (?h + ?n) mod ?c" "length (q_items q) = ?c" using assms(1) nz by (simp_all add: ring_ok_def)
  have h1: "unat ((q_head q + 1) mod q_capacity q) = (?h + 1) mod ?c" by (rule unat_succ_mod [OF h(1)])
  have n1: "unat (q_count q - 1) = ?n - 1" using assms(2) by (simp add: unat_minus_one)
  have "(?h + ?n) mod ?c = ((?h + 1) mod ?c + (?n - 1)) mod ?c" 
    by (cases ?n) (use pos in \<open>simp_all add: mod_add_left_eq\<close>)
  then show "ring_ok q'" using assms(1) le h h1 n1 pos by (auto simp: ring_ok_def q' word_le_nat_alt)
  have "[0 ..< ?n] = 0 # map Suc [0 ..< ?n - 1]" using pos by (metis One_nat_def Suc_pred' map_Suc_upt upt_conv_Cons)
  moreover have "(?h + Suc k) mod ?c = ((?h + 1) mod ?c + k) mod ?c" for k by (simp add: mod_add_left_eq)
  ultimately show "queue_list q = v # queue_list q'"
    using h(1) by (simp add: queue_list_def q' h1 n1 comp_def)
qed

section \<open>Counting threads\<close>

definition count_pcs :: "('a tsq_pc \<Rightarrow> bool) \<Rightarrow> 'a tsq_pc list \<Rightarrow> nat" where
  "count_pcs P pcs = length (filter P pcs)"

lemma count_pcs_update:
  "i < length pcs \<Longrightarrow> count_pcs P (pcs[i := pc]) + of_bool (P (pcs ! i)) = count_pcs P pcs + of_bool (P pc)"
proof (induction pcs arbitrary: i)
  case (Cons x pcs)
  then show ?case by (cases i) (auto simp: count_pcs_def)
qed simp

lemma count_pcs_0: "count_pcs P pcs = 0 \<longleftrightarrow> (\<forall>pc \<in> set pcs. \<not> P pc)"
  by (simp add: count_pcs_def filter_empty_conv)

fun holds_mutex :: "'a tsq_pc \<Rightarrow> bool" where
  "holds_mutex (Push_Test _) = True" | "holds_mutex Push_Signal = True" | "holds_mutex (Push_Unlock _) = True"
| "holds_mutex Pop_Test = True" | "holds_mutex Try_Test = True" | "holds_mutex (Pop_Signal _) = True"
| "holds_mutex (Pop_Unlock _ _) = True" | "holds_mutex Count_Read = True" | "holds_mutex (Count_Unlock _) = True"
| "holds_mutex _ = False"

text \<open>The threads on their way to take an item or to free a slot, or about to wake one.\<close>

fun will_take :: "'a tsq_pc \<Rightarrow> bool" where
  "will_take Pop_Woken = True" | "will_take Pop_Test = True" | "will_take Push_Signal = True" | "will_take _ = False"

fun will_fill :: "'a tsq_pc \<Rightarrow> bool" where
  "will_fill (Push_Woken _) = True" | "will_fill (Push_Test _) = True" | "will_fill (Pop_Signal _) = True" | "will_fill _ = False"

text \<open>What a pop has in hand or has returned.\<close>

fun in_hand :: "'a tsq_pc \<Rightarrow> 'a option" where
  "in_hand (Pop_Signal v) = Some v" | "in_hand (Pop_Unlock _ data) = data" | "in_hand (Pop_Done _ data) = data"
| "in_hand _ = None"

definition last_taken :: "nat \<Rightarrow> (nat \<times> 'a) list \<Rightarrow> 'a option" where
  "last_taken i taken =
     (let own = filter (\<lambda>t. fst t = i) taken in if own = [] then None else Some (snd (last own)))"

lemma last_taken_append: "last_taken i (taken @ [(j, v)]) = (if j = i then Some v else last_taken i taken)"
  by (simp add: last_taken_def)

section \<open>The invariant\<close>

definition mutex_ok :: "'a tsq_sys \<Rightarrow> bool" where
  "mutex_ok s \<longleftrightarrow> (\<forall>i < length (sys_pcs s). holds_mutex (sys_pcs s ! i) \<longleftrightarrow> sys_owner s = Some i)
     \<and> (\<forall>i. sys_owner s = Some i \<longrightarrow> i < length (sys_pcs s))"

definition history_ok :: "'a tsq_sys \<Rightarrow> bool" where
  "history_ok s \<longleftrightarrow> ring_ok (sys_q s) \<and> sys_stored s = map snd (sys_taken s) @ queue_list (sys_q s)
     \<and> (\<forall>i < length (sys_pcs s). \<forall>v. in_hand (sys_pcs s ! i) = Some v \<longrightarrow> last_taken i (sys_taken s) = Some v)"

definition wakeups_ok :: "'a tsq_sys \<Rightarrow> bool" where
  "wakeups_ok s \<longleftrightarrow>
     (0 < count_pcs waits_not_empty (sys_pcs s) \<longrightarrow> unat (q_count (sys_q s)) \<le> count_pcs will_take (sys_pcs s))
     \<and> (0 < count_pcs waits_not_full (sys_pcs s) \<longrightarrow>
         unat (q_capacity (sys_q s)) \<le> unat (q_count (sys_q s)) + count_pcs will_fill (sys_pcs s))"

lemma goto_simps [simp]:
  "sys_q (goto i pc s) = sys_q s" "sys_pcs (goto i pc s) = (sys_pcs s)[i := pc]" "sys_owner (goto i pc s) = sys_owner s"
  "sys_stored (goto i pc s) = sys_stored s" "sys_taken (goto i pc s) = sys_taken s"
  by (simp_all add: goto_def)

lemma mutex_goto:
  assumes "mutex_ok s" "i < length (sys_pcs s)"
  shows "holds_mutex pc = holds_mutex (sys_pcs s ! i) \<Longrightarrow> mutex_ok (goto i pc s)"
    "holds_mutex pc \<Longrightarrow> sys_owner s = None \<Longrightarrow> mutex_ok (goto i pc (s\<lparr>sys_owner := Some i\<rparr>))"
    "holds_mutex (sys_pcs s ! i) \<Longrightarrow> \<not> holds_mutex pc \<Longrightarrow> mutex_ok (goto i pc (s\<lparr>sys_owner := None\<rparr>))"
  using assms by (auto simp: mutex_ok_def nth_list_update)

lemma mutex_frame:
  "sys_pcs s' = sys_pcs s \<Longrightarrow> sys_owner s' = sys_owner s \<Longrightarrow> mutex_ok s' = mutex_ok s"
  by (simp add: mutex_ok_def)

lemma history_goto:
  assumes "history_ok s" "i < length (sys_pcs s)" "in_hand pc = None \<or> in_hand pc = in_hand (sys_pcs s ! i)"
  shows "history_ok (goto i pc (s\<lparr>sys_owner := owner\<rparr>))" "history_ok (goto i pc s)"
  using assms by (auto simp: history_ok_def nth_list_update split: if_splits)

text \<open>The effect of each kind of step on a program point.\<close>

lemma after_lock_facts:
  "after_lock pc = Some pc' \<Longrightarrow> holds_mutex pc' \<and> in_hand pc' = None \<and> \<not> waits_not_empty pc \<and> \<not> waits_not_empty pc'
    \<and> \<not> waits_not_full pc \<and> \<not> waits_not_full pc' \<and> (will_take pc \<longrightarrow> will_take pc') \<and> (will_fill pc \<longrightarrow> will_fill pc')"
  by (cases pc) auto

lemma lock_failed_facts:
  "lock_failed pc = Some pc' \<Longrightarrow> \<not> holds_mutex pc \<and> \<not> holds_mutex pc' \<and> in_hand pc' = None \<and> \<not> waits_not_empty pc'
    \<and> \<not> waits_not_full pc' \<and> \<not> will_take pc \<and> \<not> will_fill pc"
  by (cases pc) auto

lemma must_wait_facts:
  "must_wait pc q = Some pc' \<Longrightarrow> holds_mutex pc \<and> \<not> holds_mutex pc' \<and> in_hand pc' = None
    \<and> (waits_not_empty pc' \<longrightarrow> q_count q = 0) \<and> (waits_not_full pc' \<longrightarrow> q_count q = q_capacity q)
    \<and> (will_take pc \<longrightarrow> q_count q = 0) \<and> (will_fill pc \<longrightarrow> q_count q = q_capacity q)"
  by (cases pc) (auto split: if_splits)

lemma wait_failed_facts:
  "wait_failed pc q = Some pc' \<Longrightarrow> holds_mutex pc \<and> holds_mutex pc' \<and> in_hand pc' = None
    \<and> \<not> waits_not_empty pc' \<and> \<not> waits_not_full pc'
    \<and> (will_take pc \<longrightarrow> q_count q = 0) \<and> (will_fill pc \<longrightarrow> q_count q = q_capacity q)"
  by (cases pc) (auto split: if_splits)

lemma woken_facts:
  "woken pc = Some pc' \<Longrightarrow> \<not> holds_mutex pc \<and> \<not> holds_mutex pc' \<and> in_hand pc = None \<and> in_hand pc' = None
    \<and> \<not> waits_not_empty pc' \<and> \<not> waits_not_full pc' \<and> \<not> will_take pc \<and> \<not> will_fill pc
    \<and> (waits_not_empty pc \<longrightarrow> will_take pc') \<and> (waits_not_full pc \<longrightarrow> will_fill pc')"
  by (cases pc) auto

lemma after_unlock_facts:
  "after_unlock pc = Some pc' \<Longrightarrow> holds_mutex pc \<and> \<not> holds_mutex pc' \<and> in_hand pc' = in_hand pc
    \<and> \<not> waits_not_empty pc \<and> \<not> waits_not_empty pc' \<and> \<not> waits_not_full pc \<and> \<not> waits_not_full pc'
    \<and> \<not> will_take pc \<and> \<not> will_fill pc"
  by (cases pc) auto

text \<open>The bookkeeping of a program point that changes.\<close>

lemma wakeups_goto:
  assumes "wakeups_ok s" "i < length (sys_pcs s)"
    and "waits_not_empty pc \<longrightarrow> waits_not_empty (sys_pcs s ! i) \<or> q_count (sys_q s) = 0"
    and "waits_not_full pc \<longrightarrow> waits_not_full (sys_pcs s ! i) \<or> q_count (sys_q s) = q_capacity (sys_q s)"
    and "will_take (sys_pcs s ! i) \<longrightarrow> will_take pc \<or> q_count (sys_q s) = 0"
    and "will_fill (sys_pcs s ! i) \<longrightarrow> will_fill pc \<or> q_count (sys_q s) = q_capacity (sys_q s)"
  shows "wakeups_ok (goto i pc (s\<lparr>sys_owner := owner\<rparr>))" "wakeups_ok (goto i pc s)"
proof -
  note u = count_pcs_update [OF assms(2), of _ pc]
  have "wakeups_ok (goto i pc s)"
    using assms(1,3-6) u [of waits_not_empty] u [of waits_not_full] u [of will_take] u [of will_fill]
    unfolding wakeups_ok_def goto_simps
    by (auto simp: of_bool_def split: if_splits)
  then show "wakeups_ok (goto i pc s)" "wakeups_ok (goto i pc (s\<lparr>sys_owner := owner\<rparr>))"
    by (simp_all add: wakeups_ok_def)
qed

lemma signalled_frame:
  assumes "signalled waits s s'"
  shows "sys_q s' = sys_q s" "sys_owner s' = sys_owner s" "sys_stored s' = sys_stored s" "sys_taken s' = sys_taken s"
    "length (sys_pcs s') = length (sys_pcs s)"
  using assms by (auto elim: signalled.cases)

lemma signalled_keeps:
  assumes "signalled waits s s'" "mutex_ok s" "history_ok s"
  shows "mutex_ok s' \<and> history_ok s'"
  using assms(1)
proof cases
  case (somebody j pc)
  note f = woken_facts [OF somebody(4)]
  then show ?thesis
    using mutex_goto(1) [OF assms(2) somebody(2), of pc] history_goto(2) [OF assms(3) somebody(2), of pc] somebody(1) by simp
qed (use assms in simp)

lemma wakeups_signal:
  assumes "wakeups_ok s" "i < length (sys_pcs s)"
  shows "sys_pcs s ! i = Push_Signal \<Longrightarrow> signalled waits_not_empty s s' \<Longrightarrow> wakeups_ok (goto i (Push_Unlock info) s')"
    "sys_pcs s ! i = Pop_Signal v \<Longrightarrow> signalled waits_not_full s s' \<Longrightarrow> wakeups_ok (goto i (Pop_Unlock info data) s')"
proof -
  assume pc: "sys_pcs s ! i = Push_Signal" and sg: "signalled waits_not_empty s s'"
  note u = count_pcs_update [OF assms(2), of _ "Push_Unlock info", unfolded pc]
  from sg show "wakeups_ok (goto i (Push_Unlock info) s')"
  proof cases
    case nobody
    then have "count_pcs waits_not_empty (sys_pcs s) = 0" by (simp add: count_pcs_0)
    then show ?thesis using assms(1) u [of waits_not_empty] u [of waits_not_full] u [of will_fill] nobody(1)
      by (simp add: wakeups_ok_def)
  next
    case (somebody j pc')
    note f = woken_facts [OF somebody(4)]
    have ij: "i \<noteq> j" using pc somebody(3) by auto
    have nf: "\<not> waits_not_full (sys_pcs s ! j)" using somebody(3) by (cases "sys_pcs s ! j") auto
    have "i < length ((sys_pcs s)[j := pc'])" using assms(2) by simp
    note u = count_pcs_update [OF this, of _ "Push_Unlock info"] count_pcs_update [OF somebody(2), of _ pc']
    have "(sys_pcs s)[j := pc'] ! i = Push_Signal" using ij pc by simp
    then show ?thesis
      using assms(1) u(1) [of waits_not_empty] u(1) [of waits_not_full] u(1) [of will_take] u(1) [of will_fill]
        u(2) [of waits_not_empty] u(2) [of waits_not_full] u(2) [of will_take] u(2) [of will_fill] f somebody(1,3) nf
      by (auto simp: wakeups_ok_def of_bool_def split: if_splits)
  qed
next
  assume pc: "sys_pcs s ! i = Pop_Signal v" and sg: "signalled waits_not_full s s'"
  note u = count_pcs_update [OF assms(2), of _ "Pop_Unlock info data", unfolded pc]
  from sg show "wakeups_ok (goto i (Pop_Unlock info data) s')"
  proof cases
    case nobody
    then have "count_pcs waits_not_full (sys_pcs s) = 0" by (simp add: count_pcs_0)
    then show ?thesis using assms(1) u [of waits_not_empty] u [of waits_not_full] u [of will_take] nobody(1)
      by (simp add: wakeups_ok_def)
  next
    case (somebody j pc')
    note f = woken_facts [OF somebody(4)]
    have ij: "i \<noteq> j" using pc somebody(3) by auto
    have nf: "\<not> waits_not_empty (sys_pcs s ! j)" using somebody(3) by (cases "sys_pcs s ! j") auto
    have "i < length ((sys_pcs s)[j := pc'])" using assms(2) by simp
    note u = count_pcs_update [OF this, of _ "Pop_Unlock info data"] count_pcs_update [OF somebody(2), of _ pc']
    have "(sys_pcs s)[j := pc'] ! i = Pop_Signal v" using ij pc by simp
    then show ?thesis
      using assms(1) u(1) [of waits_not_empty] u(1) [of waits_not_full] u(1) [of will_take] u(1) [of will_fill]
        u(2) [of waits_not_empty] u(2) [of waits_not_full] u(2) [of will_take] u(2) [of will_fill] f somebody(1,3) nf
      by (auto simp: wakeups_ok_def of_bool_def split: if_splits)
  qed
qed

definition tsq_inv :: "nat \<Rightarrow> u32 \<Rightarrow> 'a tsq_sys \<Rightarrow> bool" where
  "tsq_inv n capacity s \<longleftrightarrow>
     length (sys_pcs s) = n \<and> q_capacity (sys_q s) = capacity \<and> mutex_ok s \<and> history_ok s \<and> wakeups_ok s"

lemma inv_goto:
  assumes "tsq_inv n c s" "i < n"
    and "in_hand pc = None \<or> in_hand pc = in_hand (sys_pcs s ! i)"
    and "waits_not_empty pc \<longrightarrow> waits_not_empty (sys_pcs s ! i) \<or> q_count (sys_q s) = 0"
    and "waits_not_full pc \<longrightarrow> waits_not_full (sys_pcs s ! i) \<or> q_count (sys_q s) = q_capacity (sys_q s)"
    and "will_take (sys_pcs s ! i) \<longrightarrow> will_take pc \<or> q_count (sys_q s) = 0"
    and "will_fill (sys_pcs s ! i) \<longrightarrow> will_fill pc \<or> q_count (sys_q s) = q_capacity (sys_q s)"
  shows "holds_mutex pc = holds_mutex (sys_pcs s ! i) \<Longrightarrow> tsq_inv n c (goto i pc s)"
    "holds_mutex pc \<Longrightarrow> sys_owner s = None \<Longrightarrow> tsq_inv n c (goto i pc (s\<lparr>sys_owner := Some i\<rparr>))"
    "holds_mutex (sys_pcs s ! i) \<Longrightarrow> \<not> holds_mutex pc \<Longrightarrow> tsq_inv n c (goto i pc (s\<lparr>sys_owner := None\<rparr>))"
proof -
  have i: "i < length (sys_pcs s)" using assms(1,2) by (simp add: tsq_inv_def)
  have "mutex_ok s" "history_ok s" "wakeups_ok s" using assms(1) by (simp_all add: tsq_inv_def)
  note keep = history_goto [OF this(2) i assms(3)] wakeups_goto [OF this(3) i assms(4-7)] mutex_goto [OF this(1) i, of pc]
  show "holds_mutex pc = holds_mutex (sys_pcs s ! i) \<Longrightarrow> tsq_inv n c (goto i pc s)"
    "holds_mutex pc \<Longrightarrow> sys_owner s = None \<Longrightarrow> tsq_inv n c (goto i pc (s\<lparr>sys_owner := Some i\<rparr>))"
    "holds_mutex (sys_pcs s ! i) \<Longrightarrow> \<not> holds_mutex pc \<Longrightarrow> tsq_inv n c (goto i pc (s\<lparr>sys_owner := None\<rparr>))"
    using keep assms(1) by (simp_all add: tsq_inv_def)
qed

lemma inv_store:
  assumes "tsq_inv n c s" "i < n" "sys_pcs s ! i = Push_Test v" "q_count (sys_q s) \<noteq> q_capacity (sys_q s)"
  shows "tsq_inv n c (goto i Push_Signal (s\<lparr>sys_q := store_item v (sys_q s), sys_stored := sys_stored s @ [v]\<rparr>))"
proof -
  let ?s' = "s\<lparr>sys_q := store_item v (sys_q s), sys_stored := sys_stored s @ [v]\<rparr>"
  have i: "i < length (sys_pcs s)" using assms(1,2) by (simp add: tsq_inv_def)
  have ok: "mutex_ok s" "history_ok s" "wakeups_ok s" using assms(1) by (simp_all add: tsq_inv_def)
  have ring: "ring_ok (sys_q s)" using ok(2) by (simp add: history_ok_def)
  note l = store_item_list [OF ring assms(4), of v]
  have f: "q_capacity (store_item v (sys_q s)) = q_capacity (sys_q s)"
    "q_count (store_item v (sys_q s)) = q_count (sys_q s) + 1" by (simp_all add: store_item_def)
  have "unat (q_count (sys_q s)) + 1 = unat (q_count (sys_q s) + 1)"
    using length_queue_list [of "store_item v (sys_q s)"] unfolding l(2) f(2) by simp
  note n1 = this [symmetric]
  note u = count_pcs_update [OF i, of _ Push_Signal, unfolded assms(3)]
  have "wakeups_ok (goto i Push_Signal ?s')"
    using ok(3) u [of waits_not_empty] u [of waits_not_full] u [of will_take] u [of will_fill] n1
    by (auto simp: wakeups_ok_def f)
  moreover have "history_ok (goto i Push_Signal ?s')"
    using ok(2) i l by (auto simp: history_ok_def nth_list_update split: if_splits)
  moreover have "mutex_ok (goto i Push_Signal s)" using mutex_goto(1) [OF ok(1) i] assms(3) by simp
  then have "mutex_ok (goto i Push_Signal ?s')" by (simp add: mutex_ok_def)
  ultimately show ?thesis using assms(1) by (simp add: tsq_inv_def f)
qed

lemma inv_take:
  assumes "tsq_inv n c s" "i < n" "sys_pcs s ! i = Pop_Test \<or> sys_pcs s ! i = Try_Test" "q_count (sys_q s) \<noteq> 0"
    and "take_item (sys_q s) = (v, q)"
  shows "tsq_inv n c (goto i (Pop_Signal v) (s\<lparr>sys_q := q, sys_taken := sys_taken s @ [(i, v)]\<rparr>))"
proof -
  let ?s' = "s\<lparr>sys_q := q, sys_taken := sys_taken s @ [(i, v)]\<rparr>"
  have i: "i < length (sys_pcs s)" using assms(1,2) by (simp add: tsq_inv_def)
  have ok: "mutex_ok s" "history_ok s" "wakeups_ok s" using assms(1) by (simp_all add: tsq_inv_def)
  have ring: "ring_ok (sys_q s)" using ok(2) by (simp add: history_ok_def)
  note l = take_item_list [OF ring assms(4,5)]
  have f: "q_capacity q = q_capacity (sys_q s)" using assms(5) by (auto simp: take_item_def)
  have n1: "unat (q_count (sys_q s)) = Suc (unat (q_count q))"
    using length_queue_list [of "sys_q s"] unfolding l(2) by simp
  note u = count_pcs_update [OF i, of _ "Pop_Signal v"]
  have "wakeups_ok (goto i (Pop_Signal v) ?s')"
    using ok(3) assms(3) u [of waits_not_empty] u [of waits_not_full] u [of will_take] u [of will_fill] n1
    by (auto simp: wakeups_ok_def f)
  moreover have "history_ok (goto i (Pop_Signal v) ?s')"
    using ok(2) i l by (auto simp: history_ok_def nth_list_update last_taken_append split: if_splits)
  moreover have "mutex_ok (goto i (Pop_Signal v) s)" using mutex_goto(1) [OF ok(1) i] assms(3) by auto
  then have "mutex_ok (goto i (Pop_Signal v) ?s')" by (simp add: mutex_ok_def)
  ultimately show ?thesis using assms(1) by (simp add: tsq_inv_def f)
qed

lemma inv_signal:
  assumes "tsq_inv n c s" "i < n"
  shows "sys_pcs s ! i = Push_Signal \<Longrightarrow> signalled waits_not_empty s s' \<Longrightarrow> tsq_inv n c (goto i (Push_Unlock info) s')"
    "sys_pcs s ! i = Pop_Signal v \<Longrightarrow> signalled waits_not_full s s' \<Longrightarrow> tsq_inv n c (goto i (Pop_Unlock info (Some v)) s')"
proof -
  have i: "i < length (sys_pcs s)" using assms by (simp add: tsq_inv_def)
  have ok: "mutex_ok s" "history_ok s" "wakeups_ok s" using assms(1) by (simp_all add: tsq_inv_def)
  have same: "sys_pcs s' ! i = sys_pcs s ! i" if "signalled waits s s'" "\<not> waits (sys_pcs s ! i)" for waits
    using that(1)
  proof cases
    case (somebody j pc)
    then show ?thesis using that(2) by (cases "i = j") auto
  qed simp
  have keep: "tsq_inv n c (goto i pc s')" if "signalled waits s s'" "\<not> waits (sys_pcs s ! i)" "wakeups_ok (goto i pc s')"
    "holds_mutex pc = holds_mutex (sys_pcs s ! i)" "in_hand pc = in_hand (sys_pcs s ! i)" for waits pc
  proof -
    note fr = signalled_frame [OF that(1)]
    have k: "mutex_ok s'" "history_ok s'" using signalled_keeps [OF that(1) ok(1,2)] by auto
    have i': "i < length (sys_pcs s')" using i fr by simp
    show ?thesis using mutex_goto(1) [OF k(1) i', of pc] history_goto(2) [OF k(2) i', of pc] that same [OF that(1,2)] fr assms(1)
      by (simp add: tsq_inv_def)
  qed
  show "sys_pcs s ! i = Push_Signal \<Longrightarrow> signalled waits_not_empty s s' \<Longrightarrow> tsq_inv n c (goto i (Push_Unlock info) s')"
    using keep wakeups_signal(1) [OF ok(3) i] by simp
  show "sys_pcs s ! i = Pop_Signal v \<Longrightarrow> signalled waits_not_full s s' \<Longrightarrow> tsq_inv n c (goto i (Pop_Unlock info (Some v)) s')"
    using keep wakeups_signal(2) [OF ok(3) i] by simp
qed

lemma inv_step:
  assumes "tsq_step i (sys_pcs s ! i) s s'" "tsq_inv n c s" "i < n"
  shows "tsq_inv n c s'"
  using assms(1)
proof cases
  case (lock pc')
  have "\<not> holds_mutex (sys_pcs s ! i)" using lock(2,3) by (cases "sys_pcs s ! i") auto
  then show ?thesis unfolding lock(1) using after_lock_facts [OF lock(2)] lock(3) by (intro inv_goto(2) [OF assms(2,3)]) auto
next
  case (lock_fails pc')
  then show ?thesis using lock_failed_facts [OF lock_fails(2)] by (auto intro: inv_goto(1) [OF assms(2,3)])
next
  case (wait pc')
  then show ?thesis using must_wait_facts [OF wait(2)] by (auto intro: inv_goto(3) [OF assms(2,3)])
next
  case (wait_fails pc')
  then show ?thesis using wait_failed_facts [OF wait_fails(2)] by (auto intro: inv_goto(1) [OF assms(2,3)])
next
  case (wake pc')
  then show ?thesis using woken_facts [OF wake(2)] by (auto intro: inv_goto(1) [OF assms(2,3)])
next
  case (store v)
  then show ?thesis using inv_store [OF assms(2,3)] by simp
next
  case (push_signal s1)
  then show ?thesis using inv_signal(1) [OF assms(2,3)] by simp
next
  case (take v q)
  then show ?thesis using inv_take [OF assms(2,3)] by simp
next
  case (pop_signal v s1)
  then show ?thesis using inv_signal(2) [OF assms(2,3)] by simp
next
  case try_empty
  then show ?thesis by (auto intro: inv_goto(1) [OF assms(2,3)])
next
  case count
  then show ?thesis by (auto intro: inv_goto(1) [OF assms(2,3)])
next
  case (unlock pc')
  then show ?thesis using after_unlock_facts [OF unlock(2)] by (auto intro: inv_goto(3) [OF assms(2,3)])
qed

lemma inv_start:
  assumes "length items = unat c"
  shows "tsq_inv n c (idle_threads n (empty_queue c items))"
proof -
  have "count_pcs P (replicate n (Count_Done 0)) = 0" if "\<not> P (Count_Done 0)" for P :: "'a tsq_pc \<Rightarrow> bool"
    using that by (simp add: count_pcs_0)
  then show ?thesis using assms
    by (simp add: tsq_inv_def idle_threads_def empty_queue_def mutex_ok_def history_ok_def wakeups_ok_def ring_ok_def
        queue_list_def unat_gt_0)
qed

lemma reachable_inv: "tsq_reachable n c s \<Longrightarrow> tsq_inv n c s"
proof (induction rule: tsq_reachable.induct)
  case (start items)
  then show ?case by (rule inv_start)
next
  case (call s i pc)
  have "\<not> holds_mutex pc" "in_hand pc = None" "\<not> waits_not_empty pc" "\<not> waits_not_full pc"
    using call(4) by (cases pc; simp)+
  moreover have "\<not> holds_mutex (sys_pcs s ! i)" "\<not> will_take (sys_pcs s ! i)" "\<not> will_fill (sys_pcs s ! i)"
    using call(3) by (cases "sys_pcs s ! i"; simp)+
  ultimately show ?case using call by (intro inv_goto(1)) auto
next
  case (step s i s')
  then show ?case by (blast intro: inv_step)
qed

section \<open>What the queue promises\<close>

text \<open>C9. The thread-safe queue is first-in first-out and loses and duplicates nothing, whatever the
  interleaving: the items stored are the items taken, in the same order, followed by those in the ring;
  the ring never holds more than its capacity; at most one thread is inside the critical sections; and
  a pop that has returned an item returned the last item that its thread took.\<close>

lemma tsqueue_fifo:
  assumes "tsq_reachable n capacity s"
  shows "sys_stored s = map snd (sys_taken s) @ queue_list (sys_q s)
    \<and> length (queue_list (sys_q s)) = unat (q_count (sys_q s)) \<and> q_count (sys_q s) \<le> capacity
    \<and> (\<forall>i j. i < n \<longrightarrow> j < n \<longrightarrow> holds_mutex (sys_pcs s ! i) \<longrightarrow> holds_mutex (sys_pcs s ! j) \<longrightarrow> i = j)
    \<and> (\<forall>i info v. i < n \<longrightarrow> sys_pcs s ! i = Pop_Done info (Some v) \<longrightarrow> last_taken i (sys_taken s) = Some v)"
proof -
  have inv: "tsq_inv n capacity s" by (rule reachable_inv [OF assms])
  then have "q_count (sys_q s) \<le> capacity" "sys_stored s = map snd (sys_taken s) @ queue_list (sys_q s)"
    by (auto simp: tsq_inv_def history_ok_def ring_ok_def)
  moreover have "i = j" if "i < n" "j < n" "holds_mutex (sys_pcs s ! i)" "holds_mutex (sys_pcs s ! j)" for i j
    using inv that by (simp add: tsq_inv_def mutex_ok_def)
  moreover have "last_taken i (sys_taken s) = Some v" if "i < n" "sys_pcs s ! i = Pop_Done info (Some v)" for i info v
    using inv that by (simp add: tsq_inv_def history_ok_def)
  ultimately show ?thesis by simp
qed

text \<open>A thread that is asleep in a condition variable, and one that runs: it is in a call and awake.\<close>

definition asleep :: "'a tsq_pc \<Rightarrow> bool" where
  "asleep pc \<longleftrightarrow> waits_not_empty pc \<or> waits_not_full pc"

definition runs :: "'a tsq_pc \<Rightarrow> bool" where
  "runs pc \<longleftrightarrow> \<not> at_end pc \<and> \<not> asleep pc"

lemma signalled_ex: 
  assumes "\<And>pc. waits pc \<Longrightarrow> asleep pc"
  shows "\<exists>s'. signalled waits s s'"
proof (cases "\<exists>j < length (sys_pcs s). waits (sys_pcs s ! j)")
  case True
  then obtain j where j: "j < length (sys_pcs s)" "waits (sys_pcs s ! j)" by blast
  obtain pc where "woken (sys_pcs s ! j) = Some pc"
    using assms [OF j(2)] by (cases "sys_pcs s ! j") (auto simp: asleep_def)
  then show ?thesis using j by (blast intro: signalled.somebody)
next
  case False
  then have "signalled waits s s" by (intro signalled.nobody) (auto simp: in_set_conv_nth)
  then show ?thesis ..
qed

lemma owner_steps:
  assumes "holds_mutex pc"
  shows "\<exists>s'. tsq_step i pc s s'"
proof (cases "must_wait pc (sys_q s)")
  case None
  then show ?thesis
  proof (cases pc)
    case (Push_Test v)
    then show ?thesis using None by (auto intro: tsq_step.store split: if_splits)
  next
    case Push_Signal
    obtain s' where "signalled waits_not_empty s s'" using signalled_ex [of waits_not_empty s] by (auto simp: asleep_def)
    then show ?thesis using Push_Signal by (blast intro: tsq_step.push_signal)
  next
    case Pop_Test
    then show ?thesis using None by (cases "take_item (sys_q s)") (auto intro: tsq_step.take split: if_splits)
  next
    case Try_Test
    then show ?thesis
      by (cases "q_count (sys_q s) = 0"; cases "take_item (sys_q s)") (auto intro: tsq_step.try_empty tsq_step.take)
  next
    case (Pop_Signal v)
    obtain s' where "signalled waits_not_full s s'" using signalled_ex [of waits_not_full s] by (auto simp: asleep_def)
    then show ?thesis using Pop_Signal by (blast intro: tsq_step.pop_signal)
  next
    case Count_Read
    then show ?thesis by (blast intro: tsq_step.count)
  qed (use assms in \<open>auto intro: tsq_step.unlock intro!: exI\<close>)
qed (blast intro: tsq_step.wait)

lemma will_runs: "will_take pc \<Longrightarrow> runs pc" "will_fill pc \<Longrightarrow> runs pc"
  by (cases pc; simp add: runs_def asleep_def)+

lemma runs_locks:
  assumes "runs pc" "\<not> holds_mutex pc"
  shows "\<exists>pc'. after_lock pc = Some pc'"
  using assms by (cases pc) (auto simp: runs_def asleep_def)

lemma runner_steps:
  assumes "tsq_inv n capacity s" "i < n" "runs (sys_pcs s ! i)"
  shows "\<exists>j < n. \<exists>s'. sys_owner s \<in> {None, Some j} \<and> runs (sys_pcs s ! j) \<and> tsq_step j (sys_pcs s ! j) s s'"
proof -
  have mx: "mutex_ok s" and len: "length (sys_pcs s) = n" using assms(1) by (simp_all add: tsq_inv_def)
  show ?thesis
  proof (cases "sys_owner s")
    case None
    then have "\<not> holds_mutex (sys_pcs s ! i)" using mx assms(2) by (simp add: mutex_ok_def len)
    then obtain pc' where "after_lock (sys_pcs s ! i) = Some pc'" using runs_locks [OF assms(3)] by blast
    then show ?thesis using None assms(2,3) tsq_step.lock by blast
  next
    case (Some j)
    then have j: "j < n" "holds_mutex (sys_pcs s ! j)" using mx by (auto simp: mutex_ok_def len)
    then have "runs (sys_pcs s ! j)" by (cases "sys_pcs s ! j") (auto simp: runs_def asleep_def)
    then show ?thesis using owner_steps [OF j(2)] j(1) Some by blast
  qed
qed

lemma idle_waits:
  assumes "tsq_inv n capacity s" "\<forall>i < n. \<not> runs (sys_pcs s ! i)" "i < n"
  shows "sys_pcs s ! i = Pop_Wait \<Longrightarrow> q_count (sys_q s) = 0"
    "sys_pcs s ! i = Push_Wait v \<Longrightarrow> q_count (sys_q s) = capacity"
proof -
  have len: "length (sys_pcs s) = n" using assms(1) by (simp add: tsq_inv_def)
  have "count_pcs will_take (sys_pcs s) = 0" "count_pcs will_fill (sys_pcs s) = 0"
    using assms(2) will_runs by (fastforce simp: count_pcs_0 in_set_conv_nth len)+
  note w = this assms(1)
  show "q_count (sys_q s) = 0" if "sys_pcs s ! i = Pop_Wait"
  proof -
    have "count_pcs waits_not_empty (sys_pcs s) \<noteq> 0"
      unfolding count_pcs_0 using that assms(3) len by (metis nth_mem waits_not_empty.simps(1))
    then show ?thesis using w by (simp add: tsq_inv_def wakeups_ok_def unat_eq_zero)
  qed
  show "q_count (sys_q s) = capacity" if "sys_pcs s ! i = Push_Wait v"
  proof -
    have "count_pcs waits_not_full (sys_pcs s) \<noteq> 0"
      unfolding count_pcs_0 using that assms(3) len by (metis nth_mem waits_not_full.simps(1))
    then have "capacity \<le> q_count (sys_q s)" using w by (auto simp: tsq_inv_def wakeups_ok_def word_le_nat_alt)
    moreover have "q_count (sys_q s) \<le> capacity" using assms(1) by (auto simp: tsq_inv_def history_ok_def ring_ok_def)
    ultimately show ?thesis by simp
  qed
qed

text \<open>C10. No wakeup is lost and the queue does not deadlock: while some thread is in a call and awake, a
  thread that is awake can take a step, the owner of the mutex if it has one; and when none is left that runs, a pop still sleeps only if the
  queue is empty and a push still sleeps only if it is full.\<close>

lemma tsqueue_no_lost_wakeup:
  assumes "tsq_reachable n capacity s"
  shows "(\<forall>i < n. runs (sys_pcs s ! i) \<longrightarrow>
      (\<exists>j < n. \<exists>s'. sys_owner s \<in> {None, Some j} \<and> runs (sys_pcs s ! j) \<and> tsq_step j (sys_pcs s ! j) s s'))
    \<and> ((\<forall>i < n. \<not> runs (sys_pcs s ! i)) \<longrightarrow>
        ((\<exists>i < n. sys_pcs s ! i = Pop_Wait) \<longrightarrow> q_count (sys_q s) = 0)
        \<and> ((\<exists>i < n. \<exists>v. sys_pcs s ! i = Push_Wait v) \<longrightarrow> q_count (sys_q s) = capacity))"
  using runner_steps [OF reachable_inv [OF assms]] idle_waits [OF reachable_inv [OF assms]] by blast

text \<open>Two small runs: a push of 7 that has stored its item, and a pop that sleeps on the empty queue.\<close>

definition after_push :: "nat tsq_sys" where
  "after_push =
     (let s = idle_threads 1 (empty_queue 2 [0, 0]); s = goto 0 (Push_Lock 7) s;
          s = goto 0 (Push_Test 7) (s\<lparr>sys_owner := Some 0\<rparr>)
      in goto 0 Push_Signal (s\<lparr>sys_q := store_item 7 (sys_q s), sys_stored := sys_stored s @ [7]\<rparr>))"

definition sleeping_pop :: "nat tsq_sys" where
  "sleeping_pop =
     (let s = idle_threads 1 (empty_queue 2 [0, 0]); s = goto 0 Pop_Lock s;
          s = goto 0 Pop_Test (s\<lparr>sys_owner := Some 0\<rparr>)
      in goto 0 Pop_Wait (s\<lparr>sys_owner := None\<rparr>))"

lemma after_push_reachable: "tsq_reachable 1 2 after_push"
proof -
  let ?s0 = "idle_threads 1 (empty_queue 2 [0, 0]) :: nat tsq_sys"
  let ?s1 = "goto 0 (Push_Lock 7) ?s0"
  let ?s2 = "goto 0 (Push_Test 7) (?s1\<lparr>sys_owner := Some 0\<rparr>)"
  have "tsq_reachable 1 2 ?s0" by (rule tsq_reachable.start) simp
  then have r1: "tsq_reachable 1 2 ?s1" by (rule tsq_reachable.call) (simp_all add: idle_threads_def)
  have "tsq_step 0 (sys_pcs ?s1 ! 0) ?s1 ?s2" by (rule tsq_step.lock) (simp_all add: idle_threads_def)
  then have r2: "tsq_reachable 1 2 ?s2" using tsq_reachable.step [OF r1] by simp
  have "tsq_step 0 (sys_pcs ?s2 ! 0) ?s2 after_push"
    unfolding after_push_def Let_def by (rule tsq_step.store) (simp_all add: idle_threads_def empty_queue_def)
  then show ?thesis using tsq_reachable.step [OF r2] by simp
qed

lemma sleeping_pop_reachable: "tsq_reachable 1 2 sleeping_pop"
proof -
  let ?s0 = "idle_threads 1 (empty_queue 2 [0, 0]) :: nat tsq_sys"
  let ?s1 = "goto 0 Pop_Lock ?s0"
  let ?s2 = "goto 0 Pop_Test (?s1\<lparr>sys_owner := Some 0\<rparr>)"
  have "tsq_reachable 1 2 ?s0" by (rule tsq_reachable.start) simp
  then have r1: "tsq_reachable 1 2 ?s1" by (rule tsq_reachable.call) (simp_all add: idle_threads_def)
  have "tsq_step 0 (sys_pcs ?s1 ! 0) ?s1 ?s2" by (rule tsq_step.lock) (simp_all add: idle_threads_def)
  then have r2: "tsq_reachable 1 2 ?s2" using tsq_reachable.step [OF r1] by simp
  have "tsq_step 0 (sys_pcs ?s2 ! 0) ?s2 sleeping_pop"
    unfolding sleeping_pop_def Let_def by (rule tsq_step.wait) (simp_all add: idle_threads_def empty_queue_def)
  then show ?thesis using tsq_reachable.step [OF r2] by simp
qed

lemma tsqueue_fifo_witness:
  "q_count (sys_q after_push) = 1 \<and> sys_stored after_push = queue_list (sys_q after_push)"
  using tsqueue_fifo [OF after_push_reachable] 
  by (simp add: after_push_def idle_threads_def empty_queue_def goto_def store_item_def)

lemma tsqueue_no_lost_wakeup_witness:
  "sys_pcs sleeping_pop ! 0 = Pop_Wait \<and> q_count (sys_q sleeping_pop) = 0"
proof -
  have "sys_pcs sleeping_pop ! 0 = Pop_Wait" "\<forall>i < 1. \<not> runs (sys_pcs sleeping_pop ! i)"
    by (simp_all add: sleeping_pop_def idle_threads_def runs_def asleep_def)
  then show ?thesis using tsqueue_no_lost_wakeup [OF sleeping_pop_reachable] by auto
qed

end
