(* ===== verification/Threading.thy ===== *)
theory Threading
  imports Ts_Queue
begin

text \<open>
  The rest of \<open>src/cbase_threading.c\<close>: threads with their trampoline, mutexes and condition variables of
  both builds, and the creation and destruction of the thread-safe queue.  The calls of pthread and of
  Win32 on mutexes and condition variables are the functions of a record, specified by the objects that
  exist; threads are the entries of a table of the operating system, which run at any time.
\<close>

section \<open>Mutexes and condition variables\<close>

record cb_mutex_t =
  mutex_info :: cb_info_t
  mutex_handle :: nat

record cb_cond_t =
  cond_info :: cb_info_t
  cond_handle :: nat

record 'w pthreads =
  pt_mutex_init :: "'w \<Rightarrow> (i32 \<times> nat) \<times> 'w"
  pt_mutex_destroy :: "nat \<Rightarrow> 'w \<Rightarrow> i32 \<times> 'w"
  pt_mutex_lock :: "nat \<Rightarrow> 'w \<Rightarrow> i32 \<times> 'w"
  pt_mutex_unlock :: "nat \<Rightarrow> 'w \<Rightarrow> i32 \<times> 'w"
  pt_mutex_trylock :: "nat \<Rightarrow> 'w \<Rightarrow> i32 \<times> 'w"
  pt_cond_init :: "'w \<Rightarrow> (i32 \<times> nat) \<times> 'w"
  pt_cond_destroy :: "nat \<Rightarrow> 'w \<Rightarrow> i32 \<times> 'w"
  pt_cond_wait :: "nat \<Rightarrow> nat \<Rightarrow> 'w \<Rightarrow> i32 \<times> 'w"
  pt_cond_signal :: "nat \<Rightarrow> 'w \<Rightarrow> i32 \<times> 'w"
  pt_cond_broadcast :: "nat \<Rightarrow> 'w \<Rightarrow> i32 \<times> 'w"

definition EBUSY :: i32 where "EBUSY = 16"

text \<open>The status of a call that returns 0 for success.\<close>

definition rc_info :: "cb_info_t \<Rightarrow> i32 \<times> 'w \<Rightarrow> cb_info_t \<times> 'w" where
  "rc_info failed r = ((if fst r = 0 then CB_INFO_OK else failed), snd r)"

definition cb_mutex_create_posix :: "'w pthreads \<Rightarrow> 'w \<Rightarrow> cb_mutex_t \<times> 'w" where
  "cb_mutex_create_posix pt w =
     (let ((rc, h), w) = pt_mutex_init pt w; m = \<lparr>mutex_info = CB_INFO_OK, mutex_handle = h\<rparr>
      in (if rc \<noteq> 0 then m\<lparr>mutex_info := CB_INFO_MUTEX_CREATE_FAILED\<rparr> else m, w))"

definition cb_mutex_destroy_posix :: "'w pthreads \<Rightarrow> cb_mutex_t \<Rightarrow> 'w \<Rightarrow> cb_info_t \<times> 'w" where
  "cb_mutex_destroy_posix pt m w = rc_info CB_INFO_MUTEX_DESTROY_FAILED (pt_mutex_destroy pt (mutex_handle m) w)"

definition cb_mutex_lock_posix :: "'w pthreads \<Rightarrow> cb_mutex_t \<Rightarrow> 'w \<Rightarrow> cb_info_t \<times> 'w" where
  "cb_mutex_lock_posix pt m w = rc_info CB_INFO_MUTEX_LOCK_FAILED (pt_mutex_lock pt (mutex_handle m) w)"

definition cb_mutex_unlock_posix :: "'w pthreads \<Rightarrow> cb_mutex_t \<Rightarrow> 'w \<Rightarrow> cb_info_t \<times> 'w" where
  "cb_mutex_unlock_posix pt m w = rc_info CB_INFO_MUTEX_UNLOCK_FAILED (pt_mutex_unlock pt (mutex_handle m) w)"

definition cb_mutex_trylock_posix :: "'w pthreads \<Rightarrow> cb_mutex_t \<Rightarrow> 'w \<Rightarrow> cb_info_t \<times> 'w" where
  "cb_mutex_trylock_posix pt m w =
     (let (rc, w) = pt_mutex_trylock pt (mutex_handle m) w
      in if rc = 0 then (CB_INFO_OK, w)
         else if rc = EBUSY then (CB_INFO_MUTEX_BUSY, w)
         else (CB_INFO_MUTEX_TRYLOCK_FAILED, w))"

definition cb_cond_create_posix :: "'w pthreads \<Rightarrow> 'w \<Rightarrow> cb_cond_t \<times> 'w" where
  "cb_cond_create_posix pt w =
     (let ((rc, h), w) = pt_cond_init pt w; c = \<lparr>cond_info = CB_INFO_OK, cond_handle = h\<rparr>
      in (if rc \<noteq> 0 then c\<lparr>cond_info := CB_INFO_COND_CREATE_FAILED\<rparr> else c, w))"

definition cb_cond_destroy_posix :: "'w pthreads \<Rightarrow> cb_cond_t \<Rightarrow> 'w \<Rightarrow> cb_info_t \<times> 'w" where
  "cb_cond_destroy_posix pt c w = rc_info CB_INFO_COND_DESTROY_FAILED (pt_cond_destroy pt (cond_handle c) w)"

definition cb_cond_wait_posix :: "'w pthreads \<Rightarrow> cb_cond_t \<Rightarrow> cb_mutex_t \<Rightarrow> 'w \<Rightarrow> cb_info_t \<times> 'w" where
  "cb_cond_wait_posix pt c m w =
     rc_info CB_INFO_COND_WAIT_FAILED (pt_cond_wait pt (cond_handle c) (mutex_handle m) w)"

definition cb_cond_signal_posix :: "'w pthreads \<Rightarrow> cb_cond_t \<Rightarrow> 'w \<Rightarrow> cb_info_t \<times> 'w" where
  "cb_cond_signal_posix pt c w = rc_info CB_INFO_COND_SIGNAL_FAILED (pt_cond_signal pt (cond_handle c) w)"

definition cb_cond_broadcast_posix :: "'w pthreads \<Rightarrow> cb_cond_t \<Rightarrow> 'w \<Rightarrow> cb_info_t \<times> 'w" where
  "cb_cond_broadcast_posix pt c w = rc_info CB_INFO_COND_SIGNAL_FAILED (pt_cond_broadcast pt (cond_handle c) w)"

text \<open>Windows: critical sections cannot fail, and condition variables need no destruction.\<close>

record 'w win32 =
  wn_init_section :: "'w \<Rightarrow> nat \<times> 'w"
  wn_delete_section :: "nat \<Rightarrow> 'w \<Rightarrow> 'w"
  wn_enter_section :: "nat \<Rightarrow> 'w \<Rightarrow> 'w"
  wn_leave_section :: "nat \<Rightarrow> 'w \<Rightarrow> 'w"
  wn_try_enter_section :: "nat \<Rightarrow> 'w \<Rightarrow> bool \<times> 'w"
  wn_init_cond :: "'w \<Rightarrow> nat \<times> 'w"
  wn_sleep_cond :: "nat \<Rightarrow> nat \<Rightarrow> 'w \<Rightarrow> bool \<times> 'w"
  wn_wake_cond :: "nat \<Rightarrow> 'w \<Rightarrow> 'w"
  wn_wake_all_cond :: "nat \<Rightarrow> 'w \<Rightarrow> 'w"

definition cb_mutex_create_windows :: "'w win32 \<Rightarrow> 'w \<Rightarrow> cb_mutex_t \<times> 'w" where
  "cb_mutex_create_windows wn w =
     (let (h, w) = wn_init_section wn w in (\<lparr>mutex_info = CB_INFO_OK, mutex_handle = h\<rparr>, w))"

definition cb_mutex_destroy_windows :: "'w win32 \<Rightarrow> cb_mutex_t \<Rightarrow> 'w \<Rightarrow> cb_info_t \<times> 'w" where
  "cb_mutex_destroy_windows wn m w = (CB_INFO_OK, wn_delete_section wn (mutex_handle m) w)"

definition cb_mutex_lock_windows :: "'w win32 \<Rightarrow> cb_mutex_t \<Rightarrow> 'w \<Rightarrow> cb_info_t \<times> 'w" where
  "cb_mutex_lock_windows wn m w = (CB_INFO_OK, wn_enter_section wn (mutex_handle m) w)"

definition cb_mutex_unlock_windows :: "'w win32 \<Rightarrow> cb_mutex_t \<Rightarrow> 'w \<Rightarrow> cb_info_t \<times> 'w" where
  "cb_mutex_unlock_windows wn m w = (CB_INFO_OK, wn_leave_section wn (mutex_handle m) w)"

definition cb_mutex_trylock_windows :: "'w win32 \<Rightarrow> cb_mutex_t \<Rightarrow> 'w \<Rightarrow> cb_info_t \<times> 'w" where
  "cb_mutex_trylock_windows wn m w =
     (let (ok, w) = wn_try_enter_section wn (mutex_handle m) w in (if ok then CB_INFO_OK else CB_INFO_MUTEX_BUSY, w))"

definition cb_cond_create_windows :: "'w win32 \<Rightarrow> 'w \<Rightarrow> cb_cond_t \<times> 'w" where
  "cb_cond_create_windows wn w =
     (let (h, w) = wn_init_cond wn w in (\<lparr>cond_info = CB_INFO_OK, cond_handle = h\<rparr>, w))"

definition cb_cond_destroy_windows :: "cb_cond_t \<Rightarrow> 'w \<Rightarrow> cb_info_t \<times> 'w" where
  "cb_cond_destroy_windows c w = (CB_INFO_OK, w)"

definition cb_cond_wait_windows :: "'w win32 \<Rightarrow> cb_cond_t \<Rightarrow> cb_mutex_t \<Rightarrow> 'w \<Rightarrow> cb_info_t \<times> 'w" where
  "cb_cond_wait_windows wn c m w =
     (let (ok, w) = wn_sleep_cond wn (cond_handle c) (mutex_handle m) w
      in (if ok then CB_INFO_OK else CB_INFO_COND_WAIT_FAILED, w))"

definition cb_cond_signal_windows :: "'w win32 \<Rightarrow> cb_cond_t \<Rightarrow> 'w \<Rightarrow> cb_info_t \<times> 'w" where
  "cb_cond_signal_windows wn c w = (CB_INFO_OK, wn_wake_cond wn (cond_handle c) w)"

definition cb_cond_broadcast_windows :: "'w win32 \<Rightarrow> cb_cond_t \<Rightarrow> 'w \<Rightarrow> cb_info_t \<times> 'w" where
  "cb_cond_broadcast_windows wn c w = (CB_INFO_OK, wn_wake_all_cond wn (cond_handle c) w)"

section \<open>Creating and destroying the queue\<close>

text \<open>What the queue uses of either build.\<close>

record 'w sync_ops =
  so_mutex_create :: "'w \<Rightarrow> cb_mutex_t \<times> 'w"
  so_mutex_destroy :: "cb_mutex_t \<Rightarrow> 'w \<Rightarrow> cb_info_t \<times> 'w"
  so_cond_create :: "'w \<Rightarrow> cb_cond_t \<times> 'w"
  so_cond_destroy :: "cb_cond_t \<Rightarrow> 'w \<Rightarrow> cb_info_t \<times> 'w"

definition posix_sync :: "'w pthreads \<Rightarrow> 'w sync_ops" where
  "posix_sync pt = \<lparr>so_mutex_create = cb_mutex_create_posix pt, so_mutex_destroy = cb_mutex_destroy_posix pt,
     so_cond_create = cb_cond_create_posix pt, so_cond_destroy = cb_cond_destroy_posix pt\<rparr>"

definition windows_sync :: "'w win32 \<Rightarrow> 'w sync_ops" where
  "windows_sync wn = \<lparr>so_mutex_create = cb_mutex_create_windows wn, so_mutex_destroy = cb_mutex_destroy_windows wn,
     so_cond_create = cb_cond_create_windows wn, so_cond_destroy = cb_cond_destroy_windows\<rparr>"

text \<open>The whole of \<open>cb_tsqueue_t\<close>: the ring of \<open>Ts_Queue\<close> with its status, the pointer to its items and
  its objects, which are \<open>None\<close> until the code has set them.\<close>

record ('a, 'p) tsqueue = "'a cb_tsqueue_t" +
  q_info :: cb_info_t
  q_items_ptr :: "'p option"
  q_mutex :: "cb_mutex_t option"
  q_not_full :: "cb_cond_t option"
  q_not_empty :: "cb_cond_t option"

text \<open>\<open>raw\<close> is what the allocated items hold before anything is stored.\<close>

definition cb_tsqueue_create ::
  "(size_t \<Rightarrow> size_t \<Rightarrow> 's \<Rightarrow> 'p option \<times> 's) \<Rightarrow> ('p \<Rightarrow> 's \<Rightarrow> 's) \<Rightarrow> 'w sync_ops \<Rightarrow> 'a list \<Rightarrow> u32 \<Rightarrow> 's \<Rightarrow> 'w
    \<Rightarrow> ('a, 'p) tsqueue \<times> 's \<times> 'w" where
  "cb_tsqueue_create alloc free sy raw capacity m w =
     (let q = \<lparr>q_items = [], q_capacity = capacity, q_count = 0, q_head = 0, q_tail = 0, q_info = CB_INFO_OK,
            q_items_ptr = None, q_mutex = None, q_not_full = None, q_not_empty = None\<rparr>;
          (items, m) = alloc (8 * ucast capacity) 8 m
      in case items of None \<Rightarrow> (q\<lparr>q_info := CB_INFO_ALLOC_FAILED\<rparr>, m, w)
         | Some p \<Rightarrow>
           (let q = q\<lparr>q_items := raw, q_items_ptr := Some p\<rparr>;
                (mu, w) = so_mutex_create sy w; q = q\<lparr>q_mutex := Some mu\<rparr>
            in if mutex_info mu \<noteq> CB_INFO_OK
               then (q\<lparr>q_items := [], q_items_ptr := None, q_info := CB_INFO_ALLOC_FAILED\<rparr>, free p m, w)
               else
                 let (nf, w) = so_cond_create sy w; q = q\<lparr>q_not_full := Some nf\<rparr>
                 in if cond_info nf \<noteq> CB_INFO_OK
                    then let m = free p m; (_, w) = so_mutex_destroy sy mu w
                         in (q\<lparr>q_items := [], q_items_ptr := None, q_info := CB_INFO_ALLOC_FAILED\<rparr>, m, w)
                    else
                      let (ne, w) = so_cond_create sy w; q = q\<lparr>q_not_empty := Some ne\<rparr>
                      in if cond_info ne \<noteq> CB_INFO_OK
                         then let m = free p m; (_, w) = so_mutex_destroy sy mu w; (_, w) = so_cond_destroy sy nf w
                              in (q\<lparr>q_items := [], q_items_ptr := None, q_info := CB_INFO_ALLOC_FAILED\<rparr>, m, w)
                         else (q, m, w)))"

text \<open>\<open>free\<close> of a null pointer does nothing; the objects of a queue that was created are set.\<close>

definition cb_tsqueue_destroy ::
  "('p \<Rightarrow> 's \<Rightarrow> 's) \<Rightarrow> 'w sync_ops \<Rightarrow> ('a, 'p) tsqueue \<Rightarrow> 's \<Rightarrow> 'w \<Rightarrow> cb_info_t \<times> ('a, 'p) tsqueue \<times> 's \<times> 'w" where
  "cb_tsqueue_destroy free sy q m w =
     (let result = CB_INFO_OK;
          (rc, w) = so_mutex_destroy sy (the (q_mutex q)) w;
          result = (if rc \<noteq> CB_INFO_OK then CB_INFO_QUEUE_DESTROY_FAILED else result);
          (rc, w) = so_cond_destroy sy (the (q_not_full q)) w;
          result = (if rc \<noteq> CB_INFO_OK then CB_INFO_QUEUE_DESTROY_FAILED else result);
          (rc, w) = so_cond_destroy sy (the (q_not_empty q)) w;
          result = (if rc \<noteq> CB_INFO_OK then CB_INFO_QUEUE_DESTROY_FAILED else result);
          m = (case q_items_ptr q of None \<Rightarrow> m | Some p \<Rightarrow> free p m)
      in (result, q\<lparr>q_items := [], q_items_ptr := None, q_count := 0\<rparr>, m, w))"

section \<open>What pthread and Win32 do\<close>

datatype sync_object = Mutex nat | Cond nat

text \<open>\<open>objs\<close> are the objects that exist and \<open>busy\<close> those that are locked or waited on.  A new object is idle;
  destroying an idle object succeeds.\<close>

definition makes :: "('w \<Rightarrow> sync_object set) \<Rightarrow> ('w \<Rightarrow> sync_object set) \<Rightarrow> sync_object set \<Rightarrow> 'w \<Rightarrow> 'w \<Rightarrow> bool" where
  "makes objs busy new w w' \<longleftrightarrow>
     busy w' = busy w \<and> new \<inter> (objs w \<union> busy w) = {} \<and> objs w' = objs w \<union> new"

definition drops :: "('w \<Rightarrow> sync_object set) \<Rightarrow> ('w \<Rightarrow> sync_object set) \<Rightarrow> sync_object set \<Rightarrow> 'w \<Rightarrow> 'w \<Rightarrow> bool" where
  "drops objs busy gone w w' \<longleftrightarrow> busy w' = busy w \<and> objs w' = objs w - gone"

definition pthread_spec :: "'w pthreads \<Rightarrow> ('w \<Rightarrow> sync_object set) \<Rightarrow> ('w \<Rightarrow> sync_object set) \<Rightarrow> bool" where
  "pthread_spec pt objs busy \<longleftrightarrow>
     (\<forall>w rc h w'. pt_mutex_init pt w = ((rc, h), w') \<longrightarrow> makes objs busy (if rc = 0 then {Mutex h} else {}) w w')
     \<and> (\<forall>w rc h w'. pt_cond_init pt w = ((rc, h), w') \<longrightarrow> makes objs busy (if rc = 0 then {Cond h} else {}) w w')
     \<and> (\<forall>w rc h w'. Mutex h \<in> objs w - busy w \<longrightarrow> pt_mutex_destroy pt h w = (rc, w') \<longrightarrow> rc = 0 \<and> drops objs busy {Mutex h} w w')
     \<and> (\<forall>w rc h w'. Cond h \<in> objs w - busy w \<longrightarrow> pt_cond_destroy pt h w = (rc, w') \<longrightarrow> rc = 0 \<and> drops objs busy {Cond h} w w')"

definition win32_spec :: "'w win32 \<Rightarrow> ('w \<Rightarrow> sync_object set) \<Rightarrow> ('w \<Rightarrow> sync_object set) \<Rightarrow> bool" where
  "win32_spec wn objs busy \<longleftrightarrow>
     (\<forall>w h w'. wn_init_section wn w = (h, w') \<longrightarrow> makes objs busy {Mutex h} w w')
     \<and> (\<forall>w h w'. wn_init_cond wn w = (h, w') \<longrightarrow> makes objs busy {} w w')
     \<and> (\<forall>w h. Mutex h \<in> objs w - busy w \<longrightarrow> drops objs busy {Mutex h} w (wn_delete_section wn h w))"

text \<open>What both give to the queue; \<open>cobj\<close> is what a condition variable holds on to.\<close>

definition sync_spec ::
  "'w sync_ops \<Rightarrow> ('w \<Rightarrow> sync_object set) \<Rightarrow> ('w \<Rightarrow> sync_object set) \<Rightarrow> (nat \<Rightarrow> sync_object set) \<Rightarrow> bool" where
  "sync_spec sy objs busy cobj \<longleftrightarrow>
     (\<forall>w m w'. so_mutex_create sy w = (m, w') \<longrightarrow>
        makes objs busy (if mutex_info m = CB_INFO_OK then {Mutex (mutex_handle m)} else {}) w w')
     \<and> (\<forall>w c w'. so_cond_create sy w = (c, w') \<longrightarrow>
        makes objs busy (if cond_info c = CB_INFO_OK then cobj (cond_handle c) else {}) w w')
     \<and> (\<forall>w m r w'. Mutex (mutex_handle m) \<in> objs w - busy w \<longrightarrow> so_mutex_destroy sy m w = (r, w') \<longrightarrow>
        r = CB_INFO_OK \<and> drops objs busy {Mutex (mutex_handle m)} w w')
     \<and> (\<forall>w c r w'. cobj (cond_handle c) \<subseteq> objs w - busy w \<longrightarrow> so_cond_destroy sy c w = (r, w') \<longrightarrow>
        r = CB_INFO_OK \<and> drops objs busy (cobj (cond_handle c)) w w')"

lemma posix_sync_spec: "pthread_spec pt objs busy \<Longrightarrow> sync_spec (posix_sync pt) objs busy (\<lambda>h. {Cond h})"
  unfolding sync_spec_def posix_sync_def
  apply (intro conjI allI impI)
     apply (auto simp: pthread_spec_def cb_mutex_create_posix_def cb_cond_create_posix_def Let_def split: prod.splits if_splits)[2]
   apply (simp_all add: cb_mutex_destroy_posix_def cb_cond_destroy_posix_def rc_info_def pthread_spec_def)
   apply (metis prod.collapse)+
  done

lemma windows_sync_spec: "win32_spec wn objs busy \<Longrightarrow> sync_spec (windows_sync wn) objs busy (\<lambda>_. {})"
  by (auto simp: sync_spec_def windows_sync_def win32_spec_def cb_mutex_create_windows_def cb_cond_create_windows_def
      cb_mutex_destroy_windows_def cb_cond_destroy_windows_def drops_def split: prod.splits)

lemma create_destroy:
  assumes "allocator alloc free live ok" "sync_spec sy objs busy cobj" "ok m"
    and "cb_tsqueue_create alloc free sy raw capacity m w = (q, m1, w1)"
  shows "q_info q = CB_INFO_OK \<Longrightarrow>
      (\<exists>p. p \<notin> live m \<and> live m1 = insert p (live m) \<and> q_items_ptr q = Some p) \<and> ok m1
      \<and> cb_tsqueue_t.truncate q = empty_queue capacity raw
      \<and> (\<exists>q' m2 w2. cb_tsqueue_destroy free sy q m1 w1 = (CB_INFO_OK, q', m2, w2)
          \<and> live m2 = live m \<and> ok m2 \<and> objs w2 = objs w)"
    "q_info q \<noteq> CB_INFO_OK \<Longrightarrow> q_info q = CB_INFO_ALLOC_FAILED \<and> live m1 = live m \<and> ok m1 \<and> objs w1 = objs w \<and> q_items_ptr q = None"
proof -
  note create = assms(4) [unfolded cb_tsqueue_create_def Let_def]
  note s = assms(2) [unfolded sync_spec_def]
  note mk = s [THEN conjunct1, rule_format] s [THEN conjunct2, THEN conjunct1, rule_format]
  note dr = s [THEN conjunct2, THEN conjunct2, THEN conjunct1, rule_format] s [THEN conjunct2, THEN conjunct2, THEN conjunct2, rule_format]
  obtain items ma where a: "alloc (8 * ucast capacity) 8 m = (items, ma)" by fastforce
  obtain mu wa where mu: "so_mutex_create sy w = (mu, wa)" by fastforce
  obtain nf wb where nf: "so_cond_create sy wa = (nf, wb)" by fastforce
  obtain ne wc where ne: "so_cond_create sy wb = (ne, wc)" by fastforce
  note ex = mk(1) [OF mu] mk(2) [OF nf] mk(2) [OF ne]
  consider (none) "items = None" | (mutex) p where "items = Some p" "mutex_info mu \<noteq> CB_INFO_OK"
    | (full) p where "items = Some p" "mutex_info mu = CB_INFO_OK" "cond_info nf \<noteq> CB_INFO_OK"
    | (empty) p where "items = Some p" "mutex_info mu = CB_INFO_OK" "cond_info nf = CB_INFO_OK" "cond_info ne \<noteq> CB_INFO_OK"
    | (all) p where "items = Some p" "mutex_info mu = CB_INFO_OK" "cond_info nf = CB_INFO_OK" "cond_info ne = CB_INFO_OK"
    by (cases items; auto)
  note split = this
  have mem: "p \<notin> live m \<and> live ma = insert p (live m) \<and> ok ma \<and> live (free p ma) = live m \<and> ok (free p ma)" if "items = Some p" for p
    using allocator.alloc_gives [OF assms(1,3)] allocator.alloc_free [OF assms(1,3)] a that by simp
  have mem0: "live ma = live m \<and> ok ma" if "items = None"
    using allocator.alloc_fails [OF assms(1,3)] a that by simp
  obtain r1 wd where d1: "so_mutex_destroy sy mu wb = (r1, wd)" by fastforce
  obtain r2 we where d2: "so_mutex_destroy sy mu wc = (r2, we)" by fastforce
  obtain r3 wf where d3: "so_cond_destroy sy nf we = (r3, wf)" by fastforce
  obtain r4 wg where d4: "so_cond_destroy sy ne wf = (r4, wg)" by fastforce
  have o1: "objs wd = objs w" if "mutex_info mu = CB_INFO_OK" "cond_info nf \<noteq> CB_INFO_OK"
    using dr(1) [OF _ d1] ex that by (auto simp: makes_def drops_def)
  have o2: "r2 = CB_INFO_OK" "drops objs busy {Mutex (mutex_handle mu)} wc we" if "mutex_info mu = CB_INFO_OK"
    using dr(1) [OF _ d2] ex that by (auto simp: makes_def split: if_splits)
  have sub: "cobj (cond_handle nf) \<subseteq> objs we - busy we" 
    if "mutex_info mu = CB_INFO_OK" "cond_info nf = CB_INFO_OK"
    using ex that o2 by (auto simp: makes_def drops_def split: if_splits)
  have o3: "r3 = CB_INFO_OK" "drops objs busy (cobj (cond_handle nf)) we wf" 
    if "mutex_info mu = CB_INFO_OK" "cond_info nf = CB_INFO_OK"
    using dr(2) [OF sub d3] that by auto
  have o4: "objs wf = objs w" if "mutex_info mu = CB_INFO_OK" "cond_info nf = CB_INFO_OK" "cond_info ne \<noteq> CB_INFO_OK"
    using ex that o2 o3 by (auto simp: makes_def drops_def)
  have sub4: "cobj (cond_handle ne) \<subseteq> objs wf - busy wf" 
    if "mutex_info mu = CB_INFO_OK" "cond_info nf = CB_INFO_OK" "cond_info ne = CB_INFO_OK"
    using ex that o2 o3 by (auto simp: makes_def drops_def)
  have o5: "r4 = CB_INFO_OK" "objs wg = objs w" if "mutex_info mu = CB_INFO_OK" "cond_info nf = CB_INFO_OK" "cond_info ne = CB_INFO_OK"
    using dr(2) [OF sub4 d4] ex that o2 o3 by (auto simp: makes_def drops_def)
  show "q_info q = CB_INFO_OK \<Longrightarrow>
      (\<exists>p. p \<notin> live m \<and> live m1 = insert p (live m) \<and> q_items_ptr q = Some p) \<and> ok m1
      \<and> cb_tsqueue_t.truncate q = empty_queue capacity raw
      \<and> (\<exists>q' m2 w2. cb_tsqueue_destroy free sy q m1 w1 = (CB_INFO_OK, q', m2, w2)
          \<and> live m2 = live m \<and> ok m2 \<and> objs w2 = objs w)"
    using split
  proof cases
    case (all p)
    have q: "q_mutex q = Some mu" "q_not_full q = Some nf" "q_not_empty q = Some ne" "q_items_ptr q = Some p" "m1 = ma" "w1 = wc"
      "cb_tsqueue_t.truncate q = empty_queue capacity raw"
      using create all by (auto simp: a mu nf ne cb_tsqueue_t.truncate_def empty_queue_def)
    then show ?thesis using mem [OF all(1)] o2 o3 o5 all by (auto simp: cb_tsqueue_destroy_def d2 d3 d4)
  qed (use create in \<open>auto simp: a mu nf ne split: prod.splits\<close>)
  show "q_info q \<noteq> CB_INFO_OK \<Longrightarrow> q_info q = CB_INFO_ALLOC_FAILED \<and> live m1 = live m \<and> ok m1 \<and> objs w1 = objs w \<and> q_items_ptr q = None"
    using split
  proof cases
    case none
    then show ?thesis using create mem0 by (auto simp: a)
  next
    case (mutex p)
    then show ?thesis using create mem [OF mutex(1)] ex(1) by (auto simp: a mu makes_def)
  next
    case (full p)
    then show ?thesis using create mem [OF full(1)] o1 by (auto simp: a mu nf d1)
  next
    case (empty p)
    then show ?thesis using create mem [OF empty(1)] o4 by (auto simp: a mu nf ne d2 d3)
  qed (use create in \<open>auto simp: a mu nf ne\<close>)
qed

definition build_spec :: "'w sync_ops \<Rightarrow> ('w \<Rightarrow> sync_object set) \<Rightarrow> ('w \<Rightarrow> sync_object set) \<Rightarrow> bool" where
  "build_spec sy objs busy \<longleftrightarrow>
     (\<exists>pt. sy = posix_sync pt \<and> pthread_spec pt objs busy) \<or> (\<exists>wn. sy = windows_sync wn \<and> win32_spec wn objs busy)"

text \<open>C19. Creating a queue is all or nothing, on either build.  When it answers OK it is the empty ring of
  its capacity and holds one allocation, and destroying it answers OK and brings back the memory and the
  objects from before; otherwise it answers CB_INFO_ALLOC_FAILED and has given back everything that it
  had taken, whichever of the four acquisitions failed.\<close>

theorem tsqueue_create_destroy:
  assumes "heap_ok m" "build_spec sy objs busy"
    and "cb_tsqueue_create (heap_alloc avail) (cb__free None) sy raw capacity m w = (q, m1, w1)"
  shows "if q_info q = CB_INFO_OK
    then (\<exists>p. p \<notin> heap_live m \<and> heap_live m1 = insert p (heap_live m) \<and> q_items_ptr q = Some p)
      \<and> cb_tsqueue_t.truncate q = empty_queue capacity raw
      \<and> (let (info, q', m2, w2) = cb_tsqueue_destroy (cb__free None) sy q m1 w1
         in info = CB_INFO_OK \<and> heap_live m2 = heap_live m \<and> \<not> mem_fault m2 \<and> objs w2 = objs w)
    else q_info q = CB_INFO_ALLOC_FAILED \<and> q_items_ptr q = None \<and> heap_live m1 = heap_live m \<and> \<not> mem_fault m1 \<and> objs w1 = objs w"
proof -
  obtain cobj where "sync_spec sy objs busy cobj"
    using assms(2) posix_sync_spec windows_sync_spec unfolding build_spec_def by blast
  note l = create_destroy [OF heap_allocator.allocator_axioms this assms(1,3)]
  show ?thesis using l by (cases "q_info q = CB_INFO_OK") (auto simp: heap_ok_def)
qed

text \<open>A system with one mutex and one condition variable at a time, where the second one fails.\<close>

definition one_cond :: "bool \<times> bool \<Rightarrow> sync_object set" where
  "one_cond w = (if fst w then {Mutex 0} else {}) \<union> (if snd w then {Cond 0} else {})"

definition tiny_pthreads :: "(bool \<times> bool) pthreads" where
  "tiny_pthreads =
     \<lparr>pt_mutex_init = (\<lambda>(m, c). ((if m then 11 else 0, 0), (True, c))),
      pt_mutex_destroy = (\<lambda>_ (m, c). (0, (False, c))), pt_mutex_lock = (\<lambda>_ w. (0, w)), pt_mutex_unlock = (\<lambda>_ w. (0, w)),
      pt_mutex_trylock = (\<lambda>_ w. (0, w)), pt_cond_init = (\<lambda>(m, c). ((if c then 11 else 0, 0), (m, True))),
      pt_cond_destroy = (\<lambda>_ (m, c). (0, (m, False))), pt_cond_wait = (\<lambda>_ _ w. (0, w)), pt_cond_signal = (\<lambda>_ w. (0, w)),
      pt_cond_broadcast = (\<lambda>_ w. (0, w))\<rparr>"

lemma tiny_pthreads_spec: "pthread_spec tiny_pthreads one_cond (\<lambda>_. {})"
  by (auto simp: pthread_spec_def tiny_pthreads_def makes_def drops_def one_cond_def split: if_splits)

lemma tsqueue_create_destroy_witness:
  "let m = \<lparr>mem_next = 0, mem_plain = Map.empty, mem_blocks = Map.empty, mem_fault = False\<rparr>;
       (q, m1, w1) = cb_tsqueue_create (heap_alloc (\<lambda>_ n. Some [])) (cb__free None) (posix_sync tiny_pthreads) [0 :: nat, 0] 2 m (False, False)
   in q_info q = CB_INFO_ALLOC_FAILED \<and> heap_live m1 = {} \<and> one_cond w1 = {}"
proof -
  let ?m = "\<lparr>mem_next = 0, mem_plain = Map.empty, mem_blocks = Map.empty, mem_fault = False\<rparr>"
  obtain q m1 w1 where c: "cb_tsqueue_create (heap_alloc (\<lambda>_ n. Some [])) (cb__free None) (posix_sync tiny_pthreads)
      [0 :: nat, 0] 2 ?m (False, False) = (q, m1, w1)" by (metis prod_cases3)
  have ok: "heap_ok ?m" "heap_live ?m = {}" by (simp_all add: heap_ok_def heap_live_def)
  have build: "build_spec (posix_sync tiny_pthreads) one_cond (\<lambda>_. {})"
    using tiny_pthreads_spec by (auto simp: build_spec_def)
  have "q_info q \<noteq> CB_INFO_OK"
    using c by (auto simp: cb_tsqueue_create_def heap_alloc_malloc malloc_plain_def posix_sync_def cb_mutex_create_posix_def
        cb_cond_create_posix_def tiny_pthreads_def cb_mutex_destroy_posix_def cb_cond_destroy_posix_def rc_info_def)
  then show ?thesis using tsqueue_create_destroy [OF ok(1) build c] ok(2) unfolding Let_def c by (simp add: one_cond_def)
qed

section \<open>Threads\<close>

record 'r cb_thread_result_t =
  tr_info :: cb_info_t
  tr_result :: "'r option"

text \<open>A thread's function is a HOL function; a null result is \<open>None\<close>.\<close>

record ('a, 'r, 'ar) cb__thread_trampoline_arg_t =
  targ_fn :: "'a \<Rightarrow> 'r cb_thread_result_t"
  targ_arg :: 'a
  targ_result :: "'r cb_thread_result_t"
  targ_arena :: 'ar

record 'p cb_thread_t =
  thr_info :: cb_info_t
  thr_internal :: "'p option"
  thr_handle :: "nat option"

text \<open>The threads of the operating system, by handle: each runs the trampoline once on its argument.\<close>

datatype 'p os_thread = Running 'p | Exited 'p | Detached 'p | Gone

record ('p, 's, 'a, 'r, 'ar) thread_sys =
  ts_mem :: 's
  ts_targs :: "'p \<Rightarrow> ('a, 'r, 'ar) cb__thread_trampoline_arg_t option"
  ts_os :: "'p os_thread list"

definition cb__thread_trampoline :: "'p \<Rightarrow> ('p, 's, 'a, 'r, 'ar) thread_sys \<Rightarrow> ('p, 's, 'a, 'r, 'ar) thread_sys option" where
  "cb__thread_trampoline p sys =
     (case ts_targs sys p of
        None \<Rightarrow> None
      | Some targ \<Rightarrow>
          Some (sys\<lparr>ts_targs := (ts_targs sys)(p \<mapsto> targ\<lparr>targ_result := targ_fn targ (targ_arg targ)\<rparr>)\<rparr>))"

definition sizeof_targ :: size_t where "sizeof_targ = 40"

text \<open>\<open>rc\<close> is the result of \<open>pthread_create\<close>.\<close>

definition cb_thread_create ::
  "('ar \<Rightarrow> size_t \<Rightarrow> size_t \<Rightarrow> 's \<Rightarrow> 'p option \<times> 's) \<Rightarrow> ('ar \<Rightarrow> 'p \<Rightarrow> 's \<Rightarrow> 's) \<Rightarrow> i32 \<Rightarrow> 'ar
    \<Rightarrow> ('a \<Rightarrow> 'r cb_thread_result_t) \<Rightarrow> 'a \<Rightarrow> ('p, 's, 'a, 'r, 'ar) thread_sys
    \<Rightarrow> 'p cb_thread_t \<times> ('p, 's, 'a, 'r, 'ar) thread_sys" where
  "cb_thread_create alloc free rc arena fn arg sys =
     (let t = \<lparr>thr_info = CB_INFO_OK, thr_internal = None, thr_handle = None\<rparr>;
          (targ, m) = alloc arena sizeof_targ 8 (ts_mem sys); sys = sys\<lparr>ts_mem := m\<rparr>
      in case targ of None \<Rightarrow> (t\<lparr>thr_info := CB_INFO_ALLOC_FAILED\<rparr>, sys)
         | Some p \<Rightarrow>
           (let sys = sys\<lparr>ts_targs := (ts_targs sys)(p \<mapsto>
                  \<lparr>targ_fn = fn, targ_arg = arg, targ_result = \<lparr>tr_info = CB_INFO_OK, tr_result = None\<rparr>, targ_arena = arena\<rparr>)\<rparr>
            in if rc \<noteq> 0
               then (t\<lparr>thr_info := CB_INFO_THREAD_CREATE_FAILED\<rparr>,
                     sys\<lparr>ts_mem := free arena p (ts_mem sys), ts_targs := (ts_targs sys)(p := None)\<rparr>)
               else (t\<lparr>thr_handle := Some (length (ts_os sys)), thr_internal := Some p\<rparr>,
                     sys\<lparr>ts_os := ts_os sys @ [Running p]\<rparr>)))"

text \<open>\<open>rc\<close> is the result of \<open>pthread_join\<close>, which returns 0 when the thread has ended and is then done with it;
  \<open>None\<close> is a use of memory that was freed.\<close>

definition cb_thread_join ::
  "('ar \<Rightarrow> 'p \<Rightarrow> 's \<Rightarrow> 's) \<Rightarrow> i32 \<Rightarrow> 'p cb_thread_t \<Rightarrow> ('p, 's, 'a, 'r, 'ar) thread_sys
    \<Rightarrow> ('r cb_thread_result_t \<times> 'p cb_thread_t \<times> ('p, 's, 'a, 'r, 'ar) thread_sys) option" where
  "cb_thread_join free rc thread sys =
     (let result = \<lparr>tr_info = CB_INFO_OK, tr_result = None\<rparr>
      in if rc \<noteq> 0 then Some (result\<lparr>tr_info := CB_INFO_THREAD_JOIN_FAILED\<rparr>, thread, sys)
         else
           let sys = sys\<lparr>ts_os := (ts_os sys)[the (thr_handle thread) := Gone]\<rparr>
           in case thr_internal thread of
                None \<Rightarrow> Some (result, thread, sys)
              | Some p \<Rightarrow>
                  (case ts_targs sys p of
                     None \<Rightarrow> None
                   | Some targ \<Rightarrow>
                       Some (targ_result targ, thread\<lparr>thr_internal := None\<rparr>,
                         sys\<lparr>ts_mem := free (targ_arena targ) p (ts_mem sys), ts_targs := (ts_targs sys)(p := None)\<rparr>)))"

text \<open>Detaching: a running thread goes on, one that has ended is gone.\<close>

definition detached :: "'p os_thread \<Rightarrow> 'p os_thread" where
  "detached o_t = (case o_t of Running p \<Rightarrow> Detached p | _ \<Rightarrow> Gone)"

definition cb_thread_detach ::
  "i32 \<Rightarrow> 'p cb_thread_t \<Rightarrow> ('p, 's, 'a, 'r, 'ar) thread_sys \<Rightarrow> cb_info_t \<times> ('p, 's, 'a, 'r, 'ar) thread_sys" where
  "cb_thread_detach rc thread sys =
     (if rc = 0
      then (CB_INFO_OK, (let h = the (thr_handle thread) in sys\<lparr>ts_os := (ts_os sys)[h := detached (ts_os sys ! h)]\<rparr>))
      else (CB_INFO_THREAD_DETACH_FAILED, sys))"

text \<open>The Windows build, over whether \<open>CreateThread\<close> and the wait succeed.  A join closes the handle.\<close>

definition cb_thread_create_windows ::
  "('ar \<Rightarrow> size_t \<Rightarrow> size_t \<Rightarrow> 's \<Rightarrow> 'p option \<times> 's) \<Rightarrow> ('ar \<Rightarrow> 'p \<Rightarrow> 's \<Rightarrow> 's) \<Rightarrow> bool \<Rightarrow> 'ar
    \<Rightarrow> ('a \<Rightarrow> 'r cb_thread_result_t) \<Rightarrow> 'a \<Rightarrow> ('p, 's, 'a, 'r, 'ar) thread_sys
    \<Rightarrow> 'p cb_thread_t \<times> ('p, 's, 'a, 'r, 'ar) thread_sys" where
  "cb_thread_create_windows alloc free started arena fn arg sys =
     (let t = \<lparr>thr_info = CB_INFO_OK, thr_internal = None, thr_handle = None\<rparr>;
          (targ, m) = alloc arena sizeof_targ 8 (ts_mem sys); sys = sys\<lparr>ts_mem := m\<rparr>
      in case targ of None \<Rightarrow> (t\<lparr>thr_info := CB_INFO_ALLOC_FAILED, thr_handle := None\<rparr>, sys)
         | Some p \<Rightarrow>
           (let sys = sys\<lparr>ts_targs := (ts_targs sys)(p \<mapsto>
                  \<lparr>targ_fn = fn, targ_arg = arg, targ_result = \<lparr>tr_info = CB_INFO_OK, tr_result = None\<rparr>, targ_arena = arena\<rparr>)\<rparr>;
                handle = (if started then Some (length (ts_os sys)) else None);
                sys = (if started then sys\<lparr>ts_os := ts_os sys @ [Running p]\<rparr> else sys);
                t = t\<lparr>thr_handle := handle\<rparr>
            in if handle = None
               then (t\<lparr>thr_info := CB_INFO_THREAD_CREATE_FAILED\<rparr>,
                     sys\<lparr>ts_mem := free arena p (ts_mem sys), ts_targs := (ts_targs sys)(p := None)\<rparr>)
               else (t\<lparr>thr_internal := Some p\<rparr>, sys)))"

definition cb_thread_join_windows ::
  "('ar \<Rightarrow> 'p \<Rightarrow> 's \<Rightarrow> 's) \<Rightarrow> bool \<Rightarrow> 'p cb_thread_t \<Rightarrow> ('p, 's, 'a, 'r, 'ar) thread_sys
    \<Rightarrow> ('r cb_thread_result_t \<times> 'p cb_thread_t \<times> ('p, 's, 'a, 'r, 'ar) thread_sys) option" where
  "cb_thread_join_windows free waited thread sys =
     (let result = \<lparr>tr_info = CB_INFO_OK, tr_result = None\<rparr>
      in if \<not> waited then Some (result\<lparr>tr_info := CB_INFO_THREAD_JOIN_FAILED\<rparr>, thread, sys)
         else
           let sys = sys\<lparr>ts_os := (ts_os sys)[the (thr_handle thread) := Gone]\<rparr>
           in case thr_internal thread of
                None \<Rightarrow> Some (result, thread, sys)
              | Some p \<Rightarrow>
                  (case ts_targs sys p of
                     None \<Rightarrow> None
                   | Some targ \<Rightarrow>
                       Some (targ_result targ, thread\<lparr>thr_internal := None\<rparr>,
                         sys\<lparr>ts_mem := free (targ_arena targ) p (ts_mem sys), ts_targs := (ts_targs sys)(p := None)\<rparr>)))"

definition cb_thread_detach_windows ::
  "bool \<Rightarrow> 'p cb_thread_t \<Rightarrow> ('p, 's, 'a, 'r, 'ar) thread_sys \<Rightarrow> cb_info_t \<times> ('p, 's, 'a, 'r, 'ar) thread_sys" where
  "cb_thread_detach_windows closed thread sys =
     (if closed
      then (CB_INFO_OK, (let h = the (thr_handle thread) in sys\<lparr>ts_os := (ts_os sys)[h := detached (ts_os sys ! h)]\<rparr>))
      else (CB_INFO_THREAD_DETACH_FAILED, sys))"

text \<open>Both builds do the same when their system calls have the same outcome.\<close>

lemma thread_builds_agree:
  "cb_thread_create_windows alloc free (rc = 0) arena fn arg sys = cb_thread_create alloc free rc arena fn arg sys"
  "cb_thread_join_windows free (rc = 0) t sys = cb_thread_join free rc t sys"
  "cb_thread_detach_windows (rc = 0) t sys = cb_thread_detach rc t sys"
  by (simp_all add: cb_thread_create_windows_def cb_thread_create_def cb_thread_join_windows_def cb_thread_join_def
      cb_thread_detach_windows_def cb_thread_detach_def Let_def split: prod.splits option.splits)

section \<open>What programs do with threads\<close>

text \<open>\<open>ts\<close> lists the thread objects that were created, in order, with the function and argument of each.  A
  thread that was not detached may be joined once; the join returns when the thread has ended.\<close>

inductive thread_run ::
  "('ar \<Rightarrow> size_t \<Rightarrow> size_t \<Rightarrow> 's \<Rightarrow> 'p option \<times> 's) \<Rightarrow> ('ar \<Rightarrow> 'p \<Rightarrow> 's \<Rightarrow> 's) \<Rightarrow> 'ar \<Rightarrow> 's
    \<Rightarrow> ('p cb_thread_t \<times> ('a \<Rightarrow> 'r cb_thread_result_t) \<times> 'a) list \<Rightarrow> ('p, 's, 'a, 'r, 'ar) thread_sys \<Rightarrow> bool"
  for alloc free arena mem where
  start: "thread_run alloc free arena mem [] \<lparr>ts_mem = mem, ts_targs = Map.empty, ts_os = []\<rparr>"
| create: "thread_run alloc free arena mem ts sys \<Longrightarrow> cb_thread_create alloc free rc arena fn arg sys = (t, sys') \<Longrightarrow>
    thread_run alloc free arena mem (if thr_info t = CB_INFO_OK then ts @ [(t, fn, arg)] else ts) sys'"
| runs: "thread_run alloc free arena mem ts sys \<Longrightarrow> h < length (ts_os sys) \<Longrightarrow> ts_os sys ! h = Running p \<Longrightarrow>
    cb__thread_trampoline p sys = Some sys' \<Longrightarrow>
    thread_run alloc free arena mem ts (sys'\<lparr>ts_os := (ts_os sys')[h := Exited p]\<rparr>)"
| runs_detached: "thread_run alloc free arena mem ts sys \<Longrightarrow> h < length (ts_os sys) \<Longrightarrow> ts_os sys ! h = Detached p \<Longrightarrow>
    cb__thread_trampoline p sys = Some sys' \<Longrightarrow>
    thread_run alloc free arena mem ts (sys'\<lparr>ts_os := (ts_os sys')[h := Gone]\<rparr>)"
| join: "thread_run alloc free arena mem ts sys \<Longrightarrow> h < length ts \<Longrightarrow> ts ! h = (t, fn, arg) \<Longrightarrow>
    ts_os sys ! h = Exited p \<Longrightarrow> cb_thread_join free rc t sys = Some (result, t', sys') \<Longrightarrow>
    thread_run alloc free arena mem (ts[h := (t', fn, arg)]) sys'"
| join_fails: "thread_run alloc free arena mem ts sys \<Longrightarrow> h < length ts \<Longrightarrow> ts ! h = (t, fn, arg) \<Longrightarrow> rc \<noteq> 0 \<Longrightarrow>
    cb_thread_join free rc t sys = Some (result, t', sys') \<Longrightarrow>
    thread_run alloc free arena mem (ts[h := (t', fn, arg)]) sys'"
| detach: "thread_run alloc free arena mem ts sys \<Longrightarrow> h < length ts \<Longrightarrow> ts ! h = (t, fn, arg) \<Longrightarrow>
    ts_os sys ! h = Running p \<or> ts_os sys ! h = Exited p \<Longrightarrow> cb_thread_detach rc t sys = (info, sys') \<Longrightarrow>
    thread_run alloc free arena mem ts sys'"

definition owned :: "('p cb_thread_t \<times> ('a \<Rightarrow> 'r cb_thread_result_t) \<times> 'a) list \<Rightarrow> 'p list" where
  "owned ts = concat (map (\<lambda>(t, _). case thr_internal t of None \<Rightarrow> [] | Some p \<Rightarrow> [p]) ts)"

definition thread_ok ::
  "'ar \<Rightarrow> nat \<Rightarrow> ('p cb_thread_t \<times> ('a \<Rightarrow> 'r cb_thread_result_t) \<times> 'a) \<Rightarrow> 'p os_thread
    \<Rightarrow> ('p \<Rightarrow> ('a, 'r, 'ar) cb__thread_trampoline_arg_t option) \<Rightarrow> bool" where
  "thread_ok arena h e os targs =
     (case e of (t, fn, arg) \<Rightarrow>
        thr_handle t = Some h
        \<and> (\<forall>p. thr_internal t = Some p \<longrightarrow>
             (\<exists>r. targs p = Some \<lparr>targ_fn = fn, targ_arg = arg, targ_result = r, targ_arena = arena\<rparr> \<and> (os = Exited p \<longrightarrow> r = fn arg)))
        \<and> (\<forall>p. os \<in> {Running p, Exited p, Detached p} \<longrightarrow> thr_internal t = Some p))"

definition threads_inv ::
  "('s \<Rightarrow> bool) \<Rightarrow> ('s \<Rightarrow> 'p set) \<Rightarrow> 'ar \<Rightarrow> 's \<Rightarrow> ('p cb_thread_t \<times> ('a \<Rightarrow> 'r cb_thread_result_t) \<times> 'a) list
    \<Rightarrow> ('p, 's, 'a, 'r, 'ar) thread_sys \<Rightarrow> bool" where
  "threads_inv ok live arena mem ts sys \<longleftrightarrow>
     length (ts_os sys) = length ts
     \<and> ok (ts_mem sys) \<and> distinct (owned ts) \<and> set (owned ts) \<inter> live mem = {} \<and> live (ts_mem sys) = live mem \<union> set (owned ts)
     \<and> (\<forall>h < length ts. thread_ok arena h (ts ! h) (ts_os sys ! h) (ts_targs sys))"

lemma owned_append: "owned (ts @ us) = owned ts @ owned us"
  by (simp add: owned_def)

lemma owned_mem: "h < length ts \<Longrightarrow> ts ! h = (t, fn, arg) \<Longrightarrow> thr_internal t = Some p \<Longrightarrow> p \<in> set (owned ts)"
  by (auto simp: owned_def intro!: bexI [of _ "ts ! h"] dest: nth_mem)

lemma owned_update:
  assumes "h < length ts" "ts ! h = (t, e)" "thr_internal t = Some p" "thr_internal t' = None"
  shows "mset (owned ts) = add_mset p (mset (owned (ts[h := (t', e')])))"
proof -
  have "ts = take h ts @ (t, e) # drop (Suc h) ts" using assms(1,2) by (metis id_take_nth_drop)
  moreover have "ts[h := (t', e')] = take h ts @ (t', e') # drop (Suc h) ts" using assms(1) by (rule upd_conv_take_nth_drop)
  ultimately show ?thesis using assms(3,4)
    by (metis (no_types, lifting) owned_append owned_def concat.simps(2) list.simps(9) mset_append case_prod_conv option.simps(4,5) append_Nil append_Cons mset.simps(2) union_mset_add_mset_right)
qed

lemma thread_ok_frame:
  assumes "thread_ok arena h e os targs" "\<forall>p. thr_internal (fst e) = Some p \<longrightarrow> targs' p = targs p"
  shows "thread_ok arena h e os targs'"
  using assms by (cases e) (auto simp: thread_ok_def)

text \<open>A step changes one thread: the others keep their own arguments.\<close>

lemma owned_distinct:
  assumes "distinct (owned ts)" "h < length ts" "k < length ts" "h \<noteq> k" "thr_internal (fst (ts ! h)) = Some p"
  shows "thr_internal (fst (ts ! k)) \<noteq> Some p"
proof
  assume k: "thr_internal (fst (ts ! k)) = Some p"
  obtain t e where te: "ts ! h = (t, e)" by (metis surj_pair)
  let ?ts = "ts[h := (t\<lparr>thr_internal := None\<rparr>, e)]"
  have "mset (owned ts) = add_mset p (mset (owned ?ts))"
    using owned_update [OF assms(2) te] assms(5) te by simp
  moreover have "p \<in> set (owned ?ts)" using owned_mem [of k ?ts _ _ _ p] assms(3,4) k by (cases "ts ! k") auto
  ultimately show False using assms(1) by (metis distinct.simps(2) mset.simps(2) mset_eq_imp_distinct_iff)
qed

lemma inv_create:
  assumes "allocator (alloc arena) (free arena) live ok" "threads_inv ok live arena mem ts sys"
    and "cb_thread_create alloc free rc arena fn arg sys = (t, sys')"
  shows "threads_inv ok live arena mem (if thr_info t = CB_INFO_OK then ts @ [(t, fn, arg)] else ts) sys'"
proof -
  obtain q m where a: "alloc arena sizeof_targ 8 (ts_mem sys) = (q, m)" by fastforce
  note i = assms(2) [unfolded threads_inv_def]
  note c = assms(3) [unfolded cb_thread_create_def Let_def a]
  show ?thesis
  proof (cases q)
    case None
    then show ?thesis using c i allocator.alloc_fails [OF assms(1) _ a [unfolded None]] by (auto simp: threads_inv_def)
  next
    case (Some p)
    have ok: "ok (ts_mem sys)" using i by blast
    have g: "ok m" "p \<notin> live (ts_mem sys)" "live m = insert p (live (ts_mem sys))"
      "ok (free arena p m)" "live (free arena p m) = live (ts_mem sys)"
      using allocator.alloc_gives [OF assms(1) ok a [unfolded Some]] allocator.alloc_free [OF assms(1) ok a [unfolded Some]] by auto
    have new: "p \<notin> set (owned ts)" using g(2) i by blast
    have keep: "thread_ok arena h (ts ! h) (ts_os sys ! h) ((ts_targs sys)(p := x))" if "h < length ts" for h x
    proof (rule thread_ok_frame)
      show "thread_ok arena h (ts ! h) (ts_os sys ! h) (ts_targs sys)" using i that by blast
      show "\<forall>p'. thr_internal (fst (ts ! h)) = Some p' \<longrightarrow> ((ts_targs sys)(p := x)) p' = ts_targs sys p'"
        using owned_mem [OF that, of _ _ _ p] new by (metis fun_upd_apply prod.collapse)
    qed
    show ?thesis
    proof (cases "rc = 0")
      case True
      have os: "length (ts_os sys) = length ts" using i by blast
      have t: "t = \<lparr>thr_info = CB_INFO_OK, thr_internal = Some p, thr_handle = Some (length ts)\<rparr>"
        "ts_os sys' = ts_os sys @ [Running p]" "ts_mem sys' = m"
        "ts_targs sys' = (ts_targs sys)(p \<mapsto>
           \<lparr>targ_fn = fn, targ_arg = arg, targ_result = \<lparr>tr_info = CB_INFO_OK, tr_result = None\<rparr>, targ_arena = arena\<rparr>)"
        using c True Some os by auto
      have "owned [(t, fn, arg)] = [p]" by (simp add: owned_def t)
      then show ?thesis using i g new keep os unfolding threads_inv_def t(2-4)
        by (auto simp: t(1) owned_append nth_append thread_ok_def less_Suc_eq split: if_splits)
    next
      case False
      then show ?thesis using c i Some g keep by (auto simp: threads_inv_def)
    qed
  qed
qed

lemma inv_runs:
  assumes "threads_inv ok live arena mem ts sys" "h < length (ts_os sys)" "ts_os sys ! h = Running p \<or> ts_os sys ! h = Detached p"
    and "cb__thread_trampoline p sys = Some sys'" "os \<in> {Exited p, Gone}" "ts_os sys ! h = Detached p \<longrightarrow> os = Gone"
  shows "threads_inv ok live arena mem ts (sys'\<lparr>ts_os := (ts_os sys')[h := os]\<rparr>)"
proof -
  note i = assms(1) [unfolded threads_inv_def]
  obtain targ where targ: "ts_targs sys p = Some targ"
    "sys' = sys\<lparr>ts_targs := (ts_targs sys)(p \<mapsto> targ\<lparr>targ_result := targ_fn targ (targ_arg targ)\<rparr>)\<rparr>"
    using assms(4) by (auto simp: cb__thread_trampoline_def split: option.splits)
  have h: "h < length ts" using assms(2) i by simp
  obtain t fn arg where te: "ts ! h = (t, fn, arg)" by (metis prod_cases3)
  have hok: "thread_ok arena h (t, fn, arg) (ts_os sys ! h) (ts_targs sys)" using i h te by metis
  then have int: "thr_internal t = Some p" using assms(3) by (auto simp: thread_ok_def)
  have "thread_ok arena k (ts ! k) (ts_os sys ! k) (ts_targs sys')" if "k < length ts" "k \<noteq> h" for k
  proof (rule thread_ok_frame)
    show "thread_ok arena k (ts ! k) (ts_os sys ! k) (ts_targs sys)" using i that by blast
    show "\<forall>p'. thr_internal (fst (ts ! k)) = Some p' \<longrightarrow> ts_targs sys' p' = ts_targs sys p'"
      using owned_distinct [of ts h k p] i h that te int targ(2) by auto
  qed
  moreover have "thread_ok arena h (ts ! h) os (ts_targs sys')"
  proof -
    obtain r where "targ = \<lparr>targ_fn = fn, targ_arg = arg, targ_result = r, targ_arena = arena\<rparr>" and hd: "thr_handle t = Some h"
      using hok int targ(1) by (auto simp: thread_ok_def)
    then have "ts_targs sys' p = Some \<lparr>targ_fn = fn, targ_arg = arg, targ_result = fn arg, targ_arena = arena\<rparr>"
      by (simp add: targ(2))
    then show ?thesis using hd int te assms(5) by (auto simp: thread_ok_def)
  qed
  ultimately have "thread_ok arena k (ts ! k) ((ts_os sys)[h := os] ! k) (ts_targs sys')" if "k < length ts" for k
    using that assms(2) by (cases "k = h") (auto simp del: split_paired_All)
  moreover have "ts_os sys' = ts_os sys" "ts_mem sys' = ts_mem sys" by (simp_all add: targ(2))
  ultimately show ?thesis using i unfolding threads_inv_def by simp
qed

lemma inv_join:
  assumes "allocator (alloc arena) (free arena) live ok" "threads_inv ok live arena mem ts sys"
    and "h < length ts" "ts ! h = (t, fn, arg)" "ts_os sys ! h = Exited p"
  shows "\<exists>sys'. cb_thread_join free 0 t sys = Some (fn arg, t\<lparr>thr_internal := None\<rparr>, sys')
      \<and> threads_inv ok live arena mem (ts[h := (t\<lparr>thr_internal := None\<rparr>, fn, arg)]) sys'
      \<and> p \<in> live (ts_mem sys) \<and> live (ts_mem sys') = live (ts_mem sys) - {p}"
proof -
  note i = assms(2) [unfolded threads_inv_def]
  have "thread_ok arena h (t, fn, arg) (Exited p) (ts_targs sys)" using i assms(3-5) by metis
  then have t: "thr_handle t = Some h" "thr_internal t = Some p"
    "ts_targs sys p = Some \<lparr>targ_fn = fn, targ_arg = arg, targ_result = fn arg, targ_arena = arena\<rparr>"
    by (auto simp: thread_ok_def)
  let ?ts = "ts[h := (t\<lparr>thr_internal := None\<rparr>, fn, arg)]"
  let ?sys = "sys\<lparr>ts_os := (ts_os sys)[h := Gone], ts_mem := free arena p (ts_mem sys), ts_targs := (ts_targs sys)(p := None)\<rparr>"
  have m: "mset (owned ts) = add_mset p (mset (owned ?ts))" using owned_update [OF assms(3,4) t(2)] by simp
  then have d: "distinct (owned ?ts)" "p \<notin> set (owned ?ts)" "set (owned ts) = insert p (set (owned ?ts))"
    using i by (metis distinct.simps(2) mset.simps(2) mset_eq_imp_distinct_iff, metis distinct.simps(2) i mset.simps(2) mset_eq_imp_distinct_iff,
        metis set_mset_add_mset_insert set_mset_mset)
  have p: "p \<in> live (ts_mem sys)" "p \<notin> live mem" using i d(3) by auto
  have f: "ok (free arena p (ts_mem sys))" "live (free arena p (ts_mem sys)) = live (ts_mem sys) - {p}"
    using allocator.free_live [OF assms(1) _ p(1)] i by auto
  have "thread_ok arena k (ts ! k) (ts_os sys ! k) (ts_targs ?sys)" if "k < length ts" "k \<noteq> h" for k
  proof (rule thread_ok_frame)
    show "thread_ok arena k (ts ! k) (ts_os sys ! k) (ts_targs sys)" using i that by blast
    show "\<forall>p'. thr_internal (fst (ts ! k)) = Some p' \<longrightarrow> ts_targs ?sys p' = ts_targs sys p'"
      using owned_distinct [of ts h k p] i that assms(3,4) t(2) by auto
  qed
  moreover have "thread_ok arena h (t\<lparr>thr_internal := None\<rparr>, fn, arg) Gone x" for x using t(1) by (simp add: thread_ok_def)
  ultimately have "\<forall>k < length ?ts. thread_ok arena k (?ts ! k) (ts_os ?sys ! k) (ts_targs ?sys)"
    using i assms(3) by (simp add: nth_list_update)
  then have "threads_inv ok live arena mem ?ts ?sys"
    using i d p f unfolding threads_inv_def by auto
  then show ?thesis using t p f by (simp add: cb_thread_join_def)
qed

lemma thread_run_inv:
  assumes "allocator (alloc arena) (free arena) live ok" "thread_run alloc free arena mem ts sys" "ok mem"
  shows "threads_inv ok live arena mem ts sys"
  using assms(2)
proof induction
  case start
  then show ?case using assms(3) by (simp add: threads_inv_def owned_def)
next
  case (create ts sys rc fn arg t sys')
  show ?case by (rule inv_create [where alloc = alloc and free = free, OF assms(1) create.IH create.hyps(2)])
next
  case (runs ts sys h p sys')
  then show ?case by (intro inv_runs) auto
next
  case (runs_detached ts sys h p sys')
  then show ?case by (intro inv_runs) auto
next
  case (join ts sys h t fn arg p rc result t' sys')
  show ?case
  proof (cases "rc = 0")
    case True
    then show ?thesis using inv_join [where alloc = alloc and free = free, OF assms(1) join.IH join.hyps(2,3,4)] join.hyps(5) by auto
  next
    case False
    then have "t' = t" "sys' = sys" using join.hyps(5) by (auto simp: cb_thread_join_def)
    then show ?thesis using join by (metis list_update_id)
  qed
next
  case (join_fails ts sys h t fn arg rc result t' sys')
  then have "t' = t" "sys' = sys" by (auto simp: cb_thread_join_def)
  then show ?case using join_fails by (metis list_update_id)
next
  case (detach ts sys h t fn arg p rc info sys')
  note i = detach.IH [unfolded threads_inv_def]
  have "thread_ok arena h (t, fn, arg) (ts_os sys ! h) (ts_targs sys)" using i detach.hyps(2,3) by metis
  then have t: "thr_handle t = Some h" and d: "thread_ok arena h (t, fn, arg) (detached (ts_os sys ! h)) (ts_targs sys)"
    using detach.hyps(4) by (auto simp: thread_ok_def detached_def)
  show ?case using detach.hyps(2,3,5) i t d
    by (auto simp: cb_thread_detach_def threads_inv_def nth_list_update split: if_splits)
qed

text \<open>C18. Threads return what their function computed, and their memory is used safely.  In every
  interleaving of creating, running, joining and detaching threads without an arena: a thread that runs
  finds its argument block allocated; joining one that has ended returns its function's result on its
  argument and frees exactly its block; and the blocks allocated are exactly those of the threads that
  were created and not yet joined, detached ones included, so a failed creation leaves nothing behind.\<close>

theorem thread_join_result:
  assumes "thread_run (\<lambda>_. heap_alloc avail) cb__free None m ts sys" "heap_ok m"
  shows "distinct (owned ts) \<and> heap_live (ts_mem sys) = heap_live m \<union> set (owned ts) \<and> \<not> mem_fault (ts_mem sys)
    \<and> (\<forall>h < length ts. case ts ! h of (t, fn, arg) \<Rightarrow>
        (\<forall>p. ts_os sys ! h \<in> {Running p, Detached p} \<longrightarrow> p \<in> heap_live (ts_mem sys) \<and> cb__thread_trampoline p sys \<noteq> None)
        \<and> (\<forall>p. ts_os sys ! h = Exited p \<longrightarrow>
            (\<exists>sys'. cb_thread_join cb__free 0 t sys = Some (fn arg, t\<lparr>thr_internal := None\<rparr>, sys')
              \<and> p \<in> heap_live (ts_mem sys) \<and> heap_live (ts_mem sys') = heap_live (ts_mem sys) - {p} \<and> \<not> mem_fault (ts_mem sys'))))"
proof -
  note a = heap_allocator.allocator_axioms [of avail]
  have inv: "threads_inv heap_ok heap_live None m ts sys"
    by (rule thread_run_inv [where alloc = "\<lambda>_. heap_alloc avail" and free = cb__free and arena = None]) (use a assms in auto)
  note i = inv [unfolded threads_inv_def]
  have "case ts ! h of (t, fn, arg) \<Rightarrow>
        (\<forall>p. ts_os sys ! h \<in> {Running p, Detached p} \<longrightarrow> p \<in> heap_live (ts_mem sys) \<and> cb__thread_trampoline p sys \<noteq> None)
        \<and> (\<forall>p. ts_os sys ! h = Exited p \<longrightarrow>
            (\<exists>sys'. cb_thread_join cb__free 0 t sys = Some (fn arg, t\<lparr>thr_internal := None\<rparr>, sys')
              \<and> p \<in> heap_live (ts_mem sys) \<and> heap_live (ts_mem sys') = heap_live (ts_mem sys) - {p} \<and> \<not> mem_fault (ts_mem sys')))"
    if h: "h < length ts" for h
  proof -
    obtain t fn arg where te: "ts ! h = (t, fn, arg)" by (metis prod_cases3)
    have ok: "thread_ok None h (t, fn, arg) (ts_os sys ! h) (ts_targs sys)" using i h te by metis
    have "p \<in> heap_live (ts_mem sys) \<and> cb__thread_trampoline p sys \<noteq> None" if "ts_os sys ! h \<in> {Running p, Detached p}" for p
      using ok that i owned_mem [OF h te, of p] by (auto simp: thread_ok_def cb__thread_trampoline_def)
    moreover have "\<exists>sys'. cb_thread_join cb__free 0 t sys = Some (fn arg, t\<lparr>thr_internal := None\<rparr>, sys')
        \<and> p \<in> heap_live (ts_mem sys) \<and> heap_live (ts_mem sys') = heap_live (ts_mem sys) - {p} \<and> \<not> mem_fault (ts_mem sys')"
      if "ts_os sys ! h = Exited p" for p
      using inv_join [where alloc = "\<lambda>_. heap_alloc avail" and free = cb__free, OF _ inv h te that] a
      by (auto simp: threads_inv_def heap_ok_def)
    ultimately show ?thesis unfolding te by blast
  qed
  then show ?thesis using i by (simp add: heap_ok_def)
qed

text \<open>One thread that doubles its argument, created and run.\<close>

definition doubling :: "nat \<Rightarrow> nat cb_thread_result_t" where
  "doubling n = \<lparr>tr_info = CB_INFO_OK, tr_result = Some (2 * n)\<rparr>"

lemma thread_join_result_witness:
  "\<exists>(sys :: (pointer, memory, nat, nat, cb_arena_t option) thread_sys) sys'. ts_os sys = [Exited (Plain 0)] \<and> heap_live (ts_mem sys) = {Plain 0} \<and> heap_live (ts_mem sys') = {}
    \<and> cb_thread_join cb__free 0 \<lparr>thr_info = CB_INFO_OK, thr_internal = Some (Plain 0), thr_handle = Some 0\<rparr> sys
      = Some (doubling 21, \<lparr>thr_info = CB_INFO_OK, thr_internal = None, thr_handle = Some 0\<rparr>, sys')"
proof -
  let ?m = "\<lparr>mem_next = 0, mem_plain = Map.empty, mem_blocks = Map.empty, mem_fault = False\<rparr>"
  let ?run = "thread_run (\<lambda>_. heap_alloc (\<lambda>_ n. Some [])) cb__free None ?m"
  let ?t = "\<lparr>thr_info = CB_INFO_OK, thr_internal = Some (Plain 0), thr_handle = Some 0\<rparr>"
  let ?s0 = "\<lparr>ts_mem = ?m, ts_targs = Map.empty, ts_os = []\<rparr> :: (pointer, memory, nat, nat, cb_arena_t option) thread_sys"
  obtain t s1 where c: "cb_thread_create (\<lambda>_. heap_alloc (\<lambda>_ n. Some [])) cb__free 0 None doubling 21 ?s0 = (t, s1)" by fastforce
  then have t: "t = ?t" "ts_os s1 = [Running (Plain 0)]"
    "ts_targs s1 (Plain 0) = Some \<lparr>targ_fn = doubling, targ_arg = 21, targ_result = \<lparr>tr_info = CB_INFO_OK, tr_result = None\<rparr>, targ_arena = None\<rparr>"
    by (auto simp: cb_thread_create_def heap_alloc_malloc malloc_plain_def Let_def)
  have r1: "?run [(?t, doubling, 21)] s1" using thread_run.create [OF thread_run.start c] t(1) by simp
  obtain s2 where s2: "cb__thread_trampoline (Plain 0) s1 = Some s2" "ts_os s2 = ts_os s1"
    using t(3) by (auto simp: cb__thread_trampoline_def)
  let ?s3 = "s2\<lparr>ts_os := (ts_os s2)[0 := Exited (Plain 0)]\<rparr>"
  have r2: "?run [(?t, doubling, 21)] ?s3" using thread_run.runs [OF r1 _ _ s2(1), of 0] t(2) by simp
  have ok: "heap_ok ?m" "heap_live ?m = {}" by (simp_all add: heap_ok_def heap_live_def)
  have "owned [(?t, doubling, 21)] = [Plain 0]" by (simp add: owned_def)
  note j = this thread_join_result [OF r2 ok(1)] ok(2) t(2) s2(2)
  obtain s4 where "cb_thread_join cb__free 0 ?t ?s3 = Some (doubling 21, ?t\<lparr>thr_internal := None\<rparr>, s4)" "heap_live (ts_mem s4) = {}"
    using j by auto
  moreover have "ts_os ?s3 = [Exited (Plain 0)]" "heap_live (ts_mem ?s3) = {Plain 0}" using j by simp_all
  ultimately show ?thesis by (intro exI [of _ ?s3] exI [of _ s4]) simp
qed

end
