(* ===== verification/Log.thy ===== *)
theory Log
  imports Threading Config_Numbers
begin

text \<open>
  The logger of \<open>src/cbase_log.c\<close>: its global state with the once-gate, the setters, the formatting of a
  line into its 4096-byte buffer, and the emission to stderr and the file sink.  A buffer is the list of
  the characters written so far, so its length is the position.  The clock, the terminal test and the
  text that \<open>vsnprintf\<close> makes of the format and its arguments are arguments of the model; how much of a
  write a stream accepts is one too.  Each region under the logger's mutex is one step of the system of
  threads, in \<open>Log_Threads\<close>.
\<close>

section \<open>Definitions\<close>

datatype cb_log_level_t =
  CB_LOG_TRACE | CB_LOG_DEBUG | CB_LOG_INFO | CB_LOG_WARN | CB_LOG_ERROR | CB_LOG_FATAL | CB_LOG_OFF

primrec level_code :: "cb_log_level_t \<Rightarrow> nat" where
  "level_code CB_LOG_TRACE = 0" | "level_code CB_LOG_DEBUG = 1" | "level_code CB_LOG_INFO = 2"
| "level_code CB_LOG_WARN = 3" | "level_code CB_LOG_ERROR = 4" | "level_code CB_LOG_FATAL = 5" | "level_code CB_LOG_OFF = 6"

instantiation cb_log_level_t :: linorder
begin

definition less_eq_cb_log_level_t :: "cb_log_level_t \<Rightarrow> cb_log_level_t \<Rightarrow> bool" where
  "less_eq_cb_log_level_t a b \<longleftrightarrow> level_code a \<le> level_code b"

definition less_cb_log_level_t :: "cb_log_level_t \<Rightarrow> cb_log_level_t \<Rightarrow> bool" where
  "less_cb_log_level_t a b \<longleftrightarrow> level_code a < level_code b"

instance
proof
  fix a b :: cb_log_level_t
  show "a = b" if "a \<le> b" "b \<le> a" using that by (cases a; cases b) (simp_all add: less_eq_cb_log_level_t_def)
qed (auto simp: less_eq_cb_log_level_t_def less_cb_log_level_t_def)

end

definition CB__LOG_BUF_SZ :: nat where "CB__LOG_BUF_SZ = 4096"
definition CB__LOG_TRUNC_MARKER :: string where "CB__LOG_TRUNC_MARKER = ''...[TRUNC]''"
definition CB__LOG_MODULE_COLS :: nat where "CB__LOG_MODULE_COLS = 6"
definition CB__LOG_MODULE_MAX :: nat where "CB__LOG_MODULE_MAX = 16"

text \<open>The global state; a file sink is the number of its stream.\<close>

record cb__log_t =
  log_initialized :: bool
  log_min_level :: cb_log_level_t
  log_use_color :: bool
  log_timestamps :: bool
  log_file_sink :: "nat option"
  log_start_ns :: u64
  log_mu :: cb_mutex_t
  log_last_error :: cb_info_t

definition cb__log :: cb__log_t where
  "cb__log = \<lparr>log_initialized = False, log_min_level = CB_LOG_INFO, log_use_color = False, log_timestamps = True,
     log_file_sink = None, log_start_ns = 0, log_mu = \<lparr>mutex_info = CB_INFO_OK, mutex_handle = 0\<rparr>,
     log_last_error = CB_INFO_OK\<rparr>"

text \<open>What initialization reads: whether stderr is a terminal, the clock and the new mutex.  The once-gate
  runs it on the first call only, after which \<open>log_initialized\<close> holds.\<close>

record log_env =
  env_tty :: bool
  env_now_ns :: u64
  env_mutex :: cb_mutex_t

definition cb__log_do_init :: "log_env \<Rightarrow> cb__log_t" where
  "cb__log_do_init env =
     \<lparr>log_initialized = True, log_min_level = CB_LOG_INFO, log_use_color = env_tty env, log_timestamps = True,
      log_file_sink = None, log_start_ns = env_now_ns env, log_mu = env_mutex env, log_last_error = CB_INFO_OK\<rparr>"

definition cb__log_ensure_init :: "log_env \<Rightarrow> cb__log_t \<Rightarrow> cb__log_t" where
  "cb__log_ensure_init env lg = (if log_initialized lg then lg else cb__log_do_init env)"

definition cb_log_init :: "log_env \<Rightarrow> cb__log_t \<Rightarrow> cb__log_t" where
  "cb_log_init env lg = cb__log_ensure_init env lg"

definition cb_log_set_level :: "log_env \<Rightarrow> cb_log_level_t \<Rightarrow> cb__log_t \<Rightarrow> cb__log_t" where
  "cb_log_set_level env min_level lg = (cb__log_ensure_init env lg)\<lparr>log_min_level := min_level\<rparr>"

definition cb_log_get_level :: "log_env \<Rightarrow> cb__log_t \<Rightarrow> cb_log_level_t \<times> cb__log_t" where
  "cb_log_get_level env lg = (let lg = cb__log_ensure_init env lg in (log_min_level lg, lg))"

definition cb_log_set_color :: "log_env \<Rightarrow> bool \<Rightarrow> cb__log_t \<Rightarrow> cb__log_t" where
  "cb_log_set_color env enabled lg = (cb__log_ensure_init env lg)\<lparr>log_use_color := enabled\<rparr>"

definition cb_log_set_timestamps :: "log_env \<Rightarrow> bool \<Rightarrow> cb__log_t \<Rightarrow> cb__log_t" where
  "cb_log_set_timestamps env enabled lg = (cb__log_ensure_init env lg)\<lparr>log_timestamps := enabled\<rparr>"

definition cb_log_set_file_sink :: "log_env \<Rightarrow> nat option \<Rightarrow> cb__log_t \<Rightarrow> cb_info_t \<times> cb__log_t" where
  "cb_log_set_file_sink env f lg = (CB_INFO_OK, (cb__log_ensure_init env lg)\<lparr>log_file_sink := f\<rparr>)"

definition cb_log_last_error :: "log_env \<Rightarrow> cb__log_t \<Rightarrow> cb_info_t \<times> cb__log_t" where
  "cb_log_last_error env lg = (let lg = cb__log_ensure_init env lg in (log_last_error lg, lg))"

definition cb_log_clear_last_error :: "log_env \<Rightarrow> cb__log_t \<Rightarrow> cb__log_t" where
  "cb_log_clear_last_error env lg = (cb__log_ensure_init env lg)\<lparr>log_last_error := CB_INFO_OK\<rparr>"

fun cb__log_level_tag :: "cb_log_level_t \<Rightarrow> string" where
  "cb__log_level_tag CB_LOG_TRACE = ''TRACE''"
| "cb__log_level_tag CB_LOG_DEBUG = ''DEBUG''"
| "cb__log_level_tag CB_LOG_INFO = ''INFO ''"
| "cb__log_level_tag CB_LOG_WARN = ''WARN ''"
| "cb__log_level_tag CB_LOG_ERROR = ''ERROR''"
| "cb__log_level_tag CB_LOG_FATAL = ''FATAL''"
| "cb__log_level_tag _ = ''?????''"

definition ESC :: char where "ESC = CHR 0x1B"
definition NEWLINE :: char where "NEWLINE = CHR 0x0A"

fun cb__log_color_strs :: "cb_log_level_t \<Rightarrow> string \<times> string" where
  "cb__log_color_strs CB_LOG_TRACE = (ESC # ''[2m'', ESC # ''[0m'')"
| "cb__log_color_strs CB_LOG_DEBUG = (ESC # ''[36m'', ESC # ''[0m'')"
| "cb__log_color_strs CB_LOG_INFO = ('''', '''')"
| "cb__log_color_strs CB_LOG_WARN = (ESC # ''[33m'', ESC # ''[0m'')"
| "cb__log_color_strs CB_LOG_ERROR = (ESC # ''[31m'', ESC # ''[0m'')"
| "cb__log_color_strs CB_LOG_FATAL = (ESC # ''[1;31m'', ESC # ''[0m'')"
| "cb__log_color_strs _ = ('''', '''')"

fun cb__log_append :: "nat \<Rightarrow> string \<Rightarrow> string \<Rightarrow> string" where
  "cb__log_append cap buf [] = buf"
| "cb__log_append cap buf (c # s) = (if length buf + 1 < cap then cb__log_append cap (buf @ [c]) s else buf)"

text \<open>The digits in \<open>tmp\<close>, the lowest first; \<open>k\<close> is the room left in it.\<close>

fun tmp_digits :: "nat \<Rightarrow> u64 \<Rightarrow> string" where
  "tmp_digits 0 v = []"
| "tmp_digits (Suc k) v = (if v > 0 then char_of (48 + unat (v mod 10)) # tmp_digits k (v div 10) else [])"

definition number_digits :: "u64 \<Rightarrow> string" where
  "number_digits v = (if v = 0 then ''0'' else tmp_digits 24 v)"

fun pad_field :: "char \<Rightarrow> nat \<Rightarrow> nat \<Rightarrow> string \<Rightarrow> nat \<Rightarrow> string" where
  "pad_field c n cap buf 0 = buf"
| "pad_field c n cap buf (Suc width) =
     (if n < Suc width \<and> length buf + 1 < cap then pad_field c n cap (buf @ [c]) width else buf)"

text \<open>The digits are emitted in reverse, while there is room.\<close>

definition cb__log_append_uint_pad :: "nat \<Rightarrow> string \<Rightarrow> u64 \<Rightarrow> nat \<Rightarrow> string" where
  "cb__log_append_uint_pad cap buf v width =
     (let tmp = number_digits v; buf = pad_field (CHR '' '') (length tmp) cap buf width
      in cb__log_append cap buf (rev tmp))"

definition cb__log_append_uint_zeropad :: "nat \<Rightarrow> string \<Rightarrow> u64 \<Rightarrow> nat \<Rightarrow> string" where
  "cb__log_append_uint_zeropad cap buf v width =
     (let tmp = number_digits v; buf = pad_field (CHR ''0'') (length tmp) cap buf width
      in cb__log_append cap buf (rev tmp))"

text \<open>\<open>cb_log\<close>, in the parts of the source.  The snapshot that it takes is the state \<open>cfg\<close> at that time.\<close>

definition log_timestamp :: "cb__log_t \<Rightarrow> u64 \<Rightarrow> string \<Rightarrow> string" where
  "log_timestamp cfg now_ns plain =
     (if log_timestamps cfg
      then let dt_ns = (if log_start_ns cfg \<le> now_ns then now_ns - log_start_ns cfg else 0);
               secs = dt_ns div 1000000000; us = (dt_ns mod 1000000000) div 1000;
               plain = cb__log_append CB__LOG_BUF_SZ plain ''['';
               plain = cb__log_append_uint_pad CB__LOG_BUF_SZ plain secs 10;
               plain = cb__log_append CB__LOG_BUF_SZ plain ''.'';
               plain = cb__log_append_uint_zeropad CB__LOG_BUF_SZ plain us 6
           in cb__log_append CB__LOG_BUF_SZ plain ''] ''
      else plain)"

text \<open>The module: at most 16 characters, padded to 6.\<close>

definition log_module :: "string option \<Rightarrow> string \<Rightarrow> string" where
  "log_module module plain =
     (case module of
        Some name \<Rightarrow>
          (let name = take CB__LOG_MODULE_MAX name; plain = cb__log_append CB__LOG_BUF_SZ plain name
           in cb__log_append CB__LOG_BUF_SZ plain (replicate (CB__LOG_MODULE_COLS - length name) (CHR '' '')))
      | None \<Rightarrow> cb__log_append CB__LOG_BUF_SZ plain (replicate CB__LOG_MODULE_COLS (CHR '' '')))"

text \<open>The message: \<open>body\<close> is the text that \<open>vsnprintf\<close> makes, \<open>None\<close> its error.  It writes at most
  \<open>avail - 1\<close> characters and a terminator, and returns the length of the whole text.\<close>

definition log_body :: "string option \<Rightarrow> string \<Rightarrow> string \<times> bool" where
  "log_body body plain =
     (let marker_len = length CB__LOG_TRUNC_MARKER; body_end_max = CB__LOG_BUF_SZ - marker_len - 1
      in if length plain < body_end_max
         then let avail = body_end_max - length plain + 1
              in case body of
                   None \<Rightarrow> (plain, False)
                 | Some text \<Rightarrow>
                     if length text \<ge> avail then (plain @ take (avail - 1) text, True) else (plain @ text, False)
         else (plain, True))"

definition cb_log_line :: "cb__log_t \<Rightarrow> u64 \<Rightarrow> cb_log_level_t \<Rightarrow> string option \<Rightarrow> string option \<Rightarrow> string" where
  "cb_log_line cfg now_ns level module body =
     (let plain = log_timestamp cfg now_ns [];
          plain = cb__log_append CB__LOG_BUF_SZ plain (cb__log_level_tag level);
          plain = cb__log_append CB__LOG_BUF_SZ plain '' '';
          plain = log_module module plain;
          plain = cb__log_append CB__LOG_BUF_SZ plain '' '';
          (plain, truncated) = log_body body plain;
          plain = (if truncated then plain @ CB__LOG_TRUNC_MARKER else plain)
      in plain @ [NEWLINE])"

definition cb_log_stderr_line :: "cb__log_t \<Rightarrow> cb_log_level_t \<Rightarrow> string \<Rightarrow> string" where
  "cb_log_stderr_line cfg level plain =
     (let (cpre, csuf) = (if log_use_color cfg then cb__log_color_strs level else ('''', ''''))
      in if log_use_color cfg \<and> length cpre > 0
         then if length cpre + length plain + length csuf + 1 \<le> CB__LOG_BUF_SZ + 32
              then let body = (if length plain > 0 \<and> last plain = NEWLINE then length plain - 1 else length plain)
                   in cpre @ take body plain @ csuf @ [NEWLINE]
              else plain
         else plain)"

section \<open>The format of a line\<close>

text \<open>Fields of a fixed width, as the documentation gives them.\<close>

definition right_aligned :: "char \<Rightarrow> nat \<Rightarrow> string \<Rightarrow> string" where
  "right_aligned c width s = replicate (width - length s) c @ s"

definition left_aligned :: "nat \<Rightarrow> string \<Rightarrow> string" where
  "left_aligned width s = s @ replicate (width - length s) (CHR '' '')"

definition timestamp_text :: "nat \<Rightarrow> string" where
  "timestamp_text us =
     ''['' @ right_aligned (CHR '' '') 10 (show_nat (us div 1000000)) @ ''.''
     @ right_aligned (CHR ''0'') 6 (show_nat (us mod 1000000)) @ ''] ''"

definition line_prefix :: "cb__log_t \<Rightarrow> u64 \<Rightarrow> cb_log_level_t \<Rightarrow> string option \<Rightarrow> string" where
  "line_prefix cfg now_ns level module =
     (if log_timestamps cfg then timestamp_text ((unat now_ns - unat (log_start_ns cfg)) div 1000) else [])
     @ cb__log_level_tag level @ '' '' @ left_aligned 6 (case module of None \<Rightarrow> [] | Some name \<Rightarrow> take 16 name) @ '' ''"

lemma append_fits: "length buf + length s < cap \<Longrightarrow> cb__log_append cap buf s = buf @ s"
  by (induction s arbitrary: buf) simp_all

lemma pad_field_fits:
  "length buf + width < cap \<Longrightarrow> pad_field c n cap buf width = buf @ replicate (width - n) c"
proof (induction width arbitrary: buf)
  case (Suc width)
  show ?case
  proof (cases "n < Suc width")
    case True
    then have "Suc width - n = Suc (width - n)" by simp
    moreover have "length buf + 1 < cap" using Suc.prems by simp
    ultimately show ?thesis using True Suc by simp
  qed simp
qed simp

lemma rev_tmp_digits:
  "0 < v \<Longrightarrow> unat v < 10 ^ k \<Longrightarrow> rev (tmp_digits k v) = show_nat (unat v)"
proof (induction k arbitrary: v)
  case (Suc k)
  have u: "unat (v div 10) = unat v div 10" "unat (v mod 10) = unat v mod 10" by (simp_all add: unat_div unat_mod)
  show ?case
  proof (cases "unat v < 10")
    case True
    then have "v div 10 = 0" using u(1) by (simp add: unat_eq_zero)
    then have "tmp_digits k (v div 10) = []" by (cases k) simp_all
    then show ?thesis using Suc(2) True u(2) by (simp add: show_nat.simps [of "unat v"])
  next
    case False
    then have "0 < v div 10" using u(1) by (simp add: word_gt_0 unat_gt_0 flip: unat_eq_zero)
    moreover have "unat (v div 10) < 10 ^ k" using Suc(3) u(1) by (simp add: less_mult_imp_div_less mult.commute)
    ultimately have "rev (tmp_digits k (v div 10)) = show_nat (unat v div 10)" using Suc.IH u(1) by simp
    then show ?thesis using Suc(2) False u(2) by (simp add: show_nat.simps [of "unat v"])
  qed
qed (simp add: word_gt_0 unat_eq_zero)

lemma show_nat_0: "show_nat 0 = ''0''"
  by code_simp

lemma rev_number_digits: "rev (number_digits v) = show_nat (unat v)"
proof (cases "v = 0")
  case True
  then show ?thesis by (simp add: number_digits_def show_nat_0)
next
  case False
  have "unat v < 10 ^ 24" using unsigned_less [where 'a = nat, of v] by simp
  then show ?thesis using rev_tmp_digits [of v 24] False by (simp add: number_digits_def word_gt_0)
qed

lemma length_show_nat: "n < 10 ^ k \<Longrightarrow> 0 < k \<Longrightarrow> length (show_nat n) \<le> k"
proof (induction n arbitrary: k rule: show_nat.induct)
  case (1 n)
  show ?case
  proof (cases "n < 10")
    case True
    then show ?thesis using 1(3) by (simp add: show_nat.simps [of n])
  next
    case False
    then obtain j where j: "k = Suc j" "0 < j" using 1(2,3) by (cases k; cases "k - 1") auto
    then have "n div 10 < 10 ^ j" using 1(2) by (simp add: less_mult_imp_div_less mult.commute)
    then show ?thesis using 1(1) [OF False _ j(2)] j(1) False by (simp add: show_nat.simps [of n])
  qed
qed

lemma append_uint_pad:
  assumes "length buf + 24 < cap" "width \<le> 10" 
  shows "cb__log_append_uint_pad cap buf v width = buf @ right_aligned (CHR '' '') width (show_nat (unat v))"
    "cb__log_append_uint_zeropad cap buf v width = buf @ right_aligned (CHR ''0'') width (show_nat (unat v))"
proof -
  have v: "unat v < 10 ^ 20" using unsigned_less [where 'a = nat, of v] by simp
  have l: "length (number_digits v) = length (show_nat (unat v))" by (metis length_rev rev_number_digits)
  have "length (show_nat (unat v)) \<le> 20" by (rule length_show_nat [OF v]) simp
  then have "length (buf @ replicate (width - length (show_nat (unat v))) c) + length (show_nat (unat v)) < cap" for c
    using assms by auto
  note f = append_fits [OF this]
  show "cb__log_append_uint_pad cap buf v width = buf @ right_aligned (CHR '' '') width (show_nat (unat v))"
    "cb__log_append_uint_zeropad cap buf v width = buf @ right_aligned (CHR ''0'') width (show_nat (unat v))"
    unfolding cb__log_append_uint_pad_def cb__log_append_uint_zeropad_def Let_def l rev_number_digits right_aligned_def
    using assms by (simp_all add: pad_field_fits f)
qed

lemma length_right_aligned: "length (right_aligned c width s) = max width (length s)"
  by (auto simp: right_aligned_def)

lemma log_timestamp_text:
  assumes "length plain < 1000"
  shows "log_timestamp cfg now_ns plain =
    plain @ (if log_timestamps cfg then timestamp_text ((unat now_ns - unat (log_start_ns cfg)) div 1000) else [])"
proof -
  let ?d = "unat now_ns - unat (log_start_ns cfg)"
  let ?w = "if log_start_ns cfg \<le> now_ns then now_ns - log_start_ns cfg else 0"
  have d: "unat ?w = ?d" by (auto simp: unat_sub word_le_nat_alt)
  have s: "unat (?w div 1000000000) = ?d div 1000 div 1000000" unfolding unat_div d by (simp add: div_mult2_eq)
  have u: "unat (?w mod 1000000000 div 1000) = ?d div 1000 mod 1000000"
    unfolding unat_div unat_mod d using mod_mult2_eq [of ?d 1000 1000000] by simp
  have d64: "?d div 1000 div 1000000 < 10 ^ 20" using unsigned_less [where 'a = nat, of now_ns] by simp
  define a where "a = right_aligned (CHR '' '') 10 (show_nat (?d div 1000 div 1000000))"
  define b where "b = right_aligned (CHR ''0'') 6 (show_nat (?d div 1000 mod 1000000))"
  have la: "length a \<le> 20" using length_show_nat [OF d64] by (simp add: a_def length_right_aligned)
  have lb: "length b \<le> 6" using length_show_nat [of "?d div 1000 mod 1000000" 6] by (simp add: b_def length_right_aligned)
  have "cb__log_append 4096 plain ''['' = plain @ ''[''" by (rule append_fits) (use assms in simp)
  moreover have "cb__log_append_uint_pad 4096 (plain @ ''['') (?w div 1000000000) 10 = (plain @ ''['') @ a"
    unfolding a_def s [symmetric] by (rule append_uint_pad) (use assms in simp_all)
  moreover have "cb__log_append 4096 ((plain @ ''['') @ a) ''.'' = ((plain @ ''['') @ a) @ ''.''"
    by (rule append_fits) (use assms la in simp)
  moreover have "cb__log_append_uint_zeropad 4096 (((plain @ ''['') @ a) @ ''.'') (?w mod 1000000000 div 1000) 6
      = (((plain @ ''['') @ a) @ ''.'') @ b"
    unfolding b_def u [symmetric] by (rule append_uint_pad) (use assms la in simp_all)
  moreover have "cb__log_append 4096 ((((plain @ ''['') @ a) @ ''.'') @ b) ''] '' = ((((plain @ ''['') @ a) @ ''.'') @ b) @ ''] ''"
    by (rule append_fits) (use assms la lb in simp)
  ultimately show ?thesis
    unfolding log_timestamp_def Let_def CB__LOG_BUF_SZ_def timestamp_text_def a_def [symmetric] b_def [symmetric] by simp
qed

lemma length_timestamp: 
  assumes "n < 2 ^ 64"
  shows "length (timestamp_text (n div 1000)) \<le> 40"
proof -
  have "length (show_nat (n div 1000 div 1000000)) \<le> 20" "length (show_nat (n div 1000 mod 1000000)) \<le> 6"
    using assms by (auto intro!: length_show_nat)
  then show ?thesis by (simp add: timestamp_text_def length_right_aligned)
qed

lemma length_level_tag [simp]: "length (cb__log_level_tag level) = 5"
  by (cases level) simp_all

lemma length_prefix: "length (line_prefix cfg now_ns level module) \<le> 63"
proof -
  have "unat now_ns - unat (log_start_ns cfg) < 2 ^ 64" using unsigned_less [where 'a = nat, of now_ns] by simp
  then show ?thesis using length_timestamp [of "unat now_ns - unat (log_start_ns cfg)"]
    by (auto simp: line_prefix_def left_aligned_def split: option.splits)
qed

lemma log_line_text:
  fixes cfg now_ns level module body
  defines "text \<equiv> line_prefix cfg now_ns level module @ (case body of None \<Rightarrow> [] | Some t \<Rightarrow> t)"
  defines "line \<equiv> (if length text \<le> 4085 then text else take 4085 text @ ''...[TRUNC]'')"
  shows "cb_log_line cfg now_ns level module body = line @ [NEWLINE] \<and> length (line @ [NEWLINE]) \<le> 4096
    \<and> cb_log_stderr_line cfg level (line @ [NEWLINE]) =
       (if log_use_color cfg then fst (cb__log_color_strs level) @ line @ snd (cb__log_color_strs level) @ [NEWLINE]
        else line @ [NEWLINE])"
proof (intro conjI)
  let ?p = "line_prefix cfg now_ns level module"
  note lp = length_prefix [of cfg now_ns level module]
  have ts: "length (log_timestamp cfg now_ns []) \<le> 40"
    using length_timestamp [of "unat now_ns - unat (log_start_ns cfg)"] unsigned_less [where 'a = nat, of now_ns]
    by (auto simp: log_timestamp_text)
  define t where "t = log_timestamp cfg now_ns []"
  define m where "m = (case module of None \<Rightarrow> [] | Some name \<Rightarrow> take 16 name)"
  have lm: "length (left_aligned 6 m) \<le> 16" by (auto simp: left_aligned_def m_def split: option.splits)
  have "cb__log_append 4096 t (cb__log_level_tag level) = t @ cb__log_level_tag level"
    by (rule append_fits) (use ts in \<open>simp add: t_def\<close>)
  moreover have "cb__log_append 4096 (t @ cb__log_level_tag level) '' '' = (t @ cb__log_level_tag level) @ '' ''"
    by (rule append_fits) (use ts in \<open>simp add: t_def\<close>)
  moreover have "log_module module buf = buf @ left_aligned 6 m" if "length buf < 1000" for buf
    using that by (auto simp: log_module_def left_aligned_def m_def append_fits CB__LOG_BUF_SZ_def CB__LOG_MODULE_COLS_def
        CB__LOG_MODULE_MAX_def Let_def split: option.splits)
  then have "log_module module ((t @ cb__log_level_tag level) @ '' '') = ((t @ cb__log_level_tag level) @ '' '') @ left_aligned 6 m"
    using ts by (simp add: t_def)
  moreover have "cb__log_append 4096 (((t @ cb__log_level_tag level) @ '' '') @ left_aligned 6 m) '' ''
      = (((t @ cb__log_level_tag level) @ '' '') @ left_aligned 6 m) @ '' ''"
    by (rule append_fits) (use ts lm in \<open>simp add: t_def\<close>)
  ultimately have p: "cb__log_append 4096 (log_module module (cb__log_append 4096 (cb__log_append 4096 t
      (cb__log_level_tag level)) '' '')) '' '' = ?p"
    by (simp add: line_prefix_def m_def t_def log_timestamp_text)
  have r: "cb_log_line cfg now_ns level module body
      = (case log_body body ?p of (q, truncated) \<Rightarrow> (if truncated then q @ CB__LOG_TRUNC_MARKER else q) @ [NEWLINE])"
    unfolding cb_log_line_def Let_def CB__LOG_BUF_SZ_def t_def [symmetric] p ..
  show "cb_log_line cfg now_ns level module body = line @ [NEWLINE]"
  proof (cases body)
    case None
    then show ?thesis using lp unfolding r line_def text_def
      by (simp add: log_body_def CB__LOG_BUF_SZ_def CB__LOG_TRUNC_MARKER_def)
  next
    case (Some x)
    then show ?thesis using lp unfolding r line_def text_def
      by (auto simp: log_body_def CB__LOG_BUF_SZ_def CB__LOG_TRUNC_MARKER_def)
  qed
  show len: "length (line @ [NEWLINE]) \<le> 4096" by (auto simp: line_def)
  have c: "length (fst (cb__log_color_strs level)) + length (snd (cb__log_color_strs level)) \<le> 20"
    by (cases level) simp_all
  have e: "fst (cb__log_color_strs level) = [] \<Longrightarrow> snd (cb__log_color_strs level) = []" by (cases level) simp_all
  show "cb_log_stderr_line cfg level (line @ [NEWLINE]) =
       (if log_use_color cfg then fst (cb__log_color_strs level) @ line @ snd (cb__log_color_strs level) @ [NEWLINE]
        else line @ [NEWLINE])"
    using c e len by (auto simp: cb_log_stderr_line_def CB__LOG_BUF_SZ_def split: prod.splits)
qed

text \<open>C17. Every line has one exact format and fits the buffer.  It is the prefix (the seconds since
  initialization right-aligned in ten columns with exact microseconds, the level, the module in at least
  6 and at most 16 columns) and the message, or their first 4085 characters and the marker
  "...[TRUNC]" exactly when they are longer, then a newline: at most 4096 characters.  On stderr the same
  characters appear between the colour codes of the level, if colours are on.  The format is that of
  the code: with ten columns for the whole seconds its time stamp has at least 17 characters between the
  brackets, where \<open>cbase.h\<close> documents \<open>"[%10.6f]"\<close>, at least 10, and shows 12.\<close>

theorem log_line_exact:
  "let text = line_prefix cfg now_ns level module @ (case body of None \<Rightarrow> [] | Some t \<Rightarrow> t);
       line = (if length text \<le> 4085 then text else take 4085 text @ ''...[TRUNC]'') @ [NEWLINE]
   in cb_log_line cfg now_ns level module body = line \<and> length line \<le> 4096
    \<and> cb_log_stderr_line cfg level line =
       (if log_use_color cfg
        then fst (cb__log_color_strs level) @ butlast line @ snd (cb__log_color_strs level) @ [NEWLINE] else line)"
  using log_line_text [of cfg now_ns level module body] by (simp add: Let_def)

end
