(* ===== verification/Log_Threads.thy ===== *)
theory Log_Threads
  imports Log
begin

text \<open>
  The logger of \<open>src/cbase_log.c\<close> under several threads.  A call of \<open>cb_log\<close> has two regions under the
  mutex, the snapshot of the configuration at its start and the emission at its end, and formats between
  them; the setters are one region each.  The regions are the steps.  The writes are kept, each with
  its stream, the whole text and how much of it the stream accepted, and so are the calls, each with the
  configuration of the logger at that moment.
\<close>

section \<open>Definitions\<close>

datatype log_stream = Stderr | File nat

type_synonym log_write = "log_stream \<times> string \<times> nat"

text \<open>The end of \<open>cb_log\<close>: \<open>w\<close> and \<open>w2\<close> are the results of \<open>fwrite\<close> to stderr and to the file sink.\<close>

definition cb_log_emit :: "nat \<Rightarrow> nat \<Rightarrow> nat option \<Rightarrow> string \<Rightarrow> string \<Rightarrow> cb__log_t \<Rightarrow> log_write list \<times> cb__log_t" where
  "cb_log_emit w w2 file_sink stderr_buf plain lg =
     (let out = [(Stderr, stderr_buf, w)];
          lg = (if w < length stderr_buf \<and> log_last_error lg = CB_INFO_OK
                then lg\<lparr>log_last_error := CB_INFO_LOG_WRITE_FAILED\<rparr> else lg)
      in case file_sink of
           None \<Rightarrow> (out, lg)
         | Some f \<Rightarrow>
             let out = out @ [(File f, plain, w2)];
                 lg = (if w2 < length plain \<and> log_last_error lg = CB_INFO_OK
                       then lg\<lparr>log_last_error := CB_INFO_LOG_WRITE_FAILED\<rparr> else lg)
             in (out, lg))"

text \<open>The start of \<open>cb_log\<close>: its snapshot, or \<open>None\<close> for a message below the level.\<close>

definition cb_log_begin :: "log_env \<Rightarrow> cb_log_level_t \<Rightarrow> cb__log_t \<Rightarrow> cb__log_t option \<times> cb__log_t" where
  "cb_log_begin env level lg =
     (let lg = cb__log_ensure_init env lg
      in (if level < log_min_level lg \<or> CB_LOG_OFF \<le> log_min_level lg then None else Some lg, lg))"

text \<open>A whole call, if no other thread comes between; \<open>body\<close> as for \<open>cb_log_line\<close>.\<close>

definition cb_log :: "log_env \<Rightarrow> u64 \<Rightarrow> nat \<Rightarrow> nat \<Rightarrow> cb_log_level_t \<Rightarrow> string option \<Rightarrow> string option \<Rightarrow> cb__log_t
    \<Rightarrow> log_write list \<times> cb__log_t" where
  "cb_log env now_ns w w2 level module body lg =
     (case cb_log_begin env level lg of
        (None, lg) \<Rightarrow> ([], lg)
      | (Some cfg, lg) \<Rightarrow>
          let plain = cb_log_line cfg now_ns level module body
          in cb_log_emit w w2 (log_file_sink cfg) (cb_log_stderr_line cfg level plain) plain lg)"

text \<open>The system: the logger, the calls of \<open>cb_log\<close> that were made, each with the configuration that the
  logger had then, the calls between their two regions by thread, each with its number and its snapshot,
  the writes so far, and how many of them there were when the error was cleared last.\<close>

record log_message =
  msg_level :: cb_log_level_t
  msg_module :: "string option"
  msg_body :: "string option"

record log_sys =
  ls_log :: cb__log_t
  ls_made :: "(cb__log_t \<times> log_message) list"
  ls_calls :: "nat \<Rightarrow> (nat \<times> cb__log_t \<times> log_message) option"
  ls_writes :: "log_write list"
  ls_cleared :: nat

definition log_start :: log_sys where
  "log_start = \<lparr>ls_log = cb__log, ls_made = [], ls_calls = \<lambda>_. None, ls_writes = [], ls_cleared = 0\<rparr>"

inductive log_set :: "cb__log_t \<Rightarrow> cb__log_t \<Rightarrow> bool" where
  init: "log_set lg (cb_log_init env lg)"
| level: "log_set lg (cb_log_set_level env l lg)"
| get_level: "log_set lg (snd (cb_log_get_level env lg))"
| color: "log_set lg (cb_log_set_color env b lg)"
| timestamps: "log_set lg (cb_log_set_timestamps env b lg)"
| sink: "log_set lg (snd (cb_log_set_file_sink env f lg))"
| last_error: "log_set lg (snd (cb_log_last_error env lg))"

inductive log_step :: "log_sys \<Rightarrow> log_sys \<Rightarrow> bool" where
  set_: "log_set (ls_log s) lg \<Longrightarrow> log_step s (s\<lparr>ls_log := lg\<rparr>)"
| clear: "log_step s (s\<lparr>ls_log := cb_log_clear_last_error env (ls_log s), ls_cleared := length (ls_writes s)\<rparr>)"
| filtered: "ls_calls s i = None \<Longrightarrow> cb_log_begin env (msg_level msg) (ls_log s) = (None, lg) \<Longrightarrow>
    log_step s (s\<lparr>ls_log := lg, ls_made := ls_made s @ [(cb__log_ensure_init env (ls_log s), msg)]\<rparr>)"
| begins: "ls_calls s i = None \<Longrightarrow> cb_log_begin env (msg_level msg) (ls_log s) = (Some cfg, lg) \<Longrightarrow>
    log_step s (s\<lparr>ls_log := lg, ls_made := ls_made s @ [(cb__log_ensure_init env (ls_log s), msg)],
      ls_calls := (ls_calls s)(i \<mapsto> (length (ls_made s), cfg, msg))\<rparr>)"
| emits: "ls_calls s i = Some (k, cfg, msg) \<Longrightarrow>
    plain = cb_log_line cfg now_ns (msg_level msg) (msg_module msg) (msg_body msg) \<Longrightarrow>
    colored = cb_log_stderr_line cfg (msg_level msg) plain \<Longrightarrow> w \<le> length colored \<Longrightarrow> w2 \<le> length plain \<Longrightarrow>
    cb_log_emit w w2 (log_file_sink cfg) colored plain (ls_log s) = (out, lg) \<Longrightarrow>
    log_step s (s\<lparr>ls_log := lg, ls_calls := (ls_calls s)(i := None), ls_writes := ls_writes s @ out\<rparr>)"

inductive log_run :: "log_sys \<Rightarrow> bool" where
  start: "log_run log_start"
| step: "log_run s \<Longrightarrow> log_step s s' \<Longrightarrow> log_run s'"

section \<open>What the streams receive\<close>

definition short :: "log_write \<Rightarrow> bool" where
  "short wr = (case wr of (_, text, w) \<Rightarrow> w < length text)"

definition enabled :: "cb__log_t \<Rightarrow> cb_log_level_t \<Rightarrow> bool" where
  "enabled cfg level \<longleftrightarrow> log_min_level cfg \<le> level \<and> log_min_level cfg < CB_LOG_OFF"

text \<open>What a call writes under a configuration: its line to stderr, coloured as configured, then the plain
  line to the file sink if there is one; a stream may take a beginning of the line only.\<close>

definition written :: "cb__log_t \<times> log_message \<Rightarrow> log_write list \<Rightarrow> bool" where
  "written call out =
     (case call of (cfg, msg) \<Rightarrow>
        \<exists>now_ns w w2 plain colored.
          plain = cb_log_line cfg now_ns (msg_level msg) (msg_module msg) (msg_body msg)
          \<and> colored = cb_log_stderr_line cfg (msg_level msg) plain
          \<and> last plain = NEWLINE \<and> last colored = NEWLINE \<and> w \<le> length colored \<and> w2 \<le> length plain
          \<and> out = (Stderr, colored, w) # (case log_file_sink cfg of None \<Rightarrow> [] | Some f \<Rightarrow> [(File f, plain, w2)]))"

text \<open>The numbers of the calls that have come to their end and whose message was enabled when they began.\<close>

definition in_progress :: "log_sys \<Rightarrow> nat \<Rightarrow> bool" where
  "in_progress s k \<longleftrightarrow> (\<exists>i cfg msg. ls_calls s i = Some (k, cfg, msg))"

definition finished :: "log_sys \<Rightarrow> nat set" where
  "finished s = {k. k < length (ls_made s) \<and> (case ls_made s ! k of (cfg, msg) \<Rightarrow> enabled cfg (msg_level msg)) \<and> \<not> in_progress s k}"

text \<open>The writes are one block for each of these calls, in some order.\<close>

definition blocks_of :: "log_sys \<Rightarrow> (nat \<times> log_write list) list \<Rightarrow> bool" where
  "blocks_of s blocks \<longleftrightarrow>
     ls_writes s = concat (map snd blocks) \<and> distinct (map fst blocks) \<and> fst ` set blocks = finished s
     \<and> (\<forall>(k, out) \<in> set blocks. written (ls_made s ! k) out)"

definition calls_ok :: "log_sys \<Rightarrow> bool" where
  "calls_ok s \<longleftrightarrow>
     (\<forall>i k cfg msg. ls_calls s i = Some (k, cfg, msg) \<longrightarrow>
        k < length (ls_made s) \<and> ls_made s ! k = (cfg, msg) \<and> enabled cfg (msg_level msg))
     \<and> (\<forall>i j k c c'. ls_calls s i = Some (k, c) \<longrightarrow> ls_calls s j = Some (k, c') \<longrightarrow> i = j)"

definition error_ok :: "log_sys \<Rightarrow> bool" where
  "error_ok s \<longleftrightarrow>
     ls_cleared s \<le> length (ls_writes s)
     \<and> (\<not> log_initialized (ls_log s) \<longrightarrow> ls_writes s = [] \<and> log_last_error (ls_log s) = CB_INFO_OK \<and> ls_calls s = (\<lambda>_. None))
     \<and> log_last_error (ls_log s) =
        (if \<exists>wr \<in> set (drop (ls_cleared s) (ls_writes s)). short wr then CB_INFO_LOG_WRITE_FAILED else CB_INFO_OK)"

definition log_inv :: "log_sys \<Rightarrow> bool" where
  "log_inv s \<longleftrightarrow> calls_ok s \<and> (\<exists>blocks. blocks_of s blocks) \<and> error_ok s"

lemma ensure_init_error:
  "error_ok s \<Longrightarrow> log_last_error (cb__log_ensure_init env (ls_log s)) = log_last_error (ls_log s)"
  by (auto simp: cb__log_ensure_init_def cb__log_do_init_def error_ok_def)

lemma ensure_init_initialized [simp]: "log_initialized (cb__log_ensure_init env lg)"
  by (simp add: cb__log_ensure_init_def cb__log_do_init_def)

lemma log_set_keeps:
  assumes "error_ok s" "log_set (ls_log s) lg"
  shows "log_initialized lg \<and> log_last_error lg = log_last_error (ls_log s)"
  using assms(2) ensure_init_error [OF assms(1)]
  by cases (simp_all add: cb_log_init_def cb_log_set_level_def cb_log_get_level_def cb_log_set_color_def
      cb_log_set_timestamps_def cb_log_set_file_sink_def cb_log_last_error_def Let_def)

lemma begin_facts:
  assumes "cb_log_begin env level lg = (c, lg')"
  shows "lg' = cb__log_ensure_init env lg" "c = Some cfg \<Longrightarrow> cfg = lg' \<and> enabled cfg level"
    "c = None \<Longrightarrow> \<not> enabled lg' level"
  using assms by (auto simp: cb_log_begin_def Let_def enabled_def not_less not_le split: if_splits)

lemma emit_facts:
  assumes "cb_log_emit w w2 sink colored plain lg = (out, lg')"
  shows "out = (Stderr, colored, w) # (case sink of None \<Rightarrow> [] | Some f \<Rightarrow> [(File f, plain, w2)])"
    "log_initialized lg' = log_initialized lg"
    "log_last_error lg \<in> {CB_INFO_OK, CB_INFO_LOG_WRITE_FAILED} \<Longrightarrow>
      log_last_error lg' = (if log_last_error lg = CB_INFO_LOG_WRITE_FAILED \<or> (\<exists>wr \<in> set out. short wr)
        then CB_INFO_LOG_WRITE_FAILED else CB_INFO_OK)"
  using assms by (auto simp: cb_log_emit_def Let_def short_def split: option.splits if_splits)

lemma last_lines:
  "last (cb_log_line cfg now_ns level module body) = NEWLINE"
  "last (cb_log_stderr_line cfg level (cb_log_line cfg now_ns level module body)) = NEWLINE"
  by (auto simp: cb_log_stderr_line_def cb_log_line_def Let_def split: prod.splits if_splits)

text \<open>Steps that leave the calls in progress and the writes: a message below the level adds a call that is
  not enabled.\<close>

lemma settings_keep:
  "calls_ok (s\<lparr>ls_log := lg, ls_cleared := n\<rparr>) = calls_ok s" "blocks_of (s\<lparr>ls_log := lg, ls_cleared := n\<rparr>) b = blocks_of s b"
  "calls_ok (s\<lparr>ls_log := lg\<rparr>) = calls_ok s" "blocks_of (s\<lparr>ls_log := lg\<rparr>) b = blocks_of s b"
  by (simp_all add: calls_ok_def blocks_of_def finished_def in_progress_def)

lemma made_keeps:
  assumes "blocks_of s blocks" "finished s' = finished s" "ls_writes s' = ls_writes s" "ls_made s' = ls_made s @ [call]"
  shows "blocks_of s' blocks"
proof -
  have "k < length (ls_made s)" if "(k, out) \<in> set blocks" for k out
  proof -
    have "k \<in> finished s" using assms(1) image_eqI [OF _ that, of k fst] by (simp add: blocks_of_def)
    then show ?thesis by (simp add: finished_def)
  qed
  then show ?thesis using assms by (auto simp: blocks_of_def nth_append)
qed

lemma error_keeps:
  "error_ok s \<Longrightarrow> log_initialized (ls_log s') \<Longrightarrow> log_last_error (ls_log s') = log_last_error (ls_log s) \<Longrightarrow>
    ls_writes s' = ls_writes s \<Longrightarrow> ls_cleared s' = ls_cleared s \<Longrightarrow> error_ok s'"
  by (simp add: error_ok_def)

lemma begins_keeps:
  assumes "calls_ok s" "ls_calls s i = None" "enabled cfg (msg_level msg)"
    and s': "s' = s\<lparr>ls_log := cfg, ls_made := ls_made s @ [(cfg, msg)], ls_calls := (ls_calls s)(i \<mapsto> (length (ls_made s), cfg, msg))\<rparr>"
  shows "calls_ok s' \<and> finished s' = finished s"
proof -
  have in_p: "in_progress s' k \<longleftrightarrow> k = length (ls_made s) \<or> in_progress s k" for k
    using assms(2) unfolding s' in_progress_def by auto (metis option.distinct(1))
  have old: "k < length (ls_made s)" if "ls_calls s j = Some (k, c)" for j k c
    using assms(1) that by (cases c) (auto simp: calls_ok_def)
  have "calls_ok s'"
    using assms(1,3) unfolding calls_ok_def s' by (auto simp: nth_append dest: old)
  moreover have "finished s' = finished s"
    unfolding finished_def in_p by (auto simp: s' nth_append less_Suc_eq)
  ultimately show ?thesis by blast
qed

lemma emits_keeps:
  assumes "calls_ok s" "blocks_of s blocks" "ls_calls s i = Some (k, cfg, msg)" "written (cfg, msg) out"
    and s': "s' = s\<lparr>ls_log := lg, ls_calls := (ls_calls s)(i := None), ls_writes := ls_writes s @ out\<rparr>"
  shows "calls_ok s' \<and> blocks_of s' (blocks @ [(k, out)])"
proof -
  have k: "k < length (ls_made s)" "ls_made s ! k = (cfg, msg)" "enabled cfg (msg_level msg)"
    using assms(1,3) by (auto simp: calls_ok_def)
  have in_p: "in_progress s' j \<longleftrightarrow> in_progress s j \<and> j \<noteq> k" for j
    using assms(1,3) unfolding s' in_progress_def calls_ok_def by (auto split: if_splits) (metis option.inject prod.inject)
  have f: "finished s' = insert k (finished s)" "k \<notin> finished s"
    using k assms(3) unfolding finished_def in_p by (auto simp: s' in_progress_def)
  have "calls_ok s'" using assms(1) unfolding calls_ok_def s' by (auto split: if_splits)
  moreover have "blocks_of s' (blocks @ [(k, out)])"
    using assms(2,4) f k(2) by (auto simp: blocks_of_def) (auto simp: s')
  ultimately show ?thesis by blast
qed

lemma log_step_inv:
  assumes "log_step s s'" "log_inv s"
  shows "log_inv s'"
proof -
  obtain blocks where c: "calls_ok s" and b: "blocks_of s blocks" and e: "error_ok s" using assms(2) by (auto simp: log_inv_def)
  show ?thesis
    using assms(1)
  proof cases
    case (set_ lg)
    have "error_ok s'" by (rule error_keeps [OF e]) (use log_set_keeps [OF e set_(2)] set_(1) in simp_all)
    then show ?thesis using c b set_(1) settings_keep(3,4) [where s = s] by (auto simp: log_inv_def)
  next
    case (clear env)
    have "error_ok s'" unfolding clear by (simp add: error_ok_def cb_log_clear_last_error_def)
    then show ?thesis using c b clear settings_keep(1,2) [where s = s] by (auto simp: log_inv_def)
  next
    case (filtered i env msg lg)
    note lg = begin_facts(1) [OF filtered(3)] begin_facts(3) [OF filtered(3)]
    have old: "k < length (ls_made s)" if "ls_calls s j = Some (k, c')" for j k c'
      using c that by (cases c') (auto simp: calls_ok_def)
    have "finished s' = finished s"
      using lg unfolding filtered(1) finished_def by (auto simp: in_progress_def nth_append less_Suc_eq)
    then have "blocks_of s' blocks" by (rule made_keeps [OF b]) (simp_all add: filtered(1))
    moreover have "calls_ok s'" using c unfolding filtered(1) calls_ok_def by (auto simp: nth_append dest: old)
    moreover have "error_ok s'"
      by (rule error_keeps [OF e]) (use ensure_init_error [OF e, of env] lg(1) in \<open>simp_all add: filtered(1)\<close>)
    ultimately show ?thesis by (auto simp: log_inv_def)
  next
    case (begins i env msg cfg lg)
    have lg: "lg = cfg" "cb__log_ensure_init env (ls_log s) = cfg" "enabled cfg (msg_level msg)"
      using begin_facts(1) [OF begins(3)] begin_facts(2) [OF begins(3) refl] by blast+
    note k = begins_keeps [OF c begins(2) lg(3) begins(1) [unfolded lg]]
    have "blocks_of s' blocks" by (rule made_keeps [OF b]) (use k in \<open>simp_all add: begins(1)\<close>)
    moreover have "error_ok s'"
      by (rule error_keeps [OF e]) (use ensure_init_error [OF e, of env] ensure_init_initialized [of env "ls_log s"] lg
          in \<open>simp_all add: begins(1)\<close>)
    ultimately show ?thesis using k by (auto simp: log_inv_def)
  next
    case (emits i k cfg msg plain now_ns colored w w2 out lg)
    note f = emit_facts [OF emits(7)]
    have "written (cfg, msg) out"
      unfolding written_def prod.case f(1) using emits(3-6) last_lines
      by (intro exI [of _ now_ns] exI [of _ w] exI [of _ w2] exI [of _ plain] exI [of _ colored]) simp
    note k = emits_keeps [OF c b emits(2) this emits(1)]
    have init: "log_initialized (ls_log s)" using e emits(2) by (auto simp: error_ok_def)
    have "error_ok s'"
      using e f(3) init by (auto simp: error_ok_def emits(1) f(2) split: if_splits)
    then show ?thesis using k by (auto simp: log_inv_def)
  qed
qed

lemma log_run_inv: "log_run s \<Longrightarrow> log_inv s"
proof (induction rule: log_run.induct)
  case start
  have "blocks_of log_start []" by (simp add: blocks_of_def finished_def log_start_def)
  then show ?case by (auto simp: log_inv_def calls_ok_def error_ok_def log_start_def cb__log_def)
qed (rule log_step_inv)

text \<open>C16. Whatever the interleaving of calls and settings, the streams receive whole lines, one call after
  another and never a mixture: exactly one block for each finished call whose message was enabled by the
  configuration that the logger had when the call began, and nothing for a message that was not.  The block
  is the call's line for stderr, and then its plain line for the file sink of that configuration, if any;
  a stream may accept a beginning of the line only.  The last error is set exactly when a write has fallen
  short since it was cleared.\<close>

theorem log_streams:
  assumes "log_run s"
  shows "(\<exists>blocks. ls_writes s = concat (map snd blocks) \<and> distinct (map fst blocks)
      \<and> fst ` set blocks = {k. k < length (ls_made s) \<and> \<not> in_progress s k
          \<and> enabled (fst (ls_made s ! k)) (msg_level (snd (ls_made s ! k)))}
      \<and> (\<forall>(k, out) \<in> set blocks. written (ls_made s ! k) out))
    \<and> log_last_error (ls_log s) =
       (if \<exists>wr \<in> set (drop (ls_cleared s) (ls_writes s)). short wr then CB_INFO_LOG_WRITE_FAILED else CB_INFO_OK)"
proof -
  have "finished s = {k. k < length (ls_made s) \<and> \<not> in_progress s k
      \<and> enabled (fst (ls_made s ! k)) (msg_level (snd (ls_made s ! k)))}"
    by (auto simp: finished_def split_def)
  moreover obtain blocks where "blocks_of s blocks" "error_ok s" using log_run_inv [OF assms] by (auto simp: log_inv_def)
  ultimately show ?thesis unfolding blocks_of_def error_ok_def by (intro conjI exI [of _ blocks]) simp_all
qed

lemma begin_enabled:
  "enabled (cb__log_ensure_init env lg) level \<Longrightarrow>
    cb_log_begin env level lg = (Some (cb__log_ensure_init env lg), cb__log_ensure_init env lg)"
  by (auto simp: cb_log_begin_def enabled_def Let_def not_less not_le)

text \<open>One error message of which stderr takes three characters.\<close>

lemma log_streams_witness:
  "\<exists>s cfg msg text. log_run s \<and> ls_made s = [(cfg, msg)] \<and> ls_writes s = [(Stderr, text, 3)] \<and> last text = NEWLINE
    \<and> enabled cfg (msg_level msg) \<and> log_last_error (ls_log s) = CB_INFO_LOG_WRITE_FAILED"
proof -
  define env where "env = \<lparr>env_tty = False, env_now_ns = 0, env_mutex = \<lparr>mutex_info = CB_INFO_OK, mutex_handle = 0\<rparr>\<rparr>"
  define msg where "msg = \<lparr>msg_level = CB_LOG_ERROR, msg_module = None, msg_body = None\<rparr>"
  let ?s0 = log_start
  let ?cfg = "cb__log_do_init env"
  have cfg: "cb__log_ensure_init env cb__log = ?cfg" by (simp add: cb__log_ensure_init_def cb__log_def)
  have en: "enabled ?cfg (msg_level msg)"
    by (simp add: enabled_def cb__log_do_init_def msg_def less_eq_cb_log_level_t_def less_cb_log_level_t_def)
  have s0: "ls_log ?s0 = cb__log" "ls_made ?s0 = []" "ls_calls ?s0 = (\<lambda>_. None)" "ls_writes ?s0 = []" by (simp_all add: log_start_def)
  have b: "cb_log_begin env (msg_level msg) (ls_log ?s0) = (Some ?cfg, ?cfg)"
    using en begin_enabled [of env cb__log] cfg by (simp add: s0)
  let ?s1 = "?s0\<lparr>ls_log := ?cfg, ls_made := ls_made ?s0 @ [(cb__log_ensure_init env (ls_log ?s0), msg)],
    ls_calls := (ls_calls ?s0)(0 \<mapsto> (length (ls_made ?s0), ?cfg, msg))\<rparr>"
  have r1: "log_run ?s1" by (rule log_run.step [OF log_run.start log_step.begins [OF _ b]]) (simp add: s0)
  define plain where "plain = cb_log_line ?cfg 0 (msg_level msg) (msg_module msg) (msg_body msg)"
  have n: "3 < length plain" by (simp add: plain_def cb__log_do_init_def msg_def log_line_text [unfolded line_prefix_def])
  have nc: "cb_log_stderr_line ?cfg (msg_level msg) plain = plain"
    by (simp add: cb_log_stderr_line_def cb__log_do_init_def env_def)
  obtain out lg where e: "cb_log_emit 3 0 (log_file_sink ?cfg) plain plain (ls_log ?s1) = (out, lg)" by fastforce
  let ?s2 = "?s1\<lparr>ls_log := lg, ls_calls := (ls_calls ?s1)(0 := None), ls_writes := ls_writes ?s1 @ out\<rparr>"
  have r2: "log_run ?s2"
    by (rule log_run.step [OF r1 log_step.emits [OF _ plain_def _ _ _ e]]) (use n nc in auto)
  have w: "ls_writes ?s2 = [(Stderr, plain, 3)]" using e by (auto simp: s0 cb_log_emit_def cb__log_do_init_def)
  have "last plain = NEWLINE" unfolding plain_def by (rule last_lines)
  then show ?thesis using log_streams [OF r2] r2 n w en
    by (intro exI [of _ ?s2] exI [of _ ?cfg] exI [of _ msg] exI [of _ plain]) (auto simp: s0 cfg short_def log_start_def)
qed

text \<open>C39. Detaching the file sink does not wait for the calls that have taken their snapshot.  In any state
  with such a call, the setter returns, and the very next step can be that call writing to the stream that
  was detached, which its owner may have closed by then.\<close>

lemma log_detached_sink_written:
  assumes "log_run s" "ls_calls s i = Some (k, cfg, msg)" "log_file_sink cfg = Some f"
  shows "\<exists>s1 s2 colored plain.
    s1 = s\<lparr>ls_log := snd (cb_log_set_file_sink env None (ls_log s))\<rparr> \<and> log_step s s1 \<and> log_file_sink (ls_log s1) = None
    \<and> log_step s1 s2 \<and> log_run s2 \<and> log_file_sink (ls_log s2) = None
    \<and> ls_writes s2 = ls_writes s1 @ [(Stderr, colored, length colored), (File f, plain, length plain)]"
proof -
  let ?s1 = "s\<lparr>ls_log := snd (cb_log_set_file_sink env None (ls_log s))\<rparr>"
  have t1: "log_step s ?s1" by (rule log_step.set_ [OF log_set.sink])
  define plain where "plain = cb_log_line cfg 0 (msg_level msg) (msg_module msg) (msg_body msg)"
  define colored where "colored = cb_log_stderr_line cfg (msg_level msg) plain"
  obtain out lg where e: "cb_log_emit (length colored) (length plain) (log_file_sink cfg) colored plain (ls_log ?s1) = (out, lg)"
    by fastforce
  let ?s2 = "?s1\<lparr>ls_log := lg, ls_calls := (ls_calls ?s1)(i := None), ls_writes := ls_writes ?s1 @ out\<rparr>"
  have t2: "log_step ?s1 ?s2"
    by (rule log_step.emits [OF _ plain_def colored_def _ _ e]) (use assms(2) in simp_all)
  have r2: "log_run ?s2" by (rule log_run.step [OF log_run.step [OF assms(1) t1] t2])
  have "out = [(Stderr, colored, length colored), (File f, plain, length plain)]" "log_file_sink lg = None"
    using e assms(3) by (auto simp: cb_log_emit_def cb_log_set_file_sink_def Let_def)
  then show ?thesis using t1 t2 r2
    by (intro exI [of _ ?s1] exI [of _ ?s2] exI [of _ colored] exI [of _ plain]) (simp add: cb_log_set_file_sink_def)
qed

lemma log_detached_sink_written_witness:
  "\<exists>s s1 s2 colored plain. log_run s \<and> log_file_sink (ls_log s) = Some 7
    \<and> log_step s s1 \<and> log_file_sink (ls_log s1) = None \<and> ls_writes s1 = []
    \<and> log_step s1 s2 \<and> ls_writes s2 = [(Stderr, colored, length colored), (File 7, plain, length plain)]"
proof -
  define env where "env = \<lparr>env_tty = False, env_now_ns = 0, env_mutex = \<lparr>mutex_info = CB_INFO_OK, mutex_handle = 0\<rparr>\<rparr>"
  define msg where "msg = \<lparr>msg_level = CB_LOG_ERROR, msg_module = None, msg_body = None\<rparr>"
  let ?cfg = "snd (cb_log_set_file_sink env (Some 7) (ls_log log_start))"
  let ?s1 = "log_start\<lparr>ls_log := ?cfg\<rparr>"
  have r1: "log_run ?s1" by (rule log_run.step [OF log_run.start log_step.set_ [OF log_set.sink]])
  have cfg: "log_initialized ?cfg" "log_file_sink ?cfg = Some 7" "log_min_level ?cfg = CB_LOG_INFO"
    by (simp_all add: log_start_def cb_log_set_file_sink_def cb__log_ensure_init_def cb__log_def cb__log_do_init_def)
  then have e: "cb__log_ensure_init env ?cfg = ?cfg" by (simp add: cb__log_ensure_init_def)
  have "enabled ?cfg (msg_level msg)"
    by (simp add: enabled_def cfg msg_def less_eq_cb_log_level_t_def less_cb_log_level_t_def)
  then have b: "cb_log_begin env (msg_level msg) (ls_log ?s1) = (Some ?cfg, ?cfg)"
    using begin_enabled [of env ?cfg] e by simp
  let ?s2 = "?s1\<lparr>ls_log := ?cfg, ls_made := ls_made ?s1 @ [(cb__log_ensure_init env (ls_log ?s1), msg)],
    ls_calls := (ls_calls ?s1)(0 \<mapsto> (length (ls_made ?s1), ?cfg, msg))\<rparr>"
  have r2: "log_run ?s2" by (rule log_run.step [OF r1 log_step.begins [OF _ b]]) (simp add: log_start_def)
  have call: "ls_calls ?s2 0 = Some (length (ls_made ?s1), ?cfg, msg)" and no: "ls_writes ?s2 = []"
    and sink: "log_file_sink (ls_log ?s2) = Some 7" using cfg(2) by (simp_all add: log_start_def)
  obtain s3 s4 colored plain where "s3 = ?s2\<lparr>ls_log := snd (cb_log_set_file_sink env None (ls_log ?s2))\<rparr>"
    "log_step ?s2 s3" "log_file_sink (ls_log s3) = None" "log_step s3 s4"
    "ls_writes s4 = ls_writes s3 @ [(Stderr, colored, length colored), (File 7, plain, length plain)]"
    using log_detached_sink_written [OF r2 call cfg(2), of env] by blast
  moreover have "ls_writes s3 = []" unfolding calculation(1) using no by simp
  ultimately show ?thesis using r2 sink by (intro exI [of _ ?s2] exI [of _ s3] exI [of _ s4]) simp
qed

end
