(* ===== verification/Producer_Screen.thy ===== *)
theory Producer_Screen
  imports Log
begin

text \<open>
  The screen of \<open>src/test_apps/user_producer.c\<close>: the state that the program keeps, and the text that
  \<open>render\<close> prints for it, as a function.  A string is the list of its bytes, so a box-drawing character
  is three of them.  A C \<open>int\<close> is a 32-bit word; a signed overflow, which C leaves undefined, is \<open>None\<close>.
\<close>

section \<open>Definitions\<close>

definition NUM_WORKERS :: nat where "NUM_WORKERS = 5"
definition QUEUE_CAPACITY :: nat where "QUEUE_CAPACITY = 64"
definition BOX_W :: nat where "BOX_W = 56"
definition QVIS_COLS :: nat where "QVIS_COLS = 32"
definition QVIS_ROWS :: nat where "QVIS_ROWS = (QUEUE_CAPACITY + QVIS_COLS - 1) div QVIS_COLS"
definition PROMPT_ROW :: nat where "PROMPT_ROW = 8 + QVIS_ROWS + NUM_WORKERS + 4"

record worker_state_t =
  ws_id :: i32
  ws_job_seconds :: i32
  ws_job_remaining :: i32
  ws_jobs_completed :: i32
  ws_shutdown :: bool

text \<open>The borders.\<close>

definition box_char :: "char \<Rightarrow> string" where
  "box_char c = [CHR 0xE2, CHR 0x95, c]"

text \<open>\<open>print_line\<close>: its buffer holds 255 characters; \<open>len\<close> is the length of the whole content.\<close>

definition print_line :: "string \<Rightarrow> string \<Rightarrow> string \<Rightarrow> string" where
  "print_line left content right =
     (let buf = take 255 content; len = length content; len = (if len > BOX_W then BOX_W else len)
      in left @ buf @ replicate (BOX_W - len) (CHR '' '') @ right)"

definition print_border :: "string \<Rightarrow> string \<Rightarrow> string \<Rightarrow> string" where
  "print_border left fill right = left @ concat (replicate BOX_W fill) @ right"

text \<open>One slot of the picture of the queue.\<close>

definition slot_occupied :: "'a cb_tsqueue_t \<Rightarrow> u32 \<Rightarrow> bool" where
  "slot_occupied q i =
     (if q_count q > 0
      then let start = q_head q; stop = (q_head q + q_count q) mod q_capacity q
           in if start < stop then i \<ge> start \<and> i < stop else i \<ge> start \<or> i < stop
      else False)"

definition slot_char :: "'a cb_tsqueue_t \<Rightarrow> u32 \<Rightarrow> char" where
  "slot_char q i =
     (let is_head = (i = q_head q); is_tail = (i = q_tail q)
      in if is_head \<and> is_tail then (if q_count q = q_capacity q then CHR ''@'' else CHR ''>'')
         else if is_head then CHR ''>''
         else if is_tail then CHR ''@''
         else if slot_occupied q i then CHR ''#''
         else CHR '' '')"

definition slot_row :: "'a cb_tsqueue_t \<Rightarrow> nat \<Rightarrow> string" where
  "slot_row q row =
     (let start_idx = row * QVIS_COLS; end_idx = start_idx + QVIS_COLS;
          end_idx = (if end_idx > unat (q_capacity q) then unat (q_capacity q) else end_idx);
          vis = ''  ['' @ map (\<lambda>i. slot_char q (word_of_nat i)) [start_idx ..< end_idx]
      in vis @ replicate (start_idx + QVIS_COLS - max start_idx end_idx) (CHR '' '') @ '']'')"

text \<open>The line of a worker.  Seconds and remaining seconds are positive where the division is made.\<close>

definition bar_filled :: "worker_state_t \<Rightarrow> nat option" where
  "bar_filled w =
     (let p = sint (ws_job_remaining w) * 20
      in if \<not> fits 32 p then None
         else let filled = 20 - p div sint (ws_job_seconds w); filled = (if filled > 20 then 20 else filled)
              in Some (nat filled))"

definition number :: "i32 \<Rightarrow> string" where
  "number n = show_int (sint n)"

definition worker_line :: "nat \<Rightarrow> worker_state_t \<Rightarrow> string option" where
  "worker_line i w =
     (if 0 <s ws_job_seconds w \<and> 0 <s ws_job_remaining w
      then (case bar_filled w of
              None \<Rightarrow> None
            | Some filled \<Rightarrow>
                let bar = replicate filled (CHR ''#'') @ replicate (20 - filled) (CHR '' '')
                in Some (take 255 (''  Worker '' @ show_nat i @ '': ['' @ bar @ ''] ''
                     @ right_aligned (CHR '' '') 2 (number (ws_job_seconds w - ws_job_remaining w)) @ ''s/''
                     @ left_aligned 2 (number (ws_job_seconds w)) @ ''s (done: '' @ number (ws_jobs_completed w) @ '')'')))
      else Some (take 255 (''  Worker '' @ show_nat i @ '': [                    ] idle    (done: ''
             @ number (ws_jobs_completed w) @ '')'')))"

definition counter_line :: "i32 \<Rightarrow> i32 \<Rightarrow> string" where
  "counter_line submitted completed =
     take 255 (''  Submitted: '' @ left_aligned 4 (number submitted) @ ''  Completed: '' @ left_aligned 4 (number completed))"

definition queue_line :: "u32 \<Rightarrow> string" where
  "queue_line c = take 255 (''  Queue: '' @ right_aligned (CHR '' '') 2 (show_nat (unat c)) @ '' jobs pending'')"

definition side :: "string \<Rightarrow> string" where
  "side content = print_line (box_char (CHR 0x91)) content (box_char (CHR 0x91))"

definition middle :: string where
  "middle = print_border (box_char (CHR 0xA0)) (box_char (CHR 0x90)) (box_char (CHR 0xA3))"

text \<open>The worker lines, if none of them is undefined.\<close>

fun worker_lines :: "nat \<Rightarrow> worker_state_t list \<Rightarrow> string list option" where
  "worker_lines i [] = Some []"
| "worker_lines i (w # ws) =
     (case worker_line i w of
        None \<Rightarrow> None
      | Some l \<Rightarrow> (case worker_lines (i + 1) ws of None \<Rightarrow> None | Some ls \<Rightarrow> Some (l # ls)))"

text \<open>The lines of the frame, from the top: \<open>c\<close> is what \<open>cb_tsqueue_count\<close> returned and \<open>q\<close> the ring as
  it was read after that.\<close>

definition frame_lines :: "u32 \<Rightarrow> 'a cb_tsqueue_t \<Rightarrow> i32 \<Rightarrow> i32 \<Rightarrow> string list \<Rightarrow> string list" where
  "frame_lines c q submitted completed workers =
     [print_border (box_char (CHR 0x94)) (box_char (CHR 0x90)) (box_char (CHR 0x97)),
      side ''          Producer / Consumer Demo (cbase)          '',
      middle,
      side (queue_line c),
      side (counter_line submitted completed),
      side ''  @=producer  >=consumer  #=job'']
     @ map (\<lambda>row. side (slot_row q row)) [0 ..< QVIS_ROWS]
     @ [middle]
     @ map side workers
     @ [middle,
      side ''  Type a number (seconds) for a job, 'q' to quit  '',
      print_border (box_char (CHR 0x9A)) (box_char (CHR 0x90)) (box_char (CHR 0x9D))]"

definition render_text :: "bool \<Rightarrow> u32 \<Rightarrow> 'a cb_tsqueue_t \<Rightarrow> i32 \<Rightarrow> i32 \<Rightarrow> worker_state_t list \<Rightarrow> string option" where
  "render_text initial c q submitted completed workers =
     (case worker_lines 0 workers of
        None \<Rightarrow> None
      | Some ls \<Rightarrow>
          Some ((if initial then ESC # ''[2J'' else []) @ ESC # ''[s'' @ ESC # ''[1;1H'' @ ESC # ''[?25l''
            @ concat (map (\<lambda>l. l @ ESC # ''[K'' @ [NEWLINE]) (frame_lines c q submitted completed ls))
            @ (if initial then ''> '' @ ESC # ''[?25h'' @ ESC # ''[s'' else ESC # ''[?25h'' @ ESC # ''[u'')))"

text \<open>Where the program puts the cursor for the next prompt: the row in \<open>\\033[%d;1H\<close>.\<close>

definition prompt_text :: string where
  "prompt_text = ESC # ''['' @ show_nat PROMPT_ROW @ '';1H'' @ ESC # ''[K> '' @ ESC # ''[s''"

section \<open>The picture of the queue\<close>

text \<open>The slots that hold an item are those at most \<open>q_count\<close> behind the head, around the ring.\<close>

definition holds_item :: "'a cb_tsqueue_t \<Rightarrow> nat \<Rightarrow> bool" where
  "holds_item q i \<longleftrightarrow> (\<exists>k < unat (q_count q). i = (unat (q_head q) + k) mod unat (q_capacity q))"

lemma ring_positions:
  fixes h n c i :: nat
  assumes "h < c" "n \<le> c" "i < c" "0 < n"
  shows "(\<exists>k < n. i = (h + k) mod c) \<longleftrightarrow>
    (if h < (h + n) mod c then h \<le> i \<and> i < (h + n) mod c else h \<le> i \<or> i < (h + n) mod c)"
proof (cases "h + n < c")
  case True
  have "(\<exists>k < n. i = (h + k) mod c) \<longleftrightarrow> (\<exists>k < n. i = h + k)"
    using True by auto
  also have "\<dots> \<longleftrightarrow> h \<le> i \<and> i < h + n" by (auto simp: le_iff_add)
  finally show ?thesis using True assms by simp
next
  case False
  have w: "(h + n) mod c = h + n - c" using False assms by (simp add: mod_if)
  have "(\<exists>k < n. i = (h + k) mod c) \<longleftrightarrow> h \<le> i \<or> i < h + n - c"
  proof
    assume "\<exists>k < n. i = (h + k) mod c"
    then obtain k where k: "k < n" "i = (h + k) mod c" by blast
    then show "h \<le> i \<or> i < h + n - c" using assms by (cases "h + k < c") (auto simp: mod_if)
  next
    assume a: "h \<le> i \<or> i < h + n - c"
    show "\<exists>k < n. i = (h + k) mod c"
    proof (cases "h \<le> i")
      case True
      then show ?thesis using assms False by (intro exI [of _ "i - h"]) auto
    next
      case f: False
      then show ?thesis using a assms False by (intro exI [of _ "c - h + i"]) (auto simp: mod_if)
    qed
  qed
  then show ?thesis using w assms by auto
qed

lemma unat_index: "i < unat (c :: u32) \<Longrightarrow> unat (word_of_nat i :: u32) = i"
  using unsigned_less [where 'a = nat, of c] by (simp add: unat_of_nat)

lemma occupied_holds:
  assumes "ring_ok q" "unat (q_capacity q) \<le> 2 ^ 31" "i < unat (q_capacity q)"
  shows "slot_occupied q (word_of_nat i) \<longleftrightarrow> holds_item q i"
proof (cases "q_count q > 0")
  case True
  let ?c = "unat (q_capacity q)" and ?h = "unat (q_head q)" and ?n = "unat (q_count q)"
  have i: "unat (word_of_nat i :: u32) = i" by (rule unat_index [OF assms(3)])
  have r: "?h < ?c" "?n \<le> ?c" using assms(1,3) by (auto simp: ring_ok_def word_le_nat_alt)
  then have "?h + ?n < 2 ^ 32" using assms(2) by simp
  then have s: "unat ((q_head q + q_count q) mod q_capacity q) = (?h + ?n) mod ?c"
    by (simp add: unat_mod unat_word_ariths)
  show ?thesis using ring_positions [OF r assms(3)] True
    by (simp add: slot_occupied_def Let_def holds_item_def word_le_nat_alt word_less_nat_alt s i)
qed (simp add: slot_occupied_def holds_item_def word_gt_0 unat_eq_zero)

lemma tail_free:
  assumes "ring_ok q" "unat (q_tail q) < unat (q_capacity q)" "holds_item q (unat (q_tail q))"
  shows "q_count q = q_capacity q" "q_tail q = q_head q"
proof -
  let ?c = "unat (q_capacity q)" and ?h = "unat (q_head q)" and ?n = "unat (q_count q)"
  have r: "?h < ?c" "?n \<le> ?c" "unat (q_tail q) = (?h + ?n) mod ?c"
    using assms(1,2) by (auto simp: ring_ok_def word_le_nat_alt)
  obtain k where k: "k < ?n" "(?h + ?n) mod ?c = (?h + k) mod ?c" using assms(3) r(3) by (auto simp: holds_item_def)
  have n: "?n = ?c"
  proof (rule ccontr)
    assume "?n \<noteq> ?c"
    then have "?n < ?c" using r(2) by simp
    moreover from this have "k < ?c" using k(1) by simp
    ultimately have "?n = k" by (rule mod_add_inj [OF _ _ k(2)])
    then show False using k(1) by simp
  qed
  then show "q_count q = q_capacity q" by (simp only: word_unat_eq_iff)
  have "unat (q_tail q) = ?h" using r n by simp
  then show "q_tail q = q_head q" by (simp only: word_unat_eq_iff)
qed

lemma holds_item_card:
  assumes "ring_ok q" "q_capacity q \<noteq> 0"
  shows "card {i. i < unat (q_capacity q) \<and> holds_item q i} = unat (q_count q)"
proof -
  let ?c = "unat (q_capacity q)" and ?h = "unat (q_head q)" and ?n = "unat (q_count q)"
  have r: "?h < ?c" "?n \<le> ?c" using assms by (auto simp: ring_ok_def word_le_nat_alt)
  have "0 < ?c" using r(1) by linarith
  then have "{i. i < ?c \<and> holds_item q i} = (\<lambda>k. (?h + k) mod ?c) ` {..< ?n}"
    by (auto simp: holds_item_def)
  moreover have "inj_on (\<lambda>k. (?h + k) mod ?c) {..< ?n}"
  proof (rule inj_onI)
    fix j k assume "j \<in> {..< ?n}" "k \<in> {..< ?n}" "(?h + j) mod ?c = (?h + k) mod ?c"
    then show "j = k" using r(2) by (intro mod_add_inj [of j ?c k ?h]) auto
  qed
  ultimately show ?thesis by (simp add: card_image)
qed

text \<open>The picture of the queue shows the ring: the head, unless the queue is full, as ">", the free
  slot at the tail, or the head of a full queue, as "@", every other slot that holds an item as "#", and
  the others blank.  So a queue of \<open>n > 0\<close> items shows \<open>n - 1\<close> jobs beside its head.\<close>

theorem queue_picture:
  assumes "ring_ok q" "unat (q_capacity q) \<le> 2 ^ 31"
  shows "(\<forall>i < unat (q_capacity q). slot_char q (word_of_nat i) =
      (if i = unat (q_head q) then (if q_count q = q_capacity q then CHR ''@'' else CHR ''>'')
       else if i = unat (q_tail q) then CHR ''@''
       else if holds_item q i then CHR ''#'' else CHR '' ''))
    \<and> card {i. i < unat (q_capacity q) \<and> slot_char q (word_of_nat i) = CHR ''#''} = unat (q_count q) - 1"
proof -
  let ?c = "unat (q_capacity q)" and ?h = "unat (q_head q)" and ?n = "unat (q_count q)"
  have eq: "(word_of_nat i = x) = (i = unat x)" if "i < ?c" for i and x :: u32
    using unat_index [OF that] by (metis word_unat_eq_iff)
  have full: "q_count q = q_capacity q \<Longrightarrow> 0 < ?c \<Longrightarrow> q_tail q = q_head q"
  proof -
    assume n: "q_count q = q_capacity q" "0 < ?c"
    then have "q_capacity q \<noteq> 0" by (simp add: unat_gt_0)
    then have "unat (q_tail q) = unat (q_head q)" using assms(1) n(1) by (simp add: ring_ok_def)
    then show "q_tail q = q_head q" by (simp only: word_unat_eq_iff)
  qed
  have chars: "slot_char q (word_of_nat i) =
      (if i = ?h then (if q_count q = q_capacity q then CHR ''@'' else CHR ''>'')
       else if i = unat (q_tail q) then CHR ''@'' else if holds_item q i then CHR ''#'' else CHR '' '')" if i: "i < ?c" for i
  proof -
    have c: "slot_char q (word_of_nat i) =
        (if i = ?h \<and> i = unat (q_tail q) then (if q_count q = q_capacity q then CHR ''@'' else CHR ''>'')
         else if i = ?h then CHR ''>'' else if i = unat (q_tail q) then CHR ''@'' else if holds_item q i then CHR ''#'' else CHR '' '')"
      unfolding slot_char_def Let_def eq [OF i] occupied_holds [OF assms i] ..
    show ?thesis
    proof (cases "q_count q = q_capacity q")
      case True
      then have "q_tail q = q_head q" using full i by linarith
      then show ?thesis unfolding c using True by simp
    qed (simp add: c)
  qed
  have "{i. i < ?c \<and> slot_char q (word_of_nat i) = CHR ''#''} = {i. i < ?c \<and> holds_item q i} - {?h}"
  proof -
    have "slot_char q (word_of_nat i) = CHR ''#'' \<longleftrightarrow> holds_item q i \<and> i \<noteq> ?h" if i: "i < ?c" for i
      unfolding chars [OF i] using tail_free(2) [OF assms(1)] i by (cases "i = unat (q_tail q)") auto
    then show ?thesis by blast
  qed
  moreover have "card ({i. i < ?c \<and> holds_item q i} - {?h}) = ?n - 1"
  proof (cases "q_capacity q = 0")
    case True
    then show ?thesis using assms(1) by (simp add: ring_ok_def)
  next
    case False
    then have h: "?h < ?c" using assms(1) by (simp add: ring_ok_def)
    show ?thesis
    proof (cases "?n = 0")
      case True
      then show ?thesis by (simp add: holds_item_def)
    next
      case n: False
      then have "holds_item q ?h" using h by (auto simp: holds_item_def intro!: exI [of _ 0])
      then have "?h \<in> {i. i < ?c \<and> holds_item q i}" using h by simp
      then show ?thesis using holds_item_card [OF assms(1) False] by (simp add: card_Diff_singleton)
    qed
  qed
  ultimately show ?thesis using chars by simp
qed

lemma queue_picture_witness:
  "let q = \<lparr>q_items = replicate 64 (0 :: nat), q_capacity = 64, q_count = 3, q_head = 62, q_tail = 1\<rparr>
   in map (\<lambda>i. slot_char q (word_of_nat i)) [61, 62, 63, 0, 1, 2] = '' >##@ ''
    \<and> card {i. i < 64 \<and> slot_char q (word_of_nat i) = CHR ''#''} = 2"
proof -
  let ?q = "\<lparr>q_items = replicate 64 (0 :: nat), q_capacity = 64, q_count = 3, q_head = 62, q_tail = 1\<rparr>"
  have "ring_ok ?q" by (simp add: ring_ok_def)
  then have "card {i. i < unat (q_capacity ?q) \<and> slot_char ?q (word_of_nat i) = CHR ''#''} = unat (q_count ?q) - 1"
    by (rule queue_picture [THEN conjunct2]) simp
  moreover have "map (\<lambda>i. slot_char ?q (word_of_nat i)) [61, 62, 63, 0, 1, 2] = '' >##@ ''"
    by (simp add: slot_char_def slot_occupied_def Let_def)
  ultimately show ?thesis unfolding Let_def by (simp del: One_nat_def)
qed

section \<open>The frame\<close>

text \<open>The columns that a text takes on the terminal: its bytes but for those that continue a character.\<close>

definition columns :: "string \<Rightarrow> nat" where
  "columns s = length (filter (\<lambda>c. \<not> (128 \<le> (of_char c :: nat) \<and> (of_char c :: nat) < 192)) s)"

definition printable :: "string \<Rightarrow> bool" where
  "printable s \<longleftrightarrow> (\<forall>c \<in> set s. 32 \<le> (of_char c :: nat) \<and> (of_char c :: nat) < 127)"

lemma columns_simps [simp]:
  "columns [] = 0" "columns (s @ t) = columns s + columns t" "columns (box_char (CHR 0x91)) = 1" "columns (box_char (CHR 0x94)) = 1"
  "columns (box_char (CHR 0x90)) = 1" "columns (box_char (CHR 0x97)) = 1" "columns (box_char (CHR 0xA0)) = 1"
  "columns (box_char (CHR 0xA3)) = 1" "columns (box_char (CHR 0x9A)) = 1" "columns (box_char (CHR 0x9D)) = 1"
  by (simp_all add: columns_def box_char_def)

lemma columns_concat_replicate [simp]: "columns (concat (replicate n s)) = n * columns s"
  by (induction n) simp_all

lemma columns_printable: "printable s \<Longrightarrow> columns s = length s"
  unfolding columns_def by (subst filter_True) (auto simp: printable_def)

lemma printable_simps [simp]:
  "printable []" "printable (s @ t) \<longleftrightarrow> printable s \<and> printable t"
  "printable (c # s) \<longleftrightarrow> 32 \<le> (of_char c :: nat) \<and> (of_char c :: nat) < 127 \<and> printable s"
  "printable (replicate n (CHR '' ''))" "printable (replicate n (CHR ''#''))"
  by (auto simp: printable_def)

lemma printable_take [simp]: "printable s \<Longrightarrow> printable (take n s)"
  by (auto simp: printable_def dest: in_set_takeD)

lemma printable_no_newline: "printable s \<Longrightarrow> NEWLINE \<notin> set s"
  by (auto simp: printable_def NEWLINE_def)

lemma printable_show: "printable (show_nat n)" "printable (show_int k)"
proof -
  show n: "printable (show_nat n)" for n
    using show_nat_dec [of n] by (auto simp: printable_def list_all_iff is_digit_iff)
  show "printable (show_int k)" by (simp add: show_int_def n)
qed

lemma side_columns:
  assumes "printable s" "length s \<le> BOX_W"
  shows "columns (side s) = BOX_W + 2" "NEWLINE \<notin> set (side s)"
proof -
  have l: "take 255 s = s" "(if length s > BOX_W then BOX_W else length s) = length s" using assms(2) by (simp_all add: BOX_W_def)
  have e: "side s = box_char (CHR 0x91) @ s @ replicate (BOX_W - length s) (CHR '' '') @ box_char (CHR 0x91)"
    unfolding side_def print_line_def Let_def l ..
  show "columns (side s) = BOX_W + 2" using assms columns_printable [of "replicate (BOX_W - length s) (CHR '' '')"]
    unfolding e by (simp add: columns_printable)
  show "NEWLINE \<notin> set (side s)" using printable_no_newline [OF assms(1)] unfolding e by (auto simp: box_char_def NEWLINE_def)
qed

lemma border_columns: "columns l = 1 \<Longrightarrow> columns f = 1 \<Longrightarrow> columns r = 1 \<Longrightarrow> columns (print_border l f r) = BOX_W + 2"
  by (simp add: print_border_def)

lemma border_no_newline: "NEWLINE \<notin> set (l @ f @ r) \<Longrightarrow> NEWLINE \<notin> set (print_border l f r)"
  by (auto simp: print_border_def)

lemma length_number: "0 \<le> sint n \<Longrightarrow> sint n < 10 ^ k \<Longrightarrow> 0 < k \<Longrightarrow> length (number n) \<le> k"
proof -
  assume n: "0 \<le> sint n" "sint n < 10 ^ k" "0 < k"
  then have "nat (sint n) < 10 ^ k" by (simp add: nat_less_iff)
  then show ?thesis using length_show_nat n by (simp add: number_def show_int_def)
qed

text \<open>Job times below 1000 seconds, with the counters that fit beside them.\<close>

definition fits_line :: "worker_state_t \<Rightarrow> bool" where
  "fits_line w \<longleftrightarrow> 0 \<le> sint (ws_job_remaining w) \<and> sint (ws_job_remaining w) \<le> sint (ws_job_seconds w)
     \<and> sint (ws_job_seconds w) < 1000 \<and> 0 \<le> sint (ws_jobs_completed w) \<and> sint (ws_jobs_completed w) < 1000"

lemma worker_line_fits:
  assumes "fits_line w" "i < 10"
  obtains l where "worker_line i w = Some l" "printable l" "length l \<le> BOX_W"
proof -
  have l: "length (number (ws_jobs_completed w)) \<le> 3" "length (number (ws_job_seconds w)) \<le> 3" "length (show_nat i) \<le> 1"
    using assms by (auto simp: fits_line_def intro!: length_number length_show_nat)
  have p: "printable (number n)" for n by (simp add: number_def printable_show)
  note f = assms(1) [unfolded fits_line_def]
  show ?thesis
  proof (cases "0 <s ws_job_seconds w \<and> 0 <s ws_job_remaining w")
    case True
    have "sint (ws_job_seconds w - ws_job_remaining w) = sint (ws_job_seconds w) - sint (ws_job_remaining w)"
      by (rule sint_sub_fits) (use f in \<open>simp add: fits_def\<close>)
    then have d: "length (number (ws_job_seconds w - ws_job_remaining w)) \<le> 3" using f by (intro length_number) simp_all
    have "fits 32 (sint (ws_job_remaining w) * 20)" using f by (simp add: fits_def)
    moreover have "0 \<le> sint (ws_job_remaining w) * 20 div sint (ws_job_seconds w)"
      using True by (simp add: pos_imp_zdiv_nonneg_iff word_sless_alt)
    ultimately have "\<exists>k. bar_filled w = Some k \<and> k \<le> 20" by (simp add: bar_filled_def Let_def)
    then obtain k where k: "bar_filled w = Some k" "k \<le> 20" by blast
    let ?bar = "replicate k (CHR ''#'') @ replicate (20 - k) (CHR '' '')"
    let ?t = "''  Worker '' @ show_nat i @ '': ['' @ ?bar @ ''] ''
        @ right_aligned (CHR '' '') 2 (number (ws_job_seconds w - ws_job_remaining w)) @ ''s/''
        @ left_aligned 2 (number (ws_job_seconds w)) @ ''s (done: '' @ number (ws_jobs_completed w) @ '')''"
    have "worker_line i w = Some (take 255 ?t)" using True k by (simp add: worker_line_def)
    moreover have "printable ?t" by (simp add: p printable_show right_aligned_def left_aligned_def)
    moreover have "length ?t \<le> BOX_W" using l d k(2) by (simp add: right_aligned_def left_aligned_def BOX_W_def)
    ultimately show ?thesis using that by simp
  next
    case False
    let ?t = "''  Worker '' @ show_nat i @ '': [                    ] idle    (done: '' @ number (ws_jobs_completed w) @ '')''"
    have "worker_line i w = Some (take 255 ?t)" by (simp only: worker_line_def if_not_P [OF False])
    moreover have "printable ?t" by (simp add: p printable_show)
    moreover have "length ?t \<le> BOX_W" using l by (simp add: BOX_W_def)
    ultimately show ?thesis using that by simp
  qed
qed

lemma worker_lines_fit:
  assumes "\<forall>w \<in> set ws. fits_line w" "i + length ws \<le> 10"
  obtains ls where "worker_lines i ws = Some ls" "length ls = length ws" "\<forall>l \<in> set ls. printable l \<and> length l \<le> BOX_W"
  using assms
proof (induction ws arbitrary: i thesis)
  case (Cons w ws)
  have w: "fits_line w" "i < 10" using Cons.prems(2,3) by auto
  obtain l where l: "worker_line i w = Some l" "printable l" "length l \<le> BOX_W" by (rule worker_line_fits [OF w])
  have "\<forall>w \<in> set ws. fits_line w" "i + 1 + length ws \<le> 10" using Cons.prems by auto
  then obtain ls where "worker_lines (i + 1) ws = Some ls" "length ls = length ws" "\<forall>l \<in> set ls. printable l \<and> length l \<le> BOX_W"
    using Cons.IH by blast
  then show ?case using l Cons.prems(1) [of "l # ls"] by simp
qed simp

lemma slot_row_fits: "printable (slot_row q row) \<and> length (slot_row q row) = QVIS_COLS + 4"
proof -
  have "printable [slot_char q i]" for i by (simp add: slot_char_def Let_def)
  then have m: "printable (map (\<lambda>i. slot_char q (word_of_nat i)) [a ..< b])" for a b
    by (auto simp: printable_def)
  show ?thesis unfolding slot_row_def Let_def by (simp add: m)
qed

lemma set_lines:
  "set ([a, b, c, d, e, f] @ map g rs @ [m] @ map h ws @ [x, y, z]) = {a, b, c, d, e, f, m, x, y, z} \<union> g ` set rs \<union> h ` set ws"
  by auto

lemma frame_lines_columns:
  assumes "\<forall>l \<in> set workers. printable l \<and> length l \<le> BOX_W" "0 \<le> sint submitted" "0 \<le> sint completed"
    and "l \<in> set (frame_lines c q submitted completed workers)"
  shows "columns l = BOX_W + 2 \<and> NEWLINE \<notin> set l"
proof -
  have ok: "columns (side s) = BOX_W + 2 \<and> NEWLINE \<notin> set (side s)" if "printable s \<and> length s \<le> BOX_W" for s
    using that side_columns by blast
  have n: "printable (number k)" for k by (simp add: number_def printable_show)
  have ln: "length (number submitted) \<le> 10" "length (number completed) \<le> 10" "length (show_nat (unat c)) \<le> 10"
    using assms(2,3) sint_lt [of submitted] sint_lt [of completed] unsigned_less [where 'a = nat, of c]
    by (auto intro!: length_number length_show_nat)
  have texts: "printable (queue_line c) \<and> length (queue_line c) \<le> BOX_W"
    "printable (counter_line submitted completed) \<and> length (counter_line submitted completed) \<le> BOX_W"
    "printable ''          Producer / Consumer Demo (cbase)          '' \<and> length ''          Producer / Consumer Demo (cbase)          '' \<le> BOX_W"
    "printable ''  @=producer  >=consumer  #=job'' \<and> length ''  @=producer  >=consumer  #=job'' \<le> BOX_W"
    "printable ''  Type a number (seconds) for a job, 'q' to quit  '' \<and> length ''  Type a number (seconds) for a job, 'q' to quit  '' \<le> BOX_W"
    using ln by (simp_all add: queue_line_def counter_line_def right_aligned_def left_aligned_def n printable_show BOX_W_def)
  have rows: "printable (slot_row q row) \<and> length (slot_row q row) \<le> BOX_W" for row
    using slot_row_fits [of q row] by (simp add: QVIS_COLS_def BOX_W_def)
  have borders: "columns (print_border (box_char (CHR 0x94)) (box_char (CHR 0x90)) (box_char (CHR 0x97))) = BOX_W + 2"
    "columns (print_border (box_char (CHR 0xA0)) (box_char (CHR 0x90)) (box_char (CHR 0xA3))) = BOX_W + 2"
    "columns (print_border (box_char (CHR 0x9A)) (box_char (CHR 0x90)) (box_char (CHR 0x9D))) = BOX_W + 2"
    by (simp_all add: border_columns)
  have lines: "NEWLINE \<notin> set (print_border (box_char (CHR 0x94)) (box_char (CHR 0x90)) (box_char (CHR 0x97)))"
    "NEWLINE \<notin> set (print_border (box_char (CHR 0xA0)) (box_char (CHR 0x90)) (box_char (CHR 0xA3)))"
    "NEWLINE \<notin> set (print_border (box_char (CHR 0x9A)) (box_char (CHR 0x90)) (box_char (CHR 0x9D)))"
    by (rule border_no_newline, simp add: box_char_def NEWLINE_def)+
  from assms(4) show ?thesis
    unfolding frame_lines_def set_lines
    by (elim UnE insertE imageE emptyE; simp only: borders lines middle_def texts [THEN ok] rows [THEN ok] assms(1) [THEN bspec, THEN ok] simp_thms)
qed

lemma count_newlines:
  "(\<And>l. l \<in> set ls \<Longrightarrow> NEWLINE \<notin> set l) \<Longrightarrow>
    length (filter ((=) NEWLINE) (concat (map (\<lambda>l. l @ ESC # ''[K'' @ [NEWLINE]) ls))) = length ls"
proof (induction ls)
  case (Cons l ls)
  have "filter ((=) NEWLINE) l = []" using Cons.prems [of l] by (auto simp: filter_empty_conv)
  then show ?case using Cons by (simp add: ESC_def NEWLINE_def)
qed simp

text \<open>The screen is a frame of 17 lines, each exactly 58 columns wide, for job times and counts of up to
  three digits per worker; so the first prompt is on row 18.  The prompt after an input goes to row
  PROMPT_ROW, which is 19.\<close>

theorem screen_frame:
  assumes "length workers = NUM_WORKERS" "\<forall>w \<in> set workers. fits_line w" "0 \<le> sint submitted" "0 \<le> sint completed"
  shows "\<exists>ls text. render_text True c q submitted completed workers =
        Some (ESC # ''[2J'' @ ESC # ''[s'' @ ESC # ''[1;1H'' @ ESC # ''[?25l''
          @ concat (map (\<lambda>l. l @ ESC # ''[K'' @ [NEWLINE]) ls) @ ''> '' @ ESC # ''[?25h'' @ ESC # ''[s'')
      \<and> length ls = 17 \<and> (\<forall>l \<in> set ls. columns l = BOX_W + 2)
      \<and> render_text True c q submitted completed workers = Some text
      \<and> length (filter ((=) NEWLINE) text) + 1 = 18 \<and> PROMPT_ROW = 19"
proof -
  have "\<forall>w \<in> set workers. fits_line w" "0 + length workers \<le> 10" using assms by (simp_all add: NUM_WORKERS_def)
  then obtain ws where ws: "worker_lines 0 workers = Some ws" "length ws = length workers"
    "\<forall>l \<in> set ws. printable l \<and> length l \<le> BOX_W" by (rule worker_lines_fit)
  let ?ls = "frame_lines c q submitted completed ws"
  have cols: "columns l = BOX_W + 2 \<and> NEWLINE \<notin> set l" if "l \<in> set ?ls" for l
    by (rule frame_lines_columns [OF ws(3) assms(3,4) that])
  have len: "length ?ls = 17"
    using ws(2) assms(1) by (simp add: frame_lines_def NUM_WORKERS_def QVIS_ROWS_def QUEUE_CAPACITY_def QVIS_COLS_def)
  have r: "render_text True c q submitted completed workers =
      Some (ESC # ''[2J'' @ ESC # ''[s'' @ ESC # ''[1;1H'' @ ESC # ''[?25l''
        @ concat (map (\<lambda>l. l @ ESC # ''[K'' @ [NEWLINE]) ?ls) @ ''> '' @ ESC # ''[?25h'' @ ESC # ''[s'')"
    by (simp add: render_text_def ws(1))
  have "length (filter ((=) NEWLINE) (ESC # ''[2J'' @ ESC # ''[s'' @ ESC # ''[1;1H'' @ ESC # ''[?25l''
        @ concat (map (\<lambda>l. l @ ESC # ''[K'' @ [NEWLINE]) ?ls) @ ''> '' @ ESC # ''[?25h'' @ ESC # ''[s'')) = 17"
    using count_newlines [of ?ls] cols len by (simp add: ESC_def NEWLINE_def)
  then show ?thesis
    using r len cols
    by (intro exI [of _ ?ls] exI [of _ "ESC # ''[2J'' @ ESC # ''[s'' @ ESC # ''[1;1H'' @ ESC # ''[?25l''
        @ concat (map (\<lambda>l. l @ ESC # ''[K'' @ [NEWLINE]) ?ls) @ ''> '' @ ESC # ''[?25h'' @ ESC # ''[s''"])
      (simp add: PROMPT_ROW_def QVIS_ROWS_def QUEUE_CAPACITY_def QVIS_COLS_def NUM_WORKERS_def)
qed

definition idle_worker :: worker_state_t where
  "idle_worker = \<lparr>ws_id = 0, ws_job_seconds = 0, ws_job_remaining = 0, ws_jobs_completed = 0, ws_shutdown = False\<rparr>"

lemma screen_frame_witness:
  "\<exists>text. render_text True 0 (empty_queue 64 (replicate 64 0) :: nat cb_tsqueue_t) 0 0 (replicate 5 idle_worker) = Some text
    \<and> length (filter ((=) NEWLINE) text) = 17"
proof -
  have "length (replicate 5 idle_worker) = NUM_WORKERS" "\<forall>w \<in> set (replicate 5 idle_worker). fits_line w" "0 \<le> sint (0 :: i32)"
    by (simp_all add: NUM_WORKERS_def fits_line_def idle_worker_def)
  from screen_frame [OF this this(3), of 0 "empty_queue 64 (replicate 64 0)"]
  obtain ls t where "render_text True 0 (empty_queue 64 (replicate 64 0) :: nat cb_tsqueue_t) 0 0 (replicate 5 idle_worker) = Some t"
    "length (filter ((=) NEWLINE) t) + 1 = 18" by blast
  then show ?thesis by (intro exI [of _ t]) simp
qed

text \<open>C33. What the program shows.  The screen is a frame of 17 lines, each exactly 58 columns wide, for job times
  and counts of up to three digits per worker, so the first prompt is on row 18; the prompt after an input
  goes to row PROMPT_ROW, which is 19.  Its picture of the queue shows the ring: the head, unless the queue is full, as ">", the
  free slot at the tail, or the head of a full queue, as "@", every other slot that holds an item as "#", and
  the others blank, so a queue of \<open>n > 0\<close> items shows \<open>n - 1\<close> jobs beside its head.\<close>

theorem producer_screen:
  assumes "length workers = NUM_WORKERS" "\<forall>w \<in> set workers. fits_line w" "0 \<le> sint submitted" "0 \<le> sint completed"
    and "ring_ok q" "q_capacity q = 64"
  shows "(\<exists>ls text. render_text True c q submitted completed workers =
        Some (ESC # ''[2J'' @ ESC # ''[s'' @ ESC # ''[1;1H'' @ ESC # ''[?25l''
          @ concat (map (\<lambda>l. l @ ESC # ''[K'' @ [NEWLINE]) ls) @ ''> '' @ ESC # ''[?25h'' @ ESC # ''[s'')
      \<and> length ls = 17 \<and> (\<forall>l \<in> set ls. columns l = BOX_W + 2)
      \<and> render_text True c q submitted completed workers = Some text
      \<and> length (filter ((=) NEWLINE) text) + 1 = 18 \<and> PROMPT_ROW = 19)
    \<and> (\<forall>i < unat (q_capacity q). slot_char q (word_of_nat i) =
      (if i = unat (q_head q) then (if q_count q = q_capacity q then CHR ''@'' else CHR ''>'')
       else if i = unat (q_tail q) then CHR ''@''
       else if holds_item q i then CHR ''#'' else CHR '' ''))
    \<and> card {i. i < unat (q_capacity q) \<and> slot_char q (word_of_nat i) = CHR ''#''} = unat (q_count q) - 1"
proof -
  have "unat (q_capacity q) \<le> 2 ^ 31" using assms(6) by simp
  from queue_picture [OF assms(5) this] screen_frame [OF assms(1-4), of c q] show ?thesis by blast
qed

lemma producer_screen_witness:
  "let q = \<lparr>q_items = replicate 64 (0 :: nat), q_capacity = 64, q_count = 3, q_head = 62, q_tail = 1\<rparr>
   in (\<exists>text. render_text True 3 q 0 0 (replicate 5 idle_worker) = Some text \<and> length (filter ((=) NEWLINE) text) = 17)
    \<and> card {i. i < 64 \<and> slot_char q (word_of_nat i) = CHR ''#''} = 2"
proof -
  let ?q = "\<lparr>q_items = replicate 64 (0 :: nat), q_capacity = 64, q_count = 3, q_head = 62, q_tail = 1\<rparr>"
  have "length (replicate 5 idle_worker) = NUM_WORKERS" "\<forall>w \<in> set (replicate 5 idle_worker). fits_line w" "0 \<le> sint (0 :: i32)"
    "ring_ok ?q" "q_capacity ?q = 64" by (simp_all add: NUM_WORKERS_def fits_line_def idle_worker_def ring_ok_def)
  note p = producer_screen [OF this(1-3,3-5), of 3]
  obtain t where "render_text True 3 ?q 0 0 (replicate 5 idle_worker) = Some t" "length (filter ((=) NEWLINE) t) + 1 = 18"
    using p by blast
  moreover have "card {i. i < unat (q_capacity ?q) \<and> slot_char ?q (word_of_nat i) = CHR ''#''} = unat (q_count ?q) - 1"
    using p by blast
  ultimately show ?thesis unfolding Let_def by (simp del: One_nat_def)
qed

end
