(* ===== verification/Producer.thy ===== *)
theory Producer
  imports Producer_Screen
begin

text \<open>
  The program \<open>src/test_apps/user_producer.c\<close>: five workers, an input thread, a display thread and the main
  thread around one thread-safe queue.  Each thread has a program point of the program and one in the
  queue's code, where \<open>Ts_Queue\<close> says how it moves; a thread whose call has returned goes on by a step
  of the program.  A job is the number of its allocation, the poison pill the null pointer.  What
  \<open>fgets\<close> reads, whether memory is left and whether a thread can be created are free; locking the
  display mutex succeeds when nobody holds it.  \<open>app_failed\<close> records that a call of the queue or the
  creation of a thread has failed, \<open>app_fault\<close> a use of freed memory, and \<open>app_undefined\<close> a join of a
  thread that was not created.
\<close>

section \<open>The state\<close>

type_synonym item = "nat option"

datatype render_for = First | Refresh | Final

datatype app_pc =
  Unborn
| Work_Pop | Work_Popping | Work_Sleep | Work_Report | Work_Count | Work_Exit
| In_Read | In_Pushing | In_Report | In_Count | In_Exit
| Show_Test | Show_Exit
| Render_Lock render_for | Render_Count render_for | Render_Snap render_for u32 | Render_Print render_for u32 "item cb_tsqueue_t"
| Main_Create nat | Main_Create_Display | Main_Create_Input | Main_Join_Input | Main_Pill nat | Main_Pushing nat | Main_Join nat
| Main_Stop | Main_Join_Display | Main_Cleanup | Main_Return nat

text \<open>What the program prints, with the text that each print writes: \<open>None\<close> if an overflow makes it undefined.\<close>

datatype app_print = Prompt | Screen bool u32 "item cb_tsqueue_t" i32 i32 "worker_state_t list" | Farewell i32

definition farewell_text :: "i32 \<Rightarrow> string" where
  "farewell_text n =
     ESC # ''['' @ show_nat PROMPT_ROW @ '';1H'' @ ESC # ''[K'' @ ''Shutdown complete. '' @ number n @ '' jobs processed.'' @ [NEWLINE]"

fun print_text :: "app_print \<Rightarrow> string option" where
  "print_text Prompt = Some prompt_text"
| "print_text (Screen initial c q submitted completed workers) = render_text initial c q submitted completed workers"
| "print_text (Farewell n) = Some (farewell_text n)"

record app_state_t =
  app_sys :: "item tsq_sys"
  app_workers :: "worker_state_t list"
  app_display_mutex :: "nat option"
  app_running :: bool
  app_submitted :: i32
  app_completed :: i32
  app_quit :: bool
  app_jobs :: "nat \<Rightarrow> i32 option"
  app_next :: nat
  app_pcs :: "app_pc list"
  app_output :: "app_print list"
  app_failed :: bool
  app_fault :: bool
  app_undefined :: bool

text \<open>The threads: the workers are 0 to 4.\<close>

definition INPUT :: nat where "INPUT = 5"
definition DISPLAY :: nat where "DISPLAY = 6"
definition MAIN :: nat where "MAIN = 7"
definition NUM_THREADS :: nat where "NUM_THREADS = 8"

definition set_pc :: "nat \<Rightarrow> app_pc \<Rightarrow> app_state_t \<Rightarrow> app_state_t" where
  "set_pc i pc s = s\<lparr>app_pcs := (app_pcs s)[i := pc]\<rparr>"

definition call :: "nat \<Rightarrow> item tsq_pc \<Rightarrow> app_pc \<Rightarrow> app_state_t \<Rightarrow> app_state_t" where
  "call i tpc pc s = set_pc i pc (s\<lparr>app_sys := goto i tpc (app_sys s)\<rparr>)"

definition tpc_of :: "app_state_t \<Rightarrow> nat \<Rightarrow> item tsq_pc" where
  "tpc_of s i = sys_pcs (app_sys s) ! i"

section \<open>The workers\<close>

definition on_worker :: "nat \<Rightarrow> (worker_state_t \<Rightarrow> worker_state_t) \<Rightarrow> app_state_t \<Rightarrow> app_state_t" where
  "on_worker i f s = s\<lparr>app_workers := (app_workers s)[i := f (app_workers s ! i)]\<rparr>"

definition worker_exit :: "nat \<Rightarrow> cb_info_t \<Rightarrow> app_state_t \<Rightarrow> app_state_t" where
  "worker_exit i info s =
     set_pc i Work_Exit (on_worker i (\<lambda>w. w\<lparr>ws_shutdown := True\<rparr>) (s\<lparr>app_failed := app_failed s \<or> info \<noteq> CB_INFO_OK\<rparr>))"

text \<open>What a worker does with the result of its pop.\<close>

definition worker_take :: "nat \<Rightarrow> cb_info_t \<Rightarrow> item option \<Rightarrow> app_state_t \<Rightarrow> app_state_t" where
  "worker_take i info data s =
     (case data of
        Some (Some p) \<Rightarrow>
          if info \<noteq> CB_INFO_OK then worker_exit i info s
          else (case app_jobs s p of
                  None \<Rightarrow> set_pc i Work_Exit (s\<lparr>app_fault := True\<rparr>)
                | Some seconds \<Rightarrow>
                    set_pc i Work_Sleep
                      (on_worker i (\<lambda>w. w\<lparr>ws_job_seconds := seconds, ws_job_remaining := seconds\<rparr>)
                        (s\<lparr>app_jobs := (app_jobs s)(p := None)\<rparr>)))
      | _ \<Rightarrow> worker_exit i info s)"

definition worker_sleep :: "nat \<Rightarrow> app_state_t \<Rightarrow> app_state_t" where
  "worker_sleep i s =
     (if 0 <s ws_job_remaining (app_workers s ! i)
      then on_worker i (\<lambda>w. w\<lparr>ws_job_remaining := ws_job_remaining w - 1\<rparr>) s
      else set_pc i Work_Report
        (on_worker i (\<lambda>w. w\<lparr>ws_jobs_completed := ws_jobs_completed w + 1, ws_job_seconds := 0, ws_job_remaining := 0\<rparr>) s))"

definition worker_count :: "nat \<Rightarrow> app_state_t \<Rightarrow> app_state_t" where
  "worker_count i s = set_pc i Work_Pop (s\<lparr>app_completed := app_completed s + 1, app_display_mutex := None\<rparr>)"

section \<open>The input\<close>

definition is_space :: "char \<Rightarrow> bool" where
  "is_space c \<longleftrightarrow> c = CHR '' '' \<or> 9 \<le> (of_char c :: nat) \<and> (of_char c :: nat) \<le> 13"

fun atoi_digits :: "int \<Rightarrow> string \<Rightarrow> int" where
  "atoi_digits n [] = n"
| "atoi_digits n (c # s) = (if is_digit c then atoi_digits (n * 10 + (of_char c - 48)) s else n)"

text \<open>\<open>atoi\<close>, which is undefined for a number that no \<open>int\<close> holds.\<close>

definition atoi :: "string \<Rightarrow> int" where
  "atoi s =
     (case dropWhile is_space s of
        [] \<Rightarrow> 0
      | c # t \<Rightarrow> if c = CHR ''-'' then - atoi_digits 0 t else if c = CHR ''+'' then atoi_digits 0 t else atoi_digits 0 (c # t))"

definition atoi_gives :: "string \<Rightarrow> int \<Rightarrow> bool" where
  "atoi_gives s n \<longleftrightarrow> fits 32 n \<and> (fits 32 (atoi s) \<longrightarrow> n = atoi s)"

definition strip_newline :: "string \<Rightarrow> string" where
  "strip_newline buf = takeWhile (\<lambda>c. c \<noteq> NEWLINE) buf"

text \<open>One turn of the loop up to the push: \<open>line\<close> is what \<open>fgets\<close> read, \<open>seconds\<close> what \<open>atoi\<close> made of it, and
  \<open>avail\<close> whether \<open>malloc\<close> succeeds.\<close>

definition input_read :: "string option \<Rightarrow> int \<Rightarrow> bool \<Rightarrow> app_state_t \<Rightarrow> app_state_t" where
  "input_read line seconds avail s =
     (if \<not> app_running s then set_pc INPUT In_Exit s
      else case line of
        None \<Rightarrow> set_pc INPUT In_Exit s
      | Some buf \<Rightarrow>
          let buf = strip_newline buf
          in if buf \<noteq> [] \<and> (hd buf = CHR ''q'' \<or> hd buf = CHR ''Q'')
             then set_pc INPUT In_Exit (s\<lparr>app_quit := True, app_running := False\<rparr>)
             else if seconds \<le> 0 then s
             else if \<not> avail then s
             else let job = app_next s
                  in call INPUT (Push_Lock (Some job)) In_Pushing
                       (s\<lparr>app_jobs := (app_jobs s)(job \<mapsto> word_of_int seconds), app_next := job + 1\<rparr>))"

definition input_pushed :: "cb_info_t \<Rightarrow> app_state_t \<Rightarrow> app_state_t" where
  "input_pushed info s = set_pc INPUT In_Report (s\<lparr>app_failed := app_failed s \<or> info \<noteq> CB_INFO_OK\<rparr>)"

definition input_count :: "app_state_t \<Rightarrow> app_state_t" where
  "input_count s = set_pc INPUT In_Read (s\<lparr>app_submitted := app_submitted s + 1,
     app_output := app_output s @ [Prompt], app_display_mutex := None\<rparr>)"

section \<open>Rendering\<close>

fun render_next :: "render_for \<Rightarrow> app_pc" where
  "render_next First = Main_Create_Input" | "render_next Refresh = Show_Test" | "render_next Final = Main_Cleanup"

definition render_print :: "nat \<Rightarrow> render_for \<Rightarrow> u32 \<Rightarrow> item cb_tsqueue_t \<Rightarrow> app_state_t \<Rightarrow> app_state_t" where
  "render_print i r c q s =
     set_pc i (render_next r)
       (s\<lparr>app_output := app_output s @ [Screen (r = First) c q (app_submitted s) (app_completed s) (app_workers s)],
          app_display_mutex := None\<rparr>)"

section \<open>The main thread\<close>

text \<open>Creating the thread \<open>k\<close>, which begins at \<open>pc\<close>, if the system can.\<close>

definition create :: "bool \<Rightarrow> nat \<Rightarrow> app_pc \<Rightarrow> app_state_t \<Rightarrow> app_state_t" where
  "create ok k pc s = (if ok then set_pc k pc s else s\<lparr>app_failed := True\<rparr>)"

definition main_create :: "bool \<Rightarrow> nat \<Rightarrow> app_state_t \<Rightarrow> app_state_t" where
  "main_create ok k s =
     (if k < NUM_WORKERS
      then set_pc MAIN (if ok then Main_Create (k + 1) else Main_Return 1) (create ok k Work_Pop s)
      else set_pc MAIN Main_Create_Display s)"

text \<open>The results of the next two creations are not looked at.\<close>

definition main_create_display :: "bool \<Rightarrow> app_state_t \<Rightarrow> app_state_t" where
  "main_create_display ok s = set_pc MAIN (Render_Lock First) (create ok DISPLAY Show_Test s)"

definition main_create_input :: "bool \<Rightarrow> app_state_t \<Rightarrow> app_state_t" where
  "main_create_input ok s = set_pc MAIN Main_Join_Input (create ok INPUT In_Read s)"

definition main_pill :: "nat \<Rightarrow> app_state_t \<Rightarrow> app_state_t" where
  "main_pill k s = (if k < NUM_WORKERS then call MAIN (Push_Lock None) (Main_Pushing k) s else set_pc MAIN (Main_Join 0) s)"

definition main_pushed :: "nat \<Rightarrow> cb_info_t \<Rightarrow> app_state_t \<Rightarrow> app_state_t" where
  "main_pushed k info s = set_pc MAIN (Main_Pill (k + 1)) (s\<lparr>app_failed := app_failed s \<or> info \<noteq> CB_INFO_OK\<rparr>)"

definition main_stop :: "app_state_t \<Rightarrow> app_state_t" where
  "main_stop s = set_pc MAIN Main_Join_Display (s\<lparr>app_running := False\<rparr>)"

text \<open>The last line of \<open>main\<close> and its return; the queue and the mutex that it destroys in between are not in
  use any more and not looked at again, so the state has nothing that would change.\<close>

definition main_cleanup :: "app_state_t \<Rightarrow> app_state_t" where
  "main_cleanup s = set_pc MAIN (Main_Return 0) (s\<lparr>app_output := app_output s @ [Farewell (app_completed s)]\<rparr>)"

text \<open>A join of a thread that was not created uses a handle that was not set.\<close>

definition join_unborn :: "app_state_t \<Rightarrow> app_state_t" where
  "join_unborn s = set_pc MAIN (Main_Return 1) (s\<lparr>app_undefined := True\<rparr>)"

section \<open>The system\<close>

inductive app_step :: "nat \<Rightarrow> app_state_t \<Rightarrow> app_state_t \<Rightarrow> bool" for i s where
  queue: "i < NUM_THREADS \<Longrightarrow> \<not> at_end (tpc_of s i) \<Longrightarrow> \<not> (tpc_of s i = Count_Read \<and> (\<exists>r c. app_pcs s ! i = Render_Snap r c)) \<Longrightarrow>
    tsq_step i (tpc_of s i) (app_sys s) sys' \<Longrightarrow> app_step i s (s\<lparr>app_sys := sys'\<rparr>)"
| snap: "i < NUM_THREADS \<Longrightarrow> app_pcs s ! i = Render_Snap r c \<Longrightarrow> tpc_of s i = Count_Read \<Longrightarrow> tsq_step i Count_Read (app_sys s) sys' \<Longrightarrow>
    app_step i s (set_pc i (Render_Print r c (sys_q (app_sys s))) (s\<lparr>app_sys := sys'\<rparr>))"
| work_pop: "i < NUM_WORKERS \<Longrightarrow> app_pcs s ! i = Work_Pop \<Longrightarrow> app_step i s (call i Pop_Lock Work_Popping s)"
| work_take: "i < NUM_WORKERS \<Longrightarrow> app_pcs s ! i = Work_Popping \<Longrightarrow> tpc_of s i = Pop_Done info data \<Longrightarrow>
    app_step i s (worker_take i info data s)"
| work_sleep: "i < NUM_WORKERS \<Longrightarrow> app_pcs s ! i = Work_Sleep \<Longrightarrow> app_step i s (worker_sleep i s)"
| work_lock: "i < NUM_WORKERS \<Longrightarrow> app_pcs s ! i = Work_Report \<Longrightarrow> app_display_mutex s = None \<Longrightarrow>
    app_step i s (set_pc i Work_Count (s\<lparr>app_display_mutex := Some i\<rparr>))"
| work_count: "i < NUM_WORKERS \<Longrightarrow> app_pcs s ! i = Work_Count \<Longrightarrow> app_step i s (worker_count i s)"
| in_read: "i = INPUT \<Longrightarrow> app_pcs s ! i = In_Read \<Longrightarrow>
    (\<forall>buf. line = Some buf \<longrightarrow> length buf \<le> 63 \<and> atoi_gives (strip_newline buf) seconds) \<Longrightarrow> app_step i s (input_read line seconds avail s)"
| in_pushed: "i = INPUT \<Longrightarrow> app_pcs s ! i = In_Pushing \<Longrightarrow> tpc_of s i = Push_Done info \<Longrightarrow> app_step i s (input_pushed info s)"
| in_lock: "i = INPUT \<Longrightarrow> app_pcs s ! i = In_Report \<Longrightarrow> app_display_mutex s = None \<Longrightarrow>
    app_step i s (set_pc i In_Count (s\<lparr>app_display_mutex := Some i\<rparr>))"
| in_count: "i = INPUT \<Longrightarrow> app_pcs s ! i = In_Count \<Longrightarrow> app_step i s (input_count s)"
| show_test: "i = DISPLAY \<Longrightarrow> app_pcs s ! i = Show_Test \<Longrightarrow>
    app_step i s (set_pc i (if app_running s then Render_Lock Refresh else Show_Exit) s)"
| render_lock: "i < NUM_THREADS \<Longrightarrow> app_pcs s ! i = Render_Lock r \<Longrightarrow> app_display_mutex s = None \<Longrightarrow>
    app_step i s (call i Count_Lock (Render_Count r) (s\<lparr>app_display_mutex := Some i\<rparr>))"
| render_count: "i < NUM_THREADS \<Longrightarrow> app_pcs s ! i = Render_Count r \<Longrightarrow> tpc_of s i = Count_Done c \<Longrightarrow>
    app_step i s (call i Count_Lock (Render_Snap r c) s)"
| render_print: "i < NUM_THREADS \<Longrightarrow> app_pcs s ! i = Render_Print r c q \<Longrightarrow> tpc_of s i = Count_Done c' \<Longrightarrow>
    app_step i s (render_print i r c q s)"
| main_create: "i = MAIN \<Longrightarrow> app_pcs s ! i = Main_Create k \<Longrightarrow> app_step i s (main_create ok k s)"
| main_create_display: "i = MAIN \<Longrightarrow> app_pcs s ! i = Main_Create_Display \<Longrightarrow> app_step i s (main_create_display ok s)"
| main_create_input: "i = MAIN \<Longrightarrow> app_pcs s ! i = Main_Create_Input \<Longrightarrow> app_step i s (main_create_input ok s)"
| main_join_input: "i = MAIN \<Longrightarrow> app_pcs s ! i = Main_Join_Input \<Longrightarrow> app_pcs s ! INPUT = In_Exit \<Longrightarrow> app_step i s (set_pc i (Main_Pill 0) s)"
| main_pill: "i = MAIN \<Longrightarrow> app_pcs s ! i = Main_Pill k \<Longrightarrow> app_step i s (main_pill k s)"
| main_pushed: "i = MAIN \<Longrightarrow> app_pcs s ! i = Main_Pushing k \<Longrightarrow> tpc_of s i = Push_Done info \<Longrightarrow> app_step i s (main_pushed k info s)"
| main_join: "i = MAIN \<Longrightarrow> app_pcs s ! i = Main_Join k \<Longrightarrow> k < NUM_WORKERS \<Longrightarrow> app_pcs s ! k = Work_Exit \<Longrightarrow>
    app_step i s (set_pc i (Main_Join (k + 1)) s)"
| main_joined: "i = MAIN \<Longrightarrow> app_pcs s ! i = Main_Join k \<Longrightarrow> \<not> k < NUM_WORKERS \<Longrightarrow> app_step i s (set_pc i Main_Stop s)"
| main_stop: "i = MAIN \<Longrightarrow> app_pcs s ! i = Main_Stop \<Longrightarrow> app_step i s (main_stop s)"
| main_join_display: "i = MAIN \<Longrightarrow> app_pcs s ! i = Main_Join_Display \<Longrightarrow> app_pcs s ! DISPLAY = Show_Exit \<Longrightarrow>
    app_step i s (set_pc i (Render_Lock Final) s)"
| main_join_unborn: "i = MAIN \<Longrightarrow> app_pcs s ! i = Main_Join_Input \<and> app_pcs s ! INPUT = Unborn
    \<or> app_pcs s ! i = Main_Join_Display \<and> app_pcs s ! DISPLAY = Unborn \<Longrightarrow> app_step i s (join_unborn s)"
| main_cleanup: "i = MAIN \<Longrightarrow> app_pcs s ! i = Main_Cleanup \<Longrightarrow> app_step i s (main_cleanup s)"

text \<open>The program runs from its queue, which was created, until the main thread returns.\<close>

definition app_start :: "item list \<Rightarrow> app_state_t" where
  "app_start items =
     \<lparr>app_sys = idle_threads NUM_THREADS (empty_queue 64 items),
      app_workers = map (\<lambda>i. \<lparr>ws_id = word_of_nat i, ws_job_seconds = 0, ws_job_remaining = 0, ws_jobs_completed = 0,
        ws_shutdown = False\<rparr>) [0 ..< NUM_WORKERS],
      app_display_mutex = None, app_running = True, app_submitted = 0, app_completed = 0, app_quit = False,
      app_jobs = Map.empty, app_next = 0, app_pcs = replicate 7 Unborn @ [Main_Create 0], app_output = [],
      app_failed = False, app_fault = False, app_undefined = False\<rparr>"

inductive app_run :: "app_state_t \<Rightarrow> bool" where
  start: "length items = QUEUE_CAPACITY \<Longrightarrow> app_run (app_start items)"
| step: "app_run s \<Longrightarrow> \<forall>r. app_pcs s ! MAIN \<noteq> Main_Return r \<Longrightarrow> app_step i s s' \<Longrightarrow> app_run s'"

end
