(* ===== verification/Producer_Calls.thy ===== *)
theory Producer_Calls
  imports Producer
begin

text \<open>
  What one step inside the queue means to a program that uses it: a thread stays in the call that it made, the call
  stores its item, takes one, or changes nothing that the others can see, and another thread is at
  most woken up.
\<close>

section \<open>The calls\<close>

fun is_pop :: "'a tsq_pc \<Rightarrow> bool" where
  "is_pop Pop_Lock = True" | "is_pop Pop_Test = True" | "is_pop Pop_Wait = True" | "is_pop Pop_Woken = True"
| "is_pop (Pop_Signal _) = True" | "is_pop (Pop_Unlock info data) = (info = CB_INFO_OK \<longleftrightarrow> data \<noteq> None)"
| "is_pop (Pop_Done info data) = (info = CB_INFO_OK \<longleftrightarrow> data \<noteq> None)" | "is_pop _ = False"

text \<open>A push of an item of a set: \<open>to_push\<close> is the item while it is not in the queue, and \<open>has_pushed\<close>
  holds when it is.\<close>

fun to_push :: "'a tsq_pc \<Rightarrow> 'a option" where
  "to_push (Push_Lock v) = Some v" | "to_push (Push_Test v) = Some v" | "to_push (Push_Wait v) = Some v"
| "to_push (Push_Woken v) = Some v" | "to_push _ = None"

fun has_pushed :: "'a tsq_pc \<Rightarrow> bool" where
  "has_pushed Push_Signal = True" | "has_pushed (Push_Unlock info) = (info = CB_INFO_OK)"
| "has_pushed (Push_Done info) = (info = CB_INFO_OK)" | "has_pushed _ = False"

fun push_fails :: "'a tsq_pc \<Rightarrow> bool" where
  "push_fails (Push_Unlock info) = (info \<noteq> CB_INFO_OK)" | "push_fails (Push_Done info) = (info \<noteq> CB_INFO_OK)"
| "push_fails _ = False"

definition is_push :: "'a set \<Rightarrow> 'a tsq_pc \<Rightarrow> bool" where
  "is_push V pc \<longleftrightarrow> (\<exists>v \<in> V. to_push pc = Some v) \<or> has_pushed pc \<or> push_fails pc"

fun is_count :: "'a tsq_pc \<Rightarrow> bool" where
  "is_count Count_Lock = True" | "is_count Count_Read = True" | "is_count (Count_Unlock _) = True"
| "is_count (Count_Done _) = True" | "is_count _ = False"

lemma is_push_simps [simp]:
  "is_push V (Push_Lock v) = (v \<in> V)" "is_push V (Push_Test v) = (v \<in> V)" "is_push V (Push_Wait v) = (v \<in> V)"
  "is_push V (Push_Woken v) = (v \<in> V)" "is_push V Push_Signal" "is_push V (Push_Unlock info)" "is_push V (Push_Done info)"
  "\<not> is_push V Pop_Lock" "\<not> is_push V Pop_Test" "\<not> is_push V Pop_Wait" "\<not> is_push V Pop_Woken" "\<not> is_push V Try_Lock"
  "\<not> is_push V Try_Test" "\<not> is_push V (Pop_Signal w)" "\<not> is_push V (Pop_Unlock info data)" "\<not> is_push V (Pop_Done info data)"
  "\<not> is_push V Count_Lock" "\<not> is_push V Count_Read" "\<not> is_push V (Count_Unlock c)" "\<not> is_push V (Count_Done c)"
  by (auto simp: is_push_def)

section \<open>The steps of a call\<close>

fun count_step :: "'a tsq_pc \<Rightarrow> 'a tsq_pc \<Rightarrow> bool" where
  "count_step Count_Lock pc = (pc = Count_Read)" | "count_step Count_Read pc = (\<exists>c. pc = Count_Unlock c)"
| "count_step (Count_Unlock c) pc = (pc = Count_Done c)" | "count_step _ _ = True"

text \<open>The call of a program point: everything that a step that stores and takes nothing keeps.\<close>

definition same_call :: "'a tsq_pc \<Rightarrow> 'a tsq_pc \<Rightarrow> bool" where
  "same_call pc pc' \<longleftrightarrow> (is_pop pc \<longrightarrow> is_pop pc') \<and> (\<forall>V. is_push V pc \<longrightarrow> is_push V pc') \<and> (is_count pc \<longrightarrow> is_count pc')
     \<and> \<not> at_end pc \<and> count_step pc pc'"

definition quiet :: "'a tsq_pc \<Rightarrow> 'a tsq_pc \<Rightarrow> bool" where
  "quiet pc pc' \<longleftrightarrow> same_call pc pc' \<and> in_hand pc' = in_hand pc \<and> has_pushed pc' = has_pushed pc
     \<and> (push_fails pc \<longrightarrow> push_fails pc') \<and> (to_push pc' = to_push pc \<or> to_push pc' = None \<and> push_fails pc')"

definition woken_up :: "'a tsq_pc list \<Rightarrow> 'a tsq_pc list \<Rightarrow> nat \<Rightarrow> bool" where
  "woken_up pcs pcs' j \<longleftrightarrow> pcs' ! j = pcs ! j \<or> woken (pcs ! j) = Some (pcs' ! j)"

lemma step_quiet:
  "after_lock pc = Some pc' \<Longrightarrow> quiet pc pc'" "lock_failed pc = Some pc' \<Longrightarrow> quiet pc pc'"
  "must_wait pc q = Some pc' \<Longrightarrow> quiet pc pc'" "wait_failed pc q = Some pc' \<Longrightarrow> quiet pc pc'"
  "woken pc = Some pc' \<Longrightarrow> quiet pc pc'" "after_unlock pc = Some pc' \<Longrightarrow> quiet pc pc'"
  by (cases pc; auto simp: quiet_def same_call_def split: if_splits)+

lemma signalled_wakes:
  assumes "signalled waits s s'"
  shows "woken_up (sys_pcs s) (sys_pcs s') j"
  using assms by cases (auto simp: woken_up_def nth_list_update)

lemma step_effect:
  assumes "tsq_step i (sys_pcs s ! i) s s'" "i < length (sys_pcs s)" "ring_ok (sys_q s)"
  obtains
    (quiet) "quiet (sys_pcs s ! i) (sys_pcs s' ! i)" "sys_stored s' = sys_stored s" "sys_taken s' = sys_taken s" "sys_q s' = sys_q s"
      "\<And>j. j \<noteq> i \<Longrightarrow> woken_up (sys_pcs s) (sys_pcs s') j" "length (sys_pcs s') = length (sys_pcs s)"
  | (store) v where "sys_pcs s ! i = Push_Test v" "sys_pcs s' = (sys_pcs s)[i := Push_Signal]" "sys_stored s' = sys_stored s @ [v]"
      "sys_taken s' = sys_taken s" "queue_list (sys_q s') = queue_list (sys_q s) @ [v]"
  | (take) v where "sys_pcs s ! i = Pop_Test \<or> sys_pcs s ! i = Try_Test" "sys_pcs s' = (sys_pcs s)[i := Pop_Signal v]"
      "sys_stored s' = sys_stored s" "sys_taken s' = sys_taken s @ [(i, v)]" "queue_list (sys_q s) = v # queue_list (sys_q s')"
proof -
  note w = signalled_wakes signalled_frame
  show thesis using assms(1)
  proof cases
    case (store v)
    then show thesis using that(2) [of v] store_item_list [OF assms(3)] by simp
  next
    case (take v q)
    then show thesis using that(3) [of v] take_item_list [OF assms(3)] by simp
  next
    case (push_signal s1)
    then show thesis using that(1) w [OF push_signal(3)] assms(2)
      by (simp add: quiet_def same_call_def woken_up_def nth_list_update)
  next
    case (pop_signal v s1)
    then show thesis using that(1) w [OF pop_signal(3)] assms(2)
      by (simp add: quiet_def same_call_def woken_up_def nth_list_update)
  qed (use that(1) assms(2) step_quiet [of "sys_pcs s ! i"] in
      \<open>auto simp: woken_up_def nth_list_update quiet_def same_call_def\<close>)
qed

text \<open>The view of the other threads: a thread that is woken up is in the same call with the same item.\<close>

lemma woken_up_quiet:
  "woken_up pcs pcs' j \<Longrightarrow> pcs' ! j = pcs ! j \<or> quiet (pcs ! j) (pcs' ! j) \<and> in_hand (pcs ! j) = None \<and> \<not> push_fails (pcs' ! j)"
proof (unfold woken_up_def, elim disjE)
  assume w: "woken (pcs ! j) = Some (pcs' ! j)"
  then show ?thesis using step_quiet(5) [OF w] by (cases "pcs ! j") (auto dest!: sym [of _ "pcs' ! j"])
qed simp

end
