(* ===== verification/Producer_Coherence.thy ===== *)
theory Producer_Coherence
  imports Producer_Calls
begin

text \<open>
  The first part of the invariant of the program of \<open>src/test_apps/user_producer.c\<close>: how far the main thread
  has come says which threads have begun and which have left, and every thread runs its own function and is
  in the call of the queue that its program point says.
\<close>

lemmas thread_defs = INPUT_def DISPLAY_def MAIN_def NUM_THREADS_def NUM_WORKERS_def

lemmas app_ops = set_pc_def call_def tpc_of_def on_worker_def worker_exit_def worker_take_def worker_sleep_def worker_count_def
  input_read_def input_pushed_def input_count_def render_print_def create_def main_create_def main_create_display_def
  main_create_input_def main_pill_def main_pushed_def main_stop_def main_cleanup_def join_unborn_def

section \<open>Every thread runs its own function, and is in the call that it made\<close>

fun worker_pc :: "app_pc \<Rightarrow> bool" where
  "worker_pc Unborn = True" | "worker_pc Work_Pop = True" | "worker_pc Work_Popping = True" | "worker_pc Work_Sleep = True"
| "worker_pc Work_Report = True" | "worker_pc Work_Count = True" | "worker_pc Work_Exit = True" | "worker_pc _ = False"

fun input_pc :: "app_pc \<Rightarrow> bool" where
  "input_pc Unborn = True" | "input_pc In_Read = True" | "input_pc In_Pushing = True" | "input_pc In_Report = True"
| "input_pc In_Count = True" | "input_pc In_Exit = True" | "input_pc _ = False"

fun render_pc :: "app_pc \<Rightarrow> render_for option" where
  "render_pc (Render_Lock r) = Some r" | "render_pc (Render_Count r) = Some r" | "render_pc (Render_Snap r _) = Some r"
| "render_pc (Render_Print r _ _) = Some r" | "render_pc _ = None"

definition display_pc :: "app_pc \<Rightarrow> bool" where
  "display_pc pc \<longleftrightarrow> pc = Unborn \<or> pc = Show_Test \<or> pc = Show_Exit \<or> render_pc pc = Some Refresh"

fun main_pc :: "app_pc \<Rightarrow> bool" where
  "main_pc (Main_Create k) = (k \<le> NUM_WORKERS)" | "main_pc Main_Create_Display = True" | "main_pc Main_Create_Input = True"
| "main_pc Main_Join_Input = True" | "main_pc (Main_Pill k) = (k \<le> NUM_WORKERS)" | "main_pc (Main_Pushing k) = (k < NUM_WORKERS)"
| "main_pc (Main_Join k) = (k \<le> NUM_WORKERS)" | "main_pc Main_Stop = True" | "main_pc Main_Join_Display = True"
| "main_pc Main_Cleanup = True" | "main_pc (Main_Return _) = True"
| "main_pc pc = (render_pc pc = Some First \<or> render_pc pc = Some Final)"

definition role :: "nat \<Rightarrow> app_pc \<Rightarrow> bool" where
  "role i pc = (if i < NUM_WORKERS then worker_pc pc else if i = INPUT then input_pc pc else if i = DISPLAY then display_pc pc
     else main_pc pc)"

fun in_call :: "app_pc \<Rightarrow> item tsq_pc \<Rightarrow> bool" where
  "in_call Work_Pop q = (at_end q \<and> in_hand q \<noteq> Some None)"
| "in_call Work_Popping q = is_pop q"
| "in_call Work_Sleep q = (at_end q \<and> in_hand q \<noteq> None \<and> in_hand q \<noteq> Some None)"
| "in_call Work_Report q = (at_end q \<and> in_hand q \<noteq> None \<and> in_hand q \<noteq> Some None)"
| "in_call Work_Count q = (at_end q \<and> in_hand q \<noteq> None \<and> in_hand q \<noteq> Some None)"
| "in_call Work_Exit q = at_end q"
| "in_call In_Pushing q = is_push (range Some) q"
| "in_call (Render_Count r) q = is_count q"
| "in_call (Render_Snap r c) q = (q = Count_Lock \<or> q = Count_Read)"
| "in_call (Render_Print r c t) q = ((\<exists>d. q = Count_Unlock d) \<or> (\<exists>d. q = Count_Done d))"
| "in_call (Main_Pushing k) q = is_push {None} q"
| "in_call pc q = (at_end q \<and> in_hand q = None)"

definition coherent :: "app_pc list \<Rightarrow> item tsq_pc list \<Rightarrow> bool" where
  "coherent ps qs \<longleftrightarrow> length ps = NUM_THREADS \<and> length qs = NUM_THREADS
     \<and> (\<forall>i < NUM_THREADS. role i (ps ! i) \<and> in_call (ps ! i) (qs ! i))"

lemma coherent_at:
  "coherent ps qs \<Longrightarrow> role i pc \<Longrightarrow> i < NUM_THREADS \<Longrightarrow> in_call pc (qs ! i) \<Longrightarrow> coherent (ps[i := pc]) qs"
  "coherent ps qs \<Longrightarrow> role i pc \<Longrightarrow> i < NUM_THREADS \<Longrightarrow> in_call pc q \<Longrightarrow> coherent (ps[i := pc]) (qs[i := q])"
  by (auto simp: coherent_def nth_list_update)

lemma coherentD:
  assumes "coherent ps qs" "i < NUM_THREADS"
  shows "role i (ps ! i)" "in_call (ps ! i) (qs ! i)" "i < length ps" "i < length qs"
  using assms by (simp_all add: coherent_def)

lemma in_call_step:
  assumes "in_call pc q" "same_call q q'" "\<not> (q = Count_Read \<and> (\<exists>r c. pc = Render_Snap r c))"
  shows "in_call pc q'"
  using assms by (cases pc) (auto simp: same_call_def)

lemma step_same_call:
  assumes "tsq_step i (sys_pcs s ! i) s s'" "i < length (sys_pcs s)" "ring_ok (sys_q s)"
  shows "same_call (sys_pcs s ! i) (sys_pcs s' ! i)" "j \<noteq> i \<Longrightarrow> woken_up (sys_pcs s) (sys_pcs s') j"
    "length (sys_pcs s') = length (sys_pcs s)"
  using assms(1-3)
  by (cases rule: step_effect; (force simp: quiet_def same_call_def woken_up_def assms(2))?)+

lemma coherent_queue:
  assumes "coherent ps (sys_pcs s)" "i < NUM_THREADS" "tsq_step i (sys_pcs s ! i) s s'" "ring_ok (sys_q s)"
  shows "role i pc \<Longrightarrow> in_call pc (sys_pcs s' ! i) \<Longrightarrow> coherent (ps[i := pc]) (sys_pcs s')"
    "\<not> (sys_pcs s ! i = Count_Read \<and> (\<exists>r c. ps ! i = Render_Snap r c)) \<Longrightarrow> coherent ps (sys_pcs s')"
proof -
  note c = coherentD [OF assms(1)] 
  note st = step_same_call [OF assms(3) c(4) [OF assms(2)] assms(4)]
  have others: "in_call (ps ! j) (sys_pcs s' ! j)" if "j < NUM_THREADS" "j \<noteq> i" for j
    using woken_up_quiet [OF st(2) [OF that(2)]]
  proof (elim disjE conjE)
    assume q: "quiet (sys_pcs s ! j) (sys_pcs s' ! j)"
    moreover have "sys_pcs s ! j \<noteq> Count_Read" using st(2) [OF that(2)] q by (auto simp: woken_up_def quiet_def same_call_def)
    ultimately show ?thesis using in_call_step [OF c(2) [OF that(1)]] by (simp add: quiet_def)
  qed (use c(2) [OF that(1)] in simp)
  show at: "coherent (ps[i := pc]) (sys_pcs s')" if "role i pc" "in_call pc (sys_pcs s' ! i)" for pc
    using assms(1,2) st(3) others that by (simp add: coherent_def nth_list_update)
  show "coherent ps (sys_pcs s')" if "\<not> (sys_pcs s ! i = Count_Read \<and> (\<exists>r c. ps ! i = Render_Snap r c))"
    using at [of "ps ! i"] c(1,2) [OF assms(2)] in_call_step [OF _ st(1) that] by simp
qed

lemma role_workers: "worker_pc pc \<Longrightarrow> i < NUM_WORKERS \<Longrightarrow> role i pc"
  by (simp add: role_def)

lemma role_render:
  assumes "role i pc" "render_pc pc = Some r" "i < NUM_THREADS"
  shows "i = DISPLAY \<and> r = Refresh \<or> i = MAIN \<and> r \<noteq> Refresh"
    "render_pc pc' = Some r \<Longrightarrow> role i pc'" "role i (render_next r)"
proof -
  have "\<not> worker_pc pc" "\<not> input_pc pc" using assms(2) by (cases pc; simp)+
  then have "i = DISPLAY \<or> i = MAIN" using assms by (auto simp: role_def thread_defs split: if_splits)
  then show "i = DISPLAY \<and> r = Refresh \<or> i = MAIN \<and> r \<noteq> Refresh"
    using assms(1,2) by (cases pc) (auto simp: role_def thread_defs display_pc_def)
  then show "render_pc pc' = Some r \<Longrightarrow> role i pc'" "role i (render_next r)"
    by (cases pc'; cases r; auto simp: role_def thread_defs display_pc_def)+
qed

text \<open>Every run keeps it, and the queue sees only calls that a thread makes after the one before has returned.\<close>

definition coherent_state :: "app_state_t \<Rightarrow> bool" where
  "coherent_state s \<longleftrightarrow> coherent (app_pcs s) (sys_pcs (app_sys s)) \<and> tsq_reachable NUM_THREADS 64 (app_sys s)"

lemma coherent_stateD:
  assumes "coherent_state s" "i < NUM_THREADS"
  shows "role i (app_pcs s ! i)" "in_call (app_pcs s ! i) (tpc_of s i)" "i < length (app_pcs s)" "i < length (sys_pcs (app_sys s))"
    "ring_ok (sys_q (app_sys s))" "coherent (app_pcs s) (sys_pcs (app_sys s))" "tsq_reachable NUM_THREADS 64 (app_sys s)"
proof -
  show co: "coherent (app_pcs s) (sys_pcs (app_sys s))" and re: "tsq_reachable NUM_THREADS 64 (app_sys s)"
    using assms(1) by (simp_all add: coherent_state_def)
  show "role i (app_pcs s ! i)" "in_call (app_pcs s ! i) (tpc_of s i)" "i < length (app_pcs s)" "i < length (sys_pcs (app_sys s))"
    using coherentD [OF co assms(2)] by (simp_all add: tpc_of_def)
  show "ring_ok (sys_q (app_sys s))" using reachable_inv [OF re] by (simp add: tsq_inv_def history_ok_def)
qed

lemma input_read_cases:
  obtains (again) "input_read line seconds avail s = s"
  | (stop) quit running where "input_read line seconds avail s = set_pc INPUT In_Exit (s\<lparr>app_quit := quit, app_running := running\<rparr>)"
      "running \<longrightarrow> app_running s"
  | (job) job where "input_read line seconds avail s = call INPUT (Push_Lock (Some job)) In_Pushing
      (s\<lparr>app_jobs := (app_jobs s)(job \<mapsto> word_of_int seconds), app_next := job + 1\<rparr>)" "job = app_next s"
proof (cases line)
  case None
  then show thesis using that(2) [where quit = "app_quit s" and running = "app_running s"] by (simp add: input_read_def)
next
  case (Some buf)
  then show thesis using that that(2) [where quit = "app_quit s" and running = "app_running s"] by (fastforce simp: input_read_def Let_def)
qed

section \<open>How far the main thread has come\<close>

fun stage :: "app_pc \<Rightarrow> nat" where
  "stage (Main_Create k) = k" | "stage Main_Create_Display = 6" | "stage Main_Create_Input = 7" | "stage Main_Join_Input = 8"
| "stage (Main_Pill k) = 9" | "stage (Main_Pushing k) = 9" | "stage (Main_Join k) = 10 + k" | "stage Main_Stop = 15"
| "stage Main_Join_Display = 16" | "stage pc = (if render_pc pc = Some First then 7 else 17)"

definition stage_ok :: "app_state_t \<Rightarrow> bool" where
  "stage_ok s \<longleftrightarrow>
     (let ps = app_pcs s; n = stage (ps ! MAIN) in
       (\<forall>k < NUM_WORKERS. (ps ! k = Unborn \<longleftrightarrow> n \<le> k) \<and> (11 + k \<le> n \<longrightarrow> ps ! k = Work_Exit))
       \<and> (ps ! DISPLAY = Unborn \<longrightarrow> n \<le> 6 \<or> app_failed s) \<and> (n \<le> 6 \<longrightarrow> ps ! DISPLAY = Unborn)
       \<and> (16 \<le> n \<longrightarrow> \<not> app_running s) \<and> (17 \<le> n \<longrightarrow> ps ! DISPLAY = Show_Exit)
       \<and> (ps ! INPUT = Unborn \<longrightarrow> n \<le> 7 \<or> app_failed s) \<and> (n \<le> 7 \<longrightarrow> ps ! INPUT = Unborn) \<and> (9 \<le> n \<longrightarrow> ps ! INPUT = In_Exit))"

definition staged :: "app_state_t \<Rightarrow> bool" where
  "staged s \<longleftrightarrow> length (app_pcs s) = NUM_THREADS \<and> main_pc (app_pcs s ! MAIN)
     \<and> ((\<exists>r. app_pcs s ! MAIN = Main_Return (Suc r)) \<or> stage_ok s)"

text \<open>A thread other than the main thread is born already, and does not leave its exit.\<close>

fun exit_pc :: "app_pc \<Rightarrow> bool" where
  "exit_pc Work_Exit = True" | "exit_pc In_Exit = True" | "exit_pc Show_Exit = True" | "exit_pc _ = False"

definition moves_on :: "app_pc \<Rightarrow> app_pc \<Rightarrow> bool" where
  "moves_on pc pc' \<longleftrightarrow> pc' = pc \<or> pc \<noteq> Unborn \<and> \<not> exit_pc pc \<and> pc' \<noteq> Unborn"

lemma render_moves: "\<not> exit_pc (render_next r)" "render_next r \<noteq> Unborn" 
  by (cases r; simp)+

lemma step_frame:
  assumes "app_step i s s'"
  shows "app_failed s \<longrightarrow> app_failed s'" "app_running s' \<longrightarrow> app_running s" "length (app_pcs s') = length (app_pcs s)"
    "i < NUM_THREADS"
    "i \<noteq> MAIN \<Longrightarrow> length (app_pcs s) = NUM_THREADS \<Longrightarrow> \<exists>pc. app_pcs s' = (app_pcs s)[i := pc] \<and> moves_on (app_pcs s ! i) pc"
proof -
  have "(app_failed s \<longrightarrow> app_failed s') \<and> (app_running s' \<longrightarrow> app_running s) \<and> length (app_pcs s') = length (app_pcs s)
    \<and> i < NUM_THREADS" using assms
  proof cases
    case (in_read line seconds avail)
    show ?thesis by (cases rule: input_read_cases [of line seconds avail s]) (use in_read in \<open>auto simp: app_ops thread_defs\<close>)
  qed (auto simp: app_ops thread_defs split: option.splits)
  then show "app_failed s \<longrightarrow> app_failed s'" "app_running s' \<longrightarrow> app_running s" "length (app_pcs s') = length (app_pcs s)"
    "i < NUM_THREADS" by auto
  show "\<exists>pc. app_pcs s' = (app_pcs s)[i := pc] \<and> moves_on (app_pcs s ! i) pc"
    if "i \<noteq> MAIN" "length (app_pcs s) = NUM_THREADS"
    using assms
  proof cases
    case (in_read line seconds avail)
    show ?thesis
    proof (cases rule: input_read_cases [of line seconds avail s])
      case again
      then show ?thesis using in_read(1) by (intro exI [of _ "app_pcs s ! i"]) (simp add: moves_on_def)
    next
      case stop
      then show ?thesis using in_read by (intro exI [of _ In_Exit]) (simp add: moves_on_def app_ops)
    next
      case job
      then show ?thesis using in_read by (intro exI [of _ In_Pushing]) (simp add: moves_on_def app_ops)
    qed
  next
    case work_sleep
    have "app_pcs s' = (app_pcs s)[i := app_pcs s ! i] \<or> app_pcs s' = (app_pcs s)[i := Work_Report]"
      using work_sleep(1) by (simp add: app_ops)
    then show ?thesis using work_sleep(3) by (auto simp: moves_on_def)
  qed (use that in \<open>auto simp: app_ops moves_on_def render_moves intro: exI [of _ "app_pcs s ! i"] split: option.splits\<close>)
qed

lemma stage_frame:
  assumes "stage_ok s" "i < MAIN" "app_pcs s' = (app_pcs s)[i := pc]" "moves_on (app_pcs s ! i) pc" "length (app_pcs s) = NUM_THREADS"
    "app_failed s \<longrightarrow> app_failed s'" "app_running s' \<longrightarrow> app_running s"
  shows "stage_ok s'"
proof -
  have m: "(app_pcs s' ! j = Unborn \<longleftrightarrow> app_pcs s ! j = Unborn) \<and> (exit_pc (app_pcs s ! j) \<longrightarrow> app_pcs s' ! j = app_pcs s ! j)" for j
    using assms(2-5) by (cases "j = i") (auto simp: moves_on_def thread_defs)
  then have e: "app_pcs s ! j = Work_Exit \<Longrightarrow> app_pcs s' ! j = Work_Exit" "app_pcs s ! j = In_Exit \<Longrightarrow> app_pcs s' ! j = In_Exit"
    "app_pcs s ! j = Show_Exit \<Longrightarrow> app_pcs s' ! j = Show_Exit" for j by (metis exit_pc.simps(1-3))+
  have n: "app_pcs s' ! MAIN = app_pcs s ! MAIN" using assms(2,3) by simp
  show ?thesis using assms(1,6,7) unfolding stage_ok_def Let_def n by (auto simp: m intro: e)
qed

lemma stage_main:
  assumes "stage_ok s" "app_pcs s' = (app_pcs s)[MAIN := pc]" "length (app_pcs s) = NUM_THREADS"
    "stage pc = stage (app_pcs s ! MAIN)" "app_failed s \<longrightarrow> app_failed s'" "app_running s' \<longrightarrow> app_running s"
  shows "stage_ok s'"
proof -
  have n: "app_pcs s' ! MAIN = pc" using assms(2,3) by (simp add: thread_defs)
  have m: "app_pcs s' ! j = app_pcs s ! j" if "j < MAIN" for j using assms(2,3) that by simp
  have "DISPLAY < MAIN" "INPUT < MAIN" "k < NUM_WORKERS \<Longrightarrow> k < MAIN" for k by (simp_all add: thread_defs)
  then show ?thesis using assms(1,4,5,6) unfolding stage_ok_def Let_def n by (auto simp: m)
qed

lemma staged_step:
  assumes "app_step i s s'" "staged s" "\<forall>r. app_pcs s ! MAIN \<noteq> Main_Return r"
  shows "staged s'"
proof (cases "i = MAIN")
  case False
  have ok: "length (app_pcs s) = NUM_THREADS" "main_pc (app_pcs s ! MAIN)" "stage_ok s"
    using assms(2,3) by (auto simp: staged_def)
  note f = step_frame [OF assms(1)]
  then obtain pc where pc: "app_pcs s' = (app_pcs s)[i := pc]" "moves_on (app_pcs s ! i) pc" using False ok(1) by blast
  have "i < MAIN" using f(4) False by (simp add: thread_defs)
  then show ?thesis using stage_frame [OF ok(3) _ pc ok(1) f(1,2)] f(3) ok pc by (simp add: staged_def)
next
  case True
  have gd: "length (app_pcs s) = NUM_THREADS" "main_pc (app_pcs s ! MAIN)" "stage_ok s"
    using assms(2,3) by (auto simp: staged_def)
  note f = step_frame [OF assms(1)]
  note st = stage_main [OF gd(3) _ gd(1) _ f(1,2)]
  note so = gd(3) [unfolded stage_ok_def Let_def]
  note sm = staged_def stage_ok_def app_ops thread_defs nth_list_update
  from assms(1) show ?thesis
  proof cases
    case (queue sys')
    then show ?thesis using st [of "app_pcs s ! MAIN"] gd by (simp add: staged_def)
  next
    case (main_create k ok)
    then show ?thesis using so gd True by (cases ok) (auto simp: sm Let_def)
  next
    case (main_create_display ok)
    then show ?thesis using so gd True by (cases ok) (auto simp: sm Let_def)
  next
    case (main_create_input ok)
    then show ?thesis using so gd True by (cases ok) (auto simp: sm Let_def)
  next
    case main_join_input
    then show ?thesis using so gd True by (auto simp: sm Let_def)
  next
    case (main_pill k)
    then show ?thesis using so gd True by (auto simp: sm Let_def)
  next
    case (main_join k)
    then show ?thesis using so gd True by (auto simp: sm Let_def less_Suc_eq_le dest!: le_imp_less_or_eq)
  next
    case (main_joined k)
    then show ?thesis using so gd True by (auto simp: sm Let_def)
  next
    case (main_stop)
    then show ?thesis using so gd True by (auto simp: sm Let_def)
  next
    case (main_join_display)
    then show ?thesis using so gd True by (auto simp: sm Let_def)
  qed (use True gd st in \<open>auto simp: staged_def app_ops thread_defs\<close>)
qed

lemma coherent_step:
  assumes "app_step i s s'" "coherent_state s" "staged s" "\<forall>r. app_pcs s ! MAIN \<noteq> Main_Return r"
  shows "coherent_state s'"
proof -
  note d = coherent_stateD [OF assms(2)]
  have "0 < NUM_THREADS" by (simp add: NUM_THREADS_def)
  note d0 = d(5,6,7) [OF this]
  note at = coherent_at(1) [OF d0(2), unfolded thread_defs] coherent_at(2) [OF d0(2), unfolded thread_defs]
    coherent_at(1) [OF coherent_at(1) [OF d0(2)], unfolded thread_defs]
  note r = d0 [unfolded thread_defs] tsq_reachable.call [OF d0(3), unfolded thread_defs]
  note sm = coherent_state_def app_ops thread_defs role_def display_pc_def r at
  have so: "stage_ok s" using assms(3,4) by (auto simp: staged_def)
  have un: "app_pcs s ! k = Unborn \<Longrightarrow> k < NUM_THREADS \<Longrightarrow> at_end (tpc_of s k) \<and> in_hand (tpc_of s k) = None" for k
    using d(2) [of k] by simp
  from assms(1) show ?thesis
  proof cases
    case (queue sys')
    then show ?thesis using coherent_queue(2) [OF d0(2) _ _ d0(1)] tsq_reachable.step [OF d0(3)] by (simp add: coherent_state_def tpc_of_def)
  next
    case (snap r c sys')
    have p: "tsq_step i (sys_pcs (app_sys s) ! i) (app_sys s) sys'" using snap by (simp add: tpc_of_def)
    obtain c' where "sys_pcs sys' ! i = Count_Unlock c'"
      using step_same_call(1) [OF p d(4) [OF snap(2)] d0(1)] snap(4) by (auto simp: tpc_of_def same_call_def)
    then have "coherent ((app_pcs s)[i := Render_Print r c (sys_q (app_sys s))]) (sys_pcs sys')"
      using role_render(2) [OF d(1) [OF snap(2)]] snap(2,3) by (intro coherent_queue(1) [OF d0(2) _ p d0(1)]) simp_all
    then show ?thesis using snap(1,2) tsq_reachable.step [OF d0(3) _ p] by (simp add: coherent_state_def set_pc_def)
  next
    case (in_read line seconds avail)
    show ?thesis
      by (cases rule: input_read_cases [of line seconds avail s]) (use d(2) [of i] in_read assms(2) in \<open>auto simp: sm\<close>)
  next
    case (main_create k ok)
    then have "k < NUM_WORKERS \<Longrightarrow> app_pcs s ! k = Unborn" using so by (simp add: stage_ok_def Let_def)
    then show ?thesis using un [of k] d(1,2) [of i] main_create by (auto simp: sm)
  next
    case (main_create_display ok)
    then have "app_pcs s ! DISPLAY = Unborn" using so by (simp add: stage_ok_def Let_def)
    then show ?thesis using un [of DISPLAY] d(1,2) [of i] main_create_display by (auto simp: sm)
  next
    case (main_create_input ok)
    then have "app_pcs s ! INPUT = Unborn" using so by (simp add: stage_ok_def Let_def)
    then show ?thesis using un [of INPUT] d(1,2) [of i] main_create_input by (auto simp: sm)
  qed (use d(1,2) [of i] in \<open>auto simp: sm split: option.splits if_splits\<close>)
qed

end
