(* ===== verification/Producer_Books.thy ===== *)
theory Producer_Books
  imports Producer_Coherence "HOL-Library.Multiset"
begin

text \<open>
  The books of the program of \<open>src/test_apps/user_producer.c\<close>: who owns each allocated job, and how the
  counters of jobs and the poison pills relate to what the queue has stored and given out.
\<close>

section \<open>Sums over the threads\<close>

definition tally :: "(app_pc \<Rightarrow> item tsq_pc \<Rightarrow> 'b :: comm_monoid_add) \<Rightarrow> app_state_t \<Rightarrow> 'b" where
  "tally f s = (\<Sum>i < NUM_THREADS. f (app_pcs s ! i) (tpc_of s i))"

text \<open>What a program point in the queue shows of its call.\<close>

definition same_view :: "'a tsq_pc \<Rightarrow> 'a tsq_pc \<Rightarrow> bool" where
  "same_view q q' \<longleftrightarrow> in_hand q' = in_hand q \<and> has_pushed q' = has_pushed q \<and> to_push q' = to_push q \<and> push_fails q' = push_fails q"

lemma same_view_refl [simp]: "same_view q q"
  by (simp add: same_view_def)

lemma woken_up_view: "woken_up pcs pcs' j \<Longrightarrow> same_view (pcs ! j) (pcs' ! j)"
proof (unfold woken_up_def, elim disjE)
  assume w: "woken (pcs ! j) = Some (pcs' ! j)"
  then show ?thesis by (cases "pcs ! j") (auto simp: same_view_def dest!: sym [of _ "pcs' ! j"])
qed simp

definition begins :: "app_pc \<Rightarrow> bool" where
  "begins pc \<longleftrightarrow> pc = Work_Pop \<or> pc = In_Read \<or> pc = Show_Test"

lemma step_others:
  assumes "app_step i s s'" "coherent_state s" "staged s" "\<forall>r. app_pcs s ! MAIN \<noteq> Main_Return r" "j < NUM_THREADS" "j \<noteq> i"
  shows "same_view (tpc_of s j) (tpc_of s' j) \<and> (app_pcs s' ! j = app_pcs s ! j \<or> app_pcs s ! j = Unborn \<and> begins (app_pcs s' ! j))"
proof -
  note d = coherent_stateD [OF assms(2)]
  have so: "stage_ok s" using assms(3,4) by (auto simp: staged_def)
  have q: "same_view (tpc_of s j) (sys_pcs sys' ! j)" if "tsq_step i (tpc_of s i) (app_sys s) sys'" "i < NUM_THREADS" for sys'
    using woken_up_view [OF step_same_call(2) [OF _ d(4) [OF that(2)] d(5) [OF that(2)] assms(6)]] that(1) by (simp add: tpc_of_def)
  note sm = app_ops thread_defs
  from assms(1) show ?thesis
  proof cases
    case (queue sys')
    then show ?thesis using q by (simp add: tpc_of_def)
  next
    case (snap r c sys')
    then show ?thesis using q [of sys'] assms(6) by (simp add: tpc_of_def set_pc_def)
  next
    case (in_read line seconds avail)
    show ?thesis by (cases rule: input_read_cases [of line seconds avail s]) (use in_read assms(6) in \<open>auto simp: sm\<close>)
  next
    case (main_create k ok)
    then have "k < NUM_WORKERS \<Longrightarrow> app_pcs s ! k = Unborn" using so by (simp add: stage_ok_def Let_def)
    then show ?thesis using main_create assms(5,6) d(3) [of k] by (cases "j = k") (auto simp: sm begins_def)
  next
    case (main_create_display ok)
    then have "app_pcs s ! DISPLAY = Unborn" using so by (simp add: stage_ok_def Let_def)
    then show ?thesis using main_create_display assms(5,6) d(3) [of DISPLAY] by (cases "j = DISPLAY") (auto simp: sm begins_def)
  next
    case (main_create_input ok)
    then have "app_pcs s ! INPUT = Unborn" using so by (simp add: stage_ok_def Let_def)
    then show ?thesis using main_create_input assms(5,6) d(3) [of INPUT] by (cases "j = INPUT") (auto simp: sm begins_def)
  qed (use assms(6) in \<open>auto simp: sm split: option.splits\<close>)
qed

definition local :: "(app_pc \<Rightarrow> item tsq_pc \<Rightarrow> 'b) \<Rightarrow> bool" where
  "local f \<longleftrightarrow> (\<forall>pc q q'. same_view q q' \<longrightarrow> f pc q' = f pc q)
     \<and> (\<forall>pc q. begins pc \<longrightarrow> f pc q = f Unborn q)"

lemma tally_step:
  assumes "app_step i s s'" "coherent_state s" "staged s" "\<forall>r. app_pcs s ! MAIN \<noteq> Main_Return r" "local f"
  shows "tally f s' + f (app_pcs s ! i) (tpc_of s i) = tally f s + f (app_pcs s' ! i) (tpc_of s' i)"
proof -
  have i: "i \<in> {..< NUM_THREADS}" using step_frame(4) [OF assms(1)] by simp
  have "f (app_pcs s' ! j) (tpc_of s' j) = f (app_pcs s ! j) (tpc_of s j)" if "j \<in> {..< NUM_THREADS} - {i}" for j
    using step_others [OF assms(1-4), of j] assms(5) that unfolding local_def by auto
  then have e: "(\<Sum>j \<in> {..< NUM_THREADS} - {i}. f (app_pcs s' ! j) (tpc_of s' j))
      = (\<Sum>j \<in> {..< NUM_THREADS} - {i}. f (app_pcs s ! j) (tpc_of s j))" by (rule sum.cong [OF refl])
  show ?thesis unfolding tally_def sum.remove [OF finite_lessThan i] e by (simp add: ac_simps)
qed

section \<open>The owners of the jobs\<close>

fun job_of :: "item option \<Rightarrow> nat multiset" where
  "job_of (Some (Some p)) = {#p#}" | "job_of _ = {#}"

text \<open>A worker holds the job that its pop took until it has freed it, the input thread the job that it allocated
  until its push has stored it.\<close>

fun held :: "app_pc \<Rightarrow> item tsq_pc \<Rightarrow> nat multiset" where
  "held Work_Popping q = job_of (in_hand q)" | "held In_Pushing q = job_of (to_push q)" | "held _ _ = {#}"

definition owners :: "app_state_t \<Rightarrow> nat \<Rightarrow> nat" where
  "owners s p = count (tally held s) p + count_list (queue_list (sys_q (app_sys s))) (Some p)"

definition leaking :: "app_state_t \<Rightarrow> bool" where
  "leaking s \<longleftrightarrow> app_failed s \<or> app_pcs s ! INPUT = In_Pushing \<and> push_fails (tpc_of s INPUT)"

definition mem_ok :: "app_state_t \<Rightarrow> bool" where
  "mem_ok s \<longleftrightarrow> \<not> app_fault s \<and> (\<forall>p. app_jobs s p \<noteq> None \<longrightarrow> p < app_next s)
     \<and> (\<forall>p. owners s p \<le> of_bool (app_jobs s p \<noteq> None)) \<and> (\<not> leaking s \<longrightarrow> (\<forall>p. owners s p = of_bool (app_jobs s p \<noteq> None)))"

lemma local_held: "local held"
  unfolding local_def same_view_def begins_def
proof (intro conjI allI impI)
  show "held pc q' = held pc q" if "in_hand q' = in_hand q \<and> has_pushed q' = has_pushed q \<and> to_push q' = to_push q \<and> push_fails q' = push_fails q"
    for pc q q' using that by (cases pc) auto
qed auto

text \<open>Who stores and who takes.\<close>

lemma in_call_test:
  "in_call pc (Push_Test v) \<longleftrightarrow> pc = In_Pushing \<and> v \<noteq> None \<or> (\<exists>k. pc = Main_Pushing k \<and> v = None)"
  "in_call pc Pop_Test \<longleftrightarrow> pc = Work_Popping" "\<not> in_call pc Try_Test"
  by (cases pc; auto)+

lemma role_input: "role i In_Pushing \<Longrightarrow> i < NUM_THREADS \<Longrightarrow> i = INPUT"
  and role_pushing: "role i (Main_Pushing k) \<Longrightarrow> i < NUM_THREADS \<Longrightarrow> i = MAIN"
  by (auto simp: role_def thread_defs display_pc_def split: if_splits)

lemma mem_owners:
  assumes "mem_ok s" "\<And>p. owners s' p = owners s p" "app_jobs s' = app_jobs s" "app_next s' = app_next s"
    "app_fault s' = app_fault s" "leaking s \<longrightarrow> leaking s'"
  shows "mem_ok s'"
  using assms(1,6) unfolding mem_ok_def assms(2-5) by blast

lemma mem_leak:
  assumes "mem_ok s" "\<And>p. owners s' p \<le> owners s p" "app_jobs s' = app_jobs s" "app_next s' = app_next s"
    "app_fault s' = app_fault s" "leaking s'"
  shows "mem_ok s'"
proof -
  have "owners s' p \<le> of_bool (app_jobs s p \<noteq> None)" for p
    using assms(1,2) unfolding mem_ok_def by (meson le_trans)
  then show ?thesis using assms(1,6) unfolding mem_ok_def assms(3-5) by blast
qed

lemma mem_frame:
  assumes "mem_ok s" "tally held s' = tally held s" "sys_q (app_sys s') = sys_q (app_sys s)" "app_jobs s' = app_jobs s"
    "app_next s' = app_next s" "app_fault s' = app_fault s" "leaking s \<longrightarrow> leaking s'"
  shows "mem_ok s'"
  using assms(1,7) unfolding mem_ok_def owners_def assms(2-6) by blast

lemma held_count:
  assumes "app_step i s s'" "coherent_state s" "staged s" "\<forall>r. app_pcs s ! MAIN \<noteq> Main_Return r"
  shows "count (tally held s') p + count (held (app_pcs s ! i) (tpc_of s i)) p
    = count (tally held s) p + count (held (app_pcs s' ! i) (tpc_of s' i)) p"
  using arg_cong [OF tally_step [OF assms local_held], of "\<lambda>m. count m p"] by simp

lemma mem_local:
  assumes "app_step i s s'" "coherent_state s" "staged s" "\<forall>r. app_pcs s ! MAIN \<noteq> Main_Return r" "mem_ok s"
    "held (app_pcs s' ! i) (tpc_of s' i) = held (app_pcs s ! i) (tpc_of s i)" "sys_q (app_sys s') = sys_q (app_sys s)"
    "app_jobs s' = app_jobs s" "app_next s' = app_next s" "app_fault s' = app_fault s" "leaking s \<longrightarrow> leaking s'"
  shows "mem_ok s'"
  using tally_step [OF assms(1-4) local_held] assms(6) mem_frame [OF assms(5) _ assms(7-11)] by simp

text \<open>A step inside the queue hands the job over.\<close>

lemma mem_queue:
  assumes "app_step i s s'" "coherent_state s" "staged s" "\<forall>r. app_pcs s ! MAIN \<noteq> Main_Return r" "mem_ok s"
    "i < NUM_THREADS" "s' = s\<lparr>app_sys := sys'\<rparr>" "tsq_step i (tpc_of s i) (app_sys s) sys'"
  shows "mem_ok s'"
proof -
  note d = coherent_stateD [OF assms(2,6)] and cnt = held_count [OF assms(1-4)]
  have p: "tsq_step i (sys_pcs (app_sys s) ! i) (app_sys s) sys'" and q: "tpc_of s i = sys_pcs (app_sys s) ! i"
    "tpc_of s' j = sys_pcs sys' ! j" for j using assms(7,8) by (simp_all add: tpc_of_def)
  have e: "app_pcs s' = app_pcs s" "app_sys s' = sys'" "app_failed s' = app_failed s" "app_jobs s' = app_jobs s"
    "app_next s' = app_next s" "app_fault s' = app_fault s" using assms(7) by simp_all
  note keep = mem_owners [OF assms(5) _ e(4-6)]
  show ?thesis using p d(4,5)
  proof (cases rule: step_effect)
    case quiet
    have lk: "leaking s \<longrightarrow> leaking s'"
      using quiet(1) woken_up_view [OF quiet(5)] by (cases "i = INPUT") (auto simp: leaking_def e q tpc_of_def quiet_def same_view_def)
    have "held (app_pcs s ! i) (tpc_of s' i) = held (app_pcs s ! i) (tpc_of s i)
        \<or> leaking s' \<and> held (app_pcs s ! i) (tpc_of s' i) = {#}"
      using quiet(1) role_input d(1) assms(6) by (cases "app_pcs s ! i") (auto simp: leaking_def e q quiet_def)
    then show ?thesis
    proof (elim disjE conjE)
      assume "leaking s'" "held (app_pcs s ! i) (tpc_of s' i) = {#}"
      moreover from this have "owners s' p \<le> owners s p" for p using cnt [of p] quiet(4) by (simp add: owners_def e)
      ultimately show ?thesis by (intro mem_leak [OF assms(5)]) (simp_all add: e)
    qed (use mem_local [OF assms(1-5)] quiet(4) lk in \<open>simp add: e\<close>)
  next
    case (store v)
    have "owners s' p = owners s p" for p
      using cnt [of p] store d unfolding q by (auto simp: in_call_test owners_def e q count_list_append tpc_of_def split: if_splits)
    moreover have "leaking s \<longrightarrow> leaking s'" using store d by (auto simp: leaking_def e q nth_list_update tpc_of_def)
    ultimately show ?thesis by (rule keep)
  next
    case (take v)
    have "owners s' p = owners s p" for p
      using cnt [of p] take d unfolding q by (cases v) (auto simp: in_call_test owners_def e q tpc_of_def split: if_splits)
    moreover have "leaking s \<longrightarrow> leaking s'" using take d by (auto simp: leaking_def e q nth_list_update tpc_of_def)
    ultimately show ?thesis by (rule keep)
  qed
qed

lemma mem_snap:
  assumes "app_step i s s'" "coherent_state s" "staged s" "\<forall>r. app_pcs s ! MAIN \<noteq> Main_Return r" "mem_ok s"
    "i < NUM_THREADS" "app_pcs s ! i = Render_Snap r c" "tsq_step i (tpc_of s i) (app_sys s) sys'" "tpc_of s i = Count_Read"
    "s' = set_pc i (Render_Print r c q) (s\<lparr>app_sys := sys'\<rparr>)"
  shows "mem_ok s'"
proof -
  note d = coherent_stateD [OF assms(2,6)]
  have p: "tsq_step i (sys_pcs (app_sys s) ! i) (app_sys s) sys'" and q: "sys_pcs (app_sys s) ! i = Count_Read"
    using assms(8,9) by (simp_all add: tpc_of_def)
  have q': "sys_q sys' = sys_q (app_sys s)" using p unfolding q by cases simp_all
  have i: "i \<noteq> INPUT" using role_render(1) [OF d(1)] assms(6,7) by (auto simp: thread_defs)
  then have "push_fails (sys_pcs sys' ! INPUT) = push_fails (sys_pcs (app_sys s) ! INPUT)"
    using woken_up_view [OF step_same_call(2) [OF p d(4,5)]] by (auto simp: same_view_def)
  then show ?thesis using assms(7,10) i d(3) q'
    by (intro mem_local [OF assms(1-5)]) (auto simp: leaking_def set_pc_def tpc_of_def)
qed

text \<open>A worker frees the job that it took, and the input thread allocates one.\<close>

lemma mem_take:
  assumes "app_step i s s'" "coherent_state s" "staged s" "\<forall>r. app_pcs s ! MAIN \<noteq> Main_Return r" "mem_ok s"
    "i < NUM_WORKERS" "app_pcs s ! i = Work_Popping" "tpc_of s i = Pop_Done CB_INFO_OK (Some (Some p))"
    "s' = worker_take i CB_INFO_OK (Some (Some p)) s"
  shows "mem_ok s'"
proof -
  have i: "i < NUM_THREADS" "i \<noteq> INPUT" using assms(6) by (auto simp: thread_defs)
  note d = coherent_stateD [OF assms(2) i(1)] and cnt = held_count [OF assms(1-4)]
  have h: "held (app_pcs s ! i) (tpc_of s i) = {#p#}" "held (app_pcs s' ! i) (tpc_of s' i) = {#}"
    using assms(7-9) d(3) by (simp_all add: app_ops split: option.split)
  have st: "app_jobs s p \<noteq> None"
  proof
    assume "app_jobs s p = None"
    then have "owners s p = 0" using assms(5) unfolding mem_ok_def by (metis le_zero_eq of_bool_eq(1))
    then show False using cnt [of p] h by (simp add: owners_def)
  qed
  then have j: "app_jobs s' = (app_jobs s)(p := None)" "app_next s' = app_next s" "app_fault s' = app_fault s"
    "leaking s' = leaking s" "sys_q (app_sys s') = sys_q (app_sys s)"
    using assms(9) i by (auto simp: app_ops leaking_def)
  have "owners s' r = owners s r - of_bool (r = p)" for r
    using cnt [of r] unfolding h owners_def j by (auto split: if_splits)
  moreover have "owners s p \<le> 1" using assms(5) unfolding mem_ok_def by (metis of_bool_eq(2) st)
  ultimately show ?thesis using assms(5) unfolding mem_ok_def j by auto
qed

lemma mem_read:
  assumes "app_step i s s'" "coherent_state s" "staged s" "\<forall>r. app_pcs s ! MAIN \<noteq> Main_Return r" "mem_ok s"
    "i = INPUT" "app_pcs s ! i = In_Read" "s' = input_read line seconds avail s"
  shows "mem_ok s'"
proof -
  have i: "i < NUM_THREADS" using assms(6) by (simp add: thread_defs)
  note d = coherent_stateD [OF assms(2) i] and cnt = held_count [OF assms(1-4)]
  show ?thesis
  proof (cases rule: input_read_cases [of line seconds avail s])
    case again
    then show ?thesis using assms(5,8) by simp
  next
    case stop
    then show ?thesis using assms(6-8) d(3) by (intro mem_local [OF assms(1-5)]) (auto simp: app_ops leaking_def)
  next
    case (job p)
    have h: "held (app_pcs s ! i) (tpc_of s i) = {#}" using assms(7) by simp
    have h': "held (app_pcs s' ! i) (tpc_of s' i) = {#p#}" and j: "app_jobs s' = (app_jobs s)(p \<mapsto> word_of_int seconds)"
      "app_next s' = p + 1" "app_fault s' = app_fault s" "sys_q (app_sys s') = sys_q (app_sys s)"
      "leaking s' \<longleftrightarrow> app_failed s"
      using job assms(6,8) d(3,4) by (simp_all add: app_ops leaking_def)
    have o: "owners s' r = owners s r + of_bool (r = p)" for r
      using cnt [of r] unfolding h h' owners_def j by (auto split: if_splits)
    have n: "app_jobs s p = None" using assms(5) job(2) unfolding mem_ok_def by blast
    have lk: "leaking s \<longleftrightarrow> app_failed s" using assms(6,7) by (simp add: leaking_def)
    have "owners s p = 0" using assms(5) n unfolding mem_ok_def by (metis le_zero_eq of_bool_eq(1))
    then show ?thesis using assms(5) job(2) lk unfolding mem_ok_def j o by (auto simp: less_Suc_eq)
  qed
qed

lemma mem_step:
  assumes "app_step i s s'" "coherent_state s" "staged s" "\<forall>r. app_pcs s ! MAIN \<noteq> Main_Return r" "mem_ok s"
  shows "mem_ok s'"
proof -
  note d = coherent_stateD [OF assms(2)] and m = mem_local [OF assms]
  have so: "stage_ok s" using assms(3,4) by (auto simp: staged_def)
  note sm = app_ops thread_defs leaking_def
  note l = d(3,4) [unfolded thread_defs]
  have r: "i = 6 \<or> i = 7" if "app_pcs s ! i = pc" "render_pc pc = Some r" "i < NUM_THREADS" for pc r
    using role_render(1) [OF d(1)] that by (auto simp: thread_defs)
  from assms(1) show ?thesis
  proof cases
    case (queue sys')
    then show ?thesis using mem_queue [OF assms] by blast
  next
    case (snap r c sys')
    then show ?thesis using mem_snap [OF assms snap(2,3) _ snap(4,1)] by simp
  next
    case (work_take info data)
    have ok: "info = CB_INFO_OK \<longleftrightarrow> data \<noteq> None" using d(2) [of i] work_take by (simp add: thread_defs)
    show ?thesis
    proof (cases "data = None \<or> data = Some None")
      case True
      then show ?thesis using work_take l by (intro m) (auto simp: sm)
    next
      case False
      then obtain p where "data = Some (Some p)" by (metis option.exhaust)
      then show ?thesis using mem_take [OF assms work_take(2,3)] work_take(1,4) ok by simp
    qed
  next
    case (in_read line seconds avail)
    then show ?thesis using mem_read [OF assms] by blast
  next
    case (render_lock rr)
    then show ?thesis using r [of "Render_Lock rr"] l by (intro m) (auto simp: sm)
  next
    case (render_count rr c)
    then show ?thesis using r [of "Render_Count rr"] l by (intro m) (auto simp: sm)
  next
    case (render_print rr c q c')
    then show ?thesis using r [of "Render_Print rr c q"] l by (intro m) (cases rr; auto simp: sm)+
  next
    case (main_create_input ok)
    then have "app_pcs s ! INPUT = Unborn" using so by (simp add: stage_ok_def Let_def)
    then show ?thesis using l main_create_input by (intro m) (auto simp: sm)
  qed (rule m; use l in \<open>auto simp: sm\<close>)+
qed

end
