(* ===== verification/Producer_Counts.thy ===== *)
theory Producer_Counts
  imports Producer_Books
begin

text \<open>
  The counters of the program of \<open>src/test_apps/user_producer.c\<close> against the history of its queue: the jobs
  submitted and completed are those stored and taken, the pills come last, and each worker takes one.
\<close>

section \<open>Jobs and pills\<close>

definition jobs_in :: "item list \<Rightarrow> nat" where
  "jobs_in vs = length (filter (\<lambda>v. v \<noteq> None) vs)"

definition pills_in :: "item list \<Rightarrow> nat" where
  "pills_in vs = count_list vs None"

lemma jobs_pills_append [simp]:
  "jobs_in (xs @ ys) = jobs_in xs + jobs_in ys" "pills_in (xs @ ys) = pills_in xs + pills_in ys"
  "jobs_in [] = 0" "pills_in [] = 0" "jobs_in [v] = of_bool (v \<noteq> None)" "pills_in [v] = of_bool (v = None)"
  by (simp_all add: jobs_in_def pills_in_def count_list_append)

text \<open>A worker is busy from the moment that it takes a job until it has counted it, and is dismissed once it has
  taken a pill.\<close>

fun busy :: "app_pc \<Rightarrow> item tsq_pc \<Rightarrow> nat" where
  "busy Work_Pop q = 0" | "busy Unborn q = 0" | "busy In_Read q = 0" | "busy Show_Test q = 0"
| "busy pc q = (case in_hand q of Some (Some p) \<Rightarrow> 1 | _ \<Rightarrow> 0)"

definition dismissed :: "app_pc \<Rightarrow> item tsq_pc \<Rightarrow> nat" where
  "dismissed pc q = of_bool (in_hand q = Some None)"

text \<open>The input thread has a job that is stored and not yet counted; the main thread has stored so many pills.\<close>

fun pending :: "app_pc \<Rightarrow> item tsq_pc \<Rightarrow> nat" where
  "pending In_Pushing q = of_bool (has_pushed q)" | "pending In_Report q = 1" | "pending In_Count q = 1" | "pending _ _ = 0"

fun sent :: "app_pc \<Rightarrow> item tsq_pc \<Rightarrow> nat" where
  "sent (Main_Pill k) q = k" | "sent (Main_Pushing k) q = k + of_bool (has_pushed q)" | "sent (Main_Join k) q = NUM_WORKERS"
| "sent Main_Stop q = NUM_WORKERS" | "sent Main_Join_Display q = NUM_WORKERS" | "sent Main_Cleanup q = NUM_WORKERS"
| "sent (Main_Return r) q = (if r = 0 then NUM_WORKERS else 0)"
| "sent pc q = (if render_pc pc = Some Final then NUM_WORKERS else 0)"

lemma localI:
  "(\<And>pc q q'. same_view q q' \<Longrightarrow> f pc q' = f pc q) \<Longrightarrow> (\<And>pc q. begins pc \<Longrightarrow> f pc q = f Unborn q) \<Longrightarrow> local f"
  unfolding local_def by blast

lemma locals: "local busy" "local dismissed" "local pending" "local sent"
proof -
  show "local busy"
  proof (rule localI)
    show "busy pc q' = busy pc q" if "same_view q q'" for pc q q' using that by (cases pc) (simp_all add: same_view_def)
  qed (auto simp: begins_def)
  show "local dismissed" by (rule localI) (auto simp: same_view_def dismissed_def)
  show "local pending"
  proof (rule localI)
    show "pending pc q' = pending pc q" if "same_view q q'" for pc q q' using that by (cases pc) (simp_all add: same_view_def)
  qed (auto simp: begins_def)
  show "local sent"
  proof (rule localI)
    show "sent pc q' = sent pc q" if "same_view q q'" for pc q q' using that by (cases pc) (simp_all add: same_view_def)
  qed (auto simp: begins_def)
qed

definition stored :: "app_state_t \<Rightarrow> item list" where
  "stored s = sys_stored (app_sys s)"

definition taken :: "app_state_t \<Rightarrow> item list" where
  "taken s = map snd (sys_taken (app_sys s))"

definition counts_ok :: "app_state_t \<Rightarrow> bool" where
  "counts_ok s \<longleftrightarrow>
     app_completed s + of_nat (tally busy s) = of_nat (jobs_in (taken s)) \<and> tally dismissed s = pills_in (taken s)
     \<and> (\<not> app_failed s \<longrightarrow>
          app_submitted s + of_nat (tally pending s) = of_nat (jobs_in (stored s)) \<and> tally sent s = pills_in (stored s))
     \<and> (app_pcs s ! INPUT \<noteq> In_Exit \<longrightarrow> pills_in (stored s) = 0)
     \<and> (\<exists>js. stored s = map Some js @ replicate (pills_in (stored s)) None)
     \<and> (\<forall>k < NUM_WORKERS. app_pcs s ! k = Work_Exit \<and> \<not> app_failed s \<longrightarrow> in_hand (tpc_of s k) = Some None)"

lemma balance: "(c' :: 'b :: ab_group_add) + f' = c + f \<Longrightarrow> t' + f = t + f' \<Longrightarrow> c' + t' = c + t"
proof -
  assume "c' + f' = c + f" "t' + f = t + f'"
  then have "(c' + f') + (t' + f) = (c + f) + (t + f')" by simp
  then have "(c' + t') + (f + f') = (c + t) + (f + f')" by (simp add: ac_simps)
  then show "c' + t' = c + t" by simp
qed

lemma tally_word:
  assumes "app_step i s s'" "coherent_state s" "staged s" "\<forall>r. app_pcs s ! MAIN \<noteq> Main_Return r" "local f"
  shows "of_nat (tally f s') + (of_nat (f (app_pcs s ! i) (tpc_of s i)) :: i32)
    = of_nat (tally f s) + of_nat (f (app_pcs s' ! i) (tpc_of s' i))"
  using arg_cong [OF tally_step [OF assms], of of_nat] by (simp only: of_nat_add)

text \<open>A thread that is at its exit stays there, and the others do not put it there.\<close>

lemma step_exit:
  assumes "app_step i s s'" "coherent_state s" "staged s" "\<forall>r. app_pcs s ! MAIN \<noteq> Main_Return r" "k < MAIN"
  shows "exit_pc (app_pcs s ! k) \<Longrightarrow> app_pcs s' ! k = app_pcs s ! k"
    "k \<noteq> i \<Longrightarrow> exit_pc (app_pcs s' ! k) \<Longrightarrow> app_pcs s' ! k = app_pcs s ! k \<and> in_hand (tpc_of s' k) = in_hand (tpc_of s k)"
proof -
  have k: "k < NUM_THREADS" using assms(5) by (simp add: thread_defs)
  note o = step_others [OF assms(1-4) k]
  have len: "length (app_pcs s) = NUM_THREADS" using assms(3) by (simp add: staged_def)
  show "app_pcs s' ! k = app_pcs s ! k" if e: "exit_pc (app_pcs s ! k)"
  proof (cases "k = i")
    case True
    then have "i \<noteq> MAIN" using assms(5) by simp
    then show ?thesis using step_frame(5) [OF assms(1) _ len] k e True len by (auto simp: moves_on_def)
  next
    case False
    then show ?thesis using o e by auto
  qed
  show "k \<noteq> i \<Longrightarrow> exit_pc (app_pcs s' ! k) \<Longrightarrow> app_pcs s' ! k = app_pcs s ! k \<and> in_hand (tpc_of s' k) = in_hand (tpc_of s k)"
    using o by (auto simp: begins_def same_view_def)
qed

lemma counts_local:
  assumes "app_step i s s'" "coherent_state s" "staged s" "\<forall>r. app_pcs s ! MAIN \<noteq> Main_Return r" "counts_ok s"
    "sys_stored (app_sys s') = sys_stored (app_sys s)" "sys_taken (app_sys s') = sys_taken (app_sys s)"
    "app_completed s' + of_nat (busy (app_pcs s' ! i) (tpc_of s' i)) = app_completed s + of_nat (busy (app_pcs s ! i) (tpc_of s i))"
    "dismissed (app_pcs s' ! i) (tpc_of s' i) = dismissed (app_pcs s ! i) (tpc_of s i)"
    "\<not> app_failed s' \<longrightarrow> app_submitted s' + of_nat (pending (app_pcs s' ! i) (tpc_of s' i)) = app_submitted s + of_nat (pending (app_pcs s ! i) (tpc_of s i))
       \<and> sent (app_pcs s' ! i) (tpc_of s' i) = sent (app_pcs s ! i) (tpc_of s i)"
    "\<not> app_failed s' \<and> i < NUM_WORKERS \<and> app_pcs s' ! i = Work_Exit \<longrightarrow> in_hand (tpc_of s' i) = Some None"
  shows "counts_ok s'"
proof -
  note w = tally_word [OF assms(1-4)] and t = tally_step [OF assms(1-4)]
  have st: "stored s' = stored s" "taken s' = taken s" using assms(6,7) by (simp_all add: stored_def taken_def)
  have f: "\<not> app_failed s' \<Longrightarrow> \<not> app_failed s" using step_frame(1) [OF assms(1)] by blast
  have "app_completed s' + of_nat (tally busy s') = app_completed s + of_nat (tally busy s)"
    by (rule balance [OF assms(8) w [OF locals(1)]])
  moreover have "tally dismissed s' = tally dismissed s" using t [OF locals(2)] assms(9) by simp
  moreover have "app_submitted s' + of_nat (tally pending s') = app_submitted s + of_nat (tally pending s) \<and> tally sent s' = tally sent s"
    if "\<not> app_failed s'"
    using balance [OF _ w [OF locals(3)]] t [OF locals(4)] assms(10) that by simp
  moreover have "app_pcs s ! INPUT \<noteq> In_Exit" if "app_pcs s' ! INPUT \<noteq> In_Exit"
    using step_exit(1) [OF assms(1-4), of INPUT] that by (auto simp: thread_defs)
  moreover have "in_hand (tpc_of s' k) = Some None" if "k < NUM_WORKERS" "app_pcs s' ! k = Work_Exit" "\<not> app_failed s'" for k
  proof (cases "k = i")
    case True
    then show ?thesis using assms(11) that by simp
  next
    case False
    then show ?thesis using step_exit(2) [OF assms(1-4), of k] assms(5) that f by (simp add: counts_ok_def thread_defs)
  qed
  ultimately show ?thesis using assms(5) f unfolding counts_ok_def st by simp
qed

text \<open>A step inside the queue: storing and taking.\<close>

lemma counts_exits:
  assumes "counts_ok s" "k < NUM_WORKERS" "app_pcs s ! k = Work_Exit" "\<not> app_failed s"
  shows "in_hand (tpc_of s k) = Some None"
  using assms unfolding counts_ok_def by blast

lemma jobs_then_pills:
  assumes "vs = map Some js @ replicate n None" "pills_in vs = n" "v = None \<or> n = 0"
  shows "\<exists>js. vs @ [v] = map Some js @ replicate (pills_in (vs @ [v])) None"
proof (cases v)
  case None
  then have "vs @ [v] = map Some js @ replicate (Suc n) None" by (simp add: assms(1) replicate_append_same)
  moreover have "pills_in (vs @ [v]) = Suc n" using assms(2) None by simp
  ultimately show ?thesis by metis
next
  case (Some p)
  then have "vs @ [v] = map Some (js @ [p]) @ replicate 0 None" using assms by simp
  moreover have "pills_in (vs @ [v]) = 0" using assms(2,3) Some by simp
  ultimately show ?thesis by metis
qed

lemma counts_store:
  assumes "app_step i s s'" "coherent_state s" "staged s" "\<forall>r. app_pcs s ! MAIN \<noteq> Main_Return r" "counts_ok s"
    "i < NUM_THREADS" "s' = s\<lparr>app_sys := sys'\<rparr>" "tpc_of s i = Push_Test v" "sys_pcs sys' = (sys_pcs (app_sys s))[i := Push_Signal]"
    "sys_stored sys' = sys_stored (app_sys s) @ [v]" "sys_taken sys' = sys_taken (app_sys s)"
  shows "counts_ok s'"
proof -
  note d = coherent_stateD [OF assms(2,6)] and t = tally_step [OF assms(1-4)]
  have so: "stage_ok s" using assms(3,4) by (auto simp: staged_def)
  have pc: "app_pcs s ! i = In_Pushing \<and> v \<noteq> None \<or> (\<exists>k. app_pcs s ! i = Main_Pushing k \<and> v = None)"
    using d(2) by (simp add: assms(8) in_call_test)
  have e: "app_pcs s' = app_pcs s" "tpc_of s' i = Push_Signal" "stored s' = stored s @ [v]" "taken s' = taken s"
    "app_failed s' = app_failed s" "app_completed s' = app_completed s" "app_submitted s' = app_submitted s"
    using assms(7,9-11) d(4) by (simp_all add: stored_def taken_def tpc_of_def)
  have sums: "tally busy s' = tally busy s" "tally dismissed s' = tally dismissed s"
    "tally pending s' = tally pending s + of_bool (v \<noteq> None)" "tally sent s' = tally sent s + of_bool (v = None)"
    using t [OF locals(1)] t [OF locals(2)] t [OF locals(3)] t [OF locals(4)] pc by (auto simp: e assms(8) dismissed_def)
  have early: "app_pcs s ! INPUT \<noteq> In_Exit \<longleftrightarrow> v \<noteq> None"
    using pc
  proof (elim disjE exE conjE)
    assume "app_pcs s ! i = In_Pushing" "v \<noteq> None"
    then show ?thesis using role_input [of i] d(1) assms(6) by auto
  next
    fix k assume p: "app_pcs s ! i = Main_Pushing k" "v = None"
    then have "app_pcs s ! MAIN = Main_Pushing k" using role_pushing [of i] d(1) assms(6) by auto
    then show ?thesis using so p(2) by (simp add: stage_ok_def Let_def)
  qed
  have "\<exists>js. stored s @ [v] = map Some js @ replicate (pills_in (stored s @ [v])) None"
  proof -
    obtain js where "stored s = map Some js @ replicate (pills_in (stored s)) None" using assms(5) unfolding counts_ok_def by blast
    moreover have "v = None \<or> pills_in (stored s) = 0" using assms(5) early by (cases v) (simp_all add: counts_ok_def)
    ultimately show ?thesis by (rule jobs_then_pills [OF _ refl])
  qed
  moreover have "in_hand (tpc_of s' k) = Some None" if "k < NUM_WORKERS" "app_pcs s ! k = Work_Exit" "\<not> app_failed s" for k
    using counts_exits [OF assms(5) that] pc that assms(7,9) by (cases "k = i") (auto simp: tpc_of_def)
  ultimately show ?thesis using assms(5) early unfolding counts_ok_def sums e jobs_pills_append
    by (simp add: algebra_simps)
qed

lemma counts_take:
  assumes "app_step i s s'" "coherent_state s" "staged s" "\<forall>r. app_pcs s ! MAIN \<noteq> Main_Return r" "counts_ok s"
    "i < NUM_THREADS" "s' = s\<lparr>app_sys := sys'\<rparr>" "tpc_of s i = Pop_Test \<or> tpc_of s i = Try_Test" "sys_pcs sys' = (sys_pcs (app_sys s))[i := Pop_Signal v]"
    "sys_stored sys' = sys_stored (app_sys s)" "sys_taken sys' = sys_taken (app_sys s) @ [(i, v)]"
  shows "counts_ok s'"
proof -
  note d = coherent_stateD [OF assms(2,6)] and t = tally_step [OF assms(1-4)]
  have pc: "app_pcs s ! i = Work_Popping" "tpc_of s i = Pop_Test" using d(2) assms(8) by (auto simp: in_call_test)
  have e: "app_pcs s' = app_pcs s" "tpc_of s' i = Pop_Signal v" "stored s' = stored s" "taken s' = taken s @ [v]"
    "app_failed s' = app_failed s" "app_completed s' = app_completed s" "app_submitted s' = app_submitted s"
    using assms(7,9-11) d(4) by (simp_all add: stored_def taken_def tpc_of_def)
  have sums: "tally busy s' = tally busy s + of_bool (v \<noteq> None)" "tally dismissed s' = tally dismissed s + of_bool (v = None)"
    "tally pending s' = tally pending s" "tally sent s' = tally sent s"
    using t [OF locals(1)] t [OF locals(2)] t [OF locals(3)] t [OF locals(4)] by (cases v; simp add: e pc dismissed_def)+
  have "in_hand (tpc_of s' k) = Some None" if "k < NUM_WORKERS" "app_pcs s ! k = Work_Exit" "\<not> app_failed s" for k
    using counts_exits [OF assms(5) that] pc that assms(7,9) by (cases "k = i") (auto simp: tpc_of_def)
  then show ?thesis using assms(5) unfolding counts_ok_def sums e jobs_pills_append by (simp add: algebra_simps)
qed

lemma counts_queue:
  assumes "app_step i s s'" "coherent_state s" "staged s" "\<forall>r. app_pcs s ! MAIN \<noteq> Main_Return r" "counts_ok s"
    "i < NUM_THREADS" "s' = s\<lparr>app_sys := sys'\<rparr>" "tsq_step i (tpc_of s i) (app_sys s) sys'"
  shows "counts_ok s'"
proof -
  note d = coherent_stateD [OF assms(2,6)]
  have p: "tsq_step i (sys_pcs (app_sys s) ! i) (app_sys s) sys'" using assms(8) by (simp add: tpc_of_def)
  show ?thesis using p d(4,5)
  proof (cases rule: step_effect)
    case quiet
    have e: "tpc_of s' i = sys_pcs sys' ! i" "tpc_of s i = sys_pcs (app_sys s) ! i" using assms(7) by (simp_all add: tpc_of_def)
    have es: "app_pcs s' = app_pcs s" "app_sys s' = sys'" "app_completed s' = app_completed s" "app_submitted s' = app_submitted s"
      using assms(7) by simp_all
    have "busy (app_pcs s ! i) (tpc_of s' i) = busy (app_pcs s ! i) (tpc_of s i)"
      "pending (app_pcs s ! i) (tpc_of s' i) = pending (app_pcs s ! i) (tpc_of s i)"
      "sent (app_pcs s ! i) (tpc_of s' i) = sent (app_pcs s ! i) (tpc_of s i)"
      using quiet(1) by (cases "app_pcs s ! i"; simp add: quiet_def e)+
    moreover have "app_pcs s ! i \<noteq> Work_Exit" using quiet(1) d(2) by (auto simp: quiet_def same_call_def e)
    ultimately show ?thesis using quiet es
      by (intro counts_local [OF assms(1-5)]) (simp_all add: quiet_def dismissed_def e)
  next
    case (store v)
    then show ?thesis by (intro counts_store [OF assms(1-7)]) (simp_all add: tpc_of_def)
  next
    case (take v)
    then show ?thesis by (intro counts_take [OF assms(1-7)]) (simp_all add: tpc_of_def)
  qed
qed

lemma counts_step:
  assumes "app_step i s s'" "coherent_state s" "staged s" "\<forall>r. app_pcs s ! MAIN \<noteq> Main_Return r" "counts_ok s" "\<not> app_fault s'"
  shows "counts_ok s'"
proof -
  note d = coherent_stateD [OF assms(2)]
  have so: "stage_ok s" using assms(3,4) by (auto simp: staged_def)
  note sm = app_ops thread_defs dismissed_def
  note l = d(3,4) [unfolded thread_defs]
  note m = counts_local [OF assms(1-5)]
  have r: "i = 6 \<or> i = 7" if "app_pcs s ! i = pc" "render_pc pc = Some r" "i < NUM_THREADS" for pc r
    using role_render(1) [OF d(1)] that by (auto simp: thread_defs)
  from assms(1) show ?thesis
  proof cases
    case (queue sys')
    then show ?thesis using counts_queue [OF assms(1-5)] by blast
  next
    case (snap rr c sys')
    have p: "tsq_step i (sys_pcs (app_sys s) ! i) (app_sys s) sys'" and q: "sys_pcs (app_sys s) ! i = Count_Read"
      using snap by (simp_all add: tpc_of_def)
    have q': "sys_stored sys' = sys_stored (app_sys s)" "sys_taken sys' = sys_taken (app_sys s)"
      "in_hand (sys_pcs sys' ! i) = None" "has_pushed (sys_pcs sys' ! i) = False"
      using p l(2) [of i] snap(2) unfolding q by (cases; simp add: NUM_THREADS_def)+
    then show ?thesis using snap l by (intro m) (auto simp: sm)
  next
    case (work_take info data)
    have ok: "info = CB_INFO_OK \<longleftrightarrow> data \<noteq> None" using d(2) [of i] work_take by (simp add: thread_defs)
    show ?thesis
    proof (cases "\<exists>p. data = Some (Some p)")
      case True
      then obtain p where "data = Some (Some p)" ..
      then show ?thesis using assms(6) work_take l ok by (intro m) (auto simp: sm split: option.splits if_splits)
    next
      case False
      then have "data = None \<or> data = Some None" by (metis option.exhaust)
      then show ?thesis using work_take l ok by (intro m) (auto simp: sm)
    qed
  next
    case (in_read line seconds avail)
    have i: "i < length (app_pcs s)" "i = INPUT" "i < length (sys_pcs (app_sys s))" "in_hand (tpc_of s i) = None" "at_end (tpc_of s i)"
      using l in_read d(2) [of i] by (auto simp: thread_defs)
    show ?thesis
    proof (cases rule: input_read_cases [of line seconds avail s])
      case again
      then show ?thesis using in_read(1) assms(5) by simp
    next
      case stop
      then show ?thesis using in_read i by (intro m) (auto simp: sm)
    next
      case job
      then show ?thesis using in_read i by (intro m) (auto simp: sm)
    qed
  next
    case work_sleep
    then show ?thesis using l d(2) [of i] by (intro m) (auto simp: sm)
  next
    case (main_pill k)
    then show ?thesis using l d(1,2) [of i] by (intro m) (auto simp: sm role_def)
  next
    case (main_join_unborn)
    then have "app_failed s" using so by (auto simp: stage_ok_def Let_def)
    then show ?thesis using main_join_unborn l by (intro m) (auto simp: sm)
  next
    case (render_print rr c q c')
    then show ?thesis using l by (intro m) (cases rr; auto simp: sm)+
  qed (rule m; use l d(2) [of i] in \<open>auto simp: sm\<close>)+
qed

end
