(* ===== verification/Producer_Invariant.thy ===== *)
theory Producer_Invariant
  imports Producer_Counts
begin

text \<open>
  The whole invariant of the program of \<open>src/test_apps/user_producer.c\<close>: the display mutex, and the proof that
  every run keeps all of it.
\<close>

section \<open>The display mutex\<close>

fun holds_display :: "app_pc \<Rightarrow> bool" where
  "holds_display Work_Count = True" | "holds_display In_Count = True" | "holds_display (Render_Count _) = True"
| "holds_display (Render_Snap _ _) = True" | "holds_display (Render_Print _ _ _) = True" | "holds_display _ = False"

definition display_ok :: "app_state_t \<Rightarrow> bool" where
  "display_ok s \<longleftrightarrow> (\<forall>i < NUM_THREADS. holds_display (app_pcs s ! i) \<longleftrightarrow> app_display_mutex s = Some i)
     \<and> (\<forall>i. app_display_mutex s = Some i \<longrightarrow> i < NUM_THREADS) \<and> (app_undefined s \<longrightarrow> app_failed s)"

lemma display_next: "\<not> holds_display (render_next r)"
  by (cases r) simp_all

lemma display_step:
  assumes "app_step i s s'" "coherent_state s" "staged s" "\<forall>r. app_pcs s ! MAIN \<noteq> Main_Return r" "display_ok s"
  shows "display_ok s'"
proof -
  note d = coherent_stateD [OF assms(2)]
  have so: "stage_ok s" using assms(3,4) by (auto simp: staged_def)
  note l = d(3,4) [unfolded thread_defs]
  have i: "i < NUM_THREADS" by (rule step_frame(4) [OF assms(1)])
  have o: "holds_display (app_pcs s' ! j) = holds_display (app_pcs s ! j)" if "j < NUM_THREADS" "j \<noteq> i" for j
    using step_others [OF assms(1-4) that] by (auto simp: begins_def)
  have m: "display_ok s'" if
    "app_display_mutex s' = app_display_mutex s \<and> holds_display (app_pcs s' ! i) = holds_display (app_pcs s ! i)
     \<or> app_display_mutex s = None \<and> app_display_mutex s' = Some i \<and> holds_display (app_pcs s' ! i)
     \<or> holds_display (app_pcs s ! i) \<and> app_display_mutex s' = None \<and> \<not> holds_display (app_pcs s' ! i)"
    "app_undefined s' \<longrightarrow> app_undefined s \<or> app_failed s"
  proof -
    have "holds_display (app_pcs s' ! j) \<longleftrightarrow> app_display_mutex s' = Some j" if "j < NUM_THREADS" for j
      using assms(5) that o [OF that] i \<open>_ \<or> _ \<or> _\<close> by (cases "j = i") (auto simp: display_ok_def)
    then show ?thesis using assms(5) i that step_frame(1) [OF assms(1)] by (auto simp: display_ok_def)
  qed
  note sm = app_ops thread_defs
  from assms(1) show ?thesis
  proof cases
    case (in_read line seconds avail)
    have i: "i < length (app_pcs s)" "i = INPUT" using l in_read by (auto simp: thread_defs)
    show ?thesis by (cases rule: input_read_cases [of line seconds avail s]; rule m) (use in_read i in \<open>auto simp: app_ops\<close>)
  next
    case main_join_unborn
    then have "app_failed s" using so by (auto simp: stage_ok_def Let_def)
    then show ?thesis using main_join_unborn l by (intro m) (auto simp: sm)
  qed (rule m; use l in \<open>auto simp: sm display_next split: option.split\<close>)+
qed

section \<open>The invariant\<close>

definition app_inv :: "app_state_t \<Rightarrow> bool" where
  "app_inv s \<longleftrightarrow> coherent_state s \<and> staged s \<and> mem_ok s \<and> counts_ok s \<and> display_ok s"

lemma app_inv_start:
  assumes "length items = QUEUE_CAPACITY"
  shows "app_inv (app_start items)"
proof -
  let ?s = "app_start items"
  have q: "tpc_of ?s i = Count_Done 0" if "i < NUM_THREADS" for i
    using that by (simp add: app_start_def tpc_of_def idle_threads_def)
  have p: "app_pcs ?s ! i = (if i < MAIN then Unborn else Main_Create 0)" if "i < NUM_THREADS" for i
    using that by (auto simp: app_start_def nth_append thread_defs)
  have t: "tally f ?s = 0" if "\<And>c. f Unborn (Count_Done c) = 0" "\<And>c. f (Main_Create 0) (Count_Done c) = 0"
    for f :: "app_pc \<Rightarrow> item tsq_pc \<Rightarrow> 'b :: comm_monoid_add"
    unfolding tally_def by (rule sum.neutral) (simp add: p q that)
  have f: "stored ?s = []" "taken ?s = []" "queue_list (sys_q (app_sys ?s)) = []" "app_failed ?s = False" "app_fault ?s = False"
    "app_jobs ?s = Map.empty" "app_completed ?s = 0" "app_submitted ?s = 0" "app_display_mutex ?s = None" "app_undefined ?s = False"
    "length (app_pcs ?s) = NUM_THREADS"
    by (simp_all add: app_start_def stored_def taken_def idle_threads_def queue_list_def empty_queue_def thread_defs)
  have n: "MAIN < NUM_THREADS" "INPUT < NUM_THREADS" "DISPLAY < NUM_THREADS" "INPUT < MAIN" "DISPLAY < MAIN"
    "k < NUM_WORKERS \<Longrightarrow> k < NUM_THREADS \<and> k < MAIN" for k by (simp_all add: thread_defs)
  have "tsq_reachable NUM_THREADS 64 (app_sys ?s)"
    using assms by (auto simp: app_start_def QUEUE_CAPACITY_def intro: tsq_reachable.start)
  then have "coherent_state ?s"
    using p q by (auto simp: coherent_state_def coherent_def role_def f thread_defs display_pc_def tpc_of_def app_start_def idle_threads_def
        nth_append)
  moreover have "staged ?s" unfolding staged_def stage_ok_def Let_def using p n by (auto simp: f)
  moreover have "mem_ok ?s" by (simp add: mem_ok_def owners_def t f)
  moreover have "counts_ok ?s" unfolding counts_ok_def using p q n by (simp add: t f dismissed_def)
  moreover have "display_ok ?s" unfolding display_ok_def using p by (simp add: f)
  ultimately show ?thesis by (simp add: app_inv_def)
qed

lemma app_run_inv: "app_run s \<Longrightarrow> app_inv s"
proof (induction rule: app_run.induct)
  case (step s i s')
  then have a: "app_step i s s'" "coherent_state s" "staged s" "\<forall>r. app_pcs s ! MAIN \<noteq> Main_Return r" by (simp_all add: app_inv_def)
  have m: "mem_ok s'" using mem_step [OF a] step.IH by (simp add: app_inv_def)
  then have "\<not> app_fault s'" by (simp add: mem_ok_def)
  then show ?case
    using coherent_step [OF a] staged_step [OF a(1,3,4)] counts_step [OF a] display_step [OF a] m step.IH by (simp add: app_inv_def)
qed (rule app_inv_start)

end
