(* ===== verification/Producer_Runs.thy ===== *)
theory Producer_Runs
  imports Producer_Invariant
begin

text \<open>
  Runs of the program of \<open>src/test_apps/user_producer.c\<close> that can be computed: a schedule says which thread goes next
  and which line the input thread reads; nothing fails, and no thread is woken by a signal.
\<close>

section \<open>Schedules\<close>

definition tsq_next :: "nat \<Rightarrow> 'a tsq_pc \<Rightarrow> 'a tsq_sys \<Rightarrow> 'a tsq_sys option" where
  "tsq_next i pc s =
     (case after_lock pc of
        Some pc' \<Rightarrow> if sys_owner s = None then Some (goto i pc' (s\<lparr>sys_owner := Some i\<rparr>)) else None
      | None \<Rightarrow> (case after_unlock pc of
          Some pc' \<Rightarrow> Some (goto i pc' (s\<lparr>sys_owner := None\<rparr>))
        | None \<Rightarrow> (case pc of
            Push_Test v \<Rightarrow> if q_count (sys_q s) \<noteq> q_capacity (sys_q s)
              then Some (goto i Push_Signal (s\<lparr>sys_q := store_item v (sys_q s), sys_stored := sys_stored s @ [v]\<rparr>)) else None
          | Push_Signal \<Rightarrow> if list_all (\<lambda>pc. \<not> waits_not_empty pc) (sys_pcs s) then Some (goto i (Push_Unlock CB_INFO_OK) s) else None
          | Pop_Test \<Rightarrow> if q_count (sys_q s) \<noteq> 0
              then (case take_item (sys_q s) of (v, q) \<Rightarrow> Some (goto i (Pop_Signal v) (s\<lparr>sys_q := q, sys_taken := sys_taken s @ [(i, v)]\<rparr>)))
              else Some (goto i Pop_Wait (s\<lparr>sys_owner := None\<rparr>))
          | Pop_Signal v \<Rightarrow> if list_all (\<lambda>pc. \<not> waits_not_full pc) (sys_pcs s) then Some (goto i (Pop_Unlock CB_INFO_OK (Some v)) s) else None
          | Count_Read \<Rightarrow> Some (goto i (Count_Unlock (q_count (sys_q s))) s)
          | _ \<Rightarrow> None)))"

definition app_play :: "nat \<Rightarrow> string option \<Rightarrow> app_state_t \<Rightarrow> app_state_t option" where
  "app_play i line s =
     (case (app_pcs s ! i, tpc_of s i) of
        (Work_Pop, _) \<Rightarrow> Some (call i Pop_Lock Work_Popping s)
      | (Work_Popping, Pop_Done info data) \<Rightarrow> Some (worker_take i info data s)
      | (Work_Sleep, _) \<Rightarrow> Some (worker_sleep i s)
      | (Work_Report, _) \<Rightarrow> if app_display_mutex s = None then Some (set_pc i Work_Count (s\<lparr>app_display_mutex := Some i\<rparr>)) else None
      | (Work_Count, _) \<Rightarrow> Some (worker_count i s)
      | (In_Read, _) \<Rightarrow> Some (input_read line (case line of None \<Rightarrow> 0 | Some buf \<Rightarrow> atoi (strip_newline buf)) True s)
      | (In_Pushing, Push_Done info) \<Rightarrow> Some (input_pushed info s)
      | (In_Report, _) \<Rightarrow> if app_display_mutex s = None then Some (set_pc i In_Count (s\<lparr>app_display_mutex := Some i\<rparr>)) else None
      | (In_Count, _) \<Rightarrow> Some (input_count s)
      | (Show_Test, _) \<Rightarrow> Some (set_pc i (if app_running s then Render_Lock Refresh else Show_Exit) s)
      | (Render_Lock r, _) \<Rightarrow>
          if app_display_mutex s = None then Some (call i Count_Lock (Render_Count r) (s\<lparr>app_display_mutex := Some i\<rparr>)) else None
      | (Render_Count r, Count_Done c) \<Rightarrow> Some (call i Count_Lock (Render_Snap r c) s)
      | (Render_Snap r c, Count_Read) \<Rightarrow>
          map_option (\<lambda>sys'. set_pc i (Render_Print r c (sys_q (app_sys s))) (s\<lparr>app_sys := sys'\<rparr>)) (tsq_next i Count_Read (app_sys s))
      | (Render_Print r c q, Count_Done _) \<Rightarrow> Some (render_print i r c q s)
      | (Main_Create k, _) \<Rightarrow> Some (main_create True k s)
      | (Main_Create_Display, _) \<Rightarrow> Some (main_create_display True s)
      | (Main_Create_Input, _) \<Rightarrow> Some (main_create_input True s)
      | (Main_Join_Input, _) \<Rightarrow> if app_pcs s ! INPUT = In_Exit then Some (set_pc i (Main_Pill 0) s) else None
      | (Main_Pill k, _) \<Rightarrow> Some (main_pill k s)
      | (Main_Pushing k, Push_Done info) \<Rightarrow> Some (main_pushed k info s)
      | (Main_Join k, _) \<Rightarrow>
          if k < NUM_WORKERS then if app_pcs s ! k = Work_Exit then Some (set_pc i (Main_Join (k + 1)) s) else None
          else Some (set_pc i Main_Stop s)
      | (Main_Stop, _) \<Rightarrow> Some (main_stop s)
      | (Main_Join_Display, _) \<Rightarrow> if app_pcs s ! DISPLAY = Show_Exit then Some (set_pc i (Render_Lock Final) s) else None
      | (Main_Cleanup, _) \<Rightarrow> Some (main_cleanup s)
      | (_, q) \<Rightarrow> map_option (\<lambda>sys'. s\<lparr>app_sys := sys'\<rparr>) (tsq_next i q (app_sys s)))"

text \<open>A schedule goes on until \<open>main\<close> has returned.\<close>

definition returned :: "app_state_t \<Rightarrow> bool" where
  "returned s \<longleftrightarrow> (case app_pcs s ! MAIN of Main_Return r \<Rightarrow> True | _ \<Rightarrow> False)"

definition readable :: "string option \<Rightarrow> bool" where
  "readable line \<longleftrightarrow> (case line of None \<Rightarrow> True | Some buf \<Rightarrow> length buf \<le> 63 \<and> fits 32 (atoi (strip_newline buf)))"

fun app_plays :: "(nat \<times> string option) list \<Rightarrow> app_state_t \<Rightarrow> app_state_t option" where
  "app_plays [] s = Some s"
| "app_plays ((i, line) # xs) s =
     (if i < NUM_THREADS \<and> readable line \<and> \<not> returned s then Option.bind (app_play i line s) (app_plays xs) else None)"

definition turns :: "nat \<Rightarrow> nat \<Rightarrow> (nat \<times> string option) list" where
  "turns n i = replicate n (i, None)"

section \<open>They are runs\<close>

lemma tsq_next_step:
  assumes "tsq_next i pc s = Some s'"
  shows "tsq_step i pc s s' \<and> \<not> at_end pc"
proof (cases "after_lock pc")
  case (Some pc')
  then have "\<not> at_end pc" by (cases pc) auto
  then show ?thesis using assms Some by (auto simp: tsq_next_def intro: tsq_step.lock split: if_splits)
next
  case al: None
  show ?thesis
  proof (cases "after_unlock pc")
    case (Some pc')
    then have "\<not> at_end pc" by (cases pc) auto
    then show ?thesis using assms al Some by (auto simp: tsq_next_def intro: tsq_step.unlock)
  next
    case None
    then show ?thesis using assms al
      by (cases pc) (auto simp: tsq_next_def list_all_iff intro: tsq_step.intros signalled.nobody split: if_splits prod.splits)
  qed
qed

lemma queue_next:
  assumes "map_option (\<lambda>sys'. s\<lparr>app_sys := sys'\<rparr>) (tsq_next i (tpc_of s i) (app_sys s)) = Some s'" "i < NUM_THREADS"
    "\<not> (tpc_of s i = Count_Read \<and> (\<exists>r c. app_pcs s ! i = Render_Snap r c))"
  shows "app_step i s s'"
proof -
  obtain z where z: "tsq_next i (tpc_of s i) (app_sys s) = Some z" "s' = s\<lparr>app_sys := z\<rparr>" using assms(1) by auto
  show ?thesis unfolding z(2) using tsq_next_step [OF z(1)] assms(2,3) by (blast intro: app_step.queue)
qed

lemma role_threads:
  assumes "role i pc" "i < NUM_THREADS"
  shows "worker_pc pc \<Longrightarrow> pc \<noteq> Unborn \<Longrightarrow> i < NUM_WORKERS" "input_pc pc \<Longrightarrow> pc \<noteq> Unborn \<Longrightarrow> i = INPUT"
    "pc = Show_Test \<Longrightarrow> i = DISPLAY" "\<not> worker_pc pc \<Longrightarrow> \<not> input_pc pc \<Longrightarrow> \<not> display_pc pc \<Longrightarrow> i = MAIN"
  using assms by (cases pc; auto simp: role_def display_pc_def thread_defs split: if_splits)+

lemma app_play_step:
  assumes "app_play i line s = Some s'" "i < NUM_THREADS" "coherent_state s" "readable line"
  shows "app_step i s s'"
proof -
  note d = coherent_stateD [OF assms(3,2)]
  note r = role_threads [OF d(1) assms(2)]
  note q = queue_next [OF _ assms(2), of s s']
  note pm = app_play_def display_pc_def
  show ?thesis
  proof (cases "app_pcs s ! i")
    case In_Read
    then have i: "i = INPUT" using r(2) by simp
    have "\<forall>buf. line = Some buf \<longrightarrow>
        length buf \<le> 63 \<and> atoi_gives (strip_newline buf) (case line of None \<Rightarrow> 0 | Some buf \<Rightarrow> atoi (strip_newline buf))"
      using assms(4) by (auto simp: readable_def atoi_gives_def)
    from app_step.in_read [OF i In_Read this, of True] show ?thesis using assms(1) In_Read by (simp add: app_play_def)
  next
    case (Render_Snap rr c)
    then have "tpc_of s i = Count_Lock \<or> tpc_of s i = Count_Read" using d(2) by simp
    then show ?thesis
    proof
      assume "tpc_of s i = Count_Lock"
      then show ?thesis using q assms(1) Render_Snap by (simp add: app_play_def)
    next
      assume t: "tpc_of s i = Count_Read"
      then obtain z where z: "tsq_next i Count_Read (app_sys s) = Some z"
        "s' = set_pc i (Render_Print rr c (sys_q (app_sys s))) (s\<lparr>app_sys := z\<rparr>)"
        using assms(1) Render_Snap by (auto simp: app_play_def)
      have "tsq_step i Count_Read (app_sys s) z" using tsq_next_step [OF z(1)] by simp
      then show ?thesis unfolding z(2) using app_step.snap [OF assms(2) Render_Snap t] by simp
    qed
  next
    case Unborn
    then show ?thesis using q assms(1) by (simp add: pm)
  next
    case Work_Pop
    then show ?thesis using r assms(1,2) app_step.work_pop [of i s] by (auto simp: pm)
  next
    case Work_Popping
    then show ?thesis using q r assms(1,2) app_step.work_take [of i s] by (cases "tpc_of s i") (auto simp: pm)
  next
    case Work_Sleep
    then show ?thesis using r assms(1,2) app_step.work_sleep [of i s] by (auto simp: pm)
  next
    case Work_Report
    then show ?thesis using r assms(1,2) app_step.work_lock [of i s] by (auto simp: pm split: if_splits)
  next
    case Work_Count
    then show ?thesis using r assms(1,2) app_step.work_count [of i s] by (auto simp: pm)
  next
    case Work_Exit
    then show ?thesis using q assms(1) by (simp add: pm)
  next
    case In_Pushing
    then show ?thesis using q r assms(1,2) app_step.in_pushed [of i s] by (cases "tpc_of s i") (auto simp: pm)
  next
    case In_Report
    then show ?thesis using r assms(1,2) app_step.in_lock [of i s] by (auto simp: pm split: if_splits)
  next
    case In_Count
    then show ?thesis using r assms(1,2) app_step.in_count [of i s] by (auto simp: pm)
  next
    case In_Exit
    then show ?thesis using q assms(1) by (simp add: pm)
  next
    case Show_Test
    then show ?thesis using r assms(1,2) app_step.show_test [of i s] by (auto simp: pm)
  next
    case Show_Exit
    then show ?thesis using q assms(1) by (simp add: pm)
  next
    case (Render_Lock rr)
    then show ?thesis using r assms(1,2) app_step.render_lock [of i s] by (auto simp: pm split: if_splits)
  next
    case (Render_Count rr)
    then show ?thesis using q r assms(1,2) app_step.render_count [of i s] by (cases "tpc_of s i") (auto simp: pm)
  next
    case (Render_Print rr c t)
    then show ?thesis using q r assms(1,2) app_step.render_print [of i s] by (cases "tpc_of s i") (auto simp: pm)
  next
    case (Main_Create k)
    then show ?thesis using r assms(1,2) app_step.main_create [of i s] by (auto simp: pm)
  next
    case Main_Create_Display
    then show ?thesis using r assms(1,2) app_step.main_create_display [of i s] by (auto simp: pm)
  next
    case Main_Create_Input
    then show ?thesis using r assms(1,2) app_step.main_create_input [of i s] by (auto simp: pm)
  next
    case Main_Join_Input
    then show ?thesis using r assms(1,2) app_step.main_join_input [of i s] by (auto simp: pm split: if_splits)
  next
    case (Main_Pill k)
    then show ?thesis using r assms(1,2) app_step.main_pill [of i s] by (auto simp: pm)
  next
    case (Main_Pushing k)
    then show ?thesis using q r assms(1,2) app_step.main_pushed [of i s] by (cases "tpc_of s i") (auto simp: pm)
  next
    case (Main_Join k)
    then show ?thesis using r(4) assms(1) app_step.main_join [of i s k] app_step.main_joined [of i s k]
      by (auto simp: pm split: if_splits)
  next
    case Main_Stop
    then show ?thesis using r assms(1,2) app_step.main_stop [of i s] by (auto simp: pm)
  next
    case Main_Join_Display
    then show ?thesis using r assms(1,2) app_step.main_join_display [of i s] by (auto simp: pm split: if_splits)
  next
    case Main_Cleanup
    then show ?thesis using r assms(1,2) app_step.main_cleanup [of i s] by (auto simp: pm)
  next
    case (Main_Return v)
    then show ?thesis using q assms(1) by (simp add: pm)
  qed
qed

lemma app_plays_run:
  assumes "app_run s" "app_plays xs s = Some s'"
  shows "app_run s'"
  using assms
proof (induction xs s rule: app_plays.induct)
  case (2 i line xs s)
  then obtain s1 where s1: "app_play i line s = Some s1" "app_plays xs s1 = Some s'" "i < NUM_THREADS" "readable line" "\<not> returned s"
    by (auto simp: bind_eq_Some_conv split: if_splits)
  have "coherent_state s" using app_run_inv [OF 2(2)] by (simp add: app_inv_def)
  then have "app_step i s s1" using app_play_step s1 by blast
  moreover have "\<forall>r. app_pcs s ! MAIN \<noteq> Main_Return r" using s1(5) by (auto simp: returned_def)
  ultimately show ?case using 2 s1 app_run.step by blast
qed simp

definition app_ready :: app_state_t where
  "app_ready = app_start (replicate 64 None)"

lemma app_ready_plays:
  assumes "case app_plays xs app_ready of None \<Rightarrow> False | Some s \<Rightarrow> P s"
  obtains s where "app_run s" "P s"
proof -
  have "app_run app_ready" unfolding app_ready_def by (rule app_run.start) (simp add: QUEUE_CAPACITY_def)
  then show thesis using assms that app_plays_run by (auto split: option.splits)
qed

text \<open>A whole shift with one job: the threads are created, the line 1 is read and pushed, the worker 0 does the job, the user
  quits, and everything ends.\<close>

definition shift :: "(nat \<times> string option) list" where
  "shift = turns 17 MAIN @ [(INPUT, Some ''1'')] @ turns 7 INPUT @ turns 10 0 @ [(INPUT, Some ''q'')] @ turns 32 MAIN
     @ concat (map (turns 6) [0 ..< NUM_WORKERS]) @ turns 7 MAIN @ turns 1 DISPLAY @ turns 11 MAIN"

end
