(* ===== verification/Producer_Props.thy ===== *)
theory Producer_Props
  imports Producer_Runs
begin

text \<open>
  What the program of \<open>src/test_apps/user_producer.c\<close> promises: every job has one owner, a shutdown loses
  nothing, and the threads do not deadlock.
\<close>

section \<open>What the counts say\<close>

lemma all_pills_taken:
  assumes "map Some js @ replicate n None = xs @ (ys :: item list)" "pills_in xs = n" "0 < n"
  shows "ys = []"
proof (rule ccontr)
  assume ys: "ys \<noteq> []"
  have "pills_in (map Some js @ replicate n None) = n"
    by (induction n) (auto simp: pills_in_def count_list_append count_list_0_iff)
  then have "pills_in ys = 0" using assms(1,2) by simp
  moreover have "last ys = None" using arg_cong [OF assms(1), of last] ys assms(3) by (simp add: last_append)
  ultimately show False using last_in_set [OF ys] by (simp add: pills_in_def count_list_0_iff)
qed

lemma app_history:
  assumes "app_inv s"
  shows "stored s = taken s @ queue_list (sys_q (app_sys s))" "tsq_inv NUM_THREADS 64 (app_sys s)"
proof -
  show i: "tsq_inv NUM_THREADS 64 (app_sys s)"
    using assms by (simp add: app_inv_def coherent_state_def reachable_inv)
  then show "stored s = taken s @ queue_list (sys_q (app_sys s))"
    by (simp add: tsq_inv_def history_ok_def stored_def taken_def)
qed

lemma tally_single:
  assumes "i < NUM_THREADS" "\<And>j. j < NUM_THREADS \<Longrightarrow> j \<noteq> i \<Longrightarrow> f (app_pcs s ! j) (tpc_of s j) = 0"
  shows "tally f s = f (app_pcs s ! i) (tpc_of s i)"
  unfolding tally_def using assms by (subst sum.remove [of _ i]) (auto intro!: sum.neutral)

lemma pills_stored:
  assumes "app_inv s" "\<not> app_failed s"
  shows "pills_in (stored s) = sent (app_pcs s ! MAIN) (tpc_of s MAIN)"
proof -
  have co: "coherent_state s" using assms(1) by (simp add: app_inv_def)
  have "sent (app_pcs s ! j) q = 0" if "j < NUM_THREADS" "j \<noteq> MAIN" for j q
    using coherent_stateD(1) [OF co that(1)] that
    by (cases "app_pcs s ! j") (auto simp: role_def thread_defs display_pc_def split: if_splits)
  then have "tally sent s = sent (app_pcs s ! MAIN) (tpc_of s MAIN)" by (intro tally_single) (simp_all add: thread_defs)
  then show ?thesis using assms by (simp add: app_inv_def counts_ok_def)
qed

lemma all_dismissed:
  assumes "app_inv s" "\<not> app_failed s" "\<forall>k < NUM_WORKERS. app_pcs s ! k = Work_Exit"
  shows "NUM_WORKERS \<le> pills_in (taken s)" 
proof -
  have "dismissed (app_pcs s ! k) (tpc_of s k) = 1" if "k < NUM_WORKERS" for k
    using assms that by (simp add: app_inv_def counts_ok_def dismissed_def)
  then have "NUM_WORKERS = (\<Sum>k < NUM_WORKERS. dismissed (app_pcs s ! k) (tpc_of s k))" by simp
  also have "\<dots> \<le> tally dismissed s" unfolding tally_def by (rule sum_mono2) (auto simp: thread_defs)
  finally show ?thesis using assms(1) by (simp add: app_inv_def counts_ok_def)
qed

lemma pills_bounds:
  assumes "app_inv s"
  shows "pills_in (taken s) \<le> pills_in (stored s)"
  using app_history(1) [OF assms] by simp

section \<open>After a shutdown\<close>

definition all_left :: "app_state_t \<Rightarrow> bool" where
  "all_left s \<longleftrightarrow> (\<forall>k < NUM_WORKERS. app_pcs s ! k = Work_Exit) \<and> app_pcs s ! INPUT = In_Exit \<and> app_pcs s ! DISPLAY = Show_Exit
     \<and> app_pcs s ! MAIN = Main_Return 0"

lemma returned_left:
  assumes "app_inv s" "app_pcs s ! MAIN = Main_Return 0"
  shows "all_left s"
proof -
  have "stage_ok s" using assms by (simp add: app_inv_def staged_def)
  then show ?thesis unfolding stage_ok_def all_left_def Let_def assms(2) by (simp add: NUM_WORKERS_def)
qed

lemma left_pcs:
  assumes "all_left s" "j < NUM_THREADS"
  obtains "app_pcs s ! j = Work_Exit" "j < NUM_WORKERS" | "app_pcs s ! j = In_Exit" | "app_pcs s ! j = Show_Exit"
    | "app_pcs s ! j = Main_Return 0"
proof -
  have "j < NUM_WORKERS \<or> j = INPUT \<or> j = DISPLAY \<or> j = MAIN" using assms(2) by (auto simp: thread_defs)
  then show thesis using assms(1) that by (auto simp: all_left_def)
qed

lemma left_tallies:
  assumes "app_inv s" "all_left s" "\<not> app_failed s"
  shows "tally busy s = 0" "tally pending s = 0" "tally held s = {#}"
proof -
  have co: "coherent_state s" and cn: "counts_ok s" using assms(1) by (simp_all add: app_inv_def)
  have "busy (app_pcs s ! j) (tpc_of s j) = 0" if "j < NUM_THREADS" for j
    using assms(2) that
  proof (cases rule: left_pcs)
    case 1
    then show ?thesis using counts_exits [OF cn 1(2,1) assms(3)] by simp
  qed (use coherent_stateD(2) [OF co that] in simp_all)
  then show "tally busy s = 0" by (simp add: tally_def)
  have "pending (app_pcs s ! j) (tpc_of s j) = 0 \<and> held (app_pcs s ! j) (tpc_of s j) = {#}" if "j < NUM_THREADS" for j
    using assms(2) that by (cases rule: left_pcs) simp_all
  then show "tally pending s = 0" "tally held s = {#}" by (simp_all add: tally_def)
qed

lemma left_queue:
  assumes "app_inv s" "all_left s" "\<not> app_failed s"
  shows "queue_list (sys_q (app_sys s)) = []" "taken s = stored s"
proof -
  note h = app_history(1) [OF assms(1)]
  have p5: "pills_in (stored s) = NUM_WORKERS"
    using pills_stored [OF assms(1,3)] assms(2) by (simp add: all_left_def)
  have "pills_in (taken s) = NUM_WORKERS"
    using all_dismissed [OF assms(1,3)] pills_bounds [OF assms(1)] p5 assms(2) by (simp add: all_left_def)
  moreover obtain js where "stored s = map Some js @ replicate NUM_WORKERS None"
    using assms(1) p5 by (auto simp: app_inv_def counts_ok_def)
  ultimately show "queue_list (sys_q (app_sys s)) = []"
    using all_pills_taken [of js NUM_WORKERS "taken s"] h by (simp add: NUM_WORKERS_def)
  then show "taken s = stored s" using h by simp
qed

section \<open>No deadlock\<close>

text \<open>When nothing that is awake can step, every thread that has begun and not ended sleeps in a call of the queue or waits in
  a join.\<close>

definition stuck :: "app_state_t \<Rightarrow> bool" where
  "stuck s \<longleftrightarrow> (\<forall>i < NUM_THREADS. asleep (tpc_of s i) \<or> (\<forall>s'. \<not> app_step i s s'))"

lemma stuck_calls:
  assumes "app_inv s" "stuck s" "i < NUM_THREADS"
  shows "at_end (tpc_of s i) \<or> asleep (tpc_of s i)"
proof (rule ccontr)
  assume "\<not> ?thesis"
  then have "runs (sys_pcs (app_sys s) ! i)" by (simp add: runs_def tpc_of_def)
  then obtain j s1 where j: "j < NUM_THREADS" "runs (tpc_of s j)" "tsq_step j (tpc_of s j) (app_sys s) s1"
    using runner_steps [OF app_history(2) [OF assms(1)] assms(3)] by (auto simp: tpc_of_def)
  have "\<exists>s'. app_step j s s'"
  proof (cases "\<exists>r c. tpc_of s j = Count_Read \<and> app_pcs s ! j = Render_Snap r c")
    case True
    then show ?thesis using j app_step.snap by metis
  next
    case False
    then show ?thesis using j app_step.queue [OF j(1) _ _ j(3)] by (auto simp: runs_def)
  qed
  then show False using assms(2) j(1,2) by (auto simp: stuck_def runs_def)
qed

lemma stuckD:
  assumes "app_inv s" "stuck s" "i < NUM_THREADS" "at_end (tpc_of s i)"
  shows "\<not> app_step i s s'"
  using assms by (cases "tpc_of s i") (auto simp: stuck_def asleep_def)

lemma stuck_display:
  assumes "app_inv s" "stuck s"
  shows "app_display_mutex s = None"
proof (rule ccontr)
  assume "app_display_mutex s \<noteq> None"
  then obtain i where i: "i < NUM_THREADS" "holds_display (app_pcs s ! i)" using assms(1) by (auto simp: app_inv_def display_ok_def)
  have co: "coherent_state s" using assms(1) by (simp add: app_inv_def)
  note d = coherent_stateD [OF co i(1)]
  have nd: "at_end (tpc_of s i)"
    using stuck_calls [OF assms i(1)] d(2) i(2) by (cases "app_pcs s ! i"; cases "tpc_of s i"; simp add: asleep_def)
  note no = stuckD [OF assms i(1) nd]
  show False
  proof (cases "app_pcs s ! i")
    case Work_Count
    then have "i < NUM_WORKERS" using d(1) i(1) by (auto simp: role_def display_pc_def thread_defs split: if_splits)
    then show False using no app_step.work_count Work_Count by blast
  next
    case In_Count
    then have "i = INPUT" using d(1) i(1) by (auto simp: role_def display_pc_def thread_defs split: if_splits)
    then show False using no app_step.in_count In_Count by blast
  next
    case (Render_Count r)
    then obtain c where "tpc_of s i = Count_Done c" using d(2) nd by (cases "tpc_of s i") auto
    then show False using no app_step.render_count i(1) Render_Count by blast
  next
    case (Render_Snap r c)
    then show False using d(2) nd by auto
  next
    case (Render_Print r c q)
    then obtain c' where "tpc_of s i = Count_Done c'" using d(2) nd by (cases "tpc_of s i") auto
    then show False using no app_step.render_print i(1) Render_Print by blast
  qed (use i(2) in simp_all)
qed

lemma stuck_rendering:
  assumes "app_inv s" "stuck s" "i < NUM_THREADS"
  shows "render_pc (app_pcs s ! i) = None"
proof (rule ccontr)
  have co: "coherent_state s" using assms(1) by (simp add: app_inv_def)
  have dm: "app_display_mutex s = None" by (rule stuck_display [OF assms(1,2)])
  have nh: "\<not> holds_display (app_pcs s ! i)" using assms(1,3) dm by (auto simp: app_inv_def display_ok_def)
  assume "render_pc (app_pcs s ! i) \<noteq> None"
  then obtain r where r: "app_pcs s ! i = Render_Lock r" using nh by (cases "app_pcs s ! i") auto
  then have "at_end (tpc_of s i)" using coherent_stateD(2) [OF co assms(3)] by simp
  then show False using stuckD [OF assms] app_step.render_lock [OF assms(3) r dm] by blast
qed

lemma stuck_worker:
  assumes "app_inv s" "stuck s" "k < NUM_WORKERS" "app_pcs s ! k \<noteq> Unborn"
  shows "app_pcs s ! k = Work_Exit \<or> tpc_of s k = Pop_Wait"
proof -
  have k: "k < NUM_THREADS" using assms(3) by (simp add: thread_defs)
  have co: "coherent_state s" using assms(1) by (simp add: app_inv_def)
  note d = coherent_stateD [OF co k] and no = stuckD [OF assms(1,2) k] and dm = stuck_display [OF assms(1,2)]
  have "worker_pc (app_pcs s ! k)" using d(1) assms(3) by (simp add: role_def)
  then show ?thesis
  proof (cases "app_pcs s ! k")
    case Work_Popping
    then have "tpc_of s k = Pop_Wait \<or> (\<exists>info data. tpc_of s k = Pop_Done info data)"
      using d(2) stuck_calls [OF assms(1,2) k] by (cases "tpc_of s k") (auto simp: asleep_def)
    then show ?thesis using no app_step.work_take [OF assms(3) Work_Popping] by auto
  qed (use assms(4) d(2) no dm app_step.work_pop [OF assms(3), of s] app_step.work_sleep [OF assms(3), of s]
      app_step.work_lock [OF assms(3), of s] app_step.work_count [OF assms(3), of s] in auto)
qed

lemma stuck_input:
  assumes "app_inv s" "stuck s" "app_pcs s ! INPUT \<noteq> Unborn"
  shows "app_pcs s ! INPUT = In_Exit \<or> (\<exists>v. tpc_of s INPUT = Push_Wait v)"
proof -
  have k: "INPUT < NUM_THREADS" by (simp add: thread_defs)
  have co: "coherent_state s" using assms(1) by (simp add: app_inv_def)
  note d = coherent_stateD [OF co k] and no = stuckD [OF assms(1,2) k] and dm = stuck_display [OF assms(1,2)]
  have "input_pc (app_pcs s ! INPUT)" using d(1) by (simp add: role_def thread_defs)
  then show ?thesis
  proof (cases "app_pcs s ! INPUT")
    case In_Pushing
    then have "(\<exists>v. tpc_of s INPUT = Push_Wait v) \<or> (\<exists>info. tpc_of s INPUT = Push_Done info)"
      using d(2) stuck_calls [OF assms(1,2) k] by (cases "tpc_of s INPUT") (auto simp: asleep_def)
    then show ?thesis using no app_step.in_pushed [OF refl In_Pushing] by auto
  qed (use assms(3) d(2) no dm app_step.in_read [of INPUT s None] app_step.in_lock [of INPUT s] app_step.in_count [of INPUT s] in auto)
qed

lemma stuck_shower:
  assumes "app_inv s" "stuck s" "app_pcs s ! DISPLAY \<noteq> Unborn"
  shows "app_pcs s ! DISPLAY = Show_Exit"
proof -
  have k: "DISPLAY < NUM_THREADS" by (simp add: thread_defs)
  have co: "coherent_state s" using assms(1) by (simp add: app_inv_def)
  note d = coherent_stateD [OF co k] and no = stuckD [OF assms(1,2) k]
  have "display_pc (app_pcs s ! DISPLAY)" using d(1) by (simp add: role_def thread_defs)
  then have "app_pcs s ! DISPLAY = Show_Exit \<or> app_pcs s ! DISPLAY = Show_Test"
    using stuck_rendering [OF assms(1,2) k] assms(3) by (auto simp: display_pc_def)
  then show ?thesis using d(2) no app_step.show_test [of DISPLAY s] by auto
qed

text \<open>What the main thread may wait for.\<close>

fun waits_for :: "app_state_t \<Rightarrow> app_pc \<Rightarrow> bool" where
  "waits_for s Main_Join_Input = (app_pcs s ! INPUT \<notin> {Unborn, In_Exit})"
| "waits_for s (Main_Pushing k) = (\<exists>v. tpc_of s MAIN = Push_Wait v)"
| "waits_for s (Main_Join k) = (k < NUM_WORKERS \<and> app_pcs s ! k \<noteq> Work_Exit)"
| "waits_for s Main_Join_Display = (app_pcs s ! DISPLAY \<notin> {Unborn, Show_Exit})"
| "waits_for s (Main_Return r) = True"
| "waits_for s _ = False"

lemma stuck_main:
  assumes "app_inv s" "stuck s"
  shows "waits_for s (app_pcs s ! MAIN)"
proof -
  have k: "MAIN < NUM_THREADS" by (simp add: thread_defs)
  have co: "coherent_state s" using assms(1) by (simp add: app_inv_def)
  note d = coherent_stateD [OF co k] and no = stuckD [OF assms k]
  have mp: "main_pc (app_pcs s ! MAIN)" using d(1) by (simp add: role_def thread_defs)
  note rn = stuck_rendering [OF assms k]
  note steps = app_step.main_create [of MAIN s] app_step.main_create_display [of MAIN s] app_step.main_create_input [of MAIN s]
    app_step.main_join_input [of MAIN s] app_step.main_pill [of MAIN s] app_step.main_join [of MAIN s] app_step.main_joined [of MAIN s]
    app_step.main_stop [of MAIN s] app_step.main_join_display [of MAIN s] app_step.main_join_unborn [of MAIN s]
    app_step.main_cleanup [of MAIN s]
  show ?thesis
  proof (cases "app_pcs s ! MAIN")
    case (Main_Pushing j)
    then have "(\<exists>v. tpc_of s MAIN = Push_Wait v) \<or> (\<exists>info. tpc_of s MAIN = Push_Done info)"
      using d(2) stuck_calls [OF assms k] by (cases "tpc_of s MAIN") (auto simp: asleep_def)
    then show ?thesis using no app_step.main_pushed [OF refl Main_Pushing] Main_Pushing by auto
  next
    case (Main_Join j)
    then show ?thesis using no steps(6,7) [of j] d(2) by (cases "j < NUM_WORKERS") auto
  qed (use mp rn d(2) no steps in auto)
qed

text \<open>Only workers take anything, so a worker that sleeps in its pop leaves a pill untaken.\<close>

lemma in_hand_worker:
  assumes "in_call pc q" "in_hand q \<noteq> None"
  shows "worker_pc pc"
  using assms by (cases pc; cases q; auto)

lemma dismissed_less:
  assumes "app_inv s" "k < NUM_WORKERS" "in_hand (tpc_of s k) = None"
  shows "pills_in (taken s) < NUM_WORKERS"
proof -
  have co: "coherent_state s" using assms(1) by (simp add: app_inv_def)
  have "dismissed (app_pcs s ! i) (tpc_of s i) \<le> of_bool (i < NUM_WORKERS \<and> i \<noteq> k)" if "i < NUM_THREADS" for i
  proof -
    note d = coherent_stateD(1,2) [OF co that]
    have "in_hand (tpc_of s i) = None" if "\<not> i < NUM_WORKERS"
    proof (rule ccontr)
      assume h: "in_hand (tpc_of s i) \<noteq> None"
      then show False using in_hand_worker [OF d(2) h] d that by (cases "app_pcs s ! i") (auto simp: role_def display_pc_def split: if_splits)
    qed
    then show ?thesis using assms(3) by (cases "i < NUM_WORKERS") (auto simp: dismissed_def)
  qed
  then have "tally dismissed s \<le> (\<Sum>i < NUM_THREADS. of_bool (i < NUM_WORKERS \<and> i \<noteq> k))"
    unfolding tally_def by (intro sum_mono) simp
  also have "\<dots> = card ({..< NUM_WORKERS} - {k})"
    by (subst sum_of_bool_eq) (auto simp: thread_defs intro!: arg_cong [of _ _ card])
  also have "\<dots> < NUM_WORKERS" using assms(2) by (simp add: thread_defs)
  finally show ?thesis using assms(1) by (simp add: app_inv_def counts_ok_def)
qed

section \<open>What the program promises\<close>

text \<open>C14. Every state of every run is well formed: each thread is at a program point of its own function, and in the call of the
  queue that this point has made; the queue, of 64 slots and eight threads, sees only calls that begin after the one before has
  returned, so all that \<open>Ts_Queue\<close> shows holds of it; and at most one thread holds the display mutex.\<close>

lemma producer_well_formed:
  assumes "app_run s"
  shows "(\<forall>i < NUM_THREADS. role i (app_pcs s ! i) \<and> in_call (app_pcs s ! i) (tpc_of s i))
    \<and> tsq_reachable NUM_THREADS 64 (app_sys s)
    \<and> (\<forall>i < NUM_THREADS. \<forall>j < NUM_THREADS. holds_display (app_pcs s ! i) \<longrightarrow> holds_display (app_pcs s ! j) \<longrightarrow> i = j)"
proof -
  have inv: "app_inv s" by (rule app_run_inv [OF assms])
  then have co: "coherent_state s" and di: "display_ok s" by (simp_all add: app_inv_def)
  have "0 < NUM_THREADS" by (simp add: NUM_THREADS_def)
  then show ?thesis using coherent_stateD(1,2,7) [OF co] di by (auto simp: display_ok_def)
qed

text \<open>C13. No job is used after it is freed and none is freed twice: at every moment of every run each allocated job has at
  most one owner, the queue, the worker that took it or the input thread that is pushing it, what has an owner is allocated, and as
  long as no call has failed every allocated job has one, so that none leaks.\<close>

lemma producer_jobs_owned:
  assumes "app_run s"
  shows "\<not> app_fault s \<and> (\<forall>p. owners s p \<le> of_bool (app_jobs s p \<noteq> None))
    \<and> (\<not> leaking s \<longrightarrow> (\<forall>p. owners s p = of_bool (app_jobs s p \<noteq> None)))"
  using app_run_inv [OF assms] unfolding app_inv_def mem_ok_def by blast

text \<open>C11. A shutdown loses nothing: when \<open>main\<close> has returned 0 and no call has failed, the queue is empty and
  everything stored was taken in its order, the jobs completed are those submitted, no job is
  allocated, every thread has left its function, nobody holds the display mutex, and no handle was used
  before it was set.\<close>

lemma producer_shutdown:
  assumes "app_run s" "app_pcs s ! MAIN = Main_Return 0" "\<not> app_failed s"
  shows "queue_list (sys_q (app_sys s)) = [] \<and> taken s = stored s \<and> app_completed s = app_submitted s
    \<and> of_nat (jobs_in (stored s)) = app_completed s \<and> app_jobs s = Map.empty
    \<and> (\<forall>k < NUM_WORKERS. app_pcs s ! k = Work_Exit) \<and> app_pcs s ! INPUT = In_Exit \<and> app_pcs s ! DISPLAY = Show_Exit
    \<and> app_display_mutex s = None \<and> \<not> app_undefined s"
proof -
  have inv: "app_inv s" by (rule app_run_inv [OF assms(1)])
  then have cn: "counts_ok s" and me: "mem_ok s" and di: "display_ok s" by (simp_all add: app_inv_def)
  have lf: "all_left s" by (rule returned_left [OF inv assms(2)])
  note z = left_tallies [OF inv lf assms(3)] and q = left_queue [OF inv lf assms(3)]
  have "app_completed s = of_nat (jobs_in (stored s))" "app_submitted s = of_nat (jobs_in (stored s))"
    using cn assms(3) z(1,2) q(2) by (simp_all add: counts_ok_def)
  moreover have "\<not> leaking s" using assms(3) lf by (simp add: leaking_def all_left_def)
  then have "app_jobs s p = None" for p
    using me unfolding mem_ok_def owners_def z(3) q(1) by (metis add_0 count_empty count_list.simps(1) of_bool_eq_0_iff)
  then have "app_jobs s = Map.empty" by blast
  moreover have "app_display_mutex s = None"
  proof (rule ccontr)
    assume "app_display_mutex s \<noteq> None"
    then obtain j where j: "j < NUM_THREADS" "holds_display (app_pcs s ! j)" using di by (auto simp: display_ok_def)
    from lf j(1) show False by (cases rule: left_pcs) (use j(2) in simp_all)
  qed
  moreover have "\<not> app_undefined s" using di assms(3) by (auto simp: display_ok_def)
  ultimately show ?thesis using q lf by (simp add: all_left_def)
qed

text \<open>C12. The program does not deadlock: as long as \<open>main\<close> has not returned and no call has failed, some thread that
  is not asleep in the queue can take a step, so the workers, the input and the
  shutdown never wait for each other in a circle, even when the queue is full of jobs or the pills do not
  fit into it.\<close>

lemma producer_no_deadlock:
  assumes "app_run s" "\<forall>r. app_pcs s ! MAIN \<noteq> Main_Return r" "\<not> app_failed s"
  shows "\<exists>i < NUM_THREADS. \<exists>s'. \<not> asleep (tpc_of s i) \<and> app_step i s s'"
proof (rule ccontr)
  assume "\<not> ?thesis"
  then have st: "stuck s" by (auto simp: stuck_def)
  have inv: "app_inv s" by (rule app_run_inv [OF assms(1)])
  then have co: "coherent_state s" and so: "stage_ok s" and cn: "counts_ok s" using assms(2) by (auto simp: app_inv_def staged_def)
  have stay: "app_pcs s ! k = Work_Exit \<or> tpc_of s k = Pop_Wait" if "k < NUM_WORKERS" "8 \<le> stage (app_pcs s ! MAIN)" for k
  proof -
    have "app_pcs s ! k \<noteq> Unborn" using so that by (auto simp: stage_ok_def Let_def NUM_WORKERS_def)
    then show ?thesis by (rule stuck_worker [OF inv st that(1)])
  qed
  note idle = idle_waits [OF app_history(2) [OF inv]]
  have nr: "\<forall>i < NUM_THREADS. \<not> runs (sys_pcs (app_sys s) ! i)"
    using stuck_calls [OF inv st] by (auto simp: runs_def tpc_of_def)
  have full: "NUM_WORKERS \<le> pills_in (stored s)"
    if "tpc_of s i = Push_Wait v" "i < NUM_THREADS" "8 \<le> stage (app_pcs s ! MAIN)" for i v
  proof -
    have "q_count (sys_q (app_sys s)) = 64" using idle(2) [OF nr that(2)] that(1) by (simp add: tpc_of_def)
    then have "tpc_of s k \<noteq> Pop_Wait" if "k < NUM_WORKERS" for k
      using idle(1) [OF nr, of k] that by (auto simp: tpc_of_def thread_defs)
    then have "\<forall>k < NUM_WORKERS. app_pcs s ! k = Work_Exit" using stay that(3) by blast
    then show ?thesis using all_dismissed [OF inv assms(3)] pills_bounds [OF inv] by simp
  qed
  note wf = stuck_main [OF inv st] and sent = pills_stored [OF inv assms(3)]
  show False
  proof (cases "app_pcs s ! MAIN")
    case Main_Join_Input
    then have "app_pcs s ! INPUT \<noteq> Unborn" "app_pcs s ! INPUT \<noteq> In_Exit" using wf by auto
    then show ?thesis using stuck_input [OF inv st] full [of INPUT] sent Main_Join_Input by (auto simp: thread_defs)
  next
    case (Main_Pushing k)
    then have "k < NUM_WORKERS" using inv by (auto simp: app_inv_def staged_def)
    then show ?thesis using wf full [of MAIN] sent Main_Pushing by (auto simp: thread_defs)
  next
    case (Main_Join k)
    then have k: "k < NUM_WORKERS" "tpc_of s k = Pop_Wait" using wf stay [of k] by auto
    then have "q_count (sys_q (app_sys s)) = 0" using idle(1) [OF nr, of k] by (simp add: tpc_of_def thread_defs)
    then have "queue_list (sys_q (app_sys s)) = []" by (simp add: queue_list_def)
    then show ?thesis using dismissed_less [OF inv k(1)] k(2) app_history(1) [OF inv] sent Main_Join by simp
  next
    case (Main_Join_Display)
    then show ?thesis using stuck_shower [OF inv st] wf by auto
  qed (use assms(2) wf in auto)
qed

section \<open>Witnesses\<close>

lemma shift_done:
  "case app_plays shift app_ready of None \<Rightarrow> False
   | Some s \<Rightarrow> app_pcs s ! MAIN = Main_Return 0 \<and> \<not> app_failed s \<and> app_submitted s = 1"
  by code_simp

lemma job_stored:
  "case app_plays (take 22 shift) app_ready of None \<Rightarrow> False | Some s \<Rightarrow> app_jobs s 0 = Some 1 \<and> \<not> leaking s"
  by code_simp

lemma worker_sleeps:
  "case app_plays (turns 17 MAIN @ turns 3 0) app_ready of None \<Rightarrow> False
   | Some s \<Rightarrow> \<not> returned s \<and> \<not> app_failed s \<and> tpc_of s 0 = Pop_Wait"
  by code_simp

lemma producer_well_formed_witness:
  "\<exists>s. app_run s \<and> tpc_of s 0 = Pop_Wait \<and> app_pcs s ! 0 = Work_Popping \<and> tsq_reachable NUM_THREADS 64 (app_sys s)"
proof -
  obtain s where s: "app_run s" "\<not> returned s \<and> \<not> app_failed s \<and> tpc_of s 0 = Pop_Wait"
    by (rule app_ready_plays [OF worker_sleeps])
  have "0 < NUM_THREADS" by (simp add: NUM_THREADS_def)
  then have "in_call (app_pcs s ! 0) (tpc_of s 0)" "role 0 (app_pcs s ! 0)" "tsq_reachable NUM_THREADS 64 (app_sys s)"
    using producer_well_formed [OF s(1)] by blast+
  then show ?thesis using s by (cases "app_pcs s ! 0") (auto simp: role_def NUM_WORKERS_def)
qed

lemma producer_jobs_owned_witness: "\<exists>s. app_run s \<and> app_jobs s 0 = Some 1 \<and> owners s 0 = 1"
proof -
  obtain s where s: "app_run s" "app_jobs s 0 = Some 1 \<and> \<not> leaking s" by (rule app_ready_plays [OF job_stored])
  then show ?thesis using producer_jobs_owned [OF s(1)] by auto
qed

lemma producer_shutdown_witness: "\<exists>s. app_run s \<and> app_pcs s ! MAIN = Main_Return 0 \<and> app_completed s = 1 \<and> app_jobs s = Map.empty"
proof -
  obtain s where s: "app_run s" "app_pcs s ! MAIN = Main_Return 0 \<and> \<not> app_failed s \<and> app_submitted s = 1"
    by (rule app_ready_plays [OF shift_done])
  then show ?thesis using producer_shutdown [OF s(1)] by auto
qed

lemma producer_no_deadlock_witness:
  "\<exists>s. app_run s \<and> tpc_of s 0 = Pop_Wait \<and> (\<exists>i < NUM_THREADS. \<exists>s'. \<not> asleep (tpc_of s i) \<and> app_step i s s')"
proof -
  obtain s where s: "app_run s" "\<not> returned s \<and> \<not> app_failed s \<and> tpc_of s 0 = Pop_Wait"
    by (rule app_ready_plays [OF worker_sleeps])
  moreover have "\<forall>r. app_pcs s ! MAIN \<noteq> Main_Return r" using s(2) by (auto simp: returned_def)
  ultimately show ?thesis using producer_no_deadlock [OF s(1)] by blast
qed

end
