(* ===== verification/Spec2Isabelle.thy ===== *)
theory Spec2Isabelle
  imports Info Fixed16 Fixed_Sqrt Fixed32 Fixed_Float Trig_Tables Fixed_Trig Rng_Pcg32 Rng_Bounded Rng_Shuffle Buffers Bytes Sha256 Hmac
    Time_Loop Arena Alloc Config Config_Numbers Config_Store Config_Format Config_Meaning Config_Parse
    Netsim_Memory Network Network_Windows Transport Ts_Queue Threading Log Log_Threads
    Producer_Screen Producer Producer_Calls Producer_Coherence Producer_Books Producer_Counts Producer_Invariant
    Producer_Runs Producer_Props
begin

text \<open>
  A verification development for cbase, a C library of building blocks for simulations and servers: status
  codes, fixed-point arithmetic, random numbers, byte buffers, SHA-256 and HMAC, clocks and a fixed-step
  loop, an arena allocator, configuration files, sockets, a network simulator, a transport that hides
  which of the two is used, threads with a thread-safe queue, and a logger.  The library is one
  translation unit (\<open>src/cbase_union.c\<close>) with one header (\<open>src/cbase.h\<close>).  The program
  \<open>src/test_apps/user_producer.c\<close> uses its threads and its queue, and is part of the development.

  \<^bold>\<open>How the parts interact.\<close>  Every function reports through \<open>cb_info_t\<close>.  All allocating modules
  (configuration, simulator, threads, queue) call \<open>cb__alloc\<close> and \<open>cb__free\<close>, which go to an arena if
  the caller has one and to \<open>malloc\<close> and \<open>free\<close> otherwise.  The simulator draws from the random numbers,
  schedules with the clock of the tick loop and owns the datagrams in flight; the transport sends
  through the simulator or a UDP socket.  The random numbers use fixed point for probabilities; the
  logger uses the mutexes and the clock.  In the program, eight threads share one queue and one mutex for the
  display: an input thread pushes jobs, five workers pop them, the main thread pushes a null pointer for
  each worker when the input has ended and joins them, and a display thread draws the state.

  \<^bold>\<open>Conventions\<close> (\<open>Prelude\<close>).  An \<open>n\<close>-bit C integer is an \<open>n word\<close> and every operation has its C width, so
  wrap-around is in the definitions; signed readings and C's division are written out, \<open>size_t\<close> has 64
  bits.  A caller's buffer is the list of its bytes, a C string the list of its characters, a linked list
  the list of its nodes from the head.  A status is a value of \<open>cb_info_t\<close>, and \<open>None\<close> is a use of
  memory that C leaves undefined.  What the operating system answers is an argument: a function of a
  record, an outcome, or a step that may happen.  Loops are recursive functions with a proof of
  termination, none has fuel that could run out short of the code: the digit loops of \<open>Log\<close> run over
  the 24 characters of their array, as in C, and a 64-bit number has at most 20 digits.

  \<^bold>\<open>Theories and sources.\<close>
   \<^item> \<open>Info\<close>: \<open>cb_info_t\<close> with its numbers (\<open>cbase.h\<close>) and the assertion of \<open>cbase_union.c\<close>.
   \<^item> \<open>Fixed16\<close>, \<open>Fixed_Sqrt\<close>, \<open>Fixed32\<close>, \<open>Fixed_Float\<close>, \<open>Trig_Tables\<close>, \<open>Fixed_Trig\<close>: \<open>cbase_fixed.c\<close>, Q16.16 and Q32.32 in
     both builds: exact saturated arithmetic, square roots equal to the integer square root, where the
     builds agree and where they round differently, the conversions from and to floating point, sine,
     cosine and arc tangent by their tables.
   \<^item> \<open>Rng_Pcg32\<close>, \<open>Rng_Bounded\<close>, \<open>Rng_Shuffle\<close>: \<open>cbase_random.c\<close>: the full period of the generator, the
     bounded draw (its loop returns for every state, and is unbiased), the shuffle as Fisher-Yates.
   \<^item> \<open>Buffers\<close>, \<open>Bytes\<close>: \<open>cbase_bytes.c\<close>: round trips of messages and frames, errors that change nothing.
   \<^item> \<open>Sha256\<close>, \<open>Hmac\<close>: \<open>cbase_hash.c\<close>: the streaming code against FIPS 180-4 and RFC 2104, in any chunks.
   \<^item> \<open>Time_Loop\<close>: \<open>cbase_time.c\<close>: both clocks, the sleep that resumes, the fixed-step loop.
   \<^item> \<open>Arena\<close>, \<open>Alloc\<close>: \<open>cbase_arena.c\<close>: disjoint grants, guards, what destroying frees; the locale
     \<open>allocator\<close> is the contract of \<open>cb__alloc\<close> and \<open>cb__free\<close>, interpreted on the heap.
   \<^item> \<open>Config\<close>, \<open>Config_Numbers\<close>, \<open>Config_Store\<close>, \<open>Config_Format\<close>, \<open>Config_Meaning\<close>, \<open>Config_Parse\<close>: \<open>cbase_config.c\<close>:
     \<open>Config_Format\<close> is the documented grammar of a text as inductive relations, without the definitions of the
     parser, and \<open>Config_Meaning\<close> shows that each text has one meaning, the one that the code's helpers compute;
     then the parser against that meaning, the round trip of writing, exact integers, and that every exit
     frees what it allocated and closes the file that it opened.
   \<^item> \<open>Netsim\<close> (definitions), \<open>Netsim_Laws\<close> (the simple laws of its parts), \<open>Netsim_Send\<close> (what a send does),
     \<open>Netsim_Invariant\<close>, \<open>Netsim_Props\<close>, \<open>Netsim_Memory\<close>: \<open>cbase_netsim.c\<close>: the sorted schedule, the bytes in flight
     and counters over any run, deliveries, termination of a send, ownership of the memory.
   \<^item> \<open>Network\<close>, \<open>Network_Windows\<close>: \<open>cbase_network.c\<close> in the POSIX and the Windows build: addresses, status mapping,
     no descriptor or socket is lost, and what the cast of a length to \<open>int\<close> does.
   \<^item> \<open>Transport\<close>: \<open>cbase_transport.c\<close>: dispatch and adapters; the locale \<open>datagram_link\<close> is what a client of
     a lossless link relies on, interpreted on the simulator without impairments.
   \<^item> \<open>Ts_Queue\<close>: \<open>cb_tsqueue_push\<close>, \<open>cb_tsqueue_pop\<close>, \<open>cb_tsqueue_try_pop\<close> and \<open>cb_tsqueue_count\<close> of \<open>cbase_threading.c\<close> as
     a step relation over any number of threads: the queue is first-in first-out, and no wakeup is lost.
   \<^item> \<open>Threading\<close>: the rest of that file in both builds: threads, mutexes, condition variables, creating and
     destroying the queue.
   \<^item> \<open>Log\<close>, \<open>Log_Threads\<close>: \<open>cbase_log.c\<close>: the exact format of a line, and the writes of any interleaving,
     each against the configuration at the moment of its call.
   \<^item> \<open>test_apps/user_producer.c\<close>.  \<open>Producer_Screen\<close>: what it draws.  \<open>Producer\<close>: its state and its threads as a step
     relation on top of that of \<open>Ts_Queue\<close>; the function of a thread is a sequence of program points, and a call of
     the queue is under way while the thread is inside \<open>tsq_step\<close>.  \<open>Producer_Calls\<close>: what a step of the queue means
     for its caller.  \<open>Producer_Coherence\<close>, \<open>Producer_Books\<close>, \<open>Producer_Counts\<close>, \<open>Producer_Invariant\<close>: the
     invariant, in four parts: the program points of all threads fit together; each allocated job has one owner; the
     counters and the null pointers agree with the history of the queue; the display mutex.  \<open>Producer_Runs\<close>: runs that
     can be computed.  \<open>Producer_Props\<close>: no use after free, a shutdown loses no job, no deadlock.

  \<^bold>\<open>Bounds.\<close>  The statistics of the simulator (\<open>stat_enqueued\<close> and the others) are 32 bits wide and wrap, so
  their balance is an equation modulo 2 ^ 32.  The bytes in flight of an endpoint are 64 bits wide; that they
  are exact is stated for runs of fewer than 2 ^ 40 operations, some days of a million operations a second,
  within which no sum of the lengths of two datagrams per operation can wrap.  The grants of an arena are stated for
  requests of at most 2 ^ 60 bytes with an alignment that is 0 or a power of two up to 2 ^ 60, and a first
  block of fewer than 2 ^ 64 - 64 bytes, which is more than a machine can address; what happens beyond is
  proved too (\<open>arena_alloc_size_wraps\<close>).  The other
  properties are for every input of the C types, but for the conditions that they state.

  \<^bold>\<open>Not modelled.\<close>  The clearing of local variables on the stack; the formatting inside
  \<open>vsnprintf\<close>.  The contents of memory blocks of an arena beyond their guards belong to the callers.  In the program,
  a failure of the display mutex, the messages to \<open>stderr\<close> when a queue or a worker cannot be created, and how
  long it sleeps between two frames, and the destruction of the queue and of the display mutex just before \<open>main\<close>
  returns (\<open>Threading\<close> models these functions); the display reads the counts of a worker at one moment, where C reads them one by
  one without a lock.
\<close>

end
